(* ===== verification/Prelude.thy ===== *)
theory Prelude
  imports "HOL-Library.Word"
begin

text \<open>
  What every component of the development shares: the integer types of
  \<^verbatim>\<open>compiler-rt/lib/builtins/int_types.h\<close> as machine words, the union of a wide
  integer with its two halves (\<open>dwords\<close>, \<open>udwords\<close>, \<open>twords\<close>, \<open>utwords\<close>), and the
  generic lemmas on words that the component proofs are built from.

  A signed and an unsigned C integer of one width are the same Isabelle word; the
  operation says how it is read.  \<open><\<close>, \<open>div\<close>, \<open>drop_bit\<close> read it as unsigned,
  \<open><s\<close>, \<open>sint\<close>, \<open>signed_drop_bit\<close> as two's complement.
\<close>

unbundle bit_operations_syntax

section \<open>Integer types\<close>

type_synonym su_int = "32 word"
type_synonym du_int = "64 word"
type_synonym tu_int = "128 word"
type_synonym uptr = "64 word"
type_synonym byte = "8 word"

text \<open>Facts that unfold the arithmetic of words to natural numbers.\<close>

named_theorems to_nat

declare unat_word_ariths [to_nat] unat_drop_bit_eq [to_nat]

lemma unat_less: "unat w < 2 ^ LENGTH('a)" for w :: "'a::len word"
  by simp

text \<open>The signed reading of a word in terms of the unsigned one.\<close>

lemma sint_uint_bit:
  "sint w = uint w - 2 ^ LENGTH('a) * of_bool (bit w (LENGTH('a) - Suc 0))" for w :: "'a::len word"
  by (simp add: sint_uint signed_take_bit_eq_take_bit_minus bit_uint_iff take_bit_int_eq_self)

lemma sint_eq_iff: "sint v = sint w \<longleftrightarrow> v = w" for w :: "'a::len word"
  by (metis signed_word_eqI)

lemma uint_eq_iff: "uint v = uint w \<longleftrightarrow> v = w" for w :: "'a::len word"
  by (metis unsigned_word_eqI)

lemma sint_less_le: "sint v < sint w \<longleftrightarrow> sint v \<le> sint w \<and> v \<noteq> w" for w :: "'a::len word"
  by (metis sint_eq_iff order_less_le)

text \<open>Testing a single bit of a small count.\<close>

lemma and_top_bit:
  "b AND 2 ^ m \<noteq> 0 \<longleftrightarrow> 2 ^ m \<le> unat b" if "unat b < 2 ^ Suc m" for b :: "'a::len word"
proof -
  have "b AND 2 ^ m \<noteq> 0 \<longleftrightarrow> bit b m"
    by (simp add: and_exp_eq_0_iff_not_bit)
  also have "\<dots> \<longleftrightarrow> bit (unat b) m"
    by (auto simp: bit_unsigned_iff dest: bit_imp_le_length)
  also have "\<dots> \<longleftrightarrow> odd (unat b div 2 ^ m)"
    by (simp add: bit_iff_odd)
  also have "\<dots> \<longleftrightarrow> 2 ^ m \<le> unat b"
  proof (cases "2 ^ m \<le> unat b")
    case True
    then have "unat b div 2 ^ m = 1"
      using that by (simp add: div_nat_eqI)
    with True show ?thesis by simp
  qed simp
  finally show ?thesis .
qed

text \<open>Shifts by one are doublings to the simplifier.\<close>

lemma bit_times_2: "bit (x * 2) n \<longleftrightarrow> n < LENGTH('a) \<and> 0 < n \<and> bit x (n - 1)" for x :: "'a::len word"
  by (auto simp: mult.commute [of x] bit_double_iff)

section \<open>A wide integer and its two halves\<close>

definition lo32 :: "du_int \<Rightarrow> su_int" where
  "lo32 x = ucast x"

definition hi32 :: "du_int \<Rightarrow> su_int" where
  "hi32 x = ucast (drop_bit 32 x)"

definition make_du :: "su_int \<Rightarrow> su_int \<Rightarrow> du_int" where
  "make_du h l = push_bit 32 (ucast h) OR ucast l"

definition lo64 :: "tu_int \<Rightarrow> du_int" where
  "lo64 x = ucast x"

definition hi64 :: "tu_int \<Rightarrow> du_int" where
  "hi64 x = ucast (drop_bit 64 x)"

definition make_tu :: "du_int \<Rightarrow> du_int \<Rightarrow> tu_int" where
  "make_tu h l = push_bit 64 (ucast h) OR ucast l"

text \<open>
  The contract of such a union: reading a half back gives what was stored, and the bits
  of the whole are the bits of the halves in order.  The two-word routines (shifts,
  comparisons, products) are proved once over it and used at both widths.
\<close>

locale word_halves =
  fixes lo :: "'w::len word \<Rightarrow> 'h::len word"
    and hi :: "'w::len word \<Rightarrow> 'h::len word"
    and mk :: "'h::len word \<Rightarrow> 'h::len word \<Rightarrow> 'w::len word"
  assumes width: "LENGTH('w) = 2 * LENGTH('h)"
    and bit_lo: "bit (lo x) i \<longleftrightarrow> i < LENGTH('h) \<and> bit x i"
    and bit_hi: "bit (hi x) i \<longleftrightarrow> bit x (LENGTH('h) + i)"
    and bit_mk: "bit (mk h l) i \<longleftrightarrow> (if i < LENGTH('h) then bit l i else bit h (i - LENGTH('h)))"
begin

lemma lo_mk [simp]: "lo (mk h l) = l"
  by (rule bit_word_eqI) (simp add: bit_lo bit_mk)

lemma hi_mk [simp]: "hi (mk h l) = h"
  by (rule bit_word_eqI) (simp add: bit_hi bit_mk)

lemma mk_hi_lo [simp]: "mk (hi x) (lo x) = x"
  by (rule bit_word_eqI) (auto simp: bit_hi bit_lo bit_mk)

text \<open>The same contract as arithmetic.\<close>

lemma unat_mk: "unat (mk h l) = unat h * 2 ^ LENGTH('h) + unat l"
proof -
  have "unat (mk h l) = push_bit LENGTH('h) (unat h) OR unat l"
    by (rule bit_eqI) (auto simp: bit_mk bit_simps width dest: bit_imp_le_length)
  also have "\<dots> = push_bit LENGTH('h) (unat h) + unat l"
    by (rule disjunctive_add_eq_or [symmetric], rule bit_eqI)
      (auto simp: bit_simps dest: bit_imp_le_length)
  finally show ?thesis by (simp add: push_bit_eq_mult)
qed

lemma unat_lo: "unat (lo x) = unat x mod 2 ^ LENGTH('h)"
  using unat_mk [of "hi x" "lo x"] unsigned_less [of "lo x"] by simp

lemma unat_hi: "unat (hi x) = unat x div 2 ^ LENGTH('h)"
  using unat_mk [of "hi x" "lo x"] unsigned_less [of "lo x"] by simp

lemma uint_halves: "uint x = uint (hi x) * 2 ^ LENGTH('h) + uint (lo x)"
proof -
  have "int (unat x) = int (unat (hi x) * 2 ^ LENGTH('h) + unat (lo x))"
    using unat_mk [of "hi x" "lo x"] by simp
  then show ?thesis by (simp only: uint_nat of_nat_add of_nat_mult of_nat_power of_nat_numeral)
qed

lemma sint_halves: "sint x = sint (hi x) * 2 ^ LENGTH('h) + uint (lo x)"
proof -
  have "LENGTH('h) + (LENGTH('h) - Suc 0) = LENGTH('w) - Suc 0"
    using len_gt_0 [where 'a='h] by (simp add: width)
  then have "bit (hi x) (LENGTH('h) - Suc 0) = bit x (LENGTH('w) - Suc 0)"
    by (simp add: bit_hi)
  moreover have "(2::int) ^ LENGTH('w) = 2 ^ LENGTH('h) * 2 ^ LENGTH('h)"
    by (simp add: width mult_2 power_add)
  ultimately show ?thesis
    unfolding sint_uint_bit uint_halves [of x] by (simp add: algebra_simps)
qed

lemma lex_less_iff:
  "H * 2 ^ LENGTH('h) + uint (lo x) < H' * 2 ^ LENGTH('h) + uint (lo y)
     \<longleftrightarrow> H < H' \<or> H = H' \<and> uint (lo x) < uint (lo y)"
proof -
  have less: "A * 2 ^ LENGTH('h) + uint (lo u) < B * 2 ^ LENGTH('h) + uint (lo v)" if "A < B" for A B u v
  proof -
    have "(A + 1) * 2 ^ LENGTH('h) \<le> B * 2 ^ LENGTH('h)"
      using that by (intro mult_right_mono) auto
    moreover have "uint (lo u) < 2 ^ LENGTH('h)" "0 \<le> uint (lo v)" by simp_all
    ultimately show ?thesis unfolding distrib_right by linarith
  qed
  show ?thesis
    using less [of H H' x y] less [of H' H y x] by (cases H H' rule: linorder_cases) auto
qed

lemma less_halves: "x < y \<longleftrightarrow> hi x < hi y \<or> hi x = hi y \<and> lo x < lo y"
  unfolding word_less_def uint_halves [of x] uint_halves [of y] lex_less_iff uint_eq_iff ..

lemma sless_halves: "x <s y \<longleftrightarrow> hi x <s hi y \<or> hi x = hi y \<and> lo x < lo y"
  unfolding word_sless_alt sint_halves [of x] sint_halves [of y] lex_less_iff sint_eq_iff word_less_def ..

lemma mk_eq_iff: "mk h l = mk h' l' \<longleftrightarrow> h = h' \<and> l = l'"
  by (metis hi_mk lo_mk)

end

interpretation dw: word_halves lo32 hi32 make_du
  by unfold_locales (auto simp: lo32_def hi32_def make_du_def bit_simps dest: bit_imp_le_length)

interpretation tw: word_halves lo64 hi64 make_tu
  by unfold_locales (auto simp: lo64_def hi64_def make_tu_def bit_simps dest: bit_imp_le_length)

end
