(* ===== verification/IntShift.thy ===== *)
theory IntShift
  imports Prelude
begin

text \<open>
  The two-word shifts and three-way comparisons of compiler-rt's builtins:
  \<^verbatim>\<open>ashldi3.c\<close>, \<^verbatim>\<open>lshrdi3.c\<close>, \<^verbatim>\<open>ashrdi3.c\<close>, \<^verbatim>\<open>cmpdi2.c\<close>, \<^verbatim>\<open>ucmpdi2.c\<close> and their
  128-bit siblings.  Each routine is translated at its own width; the proofs go through
  the contract \<open>word_halves\<close> of the union of a word with its halves.
\<close>

unbundle bit_operations_syntax

section \<open>Shifts\<close>

definition ashldi3 :: "du_int \<Rightarrow> su_int \<Rightarrow> du_int" where
  "ashldi3 a b =
     (let bits_in_word = 32 in
      if b AND bits_in_word \<noteq> 0 then
        make_du (push_bit (unat (b - bits_in_word)) (lo32 a)) 0
      else if b = 0 then a
      else make_du (push_bit (unat b) (hi32 a) OR drop_bit (unat (bits_in_word - b)) (lo32 a))
                   (push_bit (unat b) (lo32 a)))"

definition lshrdi3 :: "du_int \<Rightarrow> su_int \<Rightarrow> du_int" where
  "lshrdi3 a b =
     (let bits_in_word = 32 in
      if b AND bits_in_word \<noteq> 0 then
        make_du 0 (drop_bit (unat (b - bits_in_word)) (hi32 a))
      else if b = 0 then a
      else make_du (drop_bit (unat b) (hi32 a))
                   (push_bit (unat (bits_in_word - b)) (hi32 a) OR drop_bit (unat b) (lo32 a)))"

definition ashrdi3 :: "du_int \<Rightarrow> su_int \<Rightarrow> du_int" where
  "ashrdi3 a b =
     (let bits_in_word = 32 in
      if b AND bits_in_word \<noteq> 0 then
        make_du (signed_drop_bit (unat (bits_in_word - 1)) (hi32 a))
                (signed_drop_bit (unat (b - bits_in_word)) (hi32 a))
      else if b = 0 then a
      else make_du (signed_drop_bit (unat b) (hi32 a))
                   (push_bit (unat (bits_in_word - b)) (hi32 a) OR drop_bit (unat b) (lo32 a)))"

definition ashlti3 :: "tu_int \<Rightarrow> su_int \<Rightarrow> tu_int" where
  "ashlti3 a b =
     (let bits_in_dword = 64 in
      if b AND bits_in_dword \<noteq> 0 then
        make_tu (push_bit (unat (b - bits_in_dword)) (lo64 a)) 0
      else if b = 0 then a
      else make_tu (push_bit (unat b) (hi64 a) OR drop_bit (unat (bits_in_dword - b)) (lo64 a))
                   (push_bit (unat b) (lo64 a)))"

definition lshrti3 :: "tu_int \<Rightarrow> su_int \<Rightarrow> tu_int" where
  "lshrti3 a b =
     (let bits_in_dword = 64 in
      if b AND bits_in_dword \<noteq> 0 then
        make_tu 0 (drop_bit (unat (b - bits_in_dword)) (hi64 a))
      else if b = 0 then a
      else make_tu (drop_bit (unat b) (hi64 a))
                   (push_bit (unat (bits_in_dword - b)) (hi64 a) OR drop_bit (unat b) (lo64 a)))"

definition ashrti3 :: "tu_int \<Rightarrow> su_int \<Rightarrow> tu_int" where
  "ashrti3 a b =
     (let bits_in_dword = 64 in
      if b AND bits_in_dword \<noteq> 0 then
        make_tu (signed_drop_bit (unat (bits_in_dword - 1)) (hi64 a))
                (signed_drop_bit (unat (b - bits_in_dword)) (hi64 a))
      else if b = 0 then a
      else make_tu (signed_drop_bit (unat b) (hi64 a))
                   (push_bit (unat (bits_in_dword - b)) (hi64 a) OR drop_bit (unat b) (lo64 a)))"

text \<open>What the branches compute, over any union of a word with its halves.\<close>

context word_halves
begin

lemma bit_above: "bit x (LENGTH('h) + (m - LENGTH('h))) = (if m < LENGTH('h) then bit x LENGTH('h) else bit x m)"
  by auto

lemma shl_within:
  "0 < k \<Longrightarrow> k < LENGTH('h) \<Longrightarrow>
     mk (push_bit k (hi x) OR drop_bit (LENGTH('h) - k) (lo x)) (push_bit k (lo x)) = push_bit k x"
  by (rule bit_word_eqI) (auto simp: bit_mk bit_lo bit_hi bit_simps width dest: bit_imp_le_length)

lemma shl_across:
  "LENGTH('h) \<le> k \<Longrightarrow> mk (push_bit (k - LENGTH('h)) (lo x)) 0 = push_bit k x"
  by (rule bit_word_eqI) (auto simp: bit_mk bit_lo bit_hi bit_simps width dest: bit_imp_le_length)

lemma shr_within:
  "0 < k \<Longrightarrow> k < LENGTH('h) \<Longrightarrow>
     mk (drop_bit k (hi x)) (push_bit (LENGTH('h) - k) (hi x) OR drop_bit k (lo x)) = drop_bit k x"
  by (rule bit_word_eqI)
    (auto simp: bit_mk bit_lo bit_hi bit_simps width mult_2 bit_above ac_simps dest: bit_imp_le_length)

lemma shr_across:
  "LENGTH('h) \<le> k \<Longrightarrow> mk 0 (drop_bit (k - LENGTH('h)) (hi x)) = drop_bit k x"
  by (rule bit_word_eqI)
    (auto simp: bit_mk bit_lo bit_hi bit_simps width mult_2 bit_above ac_simps dest: bit_imp_le_length)

text \<open>The arithmetic shifts fill with the top bit of the high half.\<close>

lemma bit_sar_hi:
  "bit (signed_drop_bit k (hi x)) i
     \<longleftrightarrow> i < LENGTH('h) \<and> bit x (min (LENGTH('h) + LENGTH('h) - Suc 0) (LENGTH('h) + (i + k)))"
proof -
  have "\<not> bit x n" if "LENGTH('h) + LENGTH('h) \<le> n" for n
    using that by (metis bit_imp_le_length width mult_2 not_le)
  then show ?thesis
    by (cases "i < LENGTH('h)")
      (auto simp: bit_hi bit_signed_drop_bit_iff min_def not_le ac_simps
        elim!: back_subst [of "bit x"])
qed

lemma bit_sar:
  "bit (signed_drop_bit k (x :: 'w word)) i
     \<longleftrightarrow> i < LENGTH('h) + LENGTH('h) \<and> bit x (min (LENGTH('h) + LENGTH('h) - Suc 0) (i + k))"
proof -
  have "\<not> bit x n" if "LENGTH('h) + LENGTH('h) \<le> n" for n
    using that by (metis bit_imp_le_length width mult_2 not_le)
  then show ?thesis
    by (cases "i < LENGTH('h) + LENGTH('h)")
      (auto simp: bit_signed_drop_bit_iff width min_def not_le ac_simps mult_2
        elim!: back_subst [of "bit x"])
qed

lemma sar_within:
  assumes "0 < k" "k < LENGTH('h)"
  shows "mk (signed_drop_bit k (hi x)) (push_bit (LENGTH('h) - k) (hi x) OR drop_bit k (lo x))
    = signed_drop_bit k x"
  using assms
  by (intro bit_word_eqI)
    (auto simp: bit_mk bit_sar [of _ x] bit_sar_hi bit_lo bit_hi bit_or_iff bit_push_bit_iff
      bit_drop_bit_eq width min_def le_diff_conv2 not_le ac_simps bit_above
      intro!: arg_cong [where f="bit x"])

lemma sar_across:
  assumes "LENGTH('h) \<le> k" "k < 2 * LENGTH('h)"
  shows "mk (signed_drop_bit (LENGTH('h) - Suc 0) (hi x)) (signed_drop_bit (k - LENGTH('h)) (hi x))
    = signed_drop_bit k x"
  using assms
  by (intro bit_word_eqI)
    (auto simp: bit_mk bit_sar [of _ x] bit_sar_hi width min_def not_le
      intro!: arg_cong [where f="bit x"])

end

lemma ashldi3_eq: "unat b < 64 \<Longrightarrow> ashldi3 a b = push_bit (unat b) a"
  using and_top_bit [of b 5] dw.shl_within [of "unat b" a] dw.shl_across [of "unat b" a]
  by (auto simp: ashldi3_def Let_def unat_sub word_le_nat_alt unat_gt_0)

lemma lshrdi3_eq: "unat b < 64 \<Longrightarrow> lshrdi3 a b = drop_bit (unat b) a"
  using and_top_bit [of b 5] dw.shr_within [of "unat b" a] dw.shr_across [of "unat b" a]
  by (auto simp: lshrdi3_def Let_def unat_sub word_le_nat_alt unat_gt_0)

lemma ashrdi3_eq: "unat b < 64 \<Longrightarrow> ashrdi3 a b = signed_drop_bit (unat b) a"
  using and_top_bit [of b 5] dw.sar_within [of "unat b" a] dw.sar_across [of "unat b" a]
  by (auto simp: ashrdi3_def Let_def unat_sub word_le_nat_alt unat_gt_0)

lemma ashlti3_eq: "unat b < 128 \<Longrightarrow> ashlti3 a b = push_bit (unat b) a"
  using and_top_bit [of b 6] tw.shl_within [of "unat b" a] tw.shl_across [of "unat b" a]
  by (auto simp: ashlti3_def Let_def unat_sub word_le_nat_alt unat_gt_0)

lemma lshrti3_eq: "unat b < 128 \<Longrightarrow> lshrti3 a b = drop_bit (unat b) a"
  using and_top_bit [of b 6] tw.shr_within [of "unat b" a] tw.shr_across [of "unat b" a]
  by (auto simp: lshrti3_def Let_def unat_sub word_le_nat_alt unat_gt_0)

lemma ashrti3_eq: "unat b < 128 \<Longrightarrow> ashrti3 a b = signed_drop_bit (unat b) a"
  using and_top_bit [of b 6] tw.sar_within [of "unat b" a] tw.sar_across [of "unat b" a]
  by (auto simp: ashrti3_def Let_def unat_sub word_le_nat_alt unat_gt_0)

section \<open>Three-way comparison\<close>

definition cmpdi2 :: "du_int \<Rightarrow> du_int \<Rightarrow> su_int" where
  "cmpdi2 a b =
     (if hi32 a <s hi32 b then 0
      else if hi32 b <s hi32 a then 2
      else if lo32 a < lo32 b then 0
      else if lo32 a > lo32 b then 2
      else 1)"

definition aeabi_lcmp :: "du_int \<Rightarrow> du_int \<Rightarrow> su_int" where
  "aeabi_lcmp a b = cmpdi2 a b - 1"

definition ucmpdi2 :: "du_int \<Rightarrow> du_int \<Rightarrow> su_int" where
  "ucmpdi2 a b =
     (if hi32 a < hi32 b then 0
      else if hi32 a > hi32 b then 2
      else if lo32 a < lo32 b then 0
      else if lo32 a > lo32 b then 2
      else 1)"

definition aeabi_ulcmp :: "du_int \<Rightarrow> du_int \<Rightarrow> su_int" where
  "aeabi_ulcmp a b = ucmpdi2 a b - 1"

definition cmpti2 :: "tu_int \<Rightarrow> tu_int \<Rightarrow> su_int" where
  "cmpti2 a b =
     (if hi64 a <s hi64 b then 0
      else if hi64 b <s hi64 a then 2
      else if lo64 a < lo64 b then 0
      else if lo64 a > lo64 b then 2
      else 1)"

definition ucmpti2 :: "tu_int \<Rightarrow> tu_int \<Rightarrow> su_int" where
  "ucmpti2 a b =
     (if hi64 a < hi64 b then 0
      else if hi64 a > hi64 b then 2
      else if lo64 a < lo64 b then 0
      else if lo64 a > lo64 b then 2
      else 1)"

text \<open>The contract of a three-way comparison over a key into a linear order.\<close>

definition three_way :: "'k::linorder \<Rightarrow> 'k \<Rightarrow> su_int" where
  "three_way x y = (if x < y then 0 else if y < x then 2 else 1)"

lemma cmpdi2_eq: "cmpdi2 a b = three_way (sint a) (sint b)"
  unfolding cmpdi2_def three_way_def word_sless_alt [symmetric] dw.sless_halves
  by (auto simp: word_sless_alt sint_less_le)

lemma ucmpdi2_eq: "ucmpdi2 a b = three_way (uint a) (uint b)"
  unfolding ucmpdi2_def three_way_def word_less_def [symmetric] dw.less_halves by auto

lemma cmpti2_eq: "cmpti2 a b = three_way (sint a) (sint b)"
  unfolding cmpti2_def three_way_def word_sless_alt [symmetric] tw.sless_halves
  by (auto simp: word_sless_alt sint_less_le)

lemma ucmpti2_eq: "ucmpti2 a b = three_way (uint a) (uint b)"
  unfolding ucmpti2_def three_way_def word_less_def [symmetric] tw.less_halves by auto

lemma three_way_cases:
  "(three_way x y = 0 \<longleftrightarrow> x < y) \<and> (three_way x y = 1 \<longleftrightarrow> x = y) \<and> (three_way x y = 2 \<longleftrightarrow> y < x)"
  by (auto simp: three_way_def)

section \<open>The properties of the component\<close>

text \<open>The two-word shifts are the shifts of the whole word, for every count below the width;
  the arithmetic one divides the signed value by the power of two, rounding down.\<close>

theorem shifts_correct:
  assumes "unat s < 64" "unat t < 128"
  shows "ashldi3 a s = push_bit (unat s) a \<and> lshrdi3 a s = drop_bit (unat s) a
   \<and> ashrdi3 a s = signed_drop_bit (unat s) a \<and> sint (ashrdi3 a s) = sint a div 2 ^ unat s
   \<and> ashlti3 b t = push_bit (unat t) b \<and> lshrti3 b t = drop_bit (unat t) b
   \<and> ashrti3 b t = signed_drop_bit (unat t) b \<and> sint (ashrti3 b t) = sint b div 2 ^ unat t"
  using assms
  by (simp add: ashldi3_eq lshrdi3_eq ashrdi3_eq ashlti3_eq lshrti3_eq ashrti3_eq
      sint_signed_drop_bit_eq drop_bit_eq_div)

theorem shifts_correct_witness:
  "ashrdi3 (-5) 33 = signed_drop_bit 33 (-5) \<and> ashlti3 7 70 = push_bit 70 7"
  using shifts_correct [of 33 70 "-5" 7] by simp

text \<open>The three-way comparisons return 0, 1 or 2 as the first operand is less than, equal to
  or greater than the second, signed or unsigned; the ARM aliases return the sign of the difference.\<close>

theorem comparisons_correct:
  "cmpdi2 a b = (if sint a < sint b then 0 else if a = b then 1 else 2)
   \<and> ucmpdi2 a b = (if a < b then 0 else if a = b then 1 else 2)
   \<and> cmpti2 c d = (if sint c < sint d then 0 else if c = d then 1 else 2)
   \<and> ucmpti2 c d = (if c < d then 0 else if c = d then 1 else 2)
   \<and> sint (aeabi_lcmp a b) = sgn (sint a - sint b)
   \<and> sint (aeabi_ulcmp a b) = sgn (uint a - uint b)"
  by (auto simp: cmpdi2_eq ucmpdi2_eq cmpti2_eq ucmpti2_eq aeabi_lcmp_def aeabi_ulcmp_def three_way_def
      word_less_def sint_eq_iff uint_eq_iff dest: less_imp_neq)

end
