(* ===== verification/IntBits.thy ===== *)
theory IntBits
  imports Prelude
begin

text \<open>
  Counting and permuting bits: \<^verbatim>\<open>clzsi2.c\<close>, \<^verbatim>\<open>clzdi2.c\<close>, \<^verbatim>\<open>clzti2.c\<close>, the \<open>ctz\<close> and \<open>ffs\<close>
  families, the parity routines and the byte swaps.  The compiler builtins
  \<open>__builtin_clz\<close> and \<open>__builtin_ctz\<close> are modelled by their documented value on a nonzero
  argument.  \<open>leading_zeros\<close> is the contract of a count of leading zeros that the division
  and the conversion to floating point rely on; every routine of the family meets it.
\<close>

unbundle bit_operations_syntax

section \<open>The builtins\<close>

fun bitlen :: "nat \<Rightarrow> nat" where
  "bitlen n = (if n = 0 then 0 else Suc (bitlen (n div 2)))"

function ctz_nat :: "nat \<Rightarrow> nat" where
  "ctz_nat n = (if n = 0 \<or> odd n then 0 else Suc (ctz_nat (n div 2)))"
  by pat_completeness auto
termination
proof (relation "measure (\<lambda>n. n)")
  fix n :: nat
  assume "\<not> (n = 0 \<or> odd n)"
  then have "n div 2 < n" by linarith
  then show "(n div 2, n) \<in> measure (\<lambda>n. n)" by (simp only: in_measure)
qed (rule wf_measure)

declare bitlen.simps [simp del] ctz_nat.simps [simp del]

definition builtin_clz :: "'a::len word \<Rightarrow> su_int" where
  "builtin_clz a = of_nat (LENGTH('a) - bitlen (unat a))"

definition builtin_ctz :: "'a::len word \<Rightarrow> su_int" where
  "builtin_ctz a = of_nat (ctz_nat (unat a))"

lemma bitlen_0 [simp]: "bitlen 0 = 0"
  by (simp add: bitlen.simps [of 0])

lemma bitlen_step: "n \<noteq> 0 \<Longrightarrow> bitlen n = Suc (bitlen (n div 2))"
  by (subst bitlen.simps) simp

lemma bitlen_le_iff: "bitlen n \<le> k \<longleftrightarrow> n < 2 ^ k"
proof (induction k arbitrary: n)
  case 0
  show ?case by (cases "n = 0") (simp_all add: bitlen_step [of n])
next
  case (Suc k)
  show ?case
  proof (cases "n = 0")
    case False
    have "bitlen n \<le> Suc k \<longleftrightarrow> bitlen (n div 2) \<le> k" using False by (simp add: bitlen_step)
    also have "\<dots> \<longleftrightarrow> n div 2 < 2 ^ k" by (rule Suc)
    also have "\<dots> \<longleftrightarrow> n < 2 ^ Suc k" by (simp add: div_less_iff_less_mult mult.commute)
    finally show ?thesis .
  qed simp
qed

lemma bitlen_gt_iff: "k < bitlen n \<longleftrightarrow> 2 ^ k \<le> n"
  using bitlen_le_iff [of n k] by linarith

lemma bitlen_unique: "2 ^ k \<le> n \<Longrightarrow> n < 2 ^ Suc k \<Longrightarrow> bitlen n = Suc k"
  using bitlen_le_iff [of n "Suc k"] bitlen_gt_iff [of k n] by linarith

lemma bitlen_pos_iff [simp]: "0 < bitlen n \<longleftrightarrow> 0 < n"
  using bitlen_gt_iff [of 0 n] by auto

lemma bitlen_word_le: "bitlen (unat w) \<le> LENGTH('a)" for w :: "'a::len word"
  by (simp add: bitlen_le_iff)

lemma bitlen_mult_add:
  "0 < h \<Longrightarrow> l < 2 ^ k \<Longrightarrow> bitlen (h * 2 ^ k + l) = bitlen h + k"
proof -
  assume h: "0 < h" and l: "l < 2 ^ k"
  obtain m where m: "bitlen h = Suc m"
    using h by (metis bitlen_pos_iff gr0_conv_Suc)
  have low: "2 ^ m \<le> h" and high: "h < 2 ^ Suc m"
    using m bitlen_gt_iff [of m h] bitlen_le_iff [of h "Suc m"] by auto
  have "2 ^ (m + k) \<le> h * 2 ^ k + l"
    using low by (simp add: power_add trans_le_add1)
  moreover have "(h + 1) * 2 ^ k \<le> 2 ^ Suc m * 2 ^ k"
    using high by (intro mult_right_mono) auto
  then have "h * 2 ^ k + l < 2 ^ Suc (m + k)"
    using l unfolding distrib_right by (simp add: power_add)
  ultimately show ?thesis
    using bitlen_unique m by simp
qed

lemma dvd_double_iff: "2 ^ Suc k dvd 2 * m \<longleftrightarrow> 2 ^ k dvd m" for m :: nat
  by simp

lemma ctz_nat_odd: "odd n \<Longrightarrow> ctz_nat n = 0"
  by (simp add: ctz_nat.simps)

lemma ctz_nat_double: "0 < m \<Longrightarrow> ctz_nat (2 * m) = Suc (ctz_nat m)"
  by (subst ctz_nat.simps) simp

lemma ctz_nat_dvd: "0 < n \<Longrightarrow> 2 ^ k dvd n \<longleftrightarrow> k \<le> ctz_nat n"
proof (induction n arbitrary: k rule: less_induct)
  case (less n)
  show ?case
  proof (cases "odd n")
    case True
    then show ?thesis by (cases k) (auto simp: ctz_nat_odd dest: dvd_mult_left)
  next
    case False
    then obtain m where m: "n = 2 * m" by blast
    show ?thesis
    proof (cases k)
      case (Suc j)
      have "2 ^ j dvd m \<longleftrightarrow> j \<le> ctz_nat m" using less m by simp
      then show ?thesis
        using less.prems by (simp only: Suc m dvd_double_iff ctz_nat_double) (simp add: ctz_nat_double)
    qed simp
  qed
qed

lemma ctz_nat_unique: "0 < n \<Longrightarrow> 2 ^ k dvd n \<Longrightarrow> \<not> 2 ^ Suc k dvd n \<Longrightarrow> ctz_nat n = k"
  using ctz_nat_dvd [of n k] ctz_nat_dvd [of n "Suc k"] by linarith

lemma ctz_nat_mult [simp]: "0 < n \<Longrightarrow> ctz_nat (n * 2 ^ k) = ctz_nat n + k"
proof (induction k)
  case (Suc k)
  then have "ctz_nat (2 * (n * 2 ^ k)) = Suc (ctz_nat n + k)"
    by (subst ctz_nat_double) auto
  then show ?case by (simp add: mult.left_commute)
qed simp

lemma ctz_nat_add:
  assumes "0 < l" "l < 2 ^ k"
  shows "ctz_nat (h * 2 ^ k + l) = ctz_nat l"
proof (rule ctz_nat_unique)
  let ?c = "ctz_nat l"
  have c: "2 ^ ?c dvd l" "\<not> 2 ^ Suc ?c dvd l"
    using ctz_nat_dvd [of l ?c] ctz_nat_dvd [of l "Suc ?c"] assms by auto
  have "2 ^ ?c \<le> l" using c assms by (intro dvd_imp_le) auto
  then have "Suc ?c \<le> k"
    using assms by (metis Suc_leI le_less_trans nat_power_less_imp_less zero_less_numeral)
  then have dvd: "2 ^ Suc ?c dvd h * 2 ^ k" "2 ^ ?c dvd h * 2 ^ k"
    using le_imp_power_dvd [of "Suc ?c" k 2] le_imp_power_dvd [of ?c k 2] by (auto intro: dvd_mult)
  show "2 ^ ?c dvd h * 2 ^ k + l" using c dvd by simp
  show "\<not> 2 ^ Suc ?c dvd h * 2 ^ k + l" using c dvd by (simp add: dvd_add_right_iff)
qed (use assms in simp)

section \<open>Leading zeros\<close>

text \<open>
  The contract: on a nonzero word, the distance of the highest set bit from the top.
\<close>

locale leading_zeros =
  fixes clz :: "'a::len word \<Rightarrow> su_int"
  assumes small: "LENGTH('a) < 2 ^ 32"
    and clz_bitlen: "a \<noteq> 0 \<Longrightarrow> unat (clz a) = LENGTH('a) - bitlen (unat a)"
begin

lemma clz_less: "a \<noteq> 0 \<Longrightarrow> unat (clz a) < LENGTH('a)"
  using clz_bitlen [of a] len_gt_0 [where 'a='a] bitlen_pos_iff [of "unat a"]
  by (simp add: unat_gt_0)

lemma clz_lower: "a \<noteq> 0 \<Longrightarrow> 2 ^ (LENGTH('a) - 1 - unat (clz a)) \<le> unat a"
  using clz_bitlen [of a] bitlen_word_le [of a] bitlen_pos_iff [of "unat a"]
  by (simp add: bitlen_gt_iff [symmetric] unat_gt_0)

lemma clz_upper: "a \<noteq> 0 \<Longrightarrow> unat a < 2 ^ (LENGTH('a) - unat (clz a))"
  using clz_bitlen [of a] bitlen_word_le [of a] by (simp add: bitlen_le_iff [symmetric])

end

lemma builtin_clz_unat:
  "LENGTH('a) < 2 ^ 32 \<Longrightarrow> unat (builtin_clz a) = LENGTH('a) - bitlen (unat a)" for a :: "'a::len word"
  by (simp add: builtin_clz_def unat_of_nat)

interpretation builtin_clz32: leading_zeros "builtin_clz :: su_int \<Rightarrow> su_int"
  by unfold_locales (simp_all add: builtin_clz_unat)

interpretation builtin_clz64: leading_zeros "builtin_clz :: du_int \<Rightarrow> su_int"
  by unfold_locales (simp_all add: builtin_clz_unat)

definition clzsi2 :: "su_int \<Rightarrow> su_int" where
  "clzsi2 a =
     (let x = a;
          t = push_bit 4 (of_bool (x AND 0xFFFF0000 = 0));
          x = drop_bit (unat (16 - t)) x;
          r = t;
          t = push_bit 3 (of_bool (x AND 0xFF00 = 0));
          x = drop_bit (unat (8 - t)) x;
          r = r + t;
          t = push_bit 2 (of_bool (x AND 0xF0 = 0));
          x = drop_bit (unat (4 - t)) x;
          r = r + t;
          t = push_bit 1 (of_bool (x AND 0xC = 0));
          x = drop_bit (unat (2 - t)) x;
          r = r + t
      in r + ((2 - x) AND - of_bool (x AND 2 = 0)))"

definition clzdi2 :: "du_int \<Rightarrow> su_int" where
  "clzdi2 a =
     (let f = - of_bool (hi32 a = 0) :: su_int
      in builtin_clz ((hi32 a AND NOT f) OR (lo32 a AND f)) + (f AND 32))"

definition clzti2 :: "tu_int \<Rightarrow> su_int" where
  "clzti2 a =
     (let f = - of_bool (hi64 a = 0) :: du_int
      in builtin_clz ((hi64 a AND NOT f) OR (lo64 a AND f)) + (ucast f AND 64))"

text \<open>
  One halving step of \<open>clzsi2\<close>: the window \<open>x\<close> holds the top bits of \<open>a\<close> from \<open>d\<close> on, is
  not zero, and is known to fit in twice the width \<open>k\<close> it fits in after the step.
\<close>

definition clz_window :: "su_int \<Rightarrow> nat \<Rightarrow> su_int \<Rightarrow> su_int \<Rightarrow> bool" where
  "clz_window a w x r \<longleftrightarrow>
     (\<exists>d. x = drop_bit d a \<and> d + w + unat r = 32 \<and> x \<noteq> 0 \<and> unat x < 2 ^ w)"

lemma drop_bit_eq_0_iff: "drop_bit k x = 0 \<longleftrightarrow> unat x < 2 ^ k" for x :: "'a::len word"
  by (simp add: unat_eq_0 [symmetric] unat_drop_bit_eq drop_bit_eq_div [where 'a=nat] div_eq_0_iff del: unat_eq_0)

lemma and_high_mask_0:
  "x AND push_bit k (mask k) = 0 \<longleftrightarrow> unat x < 2 ^ k" if "unat x < 2 ^ (2 * k)" for x :: "'a::len word"
proof -
  have above: "\<not> bit x i" if "2 * k \<le> i" for i
  proof -
    have "drop_bit (2 * k) x = 0" using \<open>unat x < 2 ^ (2 * k)\<close> by (simp add: drop_bit_eq_0_iff)
    then have "\<not> bit (drop_bit (2 * k) x) (i - 2 * k)" by simp
    then show ?thesis using that by (simp add: bit_drop_bit_eq)
  qed
  have "x AND push_bit k (mask k) = push_bit k (drop_bit k x)"
    using above by (intro bit_word_eqI) (auto simp: bit_simps intro: ccontr)
  moreover have "drop_bit k (push_bit k (drop_bit k x)) = drop_bit k x"
    by (rule bit_word_eqI) (auto simp: bit_simps dest: bit_imp_le_length)
  ultimately show ?thesis
    by (metis drop_bit_eq_0_iff drop_bit_of_0 push_bit_of_0)
qed

lemma clz_window_step:
  assumes w: "clz_window a (2 * k) x r" and k: "0 < k" "k < 32"
    and t: "t = (if x AND push_bit k (mask k) = 0 then of_nat k else 0)"
  shows "clz_window a k (drop_bit (unat (of_nat k - t)) x) (r + t)"
proof -
  obtain d where d: "x = drop_bit d a" "d + 2 * k + unat r = 32" "x \<noteq> 0" "unat x < 2 ^ (2 * k)"
    using w by (auto simp: clz_window_def)
  have kw: "unat (of_nat k :: su_int) = k" using k by (simp add: unat_of_nat)
  show ?thesis
  proof (cases "unat x < 2 ^ k")
    case True
    then have "unat (r + t) = unat r + k"
      using d t kw k by (simp add: and_high_mask_0 unat_word_ariths)
    with True d t show ?thesis
      by (auto simp: and_high_mask_0 clz_window_def intro!: exI [of _ d])
  next
    case False
    have "n div 2 ^ k < 2 ^ k" if "n < 2 ^ (2 * k)" for n :: nat
      using that by (simp add: mult_2 power_add less_mult_imp_div_less)
    from this [OF d(4)] have "unat (drop_bit k x) < 2 ^ k"
      by (simp only: unat_drop_bit_eq drop_bit_eq_div [where 'a=nat])
    moreover have "drop_bit k x \<noteq> 0" using False by (simp add: drop_bit_eq_0_iff)
    moreover have "drop_bit k x = drop_bit (d + k) a" by (simp add: d(1) add.commute)
    moreover have "t = 0" using False t d by (simp add: and_high_mask_0)
    ultimately show ?thesis
      using d(2) kw unfolding clz_window_def by (intro exI [of _ "d + k"]) simp
  qed
qed

lemma clz_window_final:
  assumes "clz_window a 2 x r"
  shows "unat (r + ((2 - x) AND - of_bool (x AND 2 = 0))) = 32 - bitlen (unat a)"
proof -
  obtain d where d: "x = drop_bit d a" "d + 2 + unat r = 32" "x \<noteq> 0" "unat x < 4"
    using assms by (auto simp: clz_window_def)
  have a: "unat a div 2 ^ d = unat x"
    by (simp add: d(1) unat_drop_bit_eq drop_bit_eq_div [where 'a=nat])
  have a_eq: "unat a = unat x * 2 ^ d + unat a mod 2 ^ d"
    using a by (metis div_mult_mod_eq)
  have bl: "bitlen (unat a) = bitlen (unat x) + d"
    using d by (subst a_eq, intro bitlen_mult_add) (auto simp: unat_gt_0)
  have "unat x \<in> {1, 2, 3}" using d by (auto simp: unat_eq_0 [symmetric] simp del: unat_eq_0)
  then have "x = 1 \<or> x = 2 \<or> x = 3" by (auto simp: word_unat_eq_iff)
  moreover have "bitlen 1 = 1" "bitlen 2 = 2" "bitlen 3 = 2" by (simp_all add: bitlen.simps)
  ultimately show ?thesis
    using d(2) bl by (auto simp: unat_word_ariths)
qed

lemma clzsi2_bitlen: "a \<noteq> 0 \<Longrightarrow> unat (clzsi2 a) = 32 - bitlen (unat a)"
proof -
  assume a: "a \<noteq> 0"
  have start: "clz_window a (2 * 16) a 0"
    using a unsigned_less [of a] by (auto simp: clz_window_def intro!: exI [of _ 0])
  have masks: "push_bit 16 (mask 16) = (0xFFFF0000 :: su_int)" "push_bit 8 (mask 8) = (0xFF00 :: su_int)"
       "push_bit 4 (mask 4) = (0xF0 :: su_int)" "push_bit 2 (mask 2) = (0xC :: su_int)"
    by (simp_all add: mask_eq_exp_minus_1)
  define t1 where "t1 = (push_bit 4 (of_bool (a AND 0xFFFF0000 = 0)) :: su_int)"
  define x1 where "x1 = drop_bit (unat (16 - t1)) a"
  define t2 where "t2 = (push_bit 3 (of_bool (x1 AND 0xFF00 = 0)) :: su_int)"
  define x2 where "x2 = drop_bit (unat (8 - t2)) x1"
  define t3 where "t3 = (push_bit 2 (of_bool (x2 AND 0xF0 = 0)) :: su_int)"
  define x3 where "x3 = drop_bit (unat (4 - t3)) x2"
  define t4 where "t4 = (push_bit 1 (of_bool (x3 AND 0xC = 0)) :: su_int)"
  define x4 where "x4 = drop_bit (unat (2 - t4)) x3"
  have "clz_window a 16 x1 (t1)"
    using clz_window_step [of a 16 a "0" t1] start by (cases "a AND 0xFFFF0000 = 0") (simp_all add: t1_def x1_def masks)
  then have "clz_window a 8 x2 (t1 + t2)"
    using clz_window_step [of a 8 x1 "t1" t2] by (cases "x1 AND 0xFF00 = 0") (simp_all add: t2_def x2_def masks)
  then have "clz_window a 4 x3 (t1 + t2 + t3)"
    using clz_window_step [of a 4 x2 "t1 + t2" t3] by (cases "x2 AND 0xF0 = 0") (simp_all add: t3_def x3_def masks)
  then have "clz_window a 2 x4 (t1 + t2 + t3 + t4)"
    using clz_window_step [of a 2 x3 "t1 + t2 + t3" t4] by (cases "x3 AND 0xC = 0") (simp_all add: t4_def x4_def masks)
  from clz_window_final [OF this] show ?thesis
    by (simp only: clzsi2_def Let_def t1_def x1_def t2_def x2_def t3_def x3_def t4_def x4_def)
qed

interpretation clz32: leading_zeros clzsi2
  by unfold_locales (simp_all add: clzsi2_bitlen)

text \<open>The two-word count looks at the high half if it is not zero, else at the low one.\<close>

lemma select_half:
  "(h AND NOT (- of_bool P)) OR (l AND - of_bool P) = (if P then l else h)" for h l :: "'a::len word"
  by (cases P) simp_all

lemma clzdi2_bitlen: "a \<noteq> 0 \<Longrightarrow> unat (clzdi2 a) = 64 - bitlen (unat a)"
proof -
  assume a: "a \<noteq> 0"
  have u: "unat a = unat (hi32 a) * 2 ^ 32 + unat (lo32 a)"
    using dw.unat_mk [of "hi32 a" "lo32 a"] by simp
  have le: "bitlen (unat (hi32 a)) \<le> 32" "bitlen (unat (lo32 a)) \<le> 32"
    using bitlen_word_le [of "hi32 a"] bitlen_word_le [of "lo32 a"] by simp_all
  show ?thesis
  proof (cases "hi32 a = 0")
    case True
    then show ?thesis
      using u le by (simp add: clzdi2_def Let_def select_half unat_word_ariths builtin_clz_unat)
  next
    case False
    have "bitlen (unat a) = bitlen (unat (hi32 a)) + 32"
      unfolding u using False unsigned_less [of "lo32 a"]
      by (intro bitlen_mult_add) (simp_all add: unat_gt_0)
    with False le show ?thesis
      by (simp add: clzdi2_def Let_def select_half builtin_clz_unat)
  qed
qed

lemma clzti2_bitlen: "a \<noteq> 0 \<Longrightarrow> unat (clzti2 a) = 128 - bitlen (unat a)"
proof -
  assume a: "a \<noteq> 0"
  have u: "unat a = unat (hi64 a) * 2 ^ 64 + unat (lo64 a)"
    using tw.unat_mk [of "hi64 a" "lo64 a"] by simp
  have le: "bitlen (unat (hi64 a)) \<le> 64" "bitlen (unat (lo64 a)) \<le> 64"
    using bitlen_word_le [of "hi64 a"] bitlen_word_le [of "lo64 a"] by simp_all
  show ?thesis
  proof (cases "hi64 a = 0")
    case True
    have "ucast (- 1 :: du_int) = (- 1 :: su_int)"
      by (rule bit_word_eqI) (simp add: bit_simps)
    with True show ?thesis
      using u le by (simp add: clzti2_def Let_def select_half unat_word_ariths builtin_clz_unat)
  next
    case False
    have "bitlen (unat a) = bitlen (unat (hi64 a)) + 64"
      unfolding u using False unsigned_less [of "lo64 a"]
      by (intro bitlen_mult_add) (simp_all add: unat_gt_0)
    with False le show ?thesis
      by (simp add: clzti2_def Let_def select_half builtin_clz_unat)
  qed
qed

interpretation clz64: leading_zeros clzdi2
  by unfold_locales (simp_all add: clzdi2_bitlen)

interpretation clz128: leading_zeros clzti2
  by unfold_locales (simp_all add: clzti2_bitlen)

section \<open>Trailing zeros and the first set bit\<close>

definition ctzsi2 :: "su_int \<Rightarrow> su_int" where
  "ctzsi2 a =
     (let x = a;
          t = push_bit 4 (of_bool (x AND 0x0000FFFF = 0));
          x = drop_bit (unat t) x;
          r = t;
          t = push_bit 3 (of_bool (x AND 0x00FF = 0));
          x = drop_bit (unat t) x;
          r = r + t;
          t = push_bit 2 (of_bool (x AND 0x0F = 0));
          x = drop_bit (unat t) x;
          r = r + t;
          t = push_bit 1 (of_bool (x AND 0x3 = 0));
          x = drop_bit (unat t) x;
          x = x AND 3;
          r = r + t
      in r + ((2 - drop_bit 1 x) AND - of_bool (x AND 1 = 0)))"

definition ctzdi2 :: "du_int \<Rightarrow> su_int" where
  "ctzdi2 a =
     (let f = - of_bool (lo32 a = 0) :: su_int
      in builtin_ctz ((hi32 a AND f) OR (lo32 a AND NOT f)) + (f AND 32))"

definition ctzti2 :: "tu_int \<Rightarrow> su_int" where
  "ctzti2 a =
     (let f = - of_bool (lo64 a = 0) :: du_int
      in builtin_ctz ((hi64 a AND f) OR (lo64 a AND NOT f)) + (ucast f AND 64))"

definition ffssi2 :: "su_int \<Rightarrow> su_int" where
  "ffssi2 a = (if a = 0 then 0 else builtin_ctz a + 1)"

definition ffsdi2 :: "du_int \<Rightarrow> su_int" where
  "ffsdi2 a =
     (if lo32 a = 0 then
        if hi32 a = 0 then 0
        else builtin_ctz (hi32 a) + (1 + 32)
      else builtin_ctz (lo32 a) + 1)"

definition ffsti2 :: "tu_int \<Rightarrow> su_int" where
  "ffsti2 a =
     (if lo64 a = 0 then
        if hi64 a = 0 then 0
        else builtin_ctz (hi64 a) + (1 + 64)
      else builtin_ctz (lo64 a) + 1)"

text \<open>
  One step of \<open>ctzsi2\<close>: \<open>r\<close> zeros have been shifted out of \<open>a\<close>, and one of the lowest \<open>w\<close>
  bits left is set.
\<close>

definition ctz_window :: "su_int \<Rightarrow> nat \<Rightarrow> su_int \<Rightarrow> su_int \<Rightarrow> bool" where
  "ctz_window a w x r \<longleftrightarrow>
     unat a = unat x * 2 ^ unat r \<and> unat x mod 2 ^ w \<noteq> 0 \<and> unat r + w \<le> 32"

lemma and_mask_0: "x AND mask k = 0 \<longleftrightarrow> unat x mod 2 ^ k = 0" for x :: "'a::len word"
  by (simp add: take_bit_eq_mask [symmetric] unat_eq_0 [symmetric] unsigned_take_bit_eq
      take_bit_eq_mod [where 'a=nat] del: unat_eq_0)

lemma ctz_window_step:
  assumes w: "ctz_window a (2 * k) x r" and k: "k < 32"
    and t: "t = (if x AND mask k = 0 then of_nat k else 0)"
  shows "ctz_window a k (drop_bit (unat t) x) (r + t)"
proof (cases "unat x mod 2 ^ k = 0")
  case True
  have kw: "unat (of_nat k :: su_int) = k" using k by (simp add: unat_of_nat)
  have t': "t = of_nat k" using True t by (simp add: and_mask_0)
  have x: "unat x = unat (drop_bit k x) * 2 ^ k"
    using True by (simp add: unat_drop_bit_eq drop_bit_eq_div [where 'a=nat] mod_eq_0_iff_dvd)
  have "unat x mod 2 ^ (2 * k) = (unat (drop_bit k x) mod 2 ^ k) * 2 ^ k"
    by (subst x) (simp add: mult_2 power_add mod_mult_mult2)
  then have "unat (drop_bit k x) mod 2 ^ k \<noteq> 0"
    using w by (auto simp: ctz_window_def)
  moreover have "unat (r + t) = unat r + k"
    using w kw k by (simp add: ctz_window_def t' unat_word_ariths)
  moreover have "unat a = unat (drop_bit k x) * 2 ^ (unat r + k)"
    using w x by (simp add: ctz_window_def power_add mult.assoc mult.left_commute)
  ultimately show ?thesis
    using w kw by (simp add: ctz_window_def t')
next
  case False
  with t w show ?thesis by (simp add: and_mask_0 ctz_window_def)
qed

lemma mod4_2: "n mod 4 = 2 \<Longrightarrow> n = 2 * (n div 2) \<and> odd (n div 2)" for n :: nat
  by presburger

lemma ctz_window_final:
  assumes "ctz_window a 2 x r" "y = x AND 3"
  shows "unat (r + ((2 - drop_bit 1 y) AND - of_bool (y AND 1 = 0))) = ctz_nat (unat a)"
proof -
  have w: "unat a = unat x * 2 ^ unat r" "unat x mod 4 \<noteq> 0" "unat r \<le> 30"
    using assms by (auto simp: ctz_window_def)
  have "y = take_bit 2 x"
    using assms by (simp add: take_bit_eq_mask mask_eq_exp_minus_1)
  then have uy: "unat y = unat x mod 4"
    by (simp add: unsigned_take_bit_eq take_bit_eq_mod [where 'a=nat])
  have pos: "0 < unat x" using w by (metis gr0I mod_0)
  have r: "ctz_nat (unat a) = ctz_nat (unat x) + unat r" using w pos by simp
  have "unat y = 1 \<or> unat y = 2 \<or> unat y = 3" using uy w by linarith
  then show ?thesis
  proof (elim disjE)
    assume y: "unat y = 2"
    then have "y = 2" by (simp add: word_unat_eq_iff)
    moreover have "unat x = 2 * (unat x div 2)" "odd (unat x div 2)"
      using y uy mod4_2 [of "unat x"] by simp_all
    then have "ctz_nat (unat x) = 1"
      by (metis ctz_nat_double ctz_nat_odd odd_pos One_nat_def)
    ultimately show ?thesis using r w by (simp add: unat_word_ariths)
  next
    assume y: "unat y = 1"
    then have "y = 1" by (simp add: word_unat_eq_iff)
    moreover have "odd (unat x)" using y uy by presburger
    ultimately show ?thesis using r by (simp add: ctz_nat_odd)
  next
    assume y: "unat y = 3"
    then have "y = 3" by (simp add: word_unat_eq_iff)
    moreover have "odd (unat x)" using y uy by presburger
    ultimately show ?thesis using r by (simp add: ctz_nat_odd)
  qed
qed

lemma ctzsi2_ctz: "a \<noteq> 0 \<Longrightarrow> unat (ctzsi2 a) = ctz_nat (unat a)"
proof -
  assume a: "a \<noteq> 0"
  have start: "ctz_window a (2 * 16) a 0"
    using a mod_less [of "unat a" "2 ^ 32"] unat_less [of a]
    by (simp add: ctz_window_def unat_gt_0)
  have masks: "mask 16 = (0x0000FFFF :: su_int)" "mask 8 = (0x00FF :: su_int)"
       "mask 4 = (0x0F :: su_int)" "mask 2 = (0x3 :: su_int)"
    by (simp_all add: mask_eq_exp_minus_1)
  define t1 where "t1 = (push_bit 4 (of_bool (a AND 0x0000FFFF = 0)) :: su_int)"
  define x1 where "x1 = drop_bit (unat t1) a"
  define t2 where "t2 = (push_bit 3 (of_bool (x1 AND 0x00FF = 0)) :: su_int)"
  define x2 where "x2 = drop_bit (unat t2) x1"
  define t3 where "t3 = (push_bit 2 (of_bool (x2 AND 0x0F = 0)) :: su_int)"
  define x3 where "x3 = drop_bit (unat t3) x2"
  define t4 where "t4 = (push_bit 1 (of_bool (x3 AND 0x3 = 0)) :: su_int)"
  define x4 where "x4 = drop_bit (unat t4) x3"
  have "ctz_window a 16 x1 (t1)"
    using ctz_window_step [of a 16 a "0" t1] start by (cases "a AND 0x0000FFFF = 0") (simp_all add: t1_def x1_def masks)
  then have "ctz_window a 8 x2 (t1 + t2)"
    using ctz_window_step [of a 8 x1 "t1" t2] by (cases "x1 AND 0x00FF = 0") (simp_all add: t2_def x2_def masks)
  then have "ctz_window a 4 x3 (t1 + t2 + t3)"
    using ctz_window_step [of a 4 x2 "t1 + t2" t3] by (cases "x2 AND 0x0F = 0") (simp_all add: t3_def x3_def masks)
  then have "ctz_window a 2 x4 (t1 + t2 + t3 + t4)"
    using ctz_window_step [of a 2 x3 "t1 + t2 + t3" t4] by (cases "x3 AND 0x3 = 0") (simp_all add: t4_def x4_def masks)
  from ctz_window_final [OF this refl] show ?thesis
    by (simp only: ctzsi2_def Let_def t1_def x1_def t2_def x2_def t3_def x3_def t4_def x4_def)
qed

lemma builtin_ctz_unat:
  "w \<noteq> 0 \<Longrightarrow> LENGTH('a) < 2 ^ 32 \<Longrightarrow> unat (builtin_ctz w) = ctz_nat (unat w)" for w :: "'a::len word"
proof -
  assume w: "w \<noteq> 0" "LENGTH('a) < 2 ^ 32"
  have "2 ^ ctz_nat (unat w) dvd unat w" using w ctz_nat_dvd [of "unat w"] by (simp add: unat_gt_0)
  then have "2 ^ ctz_nat (unat w) \<le> unat w" using w by (intro dvd_imp_le) (simp_all add: unat_gt_0)
  then have "(2::nat) ^ ctz_nat (unat w) < 2 ^ LENGTH('a)" using unsigned_less [of w] by (rule le_less_trans)
  then have "ctz_nat (unat w) < LENGTH('a)" by simp
  then show ?thesis using w by (simp add: builtin_ctz_def unat_of_nat)
qed

text \<open>The two-word counts skip a zero low half.\<close>

lemma ctz_nat_less: "w \<noteq> 0 \<Longrightarrow> ctz_nat (unat w) < LENGTH('a)" for w :: "'a::len word"
proof -
  assume w: "w \<noteq> 0"
  have "2 ^ ctz_nat (unat w) dvd unat w" using w ctz_nat_dvd [of "unat w"] by (simp add: unat_gt_0)
  then have "2 ^ ctz_nat (unat w) \<le> unat w" using w by (intro dvd_imp_le) (simp_all add: unat_gt_0)
  then have "(2::nat) ^ ctz_nat (unat w) < 2 ^ LENGTH('a)" using unsigned_less [of w] by (rule le_less_trans)
  then show ?thesis by simp
qed

lemma ctz_du_halves:
  "a \<noteq> 0 \<Longrightarrow> ctz_nat (unat a)
     = (if lo32 a = 0 then ctz_nat (unat (hi32 a)) + 32 else ctz_nat (unat (lo32 a)))"
proof -
  assume a: "a \<noteq> 0"
  have u: "unat a = unat (hi32 a) * 2 ^ 32 + unat (lo32 a)"
    using dw.unat_mk [of "hi32 a" "lo32 a"] by simp
  have "lo32 a \<noteq> 0 \<or> hi32 a \<noteq> 0" using a u by (auto simp: unat_gt_0 [symmetric])
  then show ?thesis
    using u ctz_nat_mult [of "unat (hi32 a)" 32] ctz_nat_add [of "unat (lo32 a)" 32 "unat (hi32 a)"]
      unat_less [of "lo32 a"]
    by (auto simp: unat_gt_0)
qed

lemma ctz_tu_halves:
  "a \<noteq> 0 \<Longrightarrow> ctz_nat (unat a)
     = (if lo64 a = 0 then ctz_nat (unat (hi64 a)) + 64 else ctz_nat (unat (lo64 a)))"
proof -
  assume a: "a \<noteq> 0"
  have u: "unat a = unat (hi64 a) * 2 ^ 64 + unat (lo64 a)"
    using tw.unat_mk [of "hi64 a" "lo64 a"] by simp
  have "lo64 a \<noteq> 0 \<or> hi64 a \<noteq> 0" using a u by (auto simp: unat_gt_0 [symmetric])
  then show ?thesis
    using u ctz_nat_mult [of "unat (hi64 a)" 64] ctz_nat_add [of "unat (lo64 a)" 64 "unat (hi64 a)"]
      unat_less [of "lo64 a"]
    by (auto simp: unat_gt_0)
qed

lemma hi_of_lo_0: "lo32 a = 0 \<Longrightarrow> a \<noteq> 0 \<Longrightarrow> hi32 a \<noteq> 0" "lo64 b = 0 \<Longrightarrow> b \<noteq> 0 \<Longrightarrow> hi64 b \<noteq> 0"
  using dw.mk_hi_lo [of a] tw.mk_hi_lo [of b] by (auto simp: make_du_def make_tu_def)

lemma halves_0: "lo32 0 = 0" "hi32 0 = 0" "lo64 0 = 0" "hi64 0 = 0"
  by (simp_all add: lo32_def hi32_def lo64_def hi64_def)

lemma select_half':
  "(h AND - of_bool P) OR (l AND NOT (- of_bool P)) = (if P then h else l)" for h l :: "'a::len word"
  by (cases P) simp_all

lemma unat_add_small:
  "unat (builtin_ctz w + of_nat k) = ctz_nat (unat w) + k"
  if "w \<noteq> 0" "LENGTH('a) + k < 2 ^ 32" for w :: "'a::len word"
  using that ctz_nat_less [of w] builtin_ctz_unat [of w]
  by (simp add: unat_word_ariths unat_of_nat)

lemma ctzdi2_ctz: "a \<noteq> 0 \<Longrightarrow> unat (ctzdi2 a) = ctz_nat (unat a)"
  using unat_add_small [of "hi32 a" 32] unat_add_small [of "lo32 a" 0] hi_of_lo_0(1) [of a]
  by (auto simp: ctzdi2_def Let_def select_half' ctz_du_halves)

lemma ctzti2_ctz: "a \<noteq> 0 \<Longrightarrow> unat (ctzti2 a) = ctz_nat (unat a)"
proof -
  have "ucast (- 1 :: du_int) = (- 1 :: su_int)"
    by (rule bit_word_eqI) (simp add: bit_simps)
  then show "a \<noteq> 0 \<Longrightarrow> unat (ctzti2 a) = ctz_nat (unat a)"
    using unat_add_small [of "hi64 a" 64] unat_add_small [of "lo64 a" 0] hi_of_lo_0(2) [of a]
    by (auto simp: ctzti2_def Let_def select_half' ctz_tu_halves)
qed

lemma ffssi2_ctz: "unat (ffssi2 a) = (if a = 0 then 0 else Suc (ctz_nat (unat a)))"
  using unat_add_small [of a 1] by (auto simp: ffssi2_def)

lemma ffsdi2_ctz: "unat (ffsdi2 a) = (if a = 0 then 0 else Suc (ctz_nat (unat a)))"
  using unat_add_small [of "hi32 a" 33] unat_add_small [of "lo32 a" 1] hi_of_lo_0(1) [of a]
  by (auto simp: ffsdi2_def ctz_du_halves halves_0)

lemma ffsti2_ctz: "unat (ffsti2 a) = (if a = 0 then 0 else Suc (ctz_nat (unat a)))"
  using unat_add_small [of "hi64 a" 65] unat_add_small [of "lo64 a" 1] hi_of_lo_0(2) [of a]
  by (auto simp: ffsti2_def ctz_tu_halves halves_0)

section \<open>The properties of the component\<close>

text \<open>Each count of leading zeros returns, on a nonzero argument, the \<open>c\<close> for which the
  highest set bit is bit \<open>width - 1 - c\<close>.\<close>

theorem clz_correct:
  assumes "a \<noteq> 0" "b \<noteq> 0" "c \<noteq> 0"
  shows "unat (clzsi2 a) < 32 \<and> 2 ^ (31 - unat (clzsi2 a)) \<le> unat a \<and> unat a < 2 ^ (32 - unat (clzsi2 a))
   \<and> unat (clzdi2 b) < 64 \<and> 2 ^ (63 - unat (clzdi2 b)) \<le> unat b \<and> unat b < 2 ^ (64 - unat (clzdi2 b))
   \<and> unat (clzti2 c) < 128 \<and> 2 ^ (127 - unat (clzti2 c)) \<le> unat c \<and> unat c < 2 ^ (128 - unat (clzti2 c))"
  using clz32.clz_less [OF assms(1)] clz32.clz_lower [OF assms(1)] clz32.clz_upper [OF assms(1)]
    clz64.clz_less [OF assms(2)] clz64.clz_lower [OF assms(2)] clz64.clz_upper [OF assms(2)]
    clz128.clz_less [OF assms(3)] clz128.clz_lower [OF assms(3)] clz128.clz_upper [OF assms(3)]
  by simp

theorem clz_correct_witness:
  "unat (clzsi2 0x00012345) < 32 \<and> unat (clzdi2 0x10000000000) < 64 \<and> unat (clzti2 1) < 128"
  using clz_correct [of "0x00012345" "0x10000000000" 1] by simp

lemma ffs_zero: "ffssi2 0 = 0" "ffsdi2 0 = 0" "ffsti2 0 = 0"
  by (simp_all add: ffssi2_def ffsdi2_def ffsti2_def halves_0)

text \<open>Each count of trailing zeros returns the exponent of the highest power of two that
  divides a nonzero argument; \<open>ffs\<close> returns one more, and 0 exactly for 0.\<close>

theorem ctz_ffs_correct:
  assumes "a \<noteq> 0" "b \<noteq> 0" "c \<noteq> 0"
  shows "(2 ^ k dvd unat a \<longleftrightarrow> k \<le> unat (ctzsi2 a)) \<and> unat (ffssi2 a) = Suc (unat (ctzsi2 a))
   \<and> (2 ^ k dvd unat b \<longleftrightarrow> k \<le> unat (ctzdi2 b)) \<and> unat (ffsdi2 b) = Suc (unat (ctzdi2 b))
   \<and> (2 ^ k dvd unat c \<longleftrightarrow> k \<le> unat (ctzti2 c)) \<and> unat (ffsti2 c) = Suc (unat (ctzti2 c))
   \<and> ffssi2 0 = 0 \<and> ffsdi2 0 = 0 \<and> ffsti2 0 = 0"
  unfolding ctzsi2_ctz [OF assms(1)] ctzdi2_ctz [OF assms(2)] ctzti2_ctz [OF assms(3)]
    ffssi2_ctz ffsdi2_ctz ffsti2_ctz
  using assms ctz_nat_dvd [of "unat a" k] ctz_nat_dvd [of "unat b" k] ctz_nat_dvd [of "unat c" k]
    ffs_zero
  by (simp only: unat_gt_0 if_False) simp

theorem ctz_ffs_correct_witness:
  "unat (ffssi2 0x100) = Suc (unat (ctzsi2 0x100)) \<and> unat (ffsdi2 6) = Suc (unat (ctzdi2 6))
   \<and> unat (ffsti2 0x10000000000000000) = Suc (unat (ctzti2 0x10000000000000000))"
  using ctz_ffs_correct [of "0x100" 6 "0x10000000000000000" 0] by simp

end
