(* ===== verification/IntPerm.thy ===== *)
theory IntPerm
  imports IntBits
begin

text \<open>
  Parity and byte order: \<^verbatim>\<open>paritysi2.c\<close>, \<^verbatim>\<open>paritydi2.c\<close>, \<^verbatim>\<open>parityti2.c\<close>, \<^verbatim>\<open>bswapsi2.c\<close>
  and \<^verbatim>\<open>bswapdi2.c\<close>.
\<close>

unbundle bit_operations_syntax

section \<open>Counting bits\<close>

primrec bits_below :: "nat \<Rightarrow> 'a::len word \<Rightarrow> nat" where
  "bits_below 0 x = 0"
| "bits_below (Suc n) x = bits_below n x + of_bool (bit x n)"

text \<open>The number of set bits of a word: what parity is the parity of.\<close>

definition ones :: "'a::len word \<Rightarrow> nat" where
  "ones x = bits_below LENGTH('a) x"

lemma bits_below_card: "bits_below n x = card {i. i < n \<and> bit x i}"
proof (induction n)
  case (Suc n)
  have "{i. i < Suc n \<and> bit x i} = {i. i < n \<and> bit x i} \<union> (if bit x n then {n} else {})"
    by (auto simp: less_Suc_eq)
  with Suc show ?case by simp
qed simp

lemma bits_below_add: "bits_below (m + n) x = bits_below m x + bits_below n (drop_bit m x)"
  by (induction n) (simp_all add: bit_drop_bit_eq)

lemma bits_below_xor: "odd (bits_below n (x XOR y)) \<longleftrightarrow> odd (bits_below n x) \<noteq> odd (bits_below n y)"
  by (induction n) (auto simp: bit_xor_iff)

lemma bits_below_fold:
  "odd (bits_below n (x XOR drop_bit n x)) \<longleftrightarrow> odd (bits_below (n + n) x)"
  by (simp add: bits_below_xor bits_below_add)

lemma bits_below_cong:
  "(\<And>i. i < n \<Longrightarrow> bit x i = bit y i) \<Longrightarrow> bits_below n x = bits_below n y"
  by (induction n) auto

section \<open>Parity\<close>

definition paritysi2 :: "su_int \<Rightarrow> su_int" where
  "paritysi2 a =
     (let x = a;
          x = x XOR drop_bit 16 x;
          x = x XOR drop_bit 8 x;
          x = x XOR drop_bit 4 x
      in drop_bit (unat (x AND 0xF)) 0x6996 AND 1)"

definition paritydi2 :: "du_int \<Rightarrow> su_int" where
  "paritydi2 a =
     (let x2 = hi32 a XOR lo32 a;
          x2 = x2 XOR drop_bit 16 x2;
          x2 = x2 XOR drop_bit 8 x2;
          x2 = x2 XOR drop_bit 4 x2
      in drop_bit (unat (x2 AND 0xF)) 0x6996 AND 1)"

definition parityti2 :: "tu_int \<Rightarrow> su_int" where
  "parityti2 a =
     (let x2 = hi64 a XOR lo64 a;
          x3 = hi32 x2 XOR lo32 x2;
          x3 = x3 XOR drop_bit 16 x3;
          x3 = x3 XOR drop_bit 8 x3;
          x3 = x3 XOR drop_bit 4 x3
      in drop_bit (unat (x3 AND 0xF)) 0x6996 AND 1)"

text \<open>\<open>0x6996\<close> is the parity of each of the sixteen nibbles.\<close>

lemma nibble_values:
  "list_all (\<lambda>n. drop_bit n 0x6996 AND 1 = (of_bool (odd (bits_below 4 (of_nat n :: su_int))) :: su_int)) [0..<16]"
  by code_simp

lemma nibble_table:
  "drop_bit (unat (x AND 0xF)) 0x6996 AND 1 = (of_bool (odd (bits_below 4 x)) :: su_int)" for x :: su_int
proof -
  have m: "x AND 0xF = take_bit 4 x" by (simp add: take_bit_eq_mask mask_eq_exp_minus_1)
  have "unat (x AND 0xF) < 2 ^ 4"
    unfolding m by (simp add: unsigned_take_bit_eq del: power_numeral)
  then have "unat (x AND 0xF) \<in> set [0..<16]" by simp
  with nibble_values have "drop_bit (unat (x AND 0xF)) 0x6996 AND 1
      = (of_bool (odd (bits_below 4 (of_nat (unat (x AND 0xF)) :: su_int))) :: su_int)"
    unfolding list_all_iff by blast
  also have "bits_below 4 (of_nat (unat (x AND 0xF)) :: su_int) = bits_below 4 x"
    unfolding m by (rule bits_below_cong) (simp add: bit_take_bit_iff)
  finally show ?thesis .
qed

lemma parity_folds:
  "odd (bits_below 4 y) \<longleftrightarrow> odd (ones x)"
  if "y = x2 XOR drop_bit 4 x2" "x2 = x1 XOR drop_bit 8 x1" "x1 = x XOR drop_bit 16 x" for x :: su_int
  unfolding that ones_def using bits_below_fold [of 4 x2] bits_below_fold [of 8 x1] bits_below_fold [of 16 x]
  by (simp add: that)

lemma ones_du: "odd (ones a) \<longleftrightarrow> odd (ones (hi32 a XOR lo32 a))"
  using bits_below_add [of 32 32 a] bits_below_cong [of 32 a "lo32 a"] bits_below_cong [of 32 "drop_bit 32 a" "hi32 a"]
  by (simp add: ones_def bits_below_xor dw.bit_lo dw.bit_hi bit_drop_bit_eq) blast

lemma ones_tu: "odd (ones a) \<longleftrightarrow> odd (ones (hi64 a XOR lo64 a))"
  using bits_below_add [of 64 64 a] bits_below_cong [of 64 a "lo64 a"] bits_below_cong [of 64 "drop_bit 64 a" "hi64 a"]
  by (simp add: ones_def bits_below_xor tw.bit_lo tw.bit_hi bit_drop_bit_eq) blast

lemma paritysi2_odd: "paritysi2 a = of_bool (odd (ones a))"
  unfolding paritysi2_def Let_def nibble_table by (subst parity_folds [OF refl refl refl]) simp

lemma paritydi2_odd: "paritydi2 a = of_bool (odd (ones a))"
  unfolding paritydi2_def Let_def nibble_table ones_du [of a]
  by (subst parity_folds [OF refl refl refl]) simp

lemma parityti2_odd: "parityti2 a = of_bool (odd (ones a))"
  unfolding parityti2_def Let_def nibble_table ones_tu [of a] ones_du [of "hi64 a XOR lo64 a"]
  by (subst parity_folds [OF refl refl refl]) simp

section \<open>Byte order\<close>

definition bswapsi2 :: "su_int \<Rightarrow> su_int" where
  "bswapsi2 u =
     drop_bit 24 (u AND 0xff000000) OR
     drop_bit 8 (u AND 0x00ff0000) OR
     push_bit 8 (u AND 0x0000ff00) OR
     push_bit 24 (u AND 0x000000ff)"

definition bswapdi2 :: "du_int \<Rightarrow> du_int" where
  "bswapdi2 u =
     drop_bit 56 (u AND 0xff00000000000000) OR
     drop_bit 40 (u AND 0x00ff000000000000) OR
     drop_bit 24 (u AND 0x0000ff0000000000) OR
     drop_bit 8 (u AND 0x000000ff00000000) OR
     push_bit 8 (u AND 0x00000000ff000000) OR
     push_bit 24 (u AND 0x0000000000ff0000) OR
     push_bit 40 (u AND 0x000000000000ff00) OR
     push_bit 56 (u AND 0x00000000000000ff)"

text \<open>Byte \<open>j\<close> of a word, counted from the least significant one.\<close>

definition byte_of :: "'a::len word \<Rightarrow> nat \<Rightarrow> byte" where
  "byte_of w j = ucast (drop_bit (8 * j) w)"

lemma bswapsi2_byte: "j < 4 \<Longrightarrow> byte_of (bswapsi2 u) j = byte_of u (3 - j)"
proof (rule bit_word_eqI)
  fix i assume j: "j < 4" and i: "i < LENGTH(8)"
  have masks: "0xff000000 = (push_bit 24 (mask 8) :: su_int)" "0x00ff0000 = (push_bit 16 (mask 8) :: su_int)"
    "0x0000ff00 = (push_bit 8 (mask 8) :: su_int)" "0x000000ff = (mask 8 :: su_int)"
    by (simp_all add: mask_eq_exp_minus_1)
  have "j = 0 \<or> j = 1 \<or> j = 2 \<or> j = 3" using j by auto
  then show "bit (byte_of (bswapsi2 u) j) i = bit (byte_of u (3 - j)) i"
    unfolding bswapsi2_def masks using i
    by (elim disjE) (auto simp: byte_of_def bit_simps)
qed

lemma bswapdi2_byte: "j < 8 \<Longrightarrow> byte_of (bswapdi2 u) j = byte_of u (7 - j)"
proof (rule bit_word_eqI)
  fix i assume j: "j < 8" and i: "i < LENGTH(8)"
  have masks: "0xff00000000000000 = (push_bit 56 (mask 8) :: du_int)" "0x00ff000000000000 = (push_bit 48 (mask 8) :: du_int)"
    "0x0000ff0000000000 = (push_bit 40 (mask 8) :: du_int)" "0x000000ff00000000 = (push_bit 32 (mask 8) :: du_int)"
    "0x00000000ff000000 = (push_bit 24 (mask 8) :: du_int)" "0x0000000000ff0000 = (push_bit 16 (mask 8) :: du_int)"
    "0x000000000000ff00 = (push_bit 8 (mask 8) :: du_int)" "0x00000000000000ff = (mask 8 :: du_int)"
    by (simp_all add: mask_eq_exp_minus_1)
  have "j = 0 \<or> j = 1 \<or> j = 2 \<or> j = 3 \<or> j = 4 \<or> j = 5 \<or> j = 6 \<or> j = 7" using j by auto
  then show "bit (byte_of (bswapdi2 u) j) i = bit (byte_of u (7 - j)) i"
    unfolding bswapdi2_def masks using i
    by (elim disjE) (auto simp: byte_of_def bit_simps)
qed

lemma bytes_eqI:
  "8 dvd LENGTH('a) \<Longrightarrow> (\<And>j. 8 * j < LENGTH('a) \<Longrightarrow> byte_of x j = byte_of y j) \<Longrightarrow> x = y" for x :: "'a::len word"
proof (rule bit_word_eqI)
  fix i assume d: "8 dvd LENGTH('a)" and e: "\<And>j. 8 * j < LENGTH('a) \<Longrightarrow> byte_of x j = byte_of y j" and i: "i < LENGTH('a)"
  have "8 * (i div 8) \<le> i" by simp
  with i have "byte_of x (i div 8) = byte_of y (i div 8)" by (intro e) linarith
  then have "bit (byte_of x (i div 8)) (i mod 8) = bit (byte_of y (i div 8)) (i mod 8)" by simp
  then show "bit x i = bit y i" by (simp add: byte_of_def bit_simps)
qed

lemma bswapsi2_twice: "bswapsi2 (bswapsi2 u) = u"
  by (rule bytes_eqI) (auto simp: bswapsi2_byte)

lemma bswapdi2_twice: "bswapdi2 (bswapdi2 u) = u"
  by (rule bytes_eqI) (auto simp: bswapdi2_byte)

section \<open>The properties of the component\<close>

text \<open>The parity routines return 1 exactly on words with an odd number of set bits, else 0.\<close>

theorem parity_correct:
  "paritysi2 a = of_bool (odd (card {i. i < 32 \<and> bit a i}))
   \<and> paritydi2 b = of_bool (odd (card {i. i < 64 \<and> bit b i}))
   \<and> parityti2 c = of_bool (odd (card {i. i < 128 \<and> bit c i}))"
  by (simp add: paritysi2_odd paritydi2_odd parityti2_odd ones_def bits_below_card)

text \<open>The byte swaps reverse the bytes of a word, and swapping twice gives the word back.\<close>

theorem bswap_correct:
  "map (byte_of (bswapsi2 u)) [0, 1, 2, 3] = rev (map (byte_of u) [0, 1, 2, 3])
   \<and> map (byte_of (bswapdi2 v)) [0, 1, 2, 3, 4, 5, 6, 7] = rev (map (byte_of v) [0, 1, 2, 3, 4, 5, 6, 7])
   \<and> bswapsi2 (bswapsi2 u) = u \<and> bswapdi2 (bswapdi2 v) = v"
  by (simp add: bswapsi2_byte bswapdi2_byte bswapsi2_twice bswapdi2_twice)

end
