(* ===== verification/IntPop.thy ===== *)
theory IntPop
  imports IntPerm
begin

text \<open>
  Population count: \<^verbatim>\<open>popcountsi2.c\<close>, \<^verbatim>\<open>popcountdi2.c\<close> and \<^verbatim>\<open>popcountti2.c\<close>.  The routines
  add up neighbouring fields of the word in place.  The proof follows the bytes: the first
  three steps never carry from one byte into the next, whatever the width, and turn each byte
  into the number of its bits; the folds then add the bytes up.
\<close>

unbundle bit_operations_syntax

section \<open>Population count\<close>

definition popcountsi2 :: "su_int \<Rightarrow> su_int" where
  "popcountsi2 a =
     (let x = a;
          x = x - (drop_bit 1 x AND 0x55555555);
          x = (drop_bit 2 x AND 0x33333333) + (x AND 0x33333333);
          x = (x + drop_bit 4 x) AND 0x0F0F0F0F;
          x = x + drop_bit 16 x
      in (x + drop_bit 8 x) AND 0x0000003F)"

definition popcountdi2 :: "du_int \<Rightarrow> su_int" where
  "popcountdi2 a =
     (let x2 = a;
          x2 = x2 - (drop_bit 1 x2 AND 0x5555555555555555);
          x2 = (drop_bit 2 x2 AND 0x3333333333333333) + (x2 AND 0x3333333333333333);
          x2 = (x2 + drop_bit 4 x2) AND 0x0F0F0F0F0F0F0F0F;
          x = ucast (x2 + drop_bit 32 x2) :: su_int;
          x = x + drop_bit 16 x
      in (x + drop_bit 8 x) AND 0x0000007F)"

definition popcountti2 :: "tu_int \<Rightarrow> su_int" where
  "popcountti2 a =
     (let x3 = a;
          x3 = x3 - (drop_bit 1 x3 AND (push_bit 64 0x5555555555555555 OR 0x5555555555555555));
          x3 = (drop_bit 2 x3 AND (push_bit 64 0x3333333333333333 OR 0x3333333333333333)) +
               (x3 AND (push_bit 64 0x3333333333333333 OR 0x3333333333333333));
          x3 = (x3 + drop_bit 4 x3) AND (push_bit 64 0x0F0F0F0F0F0F0F0F OR 0x0F0F0F0F0F0F0F0F);
          x2 = ucast (x3 + drop_bit 64 x3) :: du_int;
          x = ucast (x2 + drop_bit 32 x2) :: su_int;
          x = x + drop_bit 16 x
      in (x + drop_bit 8 x) AND 0xFF)"

text \<open>The bytes of a word, and arithmetic that never carries from one into the next.\<close>

lemma unat_byte_of: "unat (byte_of w j) = unat w div 256 ^ j mod 256"
proof -
  have "(256::nat) ^ j = 2 ^ (8 * j)" by (simp add: power_mult)
  then show ?thesis
    by (simp add: byte_of_def unsigned_ucast_eq take_bit_eq_mod unat_drop_bit_eq drop_bit_eq_div [where 'a=nat])
qed

lemma nat_bytes_add:
  fixes X Y :: nat
  assumes "\<And>j. X div 256 ^ j mod 256 + Y div 256 ^ j mod 256 < 256"
  shows "(X + Y) div 256 ^ j = X div 256 ^ j + Y div 256 ^ j"
proof (induction j)
  case (Suc j)
  have "(X + Y) div 256 ^ Suc j = (X div 256 ^ j + Y div 256 ^ j) div 256"
    by (simp only: Suc [symmetric] power_Suc2 div_mult2_eq)
  also have "\<dots> = X div 256 ^ j div 256 + Y div 256 ^ j div 256"
    by (subst div_add1_eq) (simp only: div_less [OF assms] add_0_right)
  finally show ?case by (simp only: power_Suc2 div_mult2_eq)
qed simp

lemma nat_digit_diff:
  fixes p q b :: nat
  assumes b: "0 < b" and "p \<le> q" "p mod b \<le> q mod b"
  shows "(q - p) div b = q div b - p div b" "(q - p) mod b = q mod b - p mod b"
proof -
  have "p div b \<le> q div b" using assms(2) by (rule div_le_mono)
  then have le: "p div b * b \<le> q div b * b" by (rule mult_le_mono1)
  have "q - p = (q div b * b + q mod b) - (p div b * b + p mod b)" by simp
  also have "\<dots> = (q mod b - p mod b) + (q div b * b - p div b * b)"
    using le assms(3) by linarith
  finally have eq: "q - p = (q mod b - p mod b) + (q div b - p div b) * b"
    by (simp only: diff_mult_distrib)
  have "q mod b - p mod b < b" using b by (meson less_imp_diff_less mod_less_divisor)
  then show "(q - p) div b = q div b - p div b" "(q - p) mod b = q mod b - p mod b"
    unfolding eq by simp_all
qed

lemma nat_bytes_diff:
  fixes X Y :: nat
  assumes "\<And>j. Y div 256 ^ j mod 256 \<le> X div 256 ^ j mod 256" "Y \<le> X"
  shows "(X - Y) div 256 ^ j = X div 256 ^ j - Y div 256 ^ j"
proof (induction j)
  case (Suc j)
  have le: "Y div 256 ^ j \<le> X div 256 ^ j" using assms(2) by (rule div_le_mono)
  have "(X - Y) div 256 ^ Suc j = (X div 256 ^ j - Y div 256 ^ j) div 256"
    by (simp only: Suc [symmetric] power_Suc2 div_mult2_eq)
  also have "\<dots> = X div 256 ^ j div 256 - Y div 256 ^ j div 256"
    by (rule nat_digit_diff(1) [OF _ le assms(1)]) simp
  finally show ?case by (simp only: power_Suc2 div_mult2_eq)
qed simp

lemma byte_of_add:
  fixes x y :: "'a::len word"
  assumes "8 dvd LENGTH('a)" "\<And>j. unat (byte_of x j) + unat (byte_of y j) < 256"
  shows "byte_of (x + y) j = byte_of x j + byte_of y j"
proof -
  obtain n where n: "LENGTH('a) = 8 * n" using assms(1) by blast
  have sum: "(unat x + unat y) div 256 ^ i = unat x div 256 ^ i + unat y div 256 ^ i" for i
    using assms(2) by (intro nat_bytes_add) (simp add: unat_byte_of)
  have "(256::nat) ^ n = 2 ^ LENGTH('a)" by (simp add: n power_mult)
  then have "unat x + unat y < 2 ^ LENGTH('a)"
    using sum [of n] unat_less [of x] unat_less [of y] by (simp add: div_eq_0_iff)
  then have "unat (x + y) = unat x + unat y" by (simp add: unat_word_ariths)
  then have "unat (byte_of (x + y) j) = unat (byte_of x j + byte_of y j)"
    by (simp add: unat_byte_of sum unat_word_ariths mod_simps)
  then show ?thesis by (simp add: word_unat_eq_iff)
qed

lemma byte_of_diff:
  fixes x y :: "'a::len word"
  assumes "\<And>j. byte_of y j \<le> byte_of x j" "y \<le> x"
  shows "byte_of (x - y) j = byte_of x j - byte_of y j"
proof -
  have sub: "unat (x - y) = unat x - unat y" using assms(2) by (simp add: unat_sub)
  have le: "unat y div 256 ^ i mod 256 \<le> unat x div 256 ^ i mod 256" for i
    using assms(1) [of i] by (simp add: word_le_nat_alt unat_byte_of)
  have "(unat x - unat y) div 256 ^ j = unat x div 256 ^ j - unat y div 256 ^ j"
    using le assms(2) by (intro nat_bytes_diff) (simp_all add: word_le_nat_alt)
  moreover have "unat y div 256 ^ j \<le> unat x div 256 ^ j"
    using assms(2) by (simp add: div_le_mono word_le_nat_alt)
  ultimately have "unat (byte_of (x - y) j) = unat (byte_of x j) - unat (byte_of y j)"
    using nat_digit_diff(2) [OF _ _ le [of j]] by (simp add: unat_byte_of sub)
  then show ?thesis
    using assms(1) [of j] by (simp add: word_unat_eq_iff unat_sub)
qed

lemma byte_of_and: "byte_of (x AND y) j = byte_of x j AND byte_of y j"
  by (rule bit_word_eqI) (simp add: byte_of_def bit_simps)

lemma byte_of_drop_bytes: "byte_of (drop_bit (8 * k) x) j = byte_of x (j + k)"
  by (rule bit_word_eqI) (simp add: byte_of_def bit_simps ac_simps distrib_left)

lemma byte_of_drop_and:
  "drop_bit (8 - k) (byte_of m j) = 0 \<Longrightarrow> k \<le> 8 \<Longrightarrow>
     byte_of (drop_bit k x AND m) j = drop_bit k (byte_of x j) AND byte_of m j"
proof (rule bit_word_eqI)
  fix i assume m: "drop_bit (8 - k) (byte_of m j) = 0" and k: "k \<le> 8"
  have "\<not> bit (byte_of m j) i" if "8 - k \<le> i"
  proof -
    have "\<not> bit (drop_bit (8 - k) (byte_of m j)) (i - (8 - k))" by (simp add: m)
    then show ?thesis using that by (simp add: bit_drop_bit_eq)
  qed
  then show "bit (byte_of (drop_bit k x AND m) j) i = bit (drop_bit k (byte_of x j) AND byte_of m j) i"
    using k by (cases "8 - k \<le> i") (auto simp: byte_of_def bit_simps ac_simps)
qed

text \<open>
  The three masked steps act on each byte on its own; that a byte comes out as the number
  of its bits is checked for all 256 of them.
\<close>

definition byte_step1 :: "byte \<Rightarrow> byte" where
  "byte_step1 b = b - (drop_bit 1 b AND 0x55)"

definition byte_step2 :: "byte \<Rightarrow> byte" where
  "byte_step2 b = (drop_bit 2 b AND 0x33) + (b AND 0x33)"

definition byte_step3 :: "byte \<Rightarrow> byte" where
  "byte_step3 b = (b + drop_bit 4 b) AND 0x0F"

definition step3_ok :: "byte \<Rightarrow> byte \<Rightarrow> bool" where
  "step3_ok b e \<longleftrightarrow> e \<le> 0x44 \<and> e AND 0x0F \<le> 4 \<and>
     byte_step3 e = of_bool (bit b 0) + of_bool (bit b 1) + of_bool (bit b 2) + of_bool (bit b 3)
       + of_bool (bit b 4) + of_bool (bit b 5) + of_bool (bit b 6) + of_bool (bit b 7)"

definition step2_ok :: "byte \<Rightarrow> byte \<Rightarrow> bool" where
  "step2_ok b e \<longleftrightarrow> uint (drop_bit 2 e AND 0x33) + uint (e AND 0x33) < 256 \<and> step3_ok b (byte_step2 e)"

definition byte_ok :: "byte \<Rightarrow> bool" where
  "byte_ok b \<longleftrightarrow> drop_bit 1 b AND 0x55 \<le> b \<and> step2_ok b (byte_step1 b)"

lemma byte_checks0: "list_all (\<lambda>n. byte_ok (word_of_int n)) [0..63]"
  by code_simp

lemma byte_checks1: "list_all (\<lambda>n. byte_ok (word_of_int n)) [64..127]"
  by code_simp

lemma byte_checks2: "list_all (\<lambda>n. byte_ok (word_of_int n)) [128..191]"
  by code_simp

lemma byte_checks3: "list_all (\<lambda>n. byte_ok (word_of_int n)) [192..255]"
  by code_simp

lemma byte_ok: "byte_ok b"
proof -
  have "uint b < 2 ^ 8" using uint_lt2p [of b] by simp
  then have "uint b \<in> {0..63} \<or> uint b \<in> {64..127} \<or> uint b \<in> {128..191} \<or> uint b \<in> {192..255}"
    by auto
  then have "uint b \<in> set [0..63] \<or> uint b \<in> set [64..127] \<or> uint b \<in> set [128..191] \<or> uint b \<in> set [192..255]"
    by (simp only: set_upto)
  then have "byte_ok (word_of_int (uint b))"
    by (elim disjE)
      (rule bspec [OF byte_checks0 [unfolded list_all_iff]] bspec [OF byte_checks1 [unfolded list_all_iff]]
        bspec [OF byte_checks2 [unfolded list_all_iff]] bspec [OF byte_checks3 [unfolded list_all_iff]], assumption)+
  then show ?thesis by simp
qed

lemma ones_byte:
  "of_nat (ones b) = of_bool (bit b 0) + of_bool (bit b 1) + of_bool (bit b 2) + of_bool (bit b 3)
     + of_bool (bit b 4) + of_bool (bit b 5) + of_bool (bit b 6) + (of_bool (bit b 7) :: byte)" for b :: byte
  by (simp add: ones_def numeral_eq_Suc)

lemma byte_steps:
  "drop_bit 1 b AND 0x55 \<le> b"
  "unat (drop_bit 2 (byte_step1 b) AND 0x33) + unat (byte_step1 b AND 0x33) < 256"
  "byte_step2 (byte_step1 b) \<le> 0x44" "byte_step2 (byte_step1 b) AND 0x0F \<le> 4"
  "byte_step3 (byte_step2 (byte_step1 b)) = of_nat (ones b)"
proof -
  note ok = byte_ok [of b, unfolded byte_ok_def step2_ok_def step3_ok_def]
  show "drop_bit 1 b AND 0x55 \<le> b" "byte_step2 (byte_step1 b) \<le> 0x44" "byte_step2 (byte_step1 b) AND 0x0F \<le> 4"
    using ok by blast+
  show "byte_step3 (byte_step2 (byte_step1 b)) = of_nat (ones b)"
    unfolding ones_byte using ok by blast
  have "uint (drop_bit 2 (byte_step1 b) AND 0x33) + uint (byte_step1 b AND 0x33) < 256"
    using ok by blast
  then show "unat (drop_bit 2 (byte_step1 b) AND 0x33) + unat (byte_step1 b AND 0x33) < 256"
    unfolding uint_nat by linarith
qed

text \<open>A mask that repeats a byte over the word.\<close>

definition repeats :: "byte \<Rightarrow> 'a::len word \<Rightarrow> bool" where
  "repeats b m \<longleftrightarrow> 8 dvd LENGTH('a) \<and> (\<forall>j. byte_of m j = (if 8 * j < LENGTH('a) then b else 0))"

lemma byte_of_beyond: "LENGTH('a) \<le> 8 * j \<Longrightarrow> byte_of w j = 0" for w :: "'a::len word"
  by (rule bit_word_eqI) (auto simp: byte_of_def bit_simps dest: bit_imp_le_length)

lemma word_step1:
  fixes x :: "'a::len word"
  assumes m: "repeats 0x55 (m :: 'a word)"
  shows "byte_of (x - (drop_bit 1 x AND m)) j = byte_step1 (byte_of x j)"
proof -
  have s: "byte_of (drop_bit 1 x AND m) i = drop_bit 1 (byte_of x i) AND 0x55" for i
    using m byte_of_drop_and [of 1 m i x] byte_of_beyond [of i x]
    by (auto simp: repeats_def byte_of_and)
  have "drop_bit 1 x AND m \<le> drop_bit 1 x" by (rule word_and_le2)
  moreover have "drop_bit 1 x \<le> x"
    by (simp add: word_le_nat_alt unat_drop_bit_eq drop_bit_eq_div [where 'a=nat])
  ultimately have le: "drop_bit 1 x AND m \<le> x" by (rule order_trans)
  show ?thesis
    unfolding byte_step1_def s [symmetric]
    by (rule byte_of_diff [OF _ le]) (simp only: s byte_steps)
qed

lemma word_step2:
  fixes x :: "'a::len word"
  assumes m: "repeats 0x33 (m :: 'a word)" and x: "\<And>j. \<exists>b. byte_of x j = byte_step1 b"
  shows "byte_of ((drop_bit 2 x AND m) + (x AND m)) j = byte_step2 (byte_of x j)"
proof -
  have s: "byte_of (drop_bit 2 x AND m) i = drop_bit 2 (byte_of x i) AND 0x33"
    "byte_of (x AND m) i = byte_of x i AND 0x33" for i
    using m byte_of_drop_and [of 2 m i x] byte_of_beyond [of i x]
    by (auto simp: repeats_def byte_of_and)
  show ?thesis
    unfolding byte_step2_def s [symmetric]
  proof (rule byte_of_add)
    show "8 dvd LENGTH('a)" using m by (simp add: repeats_def)
    show "unat (byte_of (drop_bit 2 x AND m) i) + unat (byte_of (x AND m) i) < 256" for i
      using x [of i] byte_steps(2) unfolding s by metis
  qed
qed

text \<open>The third step shifts before it masks: what crosses from the next byte is masked away.\<close>

lemma byte_of_drop:
  "k \<le> 8 \<Longrightarrow> byte_of (drop_bit k x) j = drop_bit k (byte_of x j) OR push_bit (8 - k) (byte_of x (Suc j))"
  by (rule bit_word_eqI) (auto simp: byte_of_def bit_simps ac_simps)

lemma word_step3:
  fixes x :: "'a::len word"
  assumes m: "repeats 0x0F (m :: 'a word)" and x: "\<And>j. byte_of x j \<le> 0x44 \<and> byte_of x j AND 0x0F \<le> 4"
  shows "byte_of ((x + drop_bit 4 x) AND m) j = byte_step3 (byte_of x j)"
proof -
  have disj: "drop_bit 4 b OR push_bit 4 c = drop_bit 4 b + push_bit 4 c" for b c :: byte
    by (rule disjunctive_add_eq_or [symmetric], rule bit_eqI) (auto simp: bit_simps dest: bit_imp_le_length)
  have d: "byte_of (drop_bit 4 x) i = drop_bit 4 (byte_of x i) + push_bit 4 (byte_of x (Suc i))" for i
    by (simp add: byte_of_drop disj)
  have small: "unat (byte_of x i) + unat (byte_of (drop_bit 4 x) i) < 256" for i
  proof -
    let ?b = "byte_of x i" and ?c = "byte_of x (Suc i)"
    have b: "unat ?b \<le> 0x44" and c: "unat (?c AND 0x0F) \<le> 4"
      using x [of i] x [of "Suc i"] by (auto simp: word_le_nat_alt)
    have "push_bit 4 ?c = push_bit 4 (take_bit 4 ?c)"
      by (rule bit_word_eqI) (auto simp: bit_simps)
    also have "take_bit 4 ?c = ?c AND 0x0F" by (simp add: take_bit_eq_mask mask_eq_exp_minus_1)
    finally have "push_bit 4 ?c = push_bit 4 (?c AND 0x0F)" .
    then have "unat (push_bit 4 ?c) \<le> 64"
      using c by (simp add: push_bit_eq_mult unat_word_ariths)
    moreover have "unat (drop_bit 4 ?b) \<le> 4"
      using b by (simp add: unat_drop_bit_eq drop_bit_eq_div [where 'a=nat])
    ultimately have "unat (byte_of (drop_bit 4 x) i) \<le> 68"
      unfolding d by (simp add: unat_word_ariths)
    with b show ?thesis by linarith
  qed
  have "byte_of (x + drop_bit 4 x) j = byte_of x j + byte_of (drop_bit 4 x) j"
    using m small by (intro byte_of_add) (simp_all add: repeats_def)
  then have sum: "byte_of (x + drop_bit 4 x) j = byte_of x j + drop_bit 4 (byte_of x j) + push_bit 4 (byte_of x (Suc j))"
    by (simp add: d add.assoc)
  have low: "(y + push_bit 4 c) AND 0x0F = y AND 0x0F" for y c :: byte
  proof -
    have "unat (y + push_bit 4 c) mod 16 = unat y mod 16"
    proof -
      have "unat (y + push_bit 4 c) mod 16 = (unat y + unat (push_bit 4 c)) mod 2 ^ 8 mod 16"
        by (simp only: unat_word_ariths word_size) simp
      also have "\<dots> = (unat y + unat (push_bit 4 c)) mod 16"
        by (rule mod_mod_cancel) simp
      also have "unat (push_bit 4 c) = take_bit 8 (unat c * 16)"
        by (simp add: push_bit_eq_mult unat_word_ariths take_bit_eq_mod)
      also have "(unat y + take_bit 8 (unat c * 16)) mod 16 = (unat y + take_bit 8 (unat c * 16) mod 16) mod 16"
        by (simp only: mod_add_right_eq)
      also have "take_bit 8 (unat c * 16) mod 16 = unat c * 16 mod 16"
        unfolding take_bit_eq_mod by (rule mod_mod_cancel) simp
      finally show ?thesis by simp
    qed
    then have "unat (take_bit 4 (y + push_bit 4 c)) = unat (take_bit 4 y)"
      by (simp add: unsigned_take_bit_eq take_bit_eq_mod [where 'a=nat])
    then show ?thesis by (simp add: take_bit_eq_mask mask_eq_exp_minus_1 word_unat_eq_iff)
  qed
  show ?thesis
  proof (cases "8 * j < LENGTH('a)")
    case True
    with m show ?thesis
      unfolding byte_of_and sum byte_step3_def by (simp add: repeats_def low)
  next
    case False
    then show ?thesis by (simp add: byte_of_beyond byte_step3_def)
  qed
qed

lemma byte_of_fold:
  fixes x :: "'a::len word"
  assumes "8 dvd LENGTH('a)" "\<And>j. unat (byte_of x j) \<le> B" "2 * B < 256"
  shows "unat (byte_of (x + drop_bit (8 * k) x) j) = unat (byte_of x j) + unat (byte_of x (j + k))"
proof -
  have small: "unat (byte_of x i) + unat (byte_of x (i + k)) < 256" for i
    using assms(2) [of i] assms(2) [of "i + k"] assms(3) by linarith
  have "byte_of (x + drop_bit (8 * k) x) j = byte_of x j + byte_of (drop_bit (8 * k) x) j"
    using assms(1) small by (intro byte_of_add) (simp_all add: byte_of_drop_bytes)
  then show ?thesis
    using small [of j] by (simp add: byte_of_drop_bytes unat_word_ariths)
qed

lemma byte_of_ucast: "8 * Suc j \<le> LENGTH('b) \<Longrightarrow> byte_of (ucast x :: 'b::len word) j = byte_of x j"
  by (rule bit_word_eqI) (auto simp: byte_of_def bit_simps)

lemma ones_bytes: "8 dvd LENGTH('a) \<Longrightarrow> ones x = (\<Sum>j<LENGTH('a) div 8. ones (byte_of x j))" for x :: "'a::len word"
proof -
  have "bits_below (8 * n) x = (\<Sum>j<n. ones (byte_of x j))" for n
  proof (induction n)
    case (Suc n)
    have "bits_below 8 (drop_bit (8 * n) x) = ones (byte_of x n)"
      using bits_below_cong [of 8 "drop_bit (8 * n) x" "byte_of x n"]
      by (simp add: ones_def byte_of_def bit_simps)
    then show ?case using Suc bits_below_add [of "8 * n" 8 x] by (simp add: add.commute)
  qed simp
  then show "8 dvd LENGTH('a) \<Longrightarrow> ones x = (\<Sum>j<LENGTH('a) div 8. ones (byte_of x j))"
    unfolding ones_def by (metis dvd_mult_div_cancel)
qed

text \<open>All three steps, at any width.\<close>

lemma word_steps:
  fixes x :: "'a::len word"
  assumes m: "repeats 0x55 (m1 :: 'a word)" "repeats 0x33 (m2 :: 'a word)" "repeats 0x0F (m3 :: 'a word)"
    and y: "y = x - (drop_bit 1 x AND m1)" "z = (drop_bit 2 y AND m2) + (y AND m2)"
  shows "byte_of ((z + drop_bit 4 z) AND m3) j = of_nat (ones (byte_of x j))"
proof -
  have y': "byte_of y i = byte_step1 (byte_of x i)" for i
    unfolding y by (rule word_step1 [OF m(1)])
  have z': "byte_of z i = byte_step2 (byte_step1 (byte_of x i))" for i
    unfolding y(2) y' [symmetric] by (rule word_step2 [OF m(2)]) (use y' in blast)
  show ?thesis
    using word_step3 [OF m(3), of z] byte_steps(3-5) by (simp add: z')
qed

lemma bits_below_le: "bits_below n x \<le> n"
  by (induction n) auto

lemma ones_byte_le: "ones b \<le> 8" for b :: byte
  using bits_below_le [of 8 b] by (simp add: ones_def)

lemma unat_ones_byte: "unat (of_nat (ones b) :: byte) = ones b" for b :: byte
  using ones_byte_le [of b] by (simp add: unat_of_nat)

lemma low_byte: "unat (x AND m) = unat (byte_of x 0) mod 2 ^ k"
  if "m = mask k" "k \<le> 8" for x :: "'a::len word"
proof -
  have "unat (x AND m) = unat x mod 2 ^ k"
    by (simp add: that take_bit_eq_mask [symmetric] unsigned_take_bit_eq take_bit_eq_mod [where 'a=nat])
  also have "\<dots> = unat x mod 256 mod 2 ^ k"
    using that(2) le_imp_power_dvd [of k 8 "2::nat"] by (simp add: mod_mod_cancel)
  finally show ?thesis by (simp add: unat_byte_of)
qed

text \<open>Masks of the code, and the final sums of the bytes.\<close>

lemma byte_of_repeat:
  "8 dvd LENGTH('a) \<Longrightarrow> list_all (\<lambda>j. byte_of m j = b) [0..<LENGTH('a) div 8] \<Longrightarrow> repeats b m" for m :: "'a::len word"
  using byte_of_beyond [of _ m] by (auto simp: repeats_def list_all_iff less_mult_imp_div_less not_less elim!: dvdE)

lemma byte_of_literal: "byte_of w j = of_nat (unat w div 256 ^ j)"
  by (simp add: word_unat_eq_iff unat_byte_of unat_of_nat)

lemma three: "(1::nat) + 2 = 3"
  by simp

lemma sum4: "(\<Sum>j<4. f j) = f 0 + f 1 + f 2 + f (3 :: nat)" for f :: "nat \<Rightarrow> nat"
  by (simp add: eval_nat_numeral)

lemma sum8: "(\<Sum>j<8. f j) = f 0 + f 1 + f 2 + f 3 + f 4 + f 5 + f 6 + f (7 :: nat)" for f :: "nat \<Rightarrow> nat"
  by (simp add: eval_nat_numeral)

lemma sum16: "(\<Sum>j<16. f j) = f 0 + f 1 + f 2 + f 3 + f 4 + f 5 + f 6 + f 7 + f 8 + f 9 + f 10
    + f 11 + f 12 + f 13 + f 14 + f (15 :: nat)" for f :: "nat \<Rightarrow> nat"
  by (simp add: eval_nat_numeral)

lemma popcountsi2_ones: "unat (popcountsi2 a) = ones a"
proof -
  define y where "y = a - (drop_bit 1 a AND 0x55555555)"
  define z where "z = (drop_bit 2 y AND 0x33333333) + (y AND 0x33333333)"
  define w where "w = (z + drop_bit 4 z) AND 0x0F0F0F0F"
  define v where "v = w + drop_bit 16 w"
  have m: "repeats 0x55 (0x55555555 :: su_int)" "repeats 0x33 (0x33333333 :: su_int)" "repeats 0x0F (0x0F0F0F0F :: su_int)"
    by (rule byte_of_repeat; simp add: upt_conv_Cons byte_of_literal)+
  have w: "byte_of w j = of_nat (ones (byte_of a j))" for j
    unfolding w_def by (rule word_steps [OF m y_def z_def])
  have w': "unat (byte_of w j) = ones (byte_of a j)" "unat (byte_of w j) \<le> 8" for j
    using ones_byte_le by (simp_all only: w unat_ones_byte)
  have v: "unat (byte_of v j) = ones (byte_of a j) + ones (byte_of a (j + 2))" for j
    using byte_of_fold [OF _ w'(2), of 2 j] by (simp only: v_def w') simp
  have v': "unat (byte_of v j) \<le> 16" for j
    using ones_byte_le [of "byte_of a j"] ones_byte_le [of "byte_of a (j + 2)"] unfolding v by linarith
  have "unat (byte_of (v + drop_bit (8 * 1) v) 0) = unat (byte_of v 0) + unat (byte_of v (0 + 1))"
    by (rule byte_of_fold [OF _ v']) simp_all
  then have r: "unat (byte_of (v + drop_bit 8 v) 0) = ones a"
    using v [of 0, unfolded add_0] v [of 1, unfolded three] ones_bytes [of a] by (simp add: sum4)
  have "ones a \<le> 32" using bits_below_le [of 32 a] by (simp add: ones_def)
  then show ?thesis
    using low_byte [of "0x3F" 6 "v + drop_bit 8 v"] r
    by (simp add: popcountsi2_def Let_def y_def z_def w_def v_def mask_eq_exp_minus_1)
qed

lemma du_masks:
  "repeats 0x55 (0x5555555555555555 :: du_int)" "repeats 0x33 (0x3333333333333333 :: du_int)"
  "repeats 0x0F (0x0F0F0F0F0F0F0F0F :: du_int)"
  by (rule byte_of_repeat; simp add: upt_conv_Cons byte_of_literal)+

lemma repeats_twice:
  assumes "repeats b (m :: du_int)" shows "repeats b (push_bit 64 (ucast m) OR ucast m :: tu_int)"
proof -
  have "byte_of (push_bit 64 (ucast m) OR ucast m :: tu_int) j
      = (if j < 8 then byte_of m j else byte_of m (j - 8))" for j
  proof (cases "j < 8")
    case True
    then show ?thesis by (intro bit_word_eqI) (auto simp: byte_of_def bit_simps)
  next
    case False
    then obtain k where "j = k + 8" using le_Suc_ex [of 8 j] by (auto simp: add.commute)
    then show ?thesis by (intro bit_word_eqI) (auto simp: byte_of_def bit_simps dest: bit_imp_le_length)
  qed
  with assms show ?thesis by (auto simp: repeats_def)
qed

lemma popcountdi2_ones: "unat (popcountdi2 a) = ones a"
proof -
  define y where "y = a - (drop_bit 1 a AND 0x5555555555555555)"
  define z where "z = (drop_bit 2 y AND 0x3333333333333333) + (y AND 0x3333333333333333)"
  define w where "w = (z + drop_bit 4 z) AND 0x0F0F0F0F0F0F0F0F"
  define u where "u = (ucast (w + drop_bit 32 w) :: su_int)"
  define v where "v = u + drop_bit 16 u"
  have w: "byte_of w j = of_nat (ones (byte_of a j))" for j
    unfolding w_def by (rule word_steps [OF du_masks y_def z_def])
  have w': "unat (byte_of w j) = ones (byte_of a j)" "unat (byte_of w j) \<le> 8" for j
    using ones_byte_le by (simp_all only: w unat_ones_byte)
  have u: "j < 4 \<Longrightarrow> unat (byte_of u j) = ones (byte_of a j) + ones (byte_of a (j + 4))" for j
    using byte_of_fold [OF _ w'(2), of 4 j] by (simp add: u_def w' byte_of_ucast)
  have u': "unat (byte_of u j) \<le> 16" for j
    using u [of j] ones_byte_le [of "byte_of a j"] ones_byte_le [of "byte_of a (j + 4)"] byte_of_beyond [of j u]
    by (cases "j < 4") simp_all
  have v: "unat (byte_of v j) = unat (byte_of u j) + unat (byte_of u (j + 2))" for j
    using byte_of_fold [OF _ u', of 2 j] by (simp only: v_def) simp
  have v': "unat (byte_of v j) \<le> 32" for j
    using u' [of j] u' [of "j + 2"] unfolding v by linarith
  have "unat (byte_of (v + drop_bit (8 * 1) v) 0) = unat (byte_of v 0) + unat (byte_of v (0 + 1))"
    by (rule byte_of_fold [OF _ v']) simp_all
  then have r: "unat (byte_of (v + drop_bit 8 v) 0) = ones a"
    using v [of 0, unfolded add_0] v [of 1, unfolded three] ones_bytes [of a] by (simp add: sum8 u)
  have "ones a \<le> 64" using bits_below_le [of 64 a] by (simp add: ones_def)
  then show ?thesis
    using low_byte [of "0x7F" 7 "v + drop_bit 8 v"] r
    by (simp add: popcountdi2_def Let_def y_def z_def w_def u_def v_def mask_eq_exp_minus_1)
qed

lemma widen:
  "ucast (0x5555555555555555 :: du_int) = (0x5555555555555555 :: tu_int)"
  "ucast (0x3333333333333333 :: du_int) = (0x3333333333333333 :: tu_int)"
  "ucast (0x0F0F0F0F0F0F0F0F :: du_int) = (0x0F0F0F0F0F0F0F0F :: tu_int)"
  by simp_all

lemma popcountti2_ones: "unat (popcountti2 a) = ones a"
proof -
  let ?m1 = "push_bit 64 0x5555555555555555 OR 0x5555555555555555 :: tu_int"
  let ?m2 = "push_bit 64 0x3333333333333333 OR 0x3333333333333333 :: tu_int"
  let ?m3 = "push_bit 64 0x0F0F0F0F0F0F0F0F OR 0x0F0F0F0F0F0F0F0F :: tu_int"
  define y where "y = a - (drop_bit 1 a AND ?m1)"
  define z where "z = (drop_bit 2 y AND ?m2) + (y AND ?m2)"
  define w where "w = (z + drop_bit 4 z) AND ?m3"
  define t where "t = (ucast (w + drop_bit 64 w) :: du_int)"
  define u where "u = (ucast (t + drop_bit 32 t) :: su_int)"
  define v where "v = u + drop_bit 16 u"
  have m: "repeats 0x55 ?m1" "repeats 0x33 ?m2" "repeats 0x0F ?m3"
    by (rule repeats_twice [OF du_masks(1), unfolded widen]
        repeats_twice [OF du_masks(2), unfolded widen] repeats_twice [OF du_masks(3), unfolded widen])+
  have w: "byte_of w j = of_nat (ones (byte_of a j))" for j
    unfolding w_def by (rule word_steps [OF m y_def z_def])
  have w': "unat (byte_of w j) = ones (byte_of a j)" "unat (byte_of w j) \<le> 8" for j
    using ones_byte_le by (simp_all only: w unat_ones_byte)
  have t: "j < 8 \<Longrightarrow> unat (byte_of t j) = ones (byte_of a j) + ones (byte_of a (j + 8))" for j
    using byte_of_fold [OF _ w'(2), of 8 j] by (simp add: t_def w' byte_of_ucast)
  have t': "unat (byte_of t j) \<le> 16" for j
    using t [of j] ones_byte_le [of "byte_of a j"] ones_byte_le [of "byte_of a (j + 8)"] byte_of_beyond [of j t]
    by (cases "j < 8") simp_all
  have u: "j < 4 \<Longrightarrow> unat (byte_of u j) = unat (byte_of t j) + unat (byte_of t (j + 4))" for j
    using byte_of_fold [OF _ t', of 4 j] by (simp add: u_def byte_of_ucast)
  have u': "unat (byte_of u j) \<le> 32" for j
    using u [of j] t' [of j] t' [of "j + 4"] byte_of_beyond [of j u] by (cases "j < 4") simp_all
  have v: "unat (byte_of v j) = unat (byte_of u j) + unat (byte_of u (j + 2))" for j
    using byte_of_fold [OF _ u', of 2 j] by (simp only: v_def) simp
  have v': "unat (byte_of v j) \<le> 64" for j
    using u' [of j] u' [of "j + 2"] unfolding v by linarith
  have "unat (byte_of (v + drop_bit (8 * 1) v) 0) = unat (byte_of v 0) + unat (byte_of v (0 + 1))"
    by (rule byte_of_fold [OF _ v']) simp_all
  then have r: "unat (byte_of (v + drop_bit 8 v) 0) = ones a"
    using v [of 0, unfolded add_0] v [of 1, unfolded three] ones_bytes [of a] by (simp add: sum16 u t)
  have "ones a \<le> 128" using bits_below_le [of 128 a] by (simp add: ones_def)
  then have "unat ((v + drop_bit 8 v) AND 0xFF) = ones a"
    using low_byte [of "0xFF" 8 "v + drop_bit 8 v"] r by (simp add: mask_eq_exp_minus_1)
  then show ?thesis
    by (simp only: popcountti2_def Let_def y_def z_def w_def t_def u_def v_def)
qed


section \<open>The property of the component\<close>

text \<open>\<open>popcount\<close> counts the set bits at every width.\<close>

theorem popcount_correct:
  "unat (popcountsi2 a) = card {i. i < 32 \<and> bit a i}
   \<and> unat (popcountdi2 b) = card {i. i < 64 \<and> bit b i}
   \<and> unat (popcountti2 c) = card {i. i < 128 \<and> bit c i}"
  by (simp add: popcountsi2_ones popcountdi2_ones popcountti2_ones ones_def bits_below_card)

end
