(* ===== verification/IntArith.thy ===== *)
theory IntArith
  imports Prelude "HOL-Library.Signed_Division"
begin

text \<open>
  Checked and two-word arithmetic: the \<open>-ftrapv\<close> routines \<^verbatim>\<open>negv?i2.c\<close>, \<^verbatim>\<open>absv?i2.c\<close>,
  \<^verbatim>\<open>addv?i3.c\<close>, \<^verbatim>\<open>subv?i3.c\<close>, \<^verbatim>\<open>mulv?i3.c\<close> (\<^verbatim>\<open>int_mulv_impl.inc\<close>), the overflow flag of
  \<^verbatim>\<open>mulo?i4.c\<close> (\<^verbatim>\<open>int_mulo_impl.inc\<close>), \<^verbatim>\<open>negdi2.c\<close>, \<^verbatim>\<open>negti2.c\<close>, and the products
  \<^verbatim>\<open>muldi3.c\<close> and \<^verbatim>\<open>multi3.c\<close>.  The source repeats one body at three widths; the body is a
  definition over a word of any length, each routine its instance.  A call of
  \<open>compilerrt_abort\<close>, which does not return, is \<open>None\<close>.
\<close>

unbundle bit_operations_syntax

section \<open>Signed values and their range\<close>

definition fits :: "nat \<Rightarrow> int \<Rightarrow> bool" where
  "fits w k \<longleftrightarrow> - (2 ^ (w - 1)) \<le> k \<and> k < 2 ^ (w - 1)"

text \<open>Division of signed integers in C: the quotient is rounded towards zero.\<close>

definition c_sdiv :: "'a::len word \<Rightarrow> 'a word \<Rightarrow> 'a word" where
  "c_sdiv a b = word_of_int (sint a sdiv sint b)"

lemma fits_sint [simp]: "fits LENGTH('a) (sint a)" for a :: "'a::len word"
  using sint_ge [of a] sint_lt [of a] by (simp add: fits_def)

lemma sint_of_fits: "fits LENGTH('a) k \<Longrightarrow> sint (word_of_int k :: 'a::len word) = k"
  by (simp add: fits_def sint_sbintrunc' signed_take_bit_int_eq_self)

lemma wrap_once:
  fixes k :: int
  assumes "- (2 * 2 ^ n) \<le> k" "k < 2 * 2 ^ n"
  shows "signed_take_bit n k = (if k < - (2 ^ n) then k + 2 * 2 ^ n else if 2 ^ n \<le> k then k - 2 * 2 ^ n else k)"
proof -
  define M :: int where "M = 2 * 2 ^ n"
  have s: "signed_take_bit n k = (k + 2 ^ n) mod M - 2 ^ n"
    by (simp add: signed_take_bit_eq_take_bit_shift take_bit_eq_mod M_def)
  have up: "(k + 2 ^ n) mod M = (k + 2 ^ n + M) mod M" and down: "(k + 2 ^ n) mod M = (k + 2 ^ n - M) mod M"
    by simp_all
  consider "k < - (2 ^ n)" | "2 ^ n \<le> k" | "- (2 ^ n) \<le> k" "k < 2 ^ n" by linarith
  then show ?thesis
  proof cases
    case 1
    then show ?thesis using assms unfolding s up by (simp add: M_def)
  next
    case 2
    then show ?thesis using assms unfolding s down by (simp add: M_def)
  next
    case 3
    then show ?thesis using assms unfolding s by (simp add: M_def)
  qed
qed

lemma top_power: "(2::int) ^ LENGTH('a::len) = 2 * 2 ^ (LENGTH('a) - Suc 0)"
  by (metis Suc_pred len_gt_0 power_Suc)

text \<open>One wrap-around is all a sum, a difference or a negation can need.\<close>

lemma sint_add_wrap:
  "sint (a + b) = (let R = 2 ^ (LENGTH('a) - 1); s = sint a + sint b
     in if s < - R then s + 2 * R else if R \<le> s then s - 2 * R else s)" for a b :: "'a::len word"
  using sint_ge [of a] sint_ge [of b] sint_lt [of a] sint_lt [of b]
  unfolding sint_word_ariths Let_def by (intro wrap_once) simp_all

lemma sint_sub_wrap:
  "sint (a - b) = (let R = 2 ^ (LENGTH('a) - 1); s = sint a - sint b
     in if s < - R then s + 2 * R else if R \<le> s then s - 2 * R else s)" for a b :: "'a::len word"
  using sint_ge [of a] sint_ge [of b] sint_lt [of a] sint_lt [of b]
  unfolding sint_word_ariths Let_def by (intro wrap_once) simp_all

lemma sint_neg_wrap:
  "sint (- a) = (if sint a = - (2 ^ (LENGTH('a) - 1)) then sint a else - sint a)" for a :: "'a::len word"
  using sint_ge [of a] sint_lt [of a]
  by (subst sint_word_ariths, subst wrap_once) auto

section \<open>Negation and absolute value\<close>

definition negdi2 :: "du_int \<Rightarrow> du_int" where
  "negdi2 a = - a"

definition negti2 :: "tu_int \<Rightarrow> tu_int" where
  "negti2 a = - a"

definition negv :: "'a::len word \<Rightarrow> 'a word option" where
  "negv a = (let imin = push_bit (LENGTH('a) - 1) 1 in if a = imin then None else Some (- a))"

definition negvsi2 :: "su_int \<Rightarrow> su_int option" where "negvsi2 a = negv a"
definition negvdi2 :: "du_int \<Rightarrow> du_int option" where "negvdi2 a = negv a"
definition negvti2 :: "tu_int \<Rightarrow> tu_int option" where "negvti2 a = negv a"

definition absv :: "'a::len word \<Rightarrow> 'a word option" where
  "absv a =
     (let N = LENGTH('a) in
      if a = push_bit (N - 1) 1 then None
      else let t = signed_drop_bit (N - 1) a in Some ((a XOR t) - t))"

definition absvsi2 :: "su_int \<Rightarrow> su_int option" where "absvsi2 a = absv a"
definition absvdi2 :: "du_int \<Rightarrow> du_int option" where "absvdi2 a = absv a"
definition absvti2 :: "tu_int \<Rightarrow> tu_int option" where "absvti2 a = absv a"

lemma sint_MIN: "sint (push_bit (LENGTH('a) - 1) 1 :: 'a::len word) = - (2 ^ (LENGTH('a) - 1))"
proof -
  have "bit (push_bit (LENGTH('a) - 1) (1 :: 'a word)) (LENGTH('a) - 1)"
    by (simp add: bit_simps)
  moreover have "uint (push_bit (LENGTH('a) - 1) (1 :: 'a word)) = 2 ^ (LENGTH('a) - 1)"
    by (simp only: unsigned_push_bit_eq unsigned_1) (simp add: take_bit_int_eq_self)
  ultimately show ?thesis
    by (simp add: sint_uint_bit top_power)
qed

lemma MIN_iff: "a = push_bit (LENGTH('a) - 1) 1 \<longleftrightarrow> sint a = - (2 ^ (LENGTH('a) - 1))" for a :: "'a::len word"
  by (metis sint_MIN sint_eq_iff)

lemma sign_spread: "signed_drop_bit (LENGTH('a) - 1) a = (if sint a < 0 then - 1 else 0)" for a :: "'a::len word"
proof -
  have "sint (signed_drop_bit (LENGTH('a) - 1) a) = sint a div 2 ^ (LENGTH('a) - 1)"
    by (simp add: sint_signed_drop_bit_eq drop_bit_eq_div)
  also have "\<dots> = (if sint a < 0 then - 1 else 0)"
  proof (cases "sint a < 0")
    case True
    have "(sint a + 2 ^ (LENGTH('a) - 1)) div 2 ^ (LENGTH('a) - 1) = 0"
      using True sint_ge [of a] by (intro div_pos_pos_trivial) simp_all
    then show ?thesis
      using True div_add_self2 [of "2 ^ (LENGTH('a) - 1)" "sint a"] by simp
  next
    case False
    then show ?thesis using sint_lt [of a] by (simp add: div_pos_pos_trivial)
  qed
  also have "\<dots> = sint (if sint a < 0 then - 1 else 0 :: 'a word)" by simp
  finally show ?thesis by (simp only: sint_eq_iff)
qed

lemma xor_sign: "(a XOR signed_drop_bit (LENGTH('a) - 1) a) - signed_drop_bit (LENGTH('a) - 1) a
   = (if sint a < 0 then - a else a)" for a :: "'a::len word"
proof (cases "sint a < 0")
  case True
  have "(a XOR - 1) - - 1 = NOT a + 1"
    by (simp only: bit.xor_one_right diff_minus_eq_add)
  also have "\<dots> = - a" by (simp only: minus_eq_not_plus_1 [of a])
  finally show ?thesis unfolding sign_spread using True by simp
next
  case False
  then show ?thesis unfolding sign_spread by simp
qed

lemma negv_correct: "negv a = (if fits LENGTH('a) (- sint a) then Some (word_of_int (- sint a)) else None)" for a :: "'a::len word"
  using sint_ge [of a] sint_lt [of a] MIN_iff [of a]
  by (auto simp: negv_def Let_def fits_def)

lemma absv_correct: "absv a = (if fits LENGTH('a) \<bar>sint a\<bar> then Some (word_of_int \<bar>sint a\<bar>) else None)" for a :: "'a::len word"
  using sint_ge [of a] sint_lt [of a] MIN_iff [of a]
  unfolding absv_def Let_def xor_sign by (auto simp: fits_def abs_if)

section \<open>Addition and subtraction\<close>

definition addv :: "'a::len word \<Rightarrow> 'a word \<Rightarrow> 'a word option" where
  "addv a b =
     (let s = a + b in
      if 0 \<le>s b then (if s <s a then None else Some s)
      else (if a \<le>s s then None else Some s))"

definition addvsi3 :: "su_int \<Rightarrow> su_int \<Rightarrow> su_int option" where "addvsi3 a b = addv a b"
definition addvdi3 :: "du_int \<Rightarrow> du_int \<Rightarrow> du_int option" where "addvdi3 a b = addv a b"
definition addvti3 :: "tu_int \<Rightarrow> tu_int \<Rightarrow> tu_int option" where "addvti3 a b = addv a b"

definition subv :: "'a::len word \<Rightarrow> 'a word \<Rightarrow> 'a word option" where
  "subv a b =
     (let s = a - b in
      if 0 \<le>s b then (if a <s s then None else Some s)
      else (if s \<le>s a then None else Some s))"

definition subvsi3 :: "su_int \<Rightarrow> su_int \<Rightarrow> su_int option" where "subvsi3 a b = subv a b"
definition subvdi3 :: "du_int \<Rightarrow> du_int \<Rightarrow> du_int option" where "subvdi3 a b = subv a b"
definition subvti3 :: "tu_int \<Rightarrow> tu_int \<Rightarrow> tu_int option" where "subvti3 a b = subv a b"

lemma addv_correct:
  "addv a b = (if fits LENGTH('a) (sint a + sint b) then Some (word_of_int (sint a + sint b)) else None)" for a b :: "'a::len word"
  using sint_ge [of a] sint_lt [of a] sint_ge [of b] sint_lt [of b] sint_add_wrap [of a b]
  by (auto simp: addv_def Let_def fits_def word_sless_alt word_sle_eq split: if_splits)

lemma subv_correct:
  "subv a b = (if fits LENGTH('a) (sint a - sint b) then Some (word_of_int (sint a - sint b)) else None)" for a b :: "'a::len word"
  using sint_ge [of a] sint_lt [of a] sint_ge [of b] sint_lt [of b] sint_sub_wrap [of a b]
  by (auto simp: subv_def Let_def fits_def word_sless_alt word_sle_eq split: if_splits)

section \<open>Signed products with a test for overflow\<close>

definition mulvXi3 :: "'a::len word \<Rightarrow> 'a word \<Rightarrow> 'a word option" where
  "mulvXi3 a b =
     (let N = LENGTH('a);
          imin = push_bit (N - 1) 1;
          imax = NOT imin
      in if a = imin then (if b = 0 \<or> b = 1 then Some (a * b) else None)
      else if b = imin then (if a = 0 \<or> a = 1 then Some (a * b) else None)
      else
        let sa = signed_drop_bit (N - 1) a;
            abs_a = (a XOR sa) - sa;
            sb = signed_drop_bit (N - 1) b;
            abs_b = (b XOR sb) - sb
        in if abs_a <s 2 \<or> abs_b <s 2 then Some (a * b)
        else if sa = sb then (if c_sdiv imax abs_b <s abs_a then None else Some (a * b))
        else (if c_sdiv imin (- abs_b) <s abs_a then None else Some (a * b)))"

definition mulvsi3 :: "su_int \<Rightarrow> su_int \<Rightarrow> su_int option" where "mulvsi3 a b = mulvXi3 a b"
definition mulvdi3 :: "du_int \<Rightarrow> du_int \<Rightarrow> du_int option" where "mulvdi3 a b = mulvXi3 a b"
definition mulvti3 :: "tu_int \<Rightarrow> tu_int \<Rightarrow> tu_int option" where "mulvti3 a b = mulvXi3 a b"

text \<open>The \<open>mulo\<close> routines return the product and store the flag through a pointer: a pair here.\<close>

definition muloXi4 :: "'a::len word \<Rightarrow> 'a word \<Rightarrow> 'a word \<times> su_int" where
  "muloXi4 a b =
     (let N = LENGTH('a);
          imin = push_bit (N - 1) 1;
          imax = NOT imin;
          overflow = 0;
          result = a * b
      in if a = imin then (result, if b \<noteq> 0 \<and> b \<noteq> 1 then 1 else overflow)
      else if b = imin then (result, if a \<noteq> 0 \<and> a \<noteq> 1 then 1 else overflow)
      else
        let sa = signed_drop_bit (N - 1) a;
            abs_a = (a XOR sa) - sa;
            sb = signed_drop_bit (N - 1) b;
            abs_b = (b XOR sb) - sb
        in if abs_a <s 2 \<or> abs_b <s 2 then (result, overflow)
        else if sa = sb then (result, if c_sdiv imax abs_b <s abs_a then 1 else overflow)
        else (result, if c_sdiv imin (- abs_b) <s abs_a then 1 else overflow))"

definition mulosi4 :: "su_int \<Rightarrow> su_int \<Rightarrow> su_int \<times> su_int" where "mulosi4 a b = muloXi4 a b"
definition mulodi4 :: "du_int \<Rightarrow> du_int \<Rightarrow> du_int \<times> su_int" where "mulodi4 a b = muloXi4 a b"
definition muloti4 :: "tu_int \<Rightarrow> tu_int \<Rightarrow> tu_int \<times> su_int" where "muloti4 a b = muloXi4 a b"

lemma sint_mul_fits: "fits LENGTH('a) (sint a * sint b) \<Longrightarrow> sint (a * b) = sint a * sint b" for a b :: "'a::len word"
  by (simp add: sint_word_ariths fits_def signed_take_bit_int_eq_self)

lemma word_mul_int: "a * b = word_of_int (sint a * sint b)" for a b :: "'a::len word"
  by simp

text \<open>
  The arithmetic of the test: with both operands away from the minimum and at least 2 in
  absolute value, the product is in range iff the one factor is at most the rounded quotient
  of the limit by the other.
\<close>

lemma mult_le_iff_le_div: "p * q \<le> r \<longleftrightarrow> p \<le> r div q" if "0 < q" for p q r :: int
proof
  assume "p * q \<le> r"
  then have "p * q div q \<le> r div q" using that by (intro zdiv_mono1)
  with that show "p \<le> r div q" by simp
next
  assume "p \<le> r div q"
  then have "p * q \<le> r div q * q" using that by (intro mult_right_mono) auto
  also have "\<dots> \<le> r" using that by (metis pos_mod_sign add_increasing2 div_mult_mod_eq order_refl)
  finally show "p * q \<le> r" .
qed

lemma product_small:
  fixes A B R :: int
  assumes "\<bar>A\<bar> < R" "\<bar>B\<bar> < R" "\<bar>A\<bar> < 2 \<or> \<bar>B\<bar> < 2"
  shows "- R \<le> A * B \<and> A * B < R"
proof -
  have "A \<in> {-1, 0, 1} \<or> B \<in> {-1, 0, 1}" using assms(3) by auto
  with assms(1,2) show ?thesis by auto
qed

lemma product_test:
  fixes A B R :: int
  assumes "\<bar>A\<bar> < R" "\<bar>B\<bar> < R" "2 \<le> \<bar>A\<bar>" "2 \<le> \<bar>B\<bar>"
  shows "- R \<le> A * B \<and> A * B < R
     \<longleftrightarrow> \<bar>A\<bar> \<le> (if A < 0 \<longleftrightarrow> B < 0 then (R - 1) div \<bar>B\<bar> else R div \<bar>B\<bar>)"
proof (cases "A < 0 \<longleftrightarrow> B < 0")
  case True
  then have "A * B = \<bar>A\<bar> * \<bar>B\<bar>" by (auto simp: abs_if)
  then have "- R \<le> A * B \<and> A * B < R \<longleftrightarrow> \<bar>A\<bar> * \<bar>B\<bar> \<le> R - 1"
    using assms(1) by (auto intro: order_trans [of _ 0])
  also have "\<dots> \<longleftrightarrow> \<bar>A\<bar> \<le> (R - 1) div \<bar>B\<bar>"
    using assms(4) by (intro mult_le_iff_le_div) linarith
  finally show ?thesis using True by simp
next
  case False
  then have "A * B = - (\<bar>A\<bar> * \<bar>B\<bar>)" by (auto simp: abs_if)
  moreover have "0 < \<bar>A\<bar> * \<bar>B\<bar>" using assms(3,4) by (intro mult_pos_pos) linarith+
  ultimately have "- R \<le> A * B \<and> A * B < R \<longleftrightarrow> \<bar>A\<bar> * \<bar>B\<bar> \<le> R"
    using assms(1) by linarith
  also have "\<dots> \<longleftrightarrow> \<bar>A\<bar> \<le> R div \<bar>B\<bar>"
    using assms(4) by (intro mult_le_iff_le_div) linarith
  finally show ?thesis using False by simp
qed

lemma sint_not: "sint (NOT w) = - sint w - 1" for w :: "'a::len word"
proof -
  have "NOT w = word_of_int (- sint w - 1)"
    by (simp add: not_eq_complement)
  moreover have "fits LENGTH('a) (- sint w - 1)"
    using sint_ge [of w] sint_lt [of w] by (simp add: fits_def)
  ultimately show ?thesis by (simp only: sint_of_fits)
qed

lemma c_sdiv_limits:
  fixes b :: "'a::len word"
  assumes "2 \<le> sint b"
  shows "sint (c_sdiv (NOT (push_bit (LENGTH('a) - 1) 1)) b) = (2 ^ (LENGTH('a) - 1) - 1) div sint b"
    and "sint (c_sdiv (push_bit (LENGTH('a) - 1) 1) (- b)) = 2 ^ (LENGTH('a) - 1) div sint b"
proof -
  define R :: int where "R = 2 ^ (LENGTH('a) - 1)"
  have R: "sint b < R" using sint_lt [of b] by (simp add: R_def)
  have "0 < R" by (simp add: R_def)
  with assms have neg: "sint (- b) = - sint b"
    unfolding sint_neg_wrap R_def [symmetric] by auto
  have range: "0 \<le> p div sint b \<and> p div sint b < R" if "0 \<le> p" "p \<le> R" for p
  proof -
    have "p div sint b \<le> p div 2" using assms that by (intro zdiv_mono2) auto
    with that R assms show ?thesis by (auto simp: pos_imp_zdiv_nonneg_iff)
  qed
  have "(R - 1) sdiv sint b = (R - 1) div sint b"
    using R assms by (simp add: signed_divide_int_def sgn_if)
  then show "sint (c_sdiv (NOT (push_bit (LENGTH('a) - 1) 1)) b) = (2 ^ (LENGTH('a) - 1) - 1) div sint b"
    unfolding c_sdiv_def sint_not sint_MIN R_def [symmetric]
    using range [of "R - 1"] R assms by (subst sint_of_fits) (auto simp: fits_def R_def)
  have "- R sdiv - sint b = R div sint b"
    using R assms by (simp add: signed_divide_int_def sgn_if)
  then show "sint (c_sdiv (push_bit (LENGTH('a) - 1) 1) (- b)) = 2 ^ (LENGTH('a) - 1) div sint b"
    unfolding c_sdiv_def sint_MIN neg R_def [symmetric]
    using range [of R] R assms by (subst sint_of_fits) (auto simp: fits_def R_def)
qed

lemma muloXi4_correct:
  fixes a b :: "'a::len word"
  assumes "3 \<le> LENGTH('a)"
  shows "muloXi4 a b = (a * b, if fits LENGTH('a) (sint a * sint b) then 0 else 1)"
proof -
  define R :: int where "R = 2 ^ (LENGTH('a) - 1)"
  have R': "2 ^ (LENGTH('a) - Suc 0) = R" by (simp add: R_def)
  have "(2::int) ^ 2 \<le> R" unfolding R_def using assms by (intro power_increasing) auto
  then have R2: "4 \<le> R" by simp
  have A: "- R \<le> sint a" "sint a < R" and B: "- R \<le> sint b" "sint b < R"
    using sint_ge [of a] sint_lt [of a] sint_ge [of b] sint_lt [of b] by (simp_all add: R_def)
  have imin: "x = push_bit (LENGTH('a) - 1) 1 \<longleftrightarrow> sint x = - R" for x :: "'a word"
    by (simp only: MIN_iff R_def)
  have small: "x = 0 \<or> x = 1 \<longleftrightarrow> sint x \<in> {0, 1}" for x :: "'a word"
  proof -
    have "sint (1 :: 'a word) = 1" using R2 sint_of_fits [of 1, where 'a='a] by (simp add: fits_def R')
    then show ?thesis using sint_eq_iff [of x 0] sint_eq_iff [of x 1] by simp
  qed
  have at_min: "fits LENGTH('a) (- R * y) \<longleftrightarrow> y \<in> {0, 1}" for y
  proof -
    have "- R \<le> - R * y \<longleftrightarrow> y \<le> 1" "- R * y < R \<longleftrightarrow> 0 \<le> y"
      using R2 mult_le_cancel_left [of R y 1] mult_less_cancel_left [of R "- 1" y] by auto
    then show ?thesis by (auto simp: fits_def R')
  qed
  show ?thesis
  proof (cases "sint a = - R \<or> sint b = - R")
    case True
    consider (a) "sint a = - R" | (b) "sint a \<noteq> - R" "sint b = - R" using True by blast
    then show ?thesis
    proof cases
      case a
      have "muloXi4 a b = (a * b, if b = 0 \<or> b = 1 then 0 else 1)"
        unfolding muloXi4_def Let_def imin using a by simp
      then show ?thesis by (simp only: small a at_min)
    next
      case b
      have "muloXi4 a b = (a * b, if a = 0 \<or> a = 1 then 0 else 1)"
        unfolding muloXi4_def Let_def imin using b by simp
      then show ?thesis by (simp only: small b(2) at_min mult.commute [of "sint a" "- R"])
    qed
  next
    case False
    define aa where "aa = (if sint a < 0 then - a else a)"
    define ab where "ab = (if sint b < 0 then - b else b)"
    have aa: "sint aa = \<bar>sint a\<bar>" and ab: "sint ab = \<bar>sint b\<bar>"
      using False by (auto simp: aa_def ab_def sint_neg_wrap R_def)
    have lt: "\<bar>sint a\<bar> < R" "\<bar>sint b\<bar> < R" using A B False by auto
    have "sint (2 :: 'a word) = 2"
      using R2 sint_of_fits [of 2, where 'a='a] by (simp add: fits_def R')
    then have two: "x <s 2 \<longleftrightarrow> sint x < 2" for x :: "'a word"
      by (simp add: word_sless_alt)
    have same: "signed_drop_bit (LENGTH('a) - 1) a = signed_drop_bit (LENGTH('a) - 1) b \<longleftrightarrow> (sint a < 0 \<longleftrightarrow> sint b < 0)"
      unfolding sign_spread by auto
    have eq: "muloXi4 a b = (a * b,
        if sint aa < 2 \<or> sint ab < 2 then 0
        else if sint a < 0 \<longleftrightarrow> sint b < 0 then
          (if sint (c_sdiv (NOT (push_bit (LENGTH('a) - 1) 1)) ab) < sint aa then 1 else 0)
        else (if sint (c_sdiv (push_bit (LENGTH('a) - 1) 1) (- ab)) < sint aa then 1 else 0))"
      using False aa ab
      unfolding muloXi4_def Let_def imin xor_sign same aa_def [symmetric] ab_def [symmetric] two
      unfolding word_sless_alt by (simp only: de_Morgan_disj if_False if_distrib [of "Pair (a * b)"])
    show ?thesis
    proof (cases "\<bar>sint a\<bar> < 2 \<or> \<bar>sint b\<bar> < 2")
      case True
      then show ?thesis
        using product_small [OF lt True] by (simp add: eq aa ab fits_def R')
    next
      case big: False
      then have "2 \<le> sint ab" by (simp add: ab)
      from c_sdiv_limits [OF this] product_test [OF lt] big show ?thesis
        by (cases "sint a < 0 \<longleftrightarrow> sint b < 0") (auto simp: eq aa ab fits_def R')
    qed
  qed
qed


lemma same_tests:
  "(if A then if p \<or> q then Some r else None
    else if B then if u \<or> v then Some r else None
    else if C then Some r
    else if D then if E then None else Some r
    else if F then None else Some r)
   = (case (if A then (r, if \<not> p \<and> \<not> q then 1 else 0)
      else if B then (r, if \<not> u \<and> \<not> v then 1 else 0)
      else if C then (r, 0)
      else if D then (r, if E then 1 else 0)
      else (r, if F then 1 else 0 :: su_int)) of (r, ov) \<Rightarrow> if ov = 0 then Some r else None)"
  by simp

lemma mulvXi3_muloXi4: "mulvXi3 a b = (case muloXi4 a b of (r, ov) \<Rightarrow> if ov = 0 then Some r else None)"
  unfolding mulvXi3_def muloXi4_def Let_def by (rule same_tests)

lemma mulvXi3_correct:
  "3 \<le> LENGTH('a) \<Longrightarrow> mulvXi3 a b = (if fits LENGTH('a) (sint a * sint b) then Some (word_of_int (sint a * sint b)) else None)"
  for a b :: "'a::len word"
  by (simp add: mulvXi3_muloXi4 muloXi4_correct)

section \<open>Products of two-word integers\<close>

text \<open>
  The schoolbook product of two words into a high and a low word, over their halves:
  \<open>__muldsi3\<close> at 32 bits and \<open>__mulddi3\<close> at 64.
\<close>

definition mul_halves :: "'a::len word \<Rightarrow> 'a word \<Rightarrow> 'a word \<times> 'a word" where
  "mul_halves a b =
     (let bits_in_word_2 = LENGTH('a) div 2;
          lower_mask = drop_bit bits_in_word_2 (NOT 0);
          low = (a AND lower_mask) * (b AND lower_mask);
          t = drop_bit bits_in_word_2 low;
          low = low AND lower_mask;
          t = t + drop_bit bits_in_word_2 a * (b AND lower_mask);
          low = low + push_bit bits_in_word_2 (t AND lower_mask);
          high = drop_bit bits_in_word_2 t;
          t = drop_bit bits_in_word_2 low;
          low = low AND lower_mask;
          t = t + drop_bit bits_in_word_2 b * (a AND lower_mask);
          low = low + push_bit bits_in_word_2 (t AND lower_mask);
          high = high + drop_bit bits_in_word_2 t;
          high = high + drop_bit bits_in_word_2 a * drop_bit bits_in_word_2 b
      in (high, low))"

definition muldsi3 :: "su_int \<Rightarrow> su_int \<Rightarrow> du_int" where
  "muldsi3 a b = (case mul_halves a b of (high, low) \<Rightarrow> make_du high low)"

definition muldi3 :: "du_int \<Rightarrow> du_int \<Rightarrow> du_int" where
  "muldi3 a b =
     (let r = muldsi3 (lo32 a) (lo32 b)
      in make_du (hi32 r + (hi32 a * lo32 b + lo32 a * hi32 b)) (lo32 r))"

definition mulddi3 :: "du_int \<Rightarrow> du_int \<Rightarrow> tu_int" where
  "mulddi3 a b = (case mul_halves a b of (high, low) \<Rightarrow> make_tu high low)"

definition multi3 :: "tu_int \<Rightarrow> tu_int \<Rightarrow> tu_int" where
  "multi3 a b =
     (let r = mulddi3 (lo64 a) (lo64 b)
      in make_tu (hi64 r + (hi64 a * lo64 b + lo64 a * hi64 b)) (lo64 r))"

text \<open>The schoolbook product over the natural numbers, in base \<open>B\<close>, with every bound the machine needs.\<close>

lemma half_product_bounds:
  fixes B al bl ah bh :: nat
  assumes "0 < B" "al < B" "bl < B" "ah < B" "bh < B"
  defines "p \<equiv> al * bl"
  defines "t1 \<equiv> p div B + ah * bl"
  defines "low1 \<equiv> p mod B + (t1 mod B) * B"
  defines "t2 \<equiv> low1 div B + bh * al"
  defines "low2 \<equiv> low1 mod B + (t2 mod B) * B"
  defines "high \<equiv> t1 div B + t2 div B + ah * bh"
  shows "p < B * B" "t1 < B * B" "low1 < B * B" "t2 < B * B" "low2 < B * B"
    "high * (B * B) + low2 = (ah * B + al) * (bh * B + bl)" "high < B * B"
proof -
  obtain C where C: "B = Suc C" using assms(1) gr0_implies_Suc by blast
  have prod: "x * y \<le> C * C" if "x < B" "y < B" for x y using that by (intro mult_le_mono) (auto simp: C)
  have CC: "C * C + C < B * B" by (simp add: C)
  show p: "p < B * B" using prod [OF assms(2,3)] CC unfolding p_def by linarith
  have "p div B < B" using p by (simp add: less_mult_imp_div_less)
  then have pB: "p div B \<le> C" by (simp add: C)
  show t1: "t1 < B * B" using prod [OF assms(4,3)] CC pB unfolding t1_def by linarith
  have digit: "x mod B + y mod B * B < B * B" for x y
  proof -
    have "y mod B * B \<le> C * B" using assms(1) mod_less_divisor [of B y] by (intro mult_le_mono1) (simp add: C)
    moreover have "x mod B < B" using assms(1) by simp
    moreover have "C * B + B = B * B" by (simp add: C)
    ultimately show ?thesis by linarith
  qed
  show low1: "low1 < B * B" unfolding low1_def by (rule digit)
  have "low1 div B < B" using low1 by (simp add: less_mult_imp_div_less)
  then have lB: "low1 div B \<le> C" by (simp add: C)
  show t2: "t2 < B * B" using prod [OF assms(5,2)] CC lB unfolding t2_def by linarith
  show "low2 < B * B" unfolding low2_def by (rule digit)
  have l1: "low1 div B = t1 mod B" "low1 mod B = p mod B"
    using assms(1) by (simp_all add: low1_def)
  have "high * (B * B) + low2 = ah * bh * (B * B) + (t1 div B * B) * B + (t2 div B * B + t2 mod B) * B + p mod B"
    unfolding high_def low2_def l1 by (simp only: algebra_simps)
  also have "\<dots> = ah * bh * (B * B) + (t1 div B * B) * B + t2 * B + p mod B"
    by (simp only: div_mult_mod_eq)
  also have "\<dots> = ah * bh * (B * B) + (t1 div B * B + t1 mod B) * B + bh * al * B + p mod B"
    by (simp only: t2_def l1 algebra_simps)
  also have "\<dots> = ah * bh * (B * B) + t1 * B + bh * al * B + p mod B"
    by (simp only: div_mult_mod_eq)
  also have "\<dots> = ah * bh * (B * B) + (p div B * B + p mod B) + ah * bl * B + bh * al * B"
    by (simp only: t1_def algebra_simps)
  also have "\<dots> = ah * bh * (B * B) + p + ah * bl * B + bh * al * B"
    by (simp only: div_mult_mod_eq)
  also have "\<dots> = (ah * B + al) * (bh * B + bl)"
    by (simp add: p_def algebra_simps)
  finally show eq: "high * (B * B) + low2 = (ah * B + al) * (bh * B + bl)" .
  have "ah * B + al < B * B" "bh * B + bl < B * B"
    using digit [of al ah] digit [of bl bh] assms by simp_all
  then have "(ah * B + al) * (bh * B + bl) < (B * B) * (B * B)"
    by (intro mult_strict_mono') auto
  then have "high * (B * B) < (B * B) * (B * B)" using eq by linarith
  then show "high < B * B" using assms(1) by simp
qed


text \<open>The routine computes the whole double-width product.\<close>

lemma mul_halves_correct:
  fixes a b :: "'a::len word"
  assumes W: "LENGTH('a) = 2 * h" "0 < h" and m: "mul_halves a b = (high, low)"
  shows "unat high * 2 ^ LENGTH('a) + unat low = unat a * unat b"
proof -
  define B :: nat where "B = 2 ^ h"
  have BB: "B * B = 2 ^ LENGTH('a)" by (simp add: B_def W mult_2 power_add)
  have h: "LENGTH('a) div 2 = h" using W by simp
  have "drop_bit h (NOT (0 :: 'a word)) = mask h"
    by (rule bit_word_eqI) (auto simp: bit_simps W)
  then have mask: "unat (x AND drop_bit h (NOT 0)) = unat x mod B" for x :: "'a word"
    by (simp add: take_bit_eq_mask [symmetric] unsigned_take_bit_eq take_bit_eq_mod [where 'a=nat] B_def)
  have drop: "unat (drop_bit h x) = unat x div B" for x :: "'a word"
    by (simp add: unat_drop_bit_eq drop_bit_eq_div [where 'a=nat] B_def)
  have push: "unat (push_bit h (x AND drop_bit h (NOT 0))) = (unat x mod B) * B" for x :: "'a word"
  proof -
    have "unat x mod B * B < B * B" by (simp add: B_def)
    then show ?thesis
      unfolding unsigned_push_bit_eq mask push_bit_eq_mult [where 'a=nat] take_bit_eq_mod BB [symmetric] B_def [symmetric]
      by (rule mod_less)
  qed
  have small: "x < B" if "x = unat w div B \<or> x = unat w mod B" for x and w :: "'a word"
  proof -
    have "unat w < B * B" by (simp add: BB)
    then show ?thesis using that by (auto simp: less_mult_imp_div_less B_def)
  qed
  have pos: "0 < B" by (simp add: B_def)
  let ?al = "unat a mod B" and ?ah = "unat a div B" and ?bl = "unat b mod B" and ?bh = "unat b div B"
  note bounds = half_product_bounds [OF pos, of ?al ?bl ?ah ?bh, OF small small small small, OF disjI2 disjI2 disjI1 disjI1, OF refl refl refl refl]
  let ?m = "drop_bit h (NOT (0 :: 'a word))"
  define p where "p = (a AND ?m) * (b AND ?m)"
  have p: "unat p = ?al * ?bl"
    using bounds(1) by (simp only: p_def unat_word_ariths mask BB [symmetric] mod_less)
  define t1 where "t1 = drop_bit h p + drop_bit h a * (b AND ?m)"
  have t1: "unat t1 = ?al * ?bl div B + ?ah * ?bl"
    using bounds(2) by (simp only: t1_def unat_word_ariths mask drop p BB [symmetric] mod_simps mod_less)
  define low1 where "low1 = (p AND ?m) + push_bit h (t1 AND ?m)"
  have low1: "unat low1 = ?al * ?bl mod B + (?al * ?bl div B + ?ah * ?bl) mod B * B"
    using bounds(3) by (simp only: low1_def unat_word_ariths mask push p t1 BB [symmetric] mod_less)
  define t2 where "t2 = drop_bit h low1 + drop_bit h b * (a AND ?m)"
  have t2: "unat t2 = (?al * ?bl mod B + (?al * ?bl div B + ?ah * ?bl) mod B * B) div B + ?bh * ?al"
    using bounds(4) unfolding low1 [symmetric]
    by (simp only: t2_def unat_word_ariths mask drop BB [symmetric] mod_simps mod_less)
  define low2 where "low2 = (low1 AND ?m) + push_bit h (t2 AND ?m)"
  have low2: "unat low2 = unat low1 mod B + unat t2 mod B * B"
    using bounds(5) unfolding t2 [symmetric] unfolding low1 [symmetric]
    by (simp only: low2_def unat_word_ariths mask push BB [symmetric] mod_less)
  define hi where "hi = drop_bit h t1 + drop_bit h t2 + drop_bit h a * drop_bit h b"
  have hi: "unat hi = unat t1 div B + unat t2 div B + ?ah * ?bh"
  proof -
    have "unat t1 div B + unat t2 div B + ?ah * ?bh < B * B"
      using bounds(7) unfolding t2 [symmetric] unfolding t1 [symmetric] .
    from mod_less [OF this] show ?thesis
      by (simp only: hi_def unat_word_ariths drop BB [symmetric] mod_simps)
  qed
  have "high = hi" "low = low2"
    using m unfolding mul_halves_def Let_def h hi_def low2_def t2_def low1_def t1_def p_def by simp_all
  then show ?thesis
    using bounds(6) unfolding t2 [symmetric] unfolding low1 [symmetric] unfolding t1 [symmetric]
    by (simp add: hi low2 BB)
qed


context word_halves
begin

lemma mul_cross:
  assumes "unat r = unat (lo x) * unat (lo y)"
  shows "mk (hi r + (hi x * lo y + lo x * hi y)) (lo r) = x * y"
proof -
  define B :: nat where "B = 2 ^ LENGTH('h)"
  have BB: "2 ^ LENGTH('w) = B * B" by (simp add: B_def width mult_2 power_add)
  have u: "unat z = unat (hi z) * B + unat (lo z)" for z
    using unat_mk [of "hi z" "lo z"] by (simp add: B_def)
  define c where "c = unat (hi r) + (unat (hi x) * unat (lo y) + unat (lo x) * unat (hi y))"
  have "unat (hi r + (hi x * lo y + lo x * hi y)) = c mod B"
    by (simp add: c_def unat_word_ariths mod_simps B_def)
  then have "unat (mk (hi r + (hi x * lo y + lo x * hi y)) (lo r)) = c mod B * B + unat (lo r)"
    by (simp add: unat_mk B_def)
  also have "\<dots> = (c mod B * B + unat (lo r)) mod (B * B)"
    using unat_less [of "mk (hi r + (hi x * lo y + lo x * hi y)) (lo r)"] calculation by (simp add: BB)
  also have "\<dots> = (c * B + unat (lo r)) mod (B * B)"
    by (metis mod_add_left_eq mod_mult_mult2)
  also have "c * B + unat (lo r) = unat r + (unat (hi x) * unat (lo y) + unat (lo x) * unat (hi y)) * B"
    using u [of r] by (simp add: c_def algebra_simps)
  also have "\<dots> mod (B * B) = (unat r + (unat (hi x) * unat (lo y) + unat (lo x) * unat (hi y)) * B
      + unat (hi x) * unat (hi y) * (B * B)) mod (B * B)"
    by simp
  also have "unat r + (unat (hi x) * unat (lo y) + unat (lo x) * unat (hi y)) * B
      + unat (hi x) * unat (hi y) * (B * B) = unat x * unat y"
    by (simp add: assms u [of x] u [of y] algebra_simps)
  finally show ?thesis
    by (simp add: word_unat_eq_iff unat_word_ariths BB)
qed

end

lemma muldsi3_correct: "unat (muldsi3 a b) = unat a * unat b"
  using mul_halves_correct [where 'a=32, of 16 a b]
  by (cases "mul_halves a b") (simp add: muldsi3_def dw.unat_mk)

lemma mulddi3_correct: "unat (mulddi3 a b) = unat a * unat b"
  using mul_halves_correct [where 'a=64, of 32 a b]
  by (cases "mul_halves a b") (simp add: mulddi3_def tw.unat_mk)

section \<open>The properties of the component\<close>

text \<open>The checked negations, absolute values, sums and differences return the exact result
  when it fits and abort exactly when it does not, at every width.\<close>

theorem checked_sums_correct:
  "negvsi2 a = (if fits 32 (- sint a) then Some (word_of_int (- sint a)) else None)
   \<and> absvsi2 a = (if fits 32 \<bar>sint a\<bar> then Some (word_of_int \<bar>sint a\<bar>) else None)
   \<and> addvsi3 a b = (if fits 32 (sint a + sint b) then Some (word_of_int (sint a + sint b)) else None)
   \<and> subvsi3 a b = (if fits 32 (sint a - sint b) then Some (word_of_int (sint a - sint b)) else None)
   \<and> negvdi2 c = (if fits 64 (- sint c) then Some (word_of_int (- sint c)) else None)
   \<and> absvdi2 c = (if fits 64 \<bar>sint c\<bar> then Some (word_of_int \<bar>sint c\<bar>) else None)
   \<and> addvdi3 c d = (if fits 64 (sint c + sint d) then Some (word_of_int (sint c + sint d)) else None)
   \<and> subvdi3 c d = (if fits 64 (sint c - sint d) then Some (word_of_int (sint c - sint d)) else None)
   \<and> negvti2 e = (if fits 128 (- sint e) then Some (word_of_int (- sint e)) else None)
   \<and> absvti2 e = (if fits 128 \<bar>sint e\<bar> then Some (word_of_int \<bar>sint e\<bar>) else None)
   \<and> addvti3 e f = (if fits 128 (sint e + sint f) then Some (word_of_int (sint e + sint f)) else None)
   \<and> subvti3 e f = (if fits 128 (sint e - sint f) then Some (word_of_int (sint e - sint f)) else None)"
  unfolding negvsi2_def absvsi2_def addvsi3_def subvsi3_def negvdi2_def absvdi2_def addvdi3_def subvdi3_def
    negvti2_def absvti2_def addvti3_def subvti3_def negv_correct absv_correct addv_correct subv_correct
  by simp

text \<open>The signed products set the overflow flag, or abort, exactly when the product of the
  signed values does not fit; the value returned is the product modulo the width.\<close>

theorem checked_products_correct:
  "mulosi4 a b = (a * b, if fits 32 (sint a * sint b) then 0 else 1)
   \<and> mulodi4 c d = (c * d, if fits 64 (sint c * sint d) then 0 else 1)
   \<and> muloti4 e f = (e * f, if fits 128 (sint e * sint f) then 0 else 1)
   \<and> mulvsi3 a b = (if fits 32 (sint a * sint b) then Some (word_of_int (sint a * sint b)) else None)
   \<and> mulvdi3 c d = (if fits 64 (sint c * sint d) then Some (word_of_int (sint c * sint d)) else None)
   \<and> mulvti3 e f = (if fits 128 (sint e * sint f) then Some (word_of_int (sint e * sint f)) else None)"
  using muloXi4_correct [of a b] muloXi4_correct [of c d] muloXi4_correct [of e f]
    mulvXi3_correct [of a b] mulvXi3_correct [of c d] mulvXi3_correct [of e f]
  unfolding mulosi4_def mulodi4_def muloti4_def mulvsi3_def mulvdi3_def mulvti3_def by simp

text \<open>The two-word products are the product modulo the width, and the helpers they call
  return the exact double-width product; negation is negation modulo the width.\<close>

theorem products_correct:
  "muldi3 a b = a * b \<and> multi3 c d = c * d
   \<and> unat (muldsi3 u v) = unat u * unat v \<and> unat (mulddi3 a b) = unat a * unat b
   \<and> a + negdi2 a = 0 \<and> c + negti2 c = 0"
  using dw.mul_cross [of "muldsi3 (lo32 a) (lo32 b)" a b] tw.mul_cross [of "mulddi3 (lo64 c) (lo64 d)" c d]
  by (simp add: muldi3_def multi3_def Let_def muldsi3_correct mulddi3_correct negdi2_def negti2_def)

end
