(* ===== verification/IntDiv.thy ===== *)
theory IntDiv
  imports IntBits IntArith
begin

text \<open>
  Unsigned and signed division: \<^verbatim>\<open>int_div_impl.inc\<close> with its instances, \<^verbatim>\<open>udivmoddi4.c\<close>
  and the signed \<open>divmod\<close> routines.  The shift-and-subtract loop keeps the dividend and the
  quotient in one register; its invariant is stated on natural numbers and carried through
  the words.  \<open>udivmod\<close> is the contract of an unsigned division, on which the signed routines
  are proved once and used at 32, 64 and 128 bits.
\<close>

unbundle bit_operations_syntax

section \<open>The shift-and-subtract loop\<close>

text \<open>\<open>sr\<close> rounds of the loop; the result is the final \<open>r\<close>, \<open>n\<close> and \<open>carry\<close>.\<close>

fun udiv_loop :: "'a::len word \<Rightarrow> nat \<Rightarrow> 'a word \<Rightarrow> 'a word \<Rightarrow> 'a word \<Rightarrow> 'a word \<times> 'a word \<times> 'a word" where
  "udiv_loop d 0 r n carry = (r, n, carry)"
| "udiv_loop d (Suc sr) r n carry =
     (let N = LENGTH('a);
          r = push_bit 1 r OR drop_bit (N - 1) n;
          n = push_bit 1 n OR carry;
          s = signed_drop_bit (N - 1) (d - r - 1);
          carry = s AND 1;
          r = r - (d AND s)
      in udiv_loop d sr r n carry)"

definition udivXi3 :: "'a::len word \<Rightarrow> 'a word \<Rightarrow> 'a word" where
  "udivXi3 n d =
     (let N = of_nat LENGTH('a) :: su_int;
          sr = (if d \<noteq> 0 then builtin_clz d else N) - (if n \<noteq> 0 then builtin_clz n else N)
      in if sr > N - 1 then 0
      else if sr = N - 1 then n
      else
        let sr = sr + 1;
            r = drop_bit (unat sr) n;
            n = push_bit (unat (N - sr)) n;
            carry = 0;
            (r, n, carry) = udiv_loop d (unat sr) r n carry
        in push_bit 1 n OR carry)"

definition umodXi3 :: "'a::len word \<Rightarrow> 'a word \<Rightarrow> 'a word" where
  "umodXi3 n d =
     (let N = of_nat LENGTH('a) :: su_int;
          sr = (if d \<noteq> 0 then builtin_clz d else N) - (if n \<noteq> 0 then builtin_clz n else N)
      in if sr > N - 1 then n
      else if sr = N - 1 then 0
      else
        let sr = sr + 1;
            r = drop_bit (unat sr) n;
            n = push_bit (unat (N - sr)) n;
            carry = 0;
            (r, n, carry) = udiv_loop d (unat sr) r n carry
        in r)"

definition udivsi3 :: "su_int \<Rightarrow> su_int \<Rightarrow> su_int" where "udivsi3 a b = udivXi3 a b"
definition umodsi3 :: "su_int \<Rightarrow> su_int \<Rightarrow> su_int" where "umodsi3 a b = umodXi3 a b"
definition udivdi3 :: "du_int \<Rightarrow> du_int \<Rightarrow> du_int" where "udivdi3 a b = udivXi3 a b"
definition umoddi3 :: "du_int \<Rightarrow> du_int \<Rightarrow> du_int" where "umoddi3 a b = umodXi3 a b"

text \<open>One bit shifted in from the right.\<close>

lemma shift_in: "unat (push_bit 1 x OR y) = 2 * unat x mod 2 ^ LENGTH('a) + unat y"
  if "unat y \<le> 1" for x y :: "'a::len word"
proof -
  have y: "y = 0 \<or> y = 1"
    using that by (metis le_numeral_extra(4) less_one linorder_neqE_nat not_le unat_0 unat_1 unat_eq_zero word_unat_eq_iff)
  have "push_bit 1 x OR y = push_bit 1 x + y"
    using y by (intro disjunctive_add_eq_or [symmetric] bit_eqI) (auto simp: bit_simps bit_double_iff mult.commute [of _ 2])
  moreover have ev: "2 * unat x mod 2 ^ LENGTH('a) + unat y < 2 ^ LENGTH('a)"
  proof -
    have "even (2 * unat x mod 2 ^ LENGTH('a))" "even ((2::nat) ^ LENGTH('a))"
      by (simp_all add: dvd_mod)
    moreover have "2 * unat x mod 2 ^ LENGTH('a) < 2 ^ LENGTH('a)" by simp
    ultimately show ?thesis using that by (metis Suc_leI add.right_neutral add_Suc_right even_Suc le_Suc_eq le_less nat_less_le One_nat_def le_zero_eq)
  qed
  moreover have "unat (push_bit 1 x) = 2 * unat x mod 2 ^ LENGTH('a)"
    by (simp only: unsigned_push_bit_eq push_bit_eq_mult [where 'a=nat] take_bit_eq_mod)
      (simp add: mult.commute)
  ultimately show ?thesis by (simp only: unat_word_ariths mod_less)
qed

text \<open>The branch-free comparison: all ones exactly when \<open>d \<le> r\<close>.\<close>

lemma borrow_mask:
  fixes d r :: "'a::len word"
  assumes "unat d \<le> unat r \<Longrightarrow> unat r - unat d < 2 ^ (LENGTH('a) - 1)"
    and "unat r < unat d \<Longrightarrow> unat d - unat r \<le> 2 ^ (LENGTH('a) - 1)"
  shows "signed_drop_bit (LENGTH('a) - 1) (d - r - 1) = (if unat d \<le> unat r then - 1 else 0)"
proof -
  have "d - r - 1 = word_of_int (int (unat d) - int (unat r) - 1)" by simp
  moreover have "fits LENGTH('a) (int (unat d) - int (unat r) - 1)"
  proof (cases "unat d \<le> unat r")
    case True
    then have "int (unat r) - int (unat d) < 2 ^ (LENGTH('a) - 1)"
      using assms(1) by (metis of_nat_diff of_nat_less_iff of_nat_numeral of_nat_power)
    then show ?thesis
      using True zero_le_power [of "2::int" "LENGTH('a) - 1"] unfolding fits_def by linarith
  next
    case False
    then have "int (unat d) - int (unat r) \<le> 2 ^ (LENGTH('a) - 1)"
      using assms(2) by (metis not_le less_imp_le of_nat_diff of_nat_le_iff of_nat_numeral of_nat_power)
    then show ?thesis
      using False unat_less [of d] uint_lt2p [of d] unfolding fits_def
      using zero_le_power [of "2::int" "LENGTH('a) - 1"] by linarith
  qed
  ultimately have eq: "sint (d - r - 1) = int (unat d) - int (unat r) - 1"
    by (simp only: sint_of_fits)
  have "sint (d - r - 1) < 0 \<longleftrightarrow> unat d \<le> unat r" unfolding eq by linarith
  then show ?thesis unfolding sign_spread by (simp only:)
qed


text \<open>
  The invariant, with \<open>k\<close> rounds to go: the quotient \<open>q\<close> of the leading bits of the dividend
  \<open>n0\<close> and its remainder \<open>r\<close>; \<open>n\<close> holds the \<open>k\<close> bits of \<open>n0\<close> still to come above all bits of
  \<open>q\<close> but the last, which is the carry.
\<close>

definition div_inv :: "nat \<Rightarrow> 'a::len word \<Rightarrow> nat \<Rightarrow> nat \<Rightarrow> 'a word \<Rightarrow> 'a word \<Rightarrow> 'a word \<Rightarrow> bool" where
  "div_inv n0 d k q r n c \<longleftrightarrow>
     n0 < 2 ^ LENGTH('a) \<and> k < LENGTH('a) \<and>
     n0 div 2 ^ k = q * unat d + unat r \<and> unat r < unat d \<and>
     unat n = (n0 mod 2 ^ k) * 2 ^ (LENGTH('a) - k) + q div 2 \<and> unat c = q mod 2"

lemma top_bit_div:
  fixes n0 q :: nat
  assumes "Suc j < N" "q div 2 < 2 ^ (N - Suc j)"
  shows "((n0 mod 2 ^ Suc j) * 2 ^ (N - Suc j) + q div 2) div 2 ^ (N - 1) = n0 div 2 ^ j mod 2"
    and "2 * ((n0 mod 2 ^ Suc j) * 2 ^ (N - Suc j) + q div 2) mod 2 ^ N
       = (n0 mod 2 ^ j) * 2 ^ (N - j) + 2 * (q div 2)"
proof -
  have e: "(2::nat) ^ (N - 1) = 2 ^ (N - Suc j) * 2 ^ j" "(2::nat) ^ N = 2 ^ (N - j) * 2 ^ j"
    "(2::nat) ^ (N - j) = 2 * 2 ^ (N - Suc j)"
    using assms(1) by (simp_all flip: power_add power_Suc add: Suc_diff_Suc)
  have m: "n0 mod 2 ^ Suc j = 2 ^ j * (n0 div 2 ^ j mod 2) + n0 mod 2 ^ j"
    by (metis mod_mult2_eq power_Suc2)
  show "((n0 mod 2 ^ Suc j) * 2 ^ (N - Suc j) + q div 2) div 2 ^ (N - 1) = n0 div 2 ^ j mod 2"
  proof -
    have "((n0 mod 2 ^ Suc j) * 2 ^ (N - Suc j) + q div 2) div 2 ^ (N - Suc j) = n0 mod 2 ^ Suc j"
      using assms(2) by simp
    then show ?thesis unfolding e(1) div_mult2_eq by (simp only: m) simp
  qed
  have "2 * ((n0 mod 2 ^ Suc j) * 2 ^ (N - Suc j) + q div 2)
      = (n0 div 2 ^ j mod 2) * 2 ^ N + ((n0 mod 2 ^ j) * 2 ^ (N - j) + 2 * (q div 2))"
    unfolding m e by (simp add: algebra_simps)
  moreover have "(n0 mod 2 ^ j) * 2 ^ (N - j) + 2 * (q div 2) < 2 ^ N"
  proof -
    have "n0 mod 2 ^ j + 1 \<le> 2 ^ j" by (simp add: Suc_leI)
    then have "(n0 mod 2 ^ j + 1) * 2 ^ (N - j) \<le> 2 ^ j * 2 ^ (N - j)" by (rule mult_le_mono1)
    moreover have "2 * (q div 2) < 2 ^ (N - j)" using assms(2) e(3) by simp
    ultimately show ?thesis unfolding e(2) by (simp add: mult.commute)
  qed
  ultimately show "2 * ((n0 mod 2 ^ Suc j) * 2 ^ (N - Suc j) + q div 2) mod 2 ^ N
       = (n0 mod 2 ^ j) * 2 ^ (N - j) + 2 * (q div 2)"
    by (metis mod_less mod_mult_self3)
qed

lemma div_inv_step:
  fixes d r n c :: "'a::len word"
  assumes inv: "div_inv n0 d (Suc j) q r n c"
    and big: "unat d \<le> 2 ^ (LENGTH('a) - 1) \<or> (j = 0 \<and> q = 0 \<and> 2 ^ (LENGTH('a) - 1) \<le> n0)"
  defines "r1 \<equiv> push_bit 1 r OR drop_bit (LENGTH('a) - 1) n"
  defines "n1 \<equiv> push_bit 1 n OR c"
  defines "s \<equiv> signed_drop_bit (LENGTH('a) - 1) (d - r1 - 1)"
  shows "div_inv n0 d j (2 * q + (if unat d \<le> unat r1 then 1 else 0)) (r1 - (d AND s)) n1 (s AND 1)"
proof -
  let ?N = "LENGTH('a)"
  have N: "Suc j < ?N" and n0: "n0 < 2 ^ ?N" and eq: "n0 div 2 ^ Suc j = q * unat d + unat r"
    and r: "unat r < unat d" and n: "unat n = (n0 mod 2 ^ Suc j) * 2 ^ (?N - Suc j) + q div 2"
    and c: "unat c = q mod 2"
    using inv by (auto simp: div_inv_def)
  have top: "n0 div 2 ^ Suc j < 2 ^ (?N - Suc j)"
    using n0 N by (simp add: div_less_iff_less_mult flip: power_add power_Suc)
  have half: "(2::nat) ^ (?N - Suc j) \<le> 2 ^ (?N - 1)"
    by (rule power_increasing) simp_all
  have q: "q div 2 < 2 ^ (?N - Suc j)"
  proof -
    have "q \<le> q * unat d" using r by simp
    then have "q \<le> n0 div 2 ^ Suc j" using eq by linarith
    then show ?thesis using top by linarith
  qed
  define \<beta> where "\<beta> = n0 div 2 ^ j mod 2"
  have bit: "unat (drop_bit (?N - 1) n) = \<beta>"
    unfolding unat_drop_bit_eq drop_bit_eq_div [where 'a=nat] n \<beta>_def by (rule top_bit_div(1) [OF N q])
  have b1: "\<beta> \<le> 1" by (simp add: \<beta>_def)
  have full: "(2::nat) ^ ?N = 2 * 2 ^ (?N - 1)"
    by (metis Suc_pred' len_gt_0 power_Suc)
  have r1: "unat r1 = 2 * unat r + \<beta>"
  proof -
    have "unat r < 2 ^ (?N - 1)" using top half eq by linarith
    then have "2 * unat r mod 2 ^ ?N = 2 * unat r" using full by simp
    then show ?thesis
      using shift_in [of "drop_bit (?N - 1) n" r] bit b1 by (simp only: r1_def)
  qed
  have n1: "unat n1 = (n0 mod 2 ^ j) * 2 ^ (?N - j) + q"
    using shift_in [of c n] c top_bit_div(2) [OF N q, of n0] by (simp add: n1_def n)
  have all: "n0 div 2 ^ j = 2 * q * unat d + unat r1"
  proof -
    have "n0 div 2 ^ j = 2 * (n0 div 2 ^ Suc j) + \<beta>"
      by (metis \<beta>_def div_mult2_eq mult_div_mod_eq power_Suc2)
    then show ?thesis using eq r1 by (simp add: algebra_simps)
  qed
  have s: "s = (if unat d \<le> unat r1 then - 1 else 0)"
    unfolding s_def
  proof (rule borrow_mask)
    show "unat r1 - unat d < 2 ^ (?N - 1)" if "unat d \<le> unat r1"
      using that r r1 b1 big unat_less [of r1] full by linarith
    show "unat d - unat r1 \<le> 2 ^ (?N - 1)" if "unat r1 < unat d"
      using that big all unat_less [of d] full by auto
  qed
  show ?thesis
  proof (cases "unat d \<le> unat r1")
    case True
    then have "unat (r1 - d) = unat r1 - unat d" by (simp add: unat_sub word_le_nat_alt)
    moreover have "Suc (q * 2) mod 2 = 1" by presburger
    ultimately show ?thesis
      using True N n0 all n1 r r1 b1 by (auto simp: div_inv_def s algebra_simps)
  next
    case False
    then show ?thesis
      using N n0 all n1 by (auto simp: div_inv_def s)
  qed
qed


lemma udiv_loop_correct:
  fixes d r n c :: "'a::len word"
  assumes "div_inv n0 d k q r n c"
    and "unat d \<le> 2 ^ (LENGTH('a) - 1) \<or> k = 0 \<or> (k = 1 \<and> q = 0 \<and> 2 ^ (LENGTH('a) - 1) \<le> n0)"
  shows "\<exists>r' n' c'. udiv_loop d k r n c = (r', n', c') \<and> unat r' = n0 mod unat d
     \<and> unat (push_bit 1 n' OR c') = n0 div unat d"
  using assms
proof (induction k arbitrary: q r n c)
  case 0
  then have eq: "n0 = q * unat d + unat r" "unat r < unat d" "unat n = q div 2" "unat c = q mod 2" "n0 < 2 ^ LENGTH('a)"
    by (auto simp: div_inv_def)
  have q: "n0 div unat d = q" "n0 mod unat d = unat r" using eq(1,2) by simp_all
  have "q \<le> q * unat d" using eq(2) by simp
  then have "q < 2 ^ LENGTH('a)" using eq(1,5) by linarith
  then have "unat (push_bit 1 n OR c) = 2 * (q div 2) + q mod 2"
    using shift_in [of c n] eq(3,4) by simp
  with q show ?case by simp
next
  case (Suc k)
  have big: "unat d \<le> 2 ^ (LENGTH('a) - 1) \<or> (k = 0 \<and> q = 0 \<and> 2 ^ (LENGTH('a) - 1) \<le> n0)"
    using Suc.prems(2) by simp
  from div_inv_step [OF Suc.prems(1) big] Suc.IH big show ?case
    by (auto simp: Let_def)
qed

text \<open>How the loop is entered.\<close>

lemma div_inv_start:
  fixes d n :: "'a::len word"
  assumes "unat n div 2 ^ k < unat d" "0 < k" "k < LENGTH('a)"
  shows "div_inv (unat n) d k 0 (drop_bit k n) (push_bit (LENGTH('a) - k) n) 0"
proof -
  have "unat (push_bit (LENGTH('a) - k) n) = (unat n mod 2 ^ k) * 2 ^ (LENGTH('a) - k)"
  proof -
    have "unat (push_bit (LENGTH('a) - k) n) = push_bit (LENGTH('a) - k) (take_bit k (unat n))"
      using assms(3) by (simp add: unsigned_push_bit_eq take_bit_push_bit)
    then show ?thesis by (simp only: push_bit_eq_mult [where 'a=nat] take_bit_eq_mod)
  qed
  then show ?thesis
    using assms by (simp add: div_inv_def unat_drop_bit_eq drop_bit_eq_div [where 'a=nat])
qed

text \<open>
  The normalised start of the loop: \<open>sr\<close> is one more than the distance of the highest bits,
  so that the leading \<open>N - sr\<close> bits of the dividend are one bit short of the divisor.
\<close>

lemma loop_from_lengths:
  fixes d n :: "'a::len word"
  assumes d: "d \<noteq> 0" and le: "bitlen (unat d) \<le> bitlen (unat n)"
    and k: "k = Suc (bitlen (unat n) - bitlen (unat d))" "k < LENGTH('a)"
  shows "\<exists>r' n' c'. udiv_loop d k (drop_bit k n) (push_bit (LENGTH('a) - k) n) 0 = (r', n', c')
     \<and> unat r' = unat n mod unat d \<and> unat (push_bit 1 n' OR c') = unat n div unat d"
proof (rule udiv_loop_correct)
  define L where "L = bitlen (unat d)"
  have L: "0 < L" using d by (simp add: L_def unat_gt_0)
  have low: "2 ^ (L - 1) \<le> unat d" and high: "unat d < 2 ^ L"
    using L bitlen_gt_iff [of "L - 1" "unat d"] bitlen_le_iff [of "unat d" L] by (simp_all add: L_def)
  have "unat n < 2 ^ (k + (L - 1))"
  proof -
    have "bitlen (unat n) = k + (L - 1)" using k(1) le L unfolding L_def by linarith
    then show ?thesis using bitlen_le_iff [of "unat n" "k + (L - 1)"] by simp
  qed
  then have "unat n div 2 ^ k < 2 ^ (L - 1)"
    by (simp add: div_less_iff_less_mult power_add mult.commute)
  then have "unat n div 2 ^ k < unat d" using low by linarith
  then show "div_inv (unat n) d k 0 (drop_bit k n) (push_bit (LENGTH('a) - k) n) 0"
    by (rule div_inv_start) (use k in simp_all)
  show "unat d \<le> 2 ^ (LENGTH('a) - 1) \<or> k = 0 \<or> (k = 1 \<and> (0::nat) = 0 \<and> 2 ^ (LENGTH('a) - 1) \<le> unat n)"
  proof (cases "L = LENGTH('a)")
    case True
    then have "bitlen (unat n) = LENGTH('a)" using le bitlen_word_le [of n] by (simp add: L_def)
    then show ?thesis using True k bitlen_gt_iff [of "LENGTH('a) - 1" "unat n"] by (simp add: L_def)
  next
    case False
    then have "L \<le> LENGTH('a) - 1" using bitlen_word_le [of d] by (simp add: L_def)
    then have "(2::nat) ^ L \<le> 2 ^ (LENGTH('a) - 1)" by (rule power_increasing) simp
    with high show ?thesis by linarith
  qed
qed

lemma bitlen_mono: "m \<le> n \<Longrightarrow> bitlen m \<le> bitlen n"
  using bitlen_le_iff [of m "bitlen n"] bitlen_le_iff [of n "bitlen n"] by auto

text \<open>The count of rounds, with the wrap-around of the unsigned subtraction.\<close>

lemma shift_count:
  fixes d n :: "'a::len word"
  assumes W: "LENGTH('a) < 2 ^ 31" and d: "d \<noteq> 0"
  defines "N \<equiv> of_nat LENGTH('a) :: su_int"
  defines "sr \<equiv> (if d \<noteq> 0 then builtin_clz d else N) - (if n \<noteq> 0 then builtin_clz n else N)"
  shows "bitlen (unat n) < bitlen (unat d) \<longleftrightarrow> sr > N - 1"
    and "bitlen (unat d) \<le> bitlen (unat n) \<Longrightarrow> unat sr = bitlen (unat n) - bitlen (unat d)"
proof -
  have N: "unat N = LENGTH('a)" using W by (simp add: N_def unat_of_nat)
  have N1: "unat (N - 1) = LENGTH('a) - 1"
    using N len_gt_0 [where 'a='a] by (simp add: unat_sub word_le_nat_alt del: len_gt_0)
  define x where "x = (if n \<noteq> 0 then builtin_clz n else N)"
  have x: "unat x = LENGTH('a) - bitlen (unat n)"
    using W N builtin_clz_unat [of n] by (simp add: x_def)
  have c: "unat (builtin_clz d) = LENGTH('a) - bitlen (unat d)"
    using W by (simp add: builtin_clz_unat)
  have sr: "sr = builtin_clz d - x" using d by (simp add: sr_def x_def)
  have le: "bitlen (unat n) \<le> LENGTH('a)" "bitlen (unat d) \<le> LENGTH('a)" "0 < bitlen (unat d)"
    using d by (simp_all add: bitlen_word_le unat_gt_0)
  show eq: "unat sr = bitlen (unat n) - bitlen (unat d)" if "bitlen (unat d) \<le> bitlen (unat n)"
    using that le c x by (simp add: sr unat_sub word_le_nat_alt)
  show "bitlen (unat n) < bitlen (unat d) \<longleftrightarrow> sr > N - 1"
  proof (cases "bitlen (unat n) < bitlen (unat d)")
    case True
    then have "unat sr = 2 ^ 32 - (bitlen (unat d) - bitlen (unat n))"
      using le c x by (simp add: sr unat_sub_if_size word_size)
    then show ?thesis using True le W N1 by (simp add: word_less_nat_alt)
  next
    case False
    then have "unat sr \<le> LENGTH('a) - 1" using eq le by linarith
    then show ?thesis using False N1 by (simp add: word_less_nat_alt)
  qed
qed


lemma udivXi3_umodXi3:
  fixes n d :: "'a::len word"
  assumes W: "LENGTH('a) < 2 ^ 31" and d: "d \<noteq> 0"
  shows "udivXi3 n d = n div d \<and> umodXi3 n d = n mod d"
proof -
  define N where "N = (of_nat LENGTH('a) :: su_int)"
  define sr where "sr = (if d \<noteq> 0 then builtin_clz d else N) - (if n \<noteq> 0 then builtin_clz n else N)"
  note count = shift_count [OF W d, of n, folded N_def, folded sr_def]
  have N: "unat N = LENGTH('a)" using W by (simp add: N_def unat_of_nat)
  have N1: "unat (N - 1) = LENGTH('a) - 1"
    using N len_gt_0 [where 'a='a] by (simp add: unat_sub word_le_nat_alt del: len_gt_0)
  have le: "bitlen (unat n) \<le> LENGTH('a)" "bitlen (unat d) \<le> LENGTH('a)" "0 < bitlen (unat d)"
    using d by (simp_all add: bitlen_word_le unat_gt_0)
  consider (less) "bitlen (unat n) < bitlen (unat d)"
    | (one) "bitlen (unat d) = 1" "bitlen (unat n) = LENGTH('a)"
    | (loop) "bitlen (unat d) \<le> bitlen (unat n)" "bitlen (unat n) - bitlen (unat d) < LENGTH('a) - 1"
    using le by linarith
  then show ?thesis
  proof cases
    case less
    then have "unat n < unat d" using bitlen_mono [of "unat d" "unat n"] by linarith
    then have "n div d = 0" "n mod d = n"
      by (simp_all add: word_unat_eq_iff unat_div unat_mod)
    then show ?thesis
      using less count(1) unfolding udivXi3_def umodXi3_def Let_def N_def [symmetric] sr_def [symmetric] by simp
  next
    case one
    then have "unat d = 1"
      using bitlen_gt_iff [of 1 "unat d"] unat_gt_0 [of d] d by simp
    then have d1: "d = 1" by (simp add: word_unat_eq_iff)
    have "unat sr = unat (N - 1)" using count(2) one N1 le by simp
    then have "sr = N - 1" by (simp only: word_unat_eq_iff)
    then show ?thesis
      unfolding udivXi3_def umodXi3_def Let_def N_def [symmetric] sr_def [symmetric] by (simp add: d1)
  next
    case loop
    have sr: "unat sr = bitlen (unat n) - bitlen (unat d)" using count(2) loop(1) .
    have not_big: "\<not> sr > N - 1" using count(1) loop(1) by simp
    have ne: "sr \<noteq> N - 1" using sr loop(2) N1 by auto
    have k: "unat (sr + 1) = Suc (bitlen (unat n) - bitlen (unat d))"
      using sr loop(2) W by (simp add: unat_word_ariths)
    have Nk: "unat (N - (sr + 1)) = LENGTH('a) - unat (sr + 1)"
      using N k loop(2) by (simp add: unat_sub word_le_nat_alt)
    obtain r' n' c' where run: "udiv_loop d (unat (sr + 1)) (drop_bit (unat (sr + 1)) n)
          (push_bit (LENGTH('a) - unat (sr + 1)) n) 0 = (r', n', c')"
      and r': "unat r' = unat n mod unat d" and q': "unat (push_bit 1 n' OR c') = unat n div unat d"
    proof -
      have "unat (sr + 1) < LENGTH('a)" using k loop(2) by simp
      from loop_from_lengths [OF d loop(1) k this] that show ?thesis by blast
    qed
    show ?thesis
      unfolding udivXi3_def umodXi3_def Let_def N_def [symmetric] sr_def [symmetric] Nk run
      using not_big ne r' q' by (simp add: word_unat_eq_iff unat_div unat_mod)
  qed
qed


section \<open>The contract of an unsigned division\<close>

text \<open>
  An unsigned division returns quotient and remainder; division by zero, which traps on the
  machine, is \<open>None\<close>.  The signed routines of compiler-rt are clients of this contract.
\<close>

locale udivmod =
  fixes udm :: "'a::len word \<Rightarrow> 'a word \<Rightarrow> ('a word \<times> 'a word) option"
  assumes udm_law: "d \<noteq> 0 \<Longrightarrow> udm n d = Some (n div d, n mod d)"

text \<open>The hardware instruction.\<close>

definition native_udivmod :: "'a::len word \<Rightarrow> 'a word \<Rightarrow> ('a word \<times> 'a word) option" where
  "native_udivmod n d = (if d = 0 then None else Some (n div d, n mod d))"

definition udivmodsi4 :: "su_int \<Rightarrow> su_int \<Rightarrow> (su_int \<times> su_int) option" where
  "udivmodsi4 a b = (let d = udivsi3 a b in Some (d, a - d * b))"

text \<open>
  The signed routines over an unsigned one: \<open>__divmodsi4\<close>, \<open>__divmoddi4\<close>, \<open>__divmodti4\<close>,
  \<open>__divXi3\<close> (\<open>COMPUTE_UDIV\<close>) and \<open>__modXi3\<close> (\<open>ASSIGN_UMOD\<close>).
\<close>

definition divmodXi4 ::
  "('a::len word \<Rightarrow> 'a word \<Rightarrow> ('a word \<times> 'a word) option) \<Rightarrow> 'a word \<Rightarrow> 'a word \<Rightarrow> ('a word \<times> 'a word) option" where
  "divmodXi4 udm a b =
     (let s_a = signed_drop_bit (LENGTH('a) - 1) a;
          s_b = signed_drop_bit (LENGTH('a) - 1) b;
          a = (a XOR s_a) - s_a;
          b = (b XOR s_b) - s_b;
          s_b = s_b XOR s_a
      in case udm a b of
           None \<Rightarrow> None
         | Some (q, r) \<Rightarrow> Some ((q XOR s_b) - s_b, (r XOR s_a) - s_a))"

definition divXi3 ::
  "('a::len word \<Rightarrow> 'a word \<Rightarrow> ('a word \<times> 'a word) option) \<Rightarrow> 'a word \<Rightarrow> 'a word \<Rightarrow> 'a word option" where
  "divXi3 udm a b =
     (let N = LENGTH('a) - 1;
          s_a = signed_drop_bit N a;
          s_b = signed_drop_bit N b;
          a_u = (a XOR s_a) + (- s_a);
          b_u = (b XOR s_b) + (- s_b);
          s_a = s_a XOR s_b
      in case udm a_u b_u of None \<Rightarrow> None | Some (q, _) \<Rightarrow> Some ((q XOR s_a) + (- s_a)))"

definition modXi3 ::
  "('a::len word \<Rightarrow> 'a word \<Rightarrow> ('a word \<times> 'a word) option) \<Rightarrow> 'a word \<Rightarrow> 'a word \<Rightarrow> 'a word option" where
  "modXi3 udm a b =
     (let N = LENGTH('a) - 1;
          s = signed_drop_bit N b;
          b_u = (b XOR s) + (- s);
          s = signed_drop_bit N a;
          a_u = (a XOR s) + (- s)
      in case udm a_u b_u of None \<Rightarrow> None | Some (_, res) \<Rightarrow> Some ((res XOR s) + (- s)))"

lemma abs_of_sign:
  "(a XOR signed_drop_bit (LENGTH('a) - 1) a) - signed_drop_bit (LENGTH('a) - 1) a = word_of_int \<bar>sint a\<bar>"
  for a :: "'a::len word"
  unfolding xor_sign by (simp add: abs_if)

lemma apply_sign: "(x XOR (if P then - 1 else 0)) - (if P then - 1 else 0) = (if P then - x else x)" for x :: "'a::len word"
proof -
  have "(x XOR - 1) - - 1 = NOT x + 1" by (simp only: bit.xor_one_right diff_minus_eq_add)
  also have "\<dots> = - x" by (simp only: minus_eq_not_plus_1 [of x])
  finally show ?thesis by simp
qed

lemma unat_abs: "int (unat (word_of_int \<bar>sint a\<bar> :: 'a word)) = \<bar>sint a\<bar>" for a :: "'a::len word"
proof -
  have "\<bar>sint a\<bar> < 2 ^ LENGTH('a)"
    using sint_ge [of a] sint_lt [of a] top_power [where 'a='a] by simp
  then show ?thesis by (simp flip: uint_nat add: unsigned_of_int take_bit_int_eq_self)
qed

context udivmod
begin

lemma udm_abs:
  fixes a b :: "'a word"
  assumes "b \<noteq> 0"
  shows "udm (word_of_int \<bar>sint a\<bar>) (word_of_int \<bar>sint b\<bar>)
    = Some (word_of_int (\<bar>sint a\<bar> div \<bar>sint b\<bar>), word_of_int (\<bar>sint a\<bar> mod \<bar>sint b\<bar>))"
proof -
  have "sint b \<noteq> 0" using assms sint_eq_iff [of b 0] by simp
  then have nz: "(word_of_int \<bar>sint b\<bar> :: 'a word) \<noteq> 0"
  proof (rule contrapos_nn)
    assume "(word_of_int \<bar>sint b\<bar> :: 'a word) = 0"
    then have "\<bar>sint b\<bar> = int (unat (0 :: 'a word))" by (metis unat_abs)
    then show "sint b = 0" by simp
  qed
  have u: "uint (word_of_int \<bar>sint x\<bar> :: 'a word) = \<bar>sint x\<bar>" for x :: "'a word"
    using unat_abs [of x] by (simp only: uint_nat)
  show ?thesis
    unfolding udm_law [OF nz] word_div_def word_mod_def u ..
qed

lemma signs:
  "signed_drop_bit (LENGTH('a) - 1) b XOR signed_drop_bit (LENGTH('a) - 1) a
     = (if (sint a < 0) \<noteq> (sint b < 0) then - 1 else (0 :: 'a word))" for a b :: "'a word"
  unfolding sign_spread by simp

lemma divmodXi4_signed:
  assumes "b \<noteq> 0"
  shows "divmodXi4 udm a b = Some (word_of_int (sint a sdiv sint b), word_of_int (sint a smod sint b))"
proof -
  have "sint b \<noteq> 0" using assms sint_eq_iff [of b 0] by simp
  then have "(if (sint a < 0) \<noteq> (sint b < 0) then - word_of_int (\<bar>sint a\<bar> div \<bar>sint b\<bar>) else word_of_int (\<bar>sint a\<bar> div \<bar>sint b\<bar>))
        = (word_of_int (sint a sdiv sint b) :: 'a word)"
    by (auto simp: signed_divide_int_def sgn_if)
  moreover have "(if sint a < 0 then - word_of_int (\<bar>sint a\<bar> mod \<bar>sint b\<bar>) else word_of_int (\<bar>sint a\<bar> mod \<bar>sint b\<bar>))
        = (word_of_int (sint a smod sint b) :: 'a word)"
    by (auto simp: signed_modulo_int_def sgn_if)
  ultimately show ?thesis
    unfolding divmodXi4_def Let_def abs_of_sign udm_abs [OF assms] signs option.case prod.case apply_sign
    unfolding sign_spread apply_sign by (simp only:)
qed

lemma divXi3_signed: "b \<noteq> 0 \<Longrightarrow> divXi3 udm a b = Some (word_of_int (sint a sdiv sint b))"
  using divmodXi4_signed [of b a]
  by (auto simp: divXi3_def divmodXi4_def Let_def xor.commute split: option.splits)

lemma modXi3_signed: "b \<noteq> 0 \<Longrightarrow> modXi3 udm a b = Some (word_of_int (sint a smod sint b))"
  using divmodXi4_signed [of b a]
  by (auto simp: modXi3_def divmodXi4_def Let_def split: option.splits)

end

interpretation native: udivmod native_udivmod
  by unfold_locales (simp add: native_udivmod_def)

lemma udivsi3_eq: "b \<noteq> 0 \<Longrightarrow> udivsi3 a b = a div b" "b \<noteq> 0 \<Longrightarrow> umodsi3 a b = a mod b"
  using udivXi3_umodXi3 [of b a] by (simp_all add: udivsi3_def umodsi3_def)

lemma udivdi3_eq: "b \<noteq> 0 \<Longrightarrow> udivdi3 a b = a div b" "b \<noteq> 0 \<Longrightarrow> umoddi3 a b = a mod b"
  using udivXi3_umodXi3 [of b a] by (simp_all add: udivdi3_def umoddi3_def)

interpretation si: udivmod udivmodsi4
proof unfold_locales
  fix n d :: su_int assume "d \<noteq> 0"
  then show "udivmodsi4 n d = Some (n div d, n mod d)"
    by (simp add: udivmodsi4_def Let_def udivsi3_eq minus_div_mult_eq_mod)
qed

definition divmodsi4 :: "su_int \<Rightarrow> su_int \<Rightarrow> (su_int \<times> su_int) option" where
  "divmodsi4 a b = divmodXi4 udivmodsi4 a b"

definition divsi3 :: "su_int \<Rightarrow> su_int \<Rightarrow> su_int option" where
  "divsi3 a b = divXi3 native_udivmod a b"

text \<open>The product of the quotient and the divisor is signed in C: for the least dividend and the divisor minus one it
  overflows, which C leaves undefined; here it wraps around.\<close>

definition modsi3 :: "su_int \<Rightarrow> su_int \<Rightarrow> su_int option" where
  "modsi3 a b = (case divsi3 a b of None \<Rightarrow> None | Some q \<Rightarrow> Some (a - q * b))"

lemma modsi3_signed: "b \<noteq> 0 \<Longrightarrow> modsi3 a b = Some (word_of_int (sint a smod sint b))"
proof -
  assume b: "b \<noteq> 0"
  have "sint a smod sint b = sint a - sint a sdiv sint b * sint b"
    using sdiv_mult_smod_eq [of "sint a" "sint b"] by linarith
  then show "modsi3 a b = Some (word_of_int (sint a smod sint b))"
    by (simp add: modsi3_def divsi3_def native.divXi3_signed [OF b])
qed

section \<open>The property of the component\<close>

text \<open>The shift-and-subtract divisions return the quotient and the remainder of the unsigned
  operands for every nonzero divisor, at 32 and at 64 bits.\<close>

theorem udiv_umod_correct:
  assumes "d \<noteq> 0" "e \<noteq> 0"
  shows "udivsi3 n d = n div d \<and> umodsi3 n d = n mod d \<and> udivmodsi4 n d = Some (n div d, n mod d)
   \<and> udivdi3 m e = m div e \<and> umoddi3 m e = m mod e"
  using assms by (simp add: udivsi3_eq udivdi3_eq si.udm_law)

theorem udiv_umod_correct_witness:
  "udivsi3 100 7 = 14 \<and> umodsi3 100 7 = 2 \<and> udivdi3 (2 ^ 63 + 5) (2 ^ 63) = 1 \<and> umoddi3 (2 ^ 63 + 5) (2 ^ 63) = 5"
  using udiv_umod_correct [of 7 "2 ^ 63" 100 "2 ^ 63 + 5"] by simp

end
