(* ===== verification/IntDiv64.thy ===== *)
theory IntDiv64
  imports IntDiv IntShift
begin

text \<open>
  64-bit division on 32-bit words: \<^verbatim>\<open>udivmoddi4.c\<close> and its signed clients \<^verbatim>\<open>divdi3.c\<close>,
  \<^verbatim>\<open>moddi3.c\<close> and \<^verbatim>\<open>divmoddi4.c\<close>.  The case analysis on which halves are zero either returns at
  once or sets up the pair of registers for the loop.  A quotient and a remainder are
  returned as a pair: the source stores the remainder only if the pointer is not null.
\<close>

unbundle bit_operations_syntax

section \<open>The case analysis\<close>

text \<open>The values with which the loop starts: \<open>sr\<close>, \<open>q\<close> and \<open>r\<close>.\<close>

record loop_start =
  start_sr :: su_int
  start_q :: du_int
  start_r :: du_int

definition udivmoddi4_setup :: "du_int \<Rightarrow> du_int \<Rightarrow> (du_int \<times> du_int) option + loop_start" where
  "udivmoddi4_setup n d =
     (let n_uword_bits = 32 :: su_int; n_udword_bits = 64 :: su_int in
      if hi32 n = 0 then
        if hi32 d = 0 then
          (if lo32 d = 0 then Inl None
           else Inl (Some (ucast (lo32 n div lo32 d), ucast (lo32 n mod lo32 d))))
        else Inl (Some (0, ucast (lo32 n)))
      else if lo32 d = 0 then
        if hi32 d = 0 then Inl None
        else if lo32 n = 0 then
          Inl (Some (ucast (hi32 n div hi32 d), make_du (hi32 n mod hi32 d) 0))
        else if hi32 d AND (hi32 d - 1) = 0 then
          Inl (Some (ucast (drop_bit (unat (builtin_ctz (hi32 d))) (hi32 n)),
                     make_du (hi32 n AND (hi32 d - 1)) (lo32 n)))
        else
          let sr = builtin_clz (hi32 d) - builtin_clz (hi32 n) in
          if sr > n_uword_bits - 2 then Inl (Some (0, n))
          else
            let sr = sr + 1 in
            Inr \<lparr> start_sr = sr,
              start_q = make_du (push_bit (unat (n_uword_bits - sr)) (lo32 n)) 0,
              start_r = make_du (drop_bit (unat sr) (hi32 n))
                (push_bit (unat (n_uword_bits - sr)) (hi32 n) OR drop_bit (unat sr) (lo32 n)) \<rparr>
      else if hi32 d = 0 then
        if lo32 d AND (lo32 d - 1) = 0 then
          let rem = ucast (lo32 n AND (lo32 d - 1)) in
          if lo32 d = 1 then Inl (Some (n, rem))
          else
            let sr = builtin_ctz (lo32 d) in
            Inl (Some (make_du (drop_bit (unat sr) (hi32 n))
                   (push_bit (unat (n_uword_bits - sr)) (hi32 n) OR drop_bit (unat sr) (lo32 n)), rem))
        else
          let sr = 1 + n_uword_bits + builtin_clz (lo32 d) - builtin_clz (hi32 n) in
          if sr = n_uword_bits then
            Inr \<lparr> start_sr = sr, start_q = make_du (lo32 n) 0, start_r = make_du 0 (hi32 n) \<rparr>
          else if sr < n_uword_bits then
            Inr \<lparr> start_sr = sr,
              start_q = make_du (push_bit (unat (n_uword_bits - sr)) (lo32 n)) 0,
              start_r = make_du (drop_bit (unat sr) (hi32 n))
                (push_bit (unat (n_uword_bits - sr)) (hi32 n) OR drop_bit (unat sr) (lo32 n)) \<rparr>
          else
            Inr \<lparr> start_sr = sr,
              start_q = make_du (push_bit (unat (n_udword_bits - sr)) (hi32 n) OR
                                 drop_bit (unat (sr - n_uword_bits)) (lo32 n))
                                (push_bit (unat (n_udword_bits - sr)) (lo32 n)),
              start_r = make_du 0 (drop_bit (unat (sr - n_uword_bits)) (hi32 n)) \<rparr>
      else
        let sr = builtin_clz (hi32 d) - builtin_clz (hi32 n) in
        if sr > n_uword_bits - 1 then Inl (Some (0, n))
        else
          let sr = sr + 1 in
          if sr = n_uword_bits then
            Inr \<lparr> start_sr = sr, start_q = make_du (lo32 n) 0, start_r = make_du 0 (hi32 n) \<rparr>
          else
            Inr \<lparr> start_sr = sr,
              start_q = make_du (push_bit (unat (n_uword_bits - sr)) (lo32 n)) 0,
              start_r = make_du (drop_bit (unat sr) (hi32 n))
                (push_bit (unat (n_uword_bits - sr)) (hi32 n) OR drop_bit (unat sr) (lo32 n)) \<rparr>)"

fun udivmoddi4_loop :: "du_int \<Rightarrow> nat \<Rightarrow> du_int \<Rightarrow> du_int \<Rightarrow> su_int \<Rightarrow> du_int \<times> du_int \<times> su_int" where
  "udivmoddi4_loop d 0 r q carry = (r, q, carry)"
| "udivmoddi4_loop d (Suc sr) r q carry =
     (let r = make_du (push_bit 1 (hi32 r) OR drop_bit 31 (lo32 r)) (lo32 r);
          r = make_du (hi32 r) (push_bit 1 (lo32 r) OR drop_bit 31 (hi32 q));
          q = make_du (push_bit 1 (hi32 q) OR drop_bit 31 (lo32 q)) (lo32 q);
          q = make_du (hi32 q) (push_bit 1 (lo32 q) OR carry);
          s = signed_drop_bit 63 (d - r - 1);
          carry = ucast (s AND 1);
          r = r - (d AND s)
      in udivmoddi4_loop d sr r q carry)"

definition udivmoddi4 :: "du_int \<Rightarrow> du_int \<Rightarrow> (du_int \<times> du_int) option" where
  "udivmoddi4 a b =
     (case udivmoddi4_setup a b of
        Inl early \<Rightarrow> early
      | Inr st \<Rightarrow>
          (case udivmoddi4_loop b (unat (start_sr st)) (start_r st) (start_q st) 0 of
             (r, q, carry) \<Rightarrow> Some (push_bit 1 q OR ucast carry, r)))"

section \<open>The loop on halves is the loop on the whole register\<close>

lemma push1_halves:
  "make_du (push_bit 1 (hi32 x) OR drop_bit 31 (lo32 x)) (push_bit 1 (lo32 x) OR y) = push_bit 1 x OR ucast y"
proof (rule bit_word_eqI)
  fix i assume "i < LENGTH(64)"
  moreover have "i \<noteq> 32 \<Longrightarrow> \<not> i < 32 \<Longrightarrow> 32 + (i - 32 - 1) = i - 1" by simp
  ultimately show "bit (make_du (push_bit 1 (hi32 x) OR drop_bit 31 (lo32 x)) (push_bit 1 (lo32 x) OR y)) i
      = bit (push_bit 1 x OR ucast y) i"
    by (cases "i = 32") (auto simp: dw.bit_mk dw.bit_hi dw.bit_lo bit_simps bit_times_2 dest: bit_imp_le_length)
qed

lemma drop31_hi: "ucast (drop_bit 31 (hi32 x)) = drop_bit 63 x"
  by (rule bit_word_eqI) (auto simp: dw.bit_hi bit_simps dest: bit_imp_le_length)

lemma udivmoddi4_loop_eq:
  "udivmoddi4_loop d k r q c = (r', q', c') \<Longrightarrow> udiv_loop d k r q (ucast c) = (r', q', ucast c')"
proof (induction k arbitrary: r q c)
  case (Suc k)
  define R where "R = push_bit 1 r OR drop_bit 63 q"
  define S where "S = signed_drop_bit 63 (d - R - 1)"
  have and1: "ucast (ucast (x AND 1 :: du_int) :: su_int) = x AND 1" for x
    by (rule bit_word_eqI) (auto simp: bit_simps)
  have "udivmoddi4_loop d k (R - (d AND S)) (push_bit 1 q OR ucast c) (ucast (S AND 1)) = (r', q', c')"
    using Suc.prems unfolding udivmoddi4_loop.simps Let_def dw.hi_mk dw.lo_mk push1_halves drop31_hi
      R_def [symmetric] S_def [symmetric] .
  from Suc.IH [OF this] show ?case
    by (simp only: udiv_loop.simps Let_def and1 R_def S_def) simp
qed simp

text \<open>The registers of the set-up are the two shifts of the dividend.\<close>

definition start_ok :: "du_int \<Rightarrow> du_int \<Rightarrow> loop_start \<Rightarrow> bool" where
  "start_ok n d st \<longleftrightarrow>
     bitlen (unat d) \<le> bitlen (unat n) \<and>
     unat (start_sr st) = Suc (bitlen (unat n) - bitlen (unat d)) \<and> unat (start_sr st) < 64 \<and>
     start_q st = push_bit (64 - unat (start_sr st)) n \<and>
     start_r st = drop_bit (unat (start_sr st)) n"

lemma du_bitlen:
  "bitlen (unat x) = (if hi32 x = 0 then bitlen (unat (lo32 x)) else bitlen (unat (hi32 x)) + 32)" for x :: du_int
proof -
  have u: "unat x = unat (hi32 x) * 2 ^ 32 + unat (lo32 x)"
    using dw.unat_mk [of "hi32 x" "lo32 x"] by simp
  show ?thesis
  proof (cases "hi32 x = 0")
    case False
    then show ?thesis
      unfolding u using unsigned_less [of "lo32 x"] by (subst bitlen_mult_add) (simp_all add: unat_gt_0)
  qed (simp add: u)
qed

lemma regs_within:
  assumes "0 < k" "k < 32"
  shows "make_du (push_bit (32 - k) (lo32 n)) 0 = push_bit (64 - k) n"
    and "make_du (drop_bit k (hi32 n)) (push_bit (32 - k) (hi32 n) OR drop_bit k (lo32 n)) = drop_bit k n"
  using dw.shl_across [of "64 - k" n] dw.shr_within [of k n] assms by simp_all

lemma regs_at_32: "make_du (lo32 n) 0 = push_bit 32 n" "make_du 0 (hi32 n) = drop_bit 32 n"
  using dw.shl_across [of 32 n] dw.shr_across [of 32 n] by simp_all

lemma regs_across:
  assumes "32 < k" "k < 64"
  shows "make_du (push_bit (64 - k) (hi32 n) OR drop_bit (k - 32) (lo32 n)) (push_bit (64 - k) (lo32 n)) = push_bit (64 - k) n"
    and "make_du 0 (drop_bit (k - 32) (hi32 n)) = drop_bit k n"
  using dw.shl_within [of "64 - k" n] dw.shr_across [of k n] assms by (simp_all add: Suc_diff_Suc)


section \<open>Each case of the analysis\<close>

lemma pow2_test:
  fixes x :: "'a::len word"
  assumes "x AND (x - 1) = 0" "x \<noteq> 0"
  shows "unat x = 2 ^ ctz_nat (unat x)"
proof -
  define c where "c = ctz_nat (unat x)"
  have pos: "0 < unat x" using assms(2) by (simp add: unat_gt_0)
  have dvd: "2 ^ k dvd unat x \<longleftrightarrow> k \<le> c" for k using ctz_nat_dvd [OF pos, of k] by (simp add: c_def)
  obtain m where m: "unat x = 2 ^ c * m" using dvd [of c] by auto
  have "odd m"
  proof
    assume "even m"
    then obtain l where "m = 2 * l" by blast
    then have "unat x = 2 ^ Suc c * l" by (simp add: m)
    then have "2 ^ Suc c dvd unat x" by (rule dvdI)
    then show False using dvd [of "Suc c"] by simp
  qed
  then obtain t where t: "m = 2 * t + 1" by (rule oddE)
  have x: "unat x = 2 ^ Suc c * t + 2 ^ c" by (simp add: m t algebra_simps)
  have x1: "unat (x - 1) = 2 ^ Suc c * t + (2 ^ c - 1)"
    using x by (simp add: unat_minus_one assms(2))
  have "t = 0"
  proof (rule bit_eqI)
    fix j
    have e: "(2::nat) ^ (c + 1 + j) = 2 ^ Suc c * 2 ^ j" by (simp add: power_add)
    have low: "(2 ^ Suc c * t + y) div 2 ^ Suc c = t" if "y < 2 ^ Suc c" for y :: nat
      using that by simp
    have "unat x div 2 ^ (c + 1 + j) = t div 2 ^ j"
      unfolding e div_mult2_eq x by (subst low) simp_all
    moreover have "unat (x - 1) div 2 ^ (c + 1 + j) = t div 2 ^ j"
      unfolding e div_mult2_eq x1 by (subst low) (simp_all add: less_imp_diff_less)
    ultimately have "bit (unat x) (c + 1 + j) = bit t j" "bit (unat (x - 1)) (c + 1 + j) = bit t j"
      by (simp_all only: bit_iff_odd)
    moreover have "\<not> bit (x AND (x - 1)) (c + 1 + j)" using assms(1) by simp
    ultimately show "bit t j = bit 0 j"
      by (auto simp: bit_unsigned_iff bit_and_iff dest: bit_imp_le_length)
  qed
  then show ?thesis using m t by (simp add: c_def)
qed

lemma pow2_div_mod:
  fixes x n :: su_int
  assumes "x AND (x - 1) = 0" "x \<noteq> 0"
  shows "drop_bit (unat (builtin_ctz x)) n = n div x" "n AND (x - 1) = n mod x"
proof -
  define c where "c = ctz_nat (unat x)"
  have x: "unat x = 2 ^ c" unfolding c_def by (rule pow2_test [OF assms])
  have bc: "unat (builtin_ctz x) = c" using assms(2) by (simp add: builtin_ctz_unat c_def)
  have lt: "c < 32" using ctz_nat_less [OF assms(2)] by (simp add: c_def)
  show "drop_bit (unat (builtin_ctz x)) n = n div x"
    unfolding bc by (simp add: word_unat_eq_iff unat_div unat_drop_bit_eq drop_bit_eq_div [where 'a=nat] x)
  have "(2::nat) ^ c < 2 ^ 32" using lt by (intro power_strict_increasing) simp_all
  then have "unat (of_nat (2 ^ c) :: su_int) = 2 ^ c"
    unfolding unat_of_nat by (intro mod_less) simp
  then have "x = of_nat (2 ^ c)" using x by (simp only: word_unat_eq_iff)
  then have "x = 2 ^ c" by simp
  then have "x - 1 = mask c" by (simp add: mask_eq_exp_minus_1)
  then have "unat (n AND (x - 1)) = unat n mod 2 ^ c"
    by (simp only: take_bit_eq_mask [symmetric] unsigned_take_bit_eq take_bit_eq_mod [where 'a=nat])
  then show "n AND (x - 1) = n mod x"
    by (simp only: word_unat_eq_iff unat_mod x)
qed

lemma du_div_mod_eq:
  fixes n d q r :: du_int
  assumes "unat n = unat q * unat d + unat r" "unat r < unat d"
  shows "n div d = q" "n mod d = r"
  using assms by (simp_all add: word_unat_eq_iff unat_div unat_mod)

lemma du_unat: "unat x = unat (hi32 x) * 2 ^ 32 + unat (lo32 x)"
  using dw.unat_mk [of "hi32 x" "lo32 x"] by simp

lemma unat_widen: "unat (ucast x :: du_int) = unat x" for x :: su_int
  using unat_less [of x] by (simp add: unsigned_ucast_eq take_bit_nat_eq_self)

lemma unat_div_mult_mod: "unat (x div y) * unat y + unat (x mod y) = unat x" for x y :: "'a::len word"
  by (simp add: unat_div unat_mod)

lemma unat_mod_lt: "y \<noteq> 0 \<Longrightarrow> unat (x mod y) < unat y" for x y :: "'a::len word"
  by (simp add: unat_mod unat_gt_0)

lemma case_small:
  "hi32 n = 0 \<Longrightarrow> hi32 d = 0 \<Longrightarrow> lo32 d \<noteq> 0 \<Longrightarrow>
     n div d = ucast (lo32 n div lo32 d) \<and> n mod d = ucast (lo32 n mod lo32 d)"
  using du_div_mod_eq [of n "ucast (lo32 n div lo32 d)" d "ucast (lo32 n mod lo32 d)"]
    unat_mod_lt [of "lo32 d" "lo32 n"] unat_div_mult_mod [of "lo32 n" "lo32 d"]
  by (simp add: du_unat [of n] du_unat [of d] unat_widen)

lemma less_div_mod: "unat n < unat d \<Longrightarrow> n div d = 0 \<and> n mod d = n" for n d :: du_int
  using du_div_mod_eq [of n 0 d n] by simp

lemma du_less: "bitlen (unat n) < bitlen (unat d) \<Longrightarrow> unat n < unat d"
  using bitlen_mono [of "unat d" "unat n"] by linarith

text \<open>A divisor whose low half is zero divides the high half; the low half is all remainder.\<close>

lemma case_high:
  assumes "lo32 d = 0" "hi32 d \<noteq> 0"
  shows "n div d = ucast (hi32 n div hi32 d) \<and> n mod d = make_du (hi32 n mod hi32 d) (lo32 n)"
proof -
  define B :: nat where "B = 2 ^ 32"
  define q h m l where "q = unat (hi32 n div hi32 d)" and "h = unat (hi32 d)"
    and "m = unat (hi32 n mod hi32 d)" and "l = unat (lo32 n)"
  have d: "unat d = h * B" using du_unat [of d] assms(1) by (simp add: h_def B_def)
  have r: "unat (make_du (hi32 n mod hi32 d) (lo32 n)) = m * B + l"
    by (simp add: dw.unat_mk B_def m_def l_def)
  have l: "l < B" using unat_less [of "lo32 n"] by (simp add: B_def l_def)
  have "m < h" using unat_mod_lt [OF assms(2)] by (simp add: m_def h_def)
  then have "(m + 1) * B \<le> h * B" by (intro mult_le_mono1) simp
  with l have lt: "m * B + l < h * B" by simp
  have "unat (hi32 n) = q * h + m" by (simp add: unat_div_mult_mod q_def h_def m_def)
  then have "unat n = (q * h + m) * B + l" using du_unat [of n] by (simp add: B_def l_def)
  then have n: "unat n = q * (h * B) + (m * B + l)" by (simp only: algebra_simps)
  show ?thesis
    using du_div_mod_eq [of n "ucast (hi32 n div hi32 d)" d "make_du (hi32 n mod hi32 d) (lo32 n)"] n lt
    by (simp add: unat_widen d r q_def)
qed

text \<open>A divisor below \<open>2\<^sup>3\<^sup>2\<close> that is a power of two.\<close>

lemma case_low_pow2:
  assumes d: "hi32 d = 0" "lo32 d \<noteq> 0" "lo32 d AND (lo32 d - 1) = 0"
  shows "n mod d = ucast (lo32 n AND (lo32 d - 1))"
    and "lo32 d = 1 \<Longrightarrow> n div d = n"
    and "lo32 d \<noteq> 1 \<Longrightarrow> n div d = drop_bit (unat (builtin_ctz (lo32 d))) n"
    and "lo32 d \<noteq> 1 \<Longrightarrow> 0 < unat (builtin_ctz (lo32 d)) \<and> unat (builtin_ctz (lo32 d)) < 32"
proof -
  define c where "c = ctz_nat (unat (lo32 d))"
  have ld: "unat (lo32 d) = 2 ^ c" unfolding c_def by (rule pow2_test [OF d(3,2)])
  have ud: "unat d = 2 ^ c" using du_unat [of d] d(1) ld by simp
  have bc: "unat (builtin_ctz (lo32 d)) = c" using d(2) by (simp add: builtin_ctz_unat c_def)
  have c: "c < 32" using ctz_nat_less [OF d(2)] by (simp add: c_def)
  have dvd: "(2::nat) ^ c dvd 2 ^ 32" using c by (intro le_imp_power_dvd) simp
  have "unat n mod 2 ^ c = unat (lo32 n) mod 2 ^ c"
    by (subst du_unat [of n]) (metis dvd dvd_mult mod_add_left_eq dvd_imp_mod_0 add_0)
  then show "n mod d = ucast (lo32 n AND (lo32 d - 1))"
    using pow2_div_mod(2) [OF d(3,2), of "lo32 n"] by (simp add: word_unat_eq_iff unat_mod unat_widen ud ld)
  show "lo32 d = 1 \<Longrightarrow> n div d = n"
    using ud ld by (simp add: word_unat_eq_iff unat_div)
  show "lo32 d \<noteq> 1 \<Longrightarrow> n div d = drop_bit (unat (builtin_ctz (lo32 d))) n"
    by (simp add: word_unat_eq_iff unat_div unat_drop_bit_eq drop_bit_eq_div [where 'a=nat] bc ud)
  show "lo32 d \<noteq> 1 \<Longrightarrow> 0 < unat (builtin_ctz (lo32 d)) \<and> unat (builtin_ctz (lo32 d)) < 32"
    using c ld bc by (cases c) (auto simp: word_unat_eq_iff)
qed


text \<open>The counts of rounds: one more than the distance of the highest bits.\<close>

lemma count_hi:
  assumes "hi32 n \<noteq> 0" "hi32 d \<noteq> 0"
  defines "sr \<equiv> builtin_clz (hi32 d) - builtin_clz (hi32 n)"
  shows "sr > 31 \<longleftrightarrow> bitlen (unat n) < bitlen (unat d)"
    and "\<not> sr > 31 \<Longrightarrow> unat (sr + 1) = Suc (bitlen (unat n) - bitlen (unat d)) \<and> unat sr \<le> 31
           \<and> unat (hi32 d) * 2 ^ unat sr < 2 ^ 32"
proof -
  have b: "bitlen (unat n) = bitlen (unat (hi32 n)) + 32" "bitlen (unat d) = bitlen (unat (hi32 d)) + 32"
    using assms by (simp_all add: du_bitlen)
  note c = shift_count [of "hi32 d" "hi32 n"]
  show big: "sr > 31 \<longleftrightarrow> bitlen (unat n) < bitlen (unat d)"
    using c(1) assms b by simp
  show "\<not> sr > 31 \<Longrightarrow> unat (sr + 1) = Suc (bitlen (unat n) - bitlen (unat d)) \<and> unat sr \<le> 31
           \<and> unat (hi32 d) * 2 ^ unat sr < 2 ^ 32"
  proof -
    assume small: "\<not> sr > 31"
    then have le: "bitlen (unat (hi32 d)) \<le> bitlen (unat (hi32 n))" using big b by simp
    then have s: "unat sr = bitlen (unat (hi32 n)) - bitlen (unat (hi32 d))"
      using c(2) assms by simp
    have s31: "unat sr \<le> 31" using small by (simp add: word_less_nat_alt)
    have "bitlen (unat (hi32 n)) \<le> 32" using bitlen_word_le [of "hi32 n"] by simp
    then have sum: "bitlen (unat (hi32 d)) + unat sr \<le> 32" using s le by linarith
    have "unat (hi32 d) < 2 ^ bitlen (unat (hi32 d))" using bitlen_le_iff [of "unat (hi32 d)"] by blast
    then have "unat (hi32 d) * 2 ^ unat sr < 2 ^ bitlen (unat (hi32 d)) * 2 ^ unat sr" by simp
    also have "\<dots> \<le> 2 ^ 32" using sum by (simp flip: power_add add: power_increasing del: power_numeral)
    finally show ?thesis using s s31 b le by (simp add: unat_word_ariths)
  qed
qed

lemma start_ok_within:
  assumes "unat sr = Suc (bitlen (unat n) - bitlen (unat d))" "unat sr < 32" "bitlen (unat d) \<le> bitlen (unat n)"
  shows "start_ok n d \<lparr> start_sr = sr,
    start_q = make_du (push_bit (unat (32 - sr)) (lo32 n)) 0,
    start_r = make_du (drop_bit (unat sr) (hi32 n)) (push_bit (unat (32 - sr)) (hi32 n) OR drop_bit (unat sr) (lo32 n)) \<rparr>"
proof -
  have "unat (32 - sr) = 32 - unat sr" using assms(2) by (simp add: unat_sub word_le_nat_alt)
  then show ?thesis
    using assms regs_within [of "unat sr" n] by (simp add: start_ok_def)
qed

lemma start_ok_at_32:
  assumes "unat sr = Suc (bitlen (unat n) - bitlen (unat d))" "sr = 32" "bitlen (unat d) \<le> bitlen (unat n)"
  shows "start_ok n d \<lparr> start_sr = sr, start_q = make_du (lo32 n) 0, start_r = make_du 0 (hi32 n) \<rparr>"
  using assms by (simp add: start_ok_def regs_at_32)

lemma start_ok_across:
  assumes "unat sr = Suc (bitlen (unat n) - bitlen (unat d))" "32 < unat sr" "unat sr < 64"
    "bitlen (unat d) \<le> bitlen (unat n)"
  shows "start_ok n d \<lparr> start_sr = sr,
    start_q = make_du (push_bit (unat (64 - sr)) (hi32 n) OR drop_bit (unat (sr - 32)) (lo32 n))
                      (push_bit (unat (64 - sr)) (lo32 n)),
    start_r = make_du 0 (drop_bit (unat (sr - 32)) (hi32 n)) \<rparr>"
proof -
  have "unat (64 - sr) = 64 - unat sr" "unat (sr - 32) = unat sr - 32"
    using assms(2,3) by (simp_all add: unat_sub word_le_nat_alt)
  then show ?thesis
    using assms regs_across [of "unat sr" n] by (simp add: start_ok_def)
qed

definition setup_ok :: "du_int \<Rightarrow> du_int \<Rightarrow> (du_int \<times> du_int) option + loop_start \<Rightarrow> bool" where
  "setup_ok n d x \<longleftrightarrow>
     (case x of Inl e \<Rightarrow> e = Some (n div d, n mod d) | Inr st \<Rightarrow> start_ok n d st)"

lemma setup_ok_Inl: "n div d = q \<Longrightarrow> n mod d = r \<Longrightarrow> setup_ok n d (Inl (Some (q, r)))"
  by (simp add: setup_ok_def)

lemma setup_ok_Inr: "start_ok n d st \<Longrightarrow> setup_ok n d (Inr st)"
  by (simp add: setup_ok_def)

lemma div_less_hi: "hi32 n = 0 \<Longrightarrow> hi32 d \<noteq> 0 \<Longrightarrow> unat n < unat d"
  using du_unat [of n] du_unat [of d] unat_less [of "lo32 n"] by (simp add: unat_gt_0 [symmetric])

lemma setup_high_low0:
  assumes "hi32 n \<noteq> 0" "lo32 d = 0" "hi32 d \<noteq> 0"
  shows "setup_ok n d (udivmoddi4_setup n d)"
proof -
  define sr where "sr = builtin_clz (hi32 d) - builtin_clz (hi32 n)"
  note count = count_hi [OF assms(1,3), folded sr_def]
  note ch = case_high [OF assms(2,3), of n]
  consider (lo0) "lo32 n = 0" | (pow) "lo32 n \<noteq> 0" "hi32 d AND (hi32 d - 1) = 0"
    | (gen) "lo32 n \<noteq> 0" "hi32 d AND (hi32 d - 1) \<noteq> 0" by blast
  then show ?thesis
  proof cases
    case lo0
    then show ?thesis using assms ch
      by (simp add: udivmoddi4_setup_def Let_def setup_ok_def)
  next
    case pow
    then show ?thesis using assms ch pow2_div_mod [OF pow(2) assms(3), of "hi32 n"]
      by (simp add: udivmoddi4_setup_def Let_def setup_ok_def)
  next
    case gen
    have d2: "2 \<le> unat (hi32 d)"
    proof (rule ccontr)
      assume "\<not> 2 \<le> unat (hi32 d)"
      then have "unat (hi32 d) = 1" using assms(3) by (simp add: unat_gt_0 [symmetric])
      then have "hi32 d = 1" by (simp add: word_unat_eq_iff)
      with gen show False by simp
    qed
    show ?thesis
    proof (cases "sr > 30")
      case True
      have "unat n < unat d"
      proof (cases "sr > 31")
        case False
        then have "unat sr = 31" using True by (simp add: word_less_nat_alt)
        with count(2) [OF False] d2 show ?thesis by simp
      qed (use count(1) du_less in blast)
      then show ?thesis
        using assms gen True less_div_mod [of n d]
        by (simp add: udivmoddi4_setup_def Let_def setup_ok_def sr_def)
    next
      case False
      then have n31: "\<not> sr > 31" by (simp add: word_less_nat_alt)
      have s30: "unat sr \<le> 30" using False by (simp add: word_less_nat_alt)
      then have u: "unat (sr + 1) < 32" by (simp add: unat_word_ariths)
      have le: "bitlen (unat d) \<le> bitlen (unat n)" using count(1) n31 by simp
      have "udivmoddi4_setup n d = Inr \<lparr> start_sr = sr + 1,
          start_q = make_du (push_bit (unat (32 - (sr + 1))) (lo32 n)) 0,
          start_r = make_du (drop_bit (unat (sr + 1)) (hi32 n))
            (push_bit (unat (32 - (sr + 1))) (hi32 n) OR drop_bit (unat (sr + 1)) (lo32 n)) \<rparr>"
        using assms gen False by (simp add: udivmoddi4_setup_def Let_def sr_def)
      then show ?thesis
        using start_ok_within [OF _ u le] count(2) [OF n31] by (simp only: setup_ok_def sum.case)
    qed
  qed
qed

lemma setup_low:
  assumes "hi32 n \<noteq> 0" "lo32 d \<noteq> 0" "hi32 d = 0"
  shows "setup_ok n d (udivmoddi4_setup n d)"
proof (cases "lo32 d AND (lo32 d - 1) = 0")
  case True
  note pow = case_low_pow2 [OF assms(3,2) True]
  show ?thesis
  proof (cases "lo32 d = 1")
    case one: True
    then show ?thesis using assms pow(1,2) by (simp add: udivmoddi4_setup_def Let_def setup_ok_def)
  next
    case False
    let ?sr = "builtin_ctz (lo32 d)"
    have "unat (32 - ?sr) = 32 - unat ?sr" using pow(4) False by (simp add: unat_sub word_le_nat_alt)
    then have "make_du (drop_bit (unat ?sr) (hi32 n)) (push_bit (unat (32 - ?sr)) (hi32 n) OR drop_bit (unat ?sr) (lo32 n))
        = drop_bit (unat ?sr) n"
      using regs_within(2) [of "unat ?sr" n] pow(4) False by simp
    then show ?thesis
      using assms True False pow(1,3) by (simp add: udivmoddi4_setup_def Let_def setup_ok_def)
  qed
next
  case False
  define sr where "sr = 1 + 32 + builtin_clz (lo32 d) - builtin_clz (hi32 n)"
  have bn: "bitlen (unat n) = bitlen (unat (hi32 n)) + 32" using assms by (simp add: du_bitlen)
  have bd: "bitlen (unat d) = bitlen (unat (lo32 d))" using assms by (simp add: du_bitlen)
  have ln: "bitlen (unat (hi32 n)) \<le> 32" "0 < bitlen (unat (hi32 n))"
    using bitlen_word_le [of "hi32 n"] assms by (simp_all add: unat_gt_0)
  have "2 \<le> unat (lo32 d)"
  proof (rule ccontr)
    assume "\<not> 2 \<le> unat (lo32 d)"
    then have "unat (lo32 d) = 1" using assms(2) by (simp add: unat_gt_0 [symmetric])
    then have "lo32 d = 1" by (simp add: word_unat_eq_iff)
    with False show False by simp
  qed
  then have ld: "bitlen (unat (lo32 d)) \<le> 32" "1 < bitlen (unat (lo32 d))"
    using bitlen_word_le [of "lo32 d"] bitlen_gt_iff [of 1 "unat (lo32 d)"] by simp_all
  have c: "unat (builtin_clz (lo32 d)) = 32 - bitlen (unat (lo32 d))"
    "unat (builtin_clz (hi32 n)) = 32 - bitlen (unat (hi32 n))"
    by (simp_all add: builtin_clz_unat)
  have "unat (1 + 32 + builtin_clz (lo32 d)) = 33 + (32 - bitlen (unat (lo32 d)))"
    using c ld by (simp add: unat_word_ariths)
  then have "unat sr = 33 + (32 - bitlen (unat (lo32 d))) - (32 - bitlen (unat (hi32 n)))"
    using c ld ln by (simp add: sr_def unat_sub word_le_nat_alt)
  then have sr: "unat sr = Suc (bitlen (unat n) - bitlen (unat d))"
    using bn bd ld ln by linarith
  have lt: "unat sr < 64" using sr bn bd ld ln by linarith
  have le: "bitlen (unat d) \<le> bitlen (unat n)" using bn bd ld ln by linarith
  consider (eq) "sr = 32" | (less) "sr < 32" "unat sr < 32" | (more) "sr \<noteq> 32" "\<not> sr < 32" "32 < unat sr"
    by (cases "unat sr" "32::nat" rule: linorder_cases) (auto simp: word_less_nat_alt word_unat_eq_iff)
  then show ?thesis
  proof cases
    case eq
    have "udivmoddi4_setup n d = Inr \<lparr> start_sr = sr, start_q = make_du (lo32 n) 0, start_r = make_du 0 (hi32 n) \<rparr>"
      unfolding udivmoddi4_setup_def Let_def sr_def [symmetric] using assms False eq by simp
    then show ?thesis using start_ok_at_32 [OF sr eq le] by (simp only: setup_ok_def sum.case)
  next
    case less
    have "udivmoddi4_setup n d = Inr \<lparr> start_sr = sr,
          start_q = make_du (push_bit (unat (32 - sr)) (lo32 n)) 0,
          start_r = make_du (drop_bit (unat sr) (hi32 n))
            (push_bit (unat (32 - sr)) (hi32 n) OR drop_bit (unat sr) (lo32 n)) \<rparr>"
      unfolding udivmoddi4_setup_def Let_def sr_def [symmetric] using assms False less by simp
    then show ?thesis using start_ok_within [OF sr less(2) le] by (simp only: setup_ok_def sum.case)
  next
    case more
    have "udivmoddi4_setup n d = Inr \<lparr> start_sr = sr,
          start_q = make_du (push_bit (unat (64 - sr)) (hi32 n) OR drop_bit (unat (sr - 32)) (lo32 n))
                            (push_bit (unat (64 - sr)) (lo32 n)),
          start_r = make_du 0 (drop_bit (unat (sr - 32)) (hi32 n)) \<rparr>"
      unfolding udivmoddi4_setup_def Let_def sr_def [symmetric] using assms False more by simp
    then show ?thesis using start_ok_across [OF sr more(3) lt le] by (simp only: setup_ok_def sum.case)
  qed
qed

lemma setup_both:
  assumes "hi32 n \<noteq> 0" "lo32 d \<noteq> 0" "hi32 d \<noteq> 0"
  shows "setup_ok n d (udivmoddi4_setup n d)"
proof -
  define sr where "sr = builtin_clz (hi32 d) - builtin_clz (hi32 n)"
  note count = count_hi [OF assms(1,3), folded sr_def]
  show ?thesis
  proof (cases "sr > 31")
    case True
    then have "unat n < unat d" using count(1) du_less by blast
    then show ?thesis
      using assms True less_div_mod [of n d] by (simp add: udivmoddi4_setup_def Let_def setup_ok_def sr_def)
  next
    case False
    note c = count(2) [OF False]
    have le: "bitlen (unat d) \<le> bitlen (unat n)" using count(1) False by simp
    show ?thesis
    proof (cases "sr + 1 = 32")
      case True
      have "udivmoddi4_setup n d = Inr \<lparr> start_sr = sr + 1, start_q = make_du (lo32 n) 0, start_r = make_du 0 (hi32 n) \<rparr>"
        unfolding udivmoddi4_setup_def Let_def sr_def [symmetric] using assms False True by simp
      then show ?thesis using start_ok_at_32 [OF _ True le] c by (simp only: setup_ok_def sum.case)
    next
      case ne: False
      have s31: "unat sr \<le> 31" using c by blast
      have "unat (sr + 1) \<noteq> 32" using ne by (simp only: word_unat_eq_iff) simp
      moreover have "unat (sr + 1) = unat sr + 1" using s31 by (simp add: unat_word_ariths)
      ultimately have lt: "unat (sr + 1) < 32" using s31 by linarith
      have "udivmoddi4_setup n d = Inr \<lparr> start_sr = sr + 1,
          start_q = make_du (push_bit (unat (32 - (sr + 1))) (lo32 n)) 0,
          start_r = make_du (drop_bit (unat (sr + 1)) (hi32 n))
            (push_bit (unat (32 - (sr + 1))) (hi32 n) OR drop_bit (unat (sr + 1)) (lo32 n)) \<rparr>"
        unfolding udivmoddi4_setup_def Let_def sr_def [symmetric] using assms False ne by simp
      then show ?thesis using start_ok_within [OF _ lt le] c by (simp only: setup_ok_def sum.case)
    qed
  qed
qed

lemma setup_correct: "d \<noteq> 0 \<Longrightarrow> setup_ok n d (udivmoddi4_setup n d)"
proof -
  assume d: "d \<noteq> 0"
  have halves: "lo32 d \<noteq> 0 \<or> hi32 d \<noteq> 0" using d du_unat [of d] by (auto simp: unat_gt_0 [symmetric])
  consider (ss) "hi32 n = 0" "hi32 d = 0" | (sl) "hi32 n = 0" "hi32 d \<noteq> 0" | (l) "hi32 n \<noteq> 0" by blast
  then show ?thesis
  proof cases
    case ss
    then show ?thesis using halves case_small [of n d] by (simp add: udivmoddi4_setup_def Let_def setup_ok_def)
  next
    case sl
    then have "n = ucast (lo32 n)" using du_unat [of n] by (simp add: word_unat_eq_iff unat_widen)
    then show ?thesis
      using sl less_div_mod [OF div_less_hi [OF sl]] by (simp add: udivmoddi4_setup_def Let_def setup_ok_def)
  next
    case l
    then show ?thesis using halves setup_high_low0 [OF l] setup_low [OF l] setup_both [OF l] by blast
  qed
qed


section \<open>The routine and its clients\<close>

lemma udivmoddi4_correct: "d \<noteq> 0 \<Longrightarrow> udivmoddi4 n d = Some (n div d, n mod d)"
proof -
  assume d: "d \<noteq> 0"
  note ok = setup_correct [OF d, of n]
  show ?thesis
  proof (cases "udivmoddi4_setup n d")
    case (Inl e)
    with ok show ?thesis by (simp add: udivmoddi4_def setup_ok_def)
  next
    case (Inr st)
    with ok have st: "start_ok n d st" by (simp add: setup_ok_def)
    let ?k = "unat (start_sr st)"
    obtain r q c where run: "udivmoddi4_loop d ?k (start_r st) (start_q st) 0 = (r, q, c)"
      by (cases "udivmoddi4_loop d ?k (start_r st) (start_q st) 0")
    obtain r' q' c' where "udiv_loop d ?k (drop_bit ?k n) (push_bit (LENGTH(64) - ?k) n) 0 = (r', q', c')"
      and res: "unat r' = unat n mod unat d" "unat (push_bit 1 q' OR c') = unat n div unat d"
      using loop_from_lengths [OF d, of n ?k] st by (auto simp: start_ok_def)
    moreover have "udiv_loop d ?k (drop_bit ?k n) (push_bit (LENGTH(64) - ?k) n) 0 = (r, q, ucast c)"
      using udivmoddi4_loop_eq [OF run] st by (simp add: start_ok_def)
    ultimately have "r' = r" "q' = q" "c' = ucast c" by simp_all
    with res have "r = n mod d" "push_bit 1 q OR ucast c = n div d"
      by (simp_all only: word_unat_eq_iff unat_div unat_mod)
    then show ?thesis using Inr run by (simp add: udivmoddi4_def)
  qed
qed

lemma udivmoddi4_zero: "udivmoddi4 n 0 = None"
  by (simp add: udivmoddi4_def udivmoddi4_setup_def lo32_def hi32_def)

interpretation di: udivmod udivmoddi4
  by unfold_locales (rule udivmoddi4_correct)

definition divmoddi4 :: "du_int \<Rightarrow> du_int \<Rightarrow> (du_int \<times> du_int) option" where
  "divmoddi4 a b = divmodXi4 udivmoddi4 a b"

definition divdi3 :: "du_int \<Rightarrow> du_int \<Rightarrow> du_int option" where
  "divdi3 a b = divXi3 udivmoddi4 a b"

definition moddi3 :: "du_int \<Rightarrow> du_int \<Rightarrow> du_int option" where
  "moddi3 a b = modXi3 udivmoddi4 a b"

section \<open>The properties of the component\<close>

text \<open>C39: 64-bit division on 32-bit halves returns quotient and remainder for every nonzero
  divisor, whichever of the halves are zero; dividing by zero never returns.\<close>

theorem udivmoddi4_returns:
  "udivmoddi4 n d = (if d = 0 then None else Some (n div d, n mod d))"
  by (simp add: udivmoddi4_correct udivmoddi4_zero)

text \<open>The two registers with which the loop of \<open>__udivmoddi4\<close> starts are the two shifts of the
  dividend, with a count of rounds between 1 and 63: no shift of the set-up is out of range.\<close>

theorem udivmoddi4_setup_registers:
  assumes "d \<noteq> 0" "udivmoddi4_setup n d = Inr st"
  shows "1 \<le> unat (start_sr st) \<and> unat (start_sr st) \<le> 63
   \<and> start_q st = push_bit (64 - unat (start_sr st)) n \<and> start_r st = drop_bit (unat (start_sr st)) n"
  using setup_correct [OF assms(1), of n] assms(2) by (simp add: setup_ok_def start_ok_def)

theorem udivmoddi4_setup_registers_witness:
  "\<exists>st. udivmoddi4_setup 0x500000003 0x100000007 = Inr st \<and> unat (start_sr st) \<le> 63"
proof -
  have "udivmoddi4_setup 0x500000003 0x100000007 \<noteq> Inl e" for e
  proof -
    have h: "hi32 0x500000003 = 5" "lo32 0x500000003 = 3" "hi32 0x100000007 = 1" "lo32 0x100000007 = 7"
      by (simp_all add: hi32_def lo32_def)
    have "bitlen 5 = 3" "bitlen 1 = 1" by (simp_all add: bitlen.simps)
    then show ?thesis
      unfolding udivmoddi4_setup_def Let_def h by (simp add: builtin_clz_def)
  qed
  then obtain st where "udivmoddi4_setup 0x500000003 0x100000007 = Inr st" by (metis sumE)
  with udivmoddi4_setup_registers [OF _ this] show ?thesis by simp
qed

end
