(* ===== verification/IntDiv128.thy ===== *)
theory IntDiv128
  imports IntDiv IntShift
begin

text \<open>
  128-bit division: \<^verbatim>\<open>udivmodti4.c\<close> with \<open>udiv128by64to64default\<close> (Knuth's algorithm D with
  two 32-bit quotient digits, the portable branch of \<open>udiv128by64to64\<close>), and its clients
  \<^verbatim>\<open>udivti3.c\<close>, \<^verbatim>\<open>umodti3.c\<close>, \<^verbatim>\<open>divti3.c\<close>, \<^verbatim>\<open>modti3.c\<close> and \<^verbatim>\<open>divmodti4.c\<close>.
  The loop that corrects a quotient digit is a partial function of the source's \<open>while\<close>;
  that it ends, after at most two rounds, is part of what is proved.
\<close>

unbundle bit_operations_syntax

section \<open>Dividing 128 by 64 bits\<close>

text \<open>The loop that lowers an estimate \<open>q\<close> of a quotient digit; \<open>None\<close> if it did not end.\<close>

partial_function (option) correct_digit ::
  "du_int \<Rightarrow> du_int \<Rightarrow> du_int \<Rightarrow> du_int \<Rightarrow> du_int \<Rightarrow> (du_int \<times> du_int) option" where
  "correct_digit vn1 vn0 un q rhat =
     (let b = push_bit 32 1 in
      if q \<ge> b \<or> q * vn0 > b * rhat + un then
        let q = q - 1; rhat = rhat + vn1 in
        if rhat \<ge> b then Some (q, rhat)
        else correct_digit vn1 vn0 un q rhat
      else Some (q, rhat))"

declare correct_digit.simps [code]

definition udiv128by64to64default :: "du_int \<Rightarrow> du_int \<Rightarrow> du_int \<Rightarrow> (du_int \<times> du_int) option" where
  "udiv128by64to64default u1 u0 v =
     (let n_udword_bits = 64 :: su_int;
          b = push_bit 32 1 :: du_int;
          s = builtin_clz v;
          (v, un64, un10) =
            (if 0 <s s then
               (push_bit (unat s) v,
                push_bit (unat s) u1 OR drop_bit (unat (n_udword_bits - s)) u0,
                push_bit (unat s) u0)
             else (v, u1, u0));
          vn1 = drop_bit 32 v;
          vn0 = v AND 0xFFFFFFFF;
          un1 = drop_bit 32 un10;
          un0 = un10 AND 0xFFFFFFFF;
          q1 = un64 div vn1;
          rhat = un64 - q1 * vn1
      in case correct_digit vn1 vn0 un1 q1 rhat of
           None \<Rightarrow> None
         | Some (q1, _) \<Rightarrow>
             let un21 = un64 * b + un1 - q1 * v;
                 q0 = un21 div vn1;
                 rhat = un21 - q0 * vn1
             in case correct_digit vn1 vn0 un0 q0 rhat of
                  None \<Rightarrow> None
                | Some (q0, _) \<Rightarrow> Some (q1 * b + q0, drop_bit (unat s) (un21 * b + un0 - q0 * v)))"

definition udiv128by64to64 :: "du_int \<Rightarrow> du_int \<Rightarrow> du_int \<Rightarrow> (du_int \<times> du_int) option" where
  "udiv128by64to64 u1 u0 v = udiv128by64to64default u1 u0 v"

text \<open>One quotient digit, on natural numbers in base \<open>B\<close>: what the loop keeps and where it stops.\<close>

lemma digit_test:
  fixes B vn1 vn0 un64 un1 q r :: nat
  assumes "q * vn1 + r = un64"
  shows "q * vn0 > B * r + un1 \<longleftrightarrow> un64 * B + un1 < q * (vn1 * B + vn0)"
proof -
  have "un64 * B = q * (vn1 * B) + B * r" by (simp add: assms [symmetric] algebra_simps)
  then show ?thesis by (simp add: distrib_left)
qed

lemma digit_stop:
  fixes B vn1 vn0 un64 un1 q r :: nat
  assumes "q * vn1 + r = un64" "q \<le> B" "vn0 < B" "B \<le> r"
  shows "q * (vn1 * B + vn0) \<le> un64 * B + un1"
proof -
  have "q * vn0 \<le> B * r" using assms by (intro mult_le_mono) auto
  then show ?thesis using digit_test [where B=B and ?vn0.0=vn0 and ?un1.0=un1, OF assms(1)] by simp
qed

lemma estimate_bound:
  fixes B v vn1 vn0 un64 :: nat
  assumes "v = vn1 * B + vn0" "vn0 < B" "B \<le> 2 * vn1" "un64 < v" "0 < B"
  shows "un64 div vn1 \<le> B + 1"
proof -
  have "un64 < (B + 2) * vn1" using assms by (simp add: algebra_simps)
  then show ?thesis using assms by (simp add: div_less_iff_less_mult less_Suc_eq_le [symmetric])
qed


lemma correct_digit_correct:
  fixes vn1 vn0 un q rhat :: du_int and un64 :: nat
  assumes "unat vn1 < 2 ^ 32" "unat vn0 < 2 ^ 32" "unat un < 2 ^ 32" "2 ^ 31 \<le> unat vn1"
    and "un64 < v" and v: "v = unat vn1 * 2 ^ 32 + unat vn0"
    and "unat q * unat vn1 + unat rhat = un64" "unat rhat < 2 ^ 32"
    and "(un64 * 2 ^ 32 + unat un) div v \<le> unat q" "unat q \<le> 2 ^ 32 + 1"
  shows "\<exists>q' r'. correct_digit vn1 vn0 un q rhat = Some (q', r') \<and> unat q' = (un64 * 2 ^ 32 + unat un) div v"
  using assms(7-10)
proof (induction "2 ^ 32 - unat rhat" arbitrary: q rhat rule: less_induct)
  case less
  define B :: nat where "B = 2 ^ 32"
  define qt where "qt = (un64 * B + unat un) div v"
  have BB: "B * B = 2 ^ 64" by (simp add: B_def)
  have b: "unat (push_bit 32 1 :: du_int) = B" by (simp add: B_def)
  have lt: "unat vn1 < B" "unat vn0 < B" "unat un < B" "B \<le> 2 * unat vn1" "unat rhat < B" "0 < B"
    using assms less.prems by (simp_all add: B_def)
  have eq: "unat q * unat vn1 + unat rhat = un64" and qq: "qt \<le> unat q" and qB: "unat q \<le> B + 1"
    using less.prems by (simp_all add: qt_def B_def)
  have v0: "0 < v" using assms(5) by simp
  have qt_less: "qt < B"
  proof -
    have "un64 + 1 \<le> v" using assms(5) by simp
    then have "(un64 + 1) * B \<le> v * B" by (rule mult_le_mono1)
    then have "un64 * B + unat un < B * v" using lt(3) by (simp add: algebra_simps)
    then show ?thesis using v0 by (simp add: qt_def div_less_iff_less_mult)
  qed
  have m1: "unat (q * vn0) = unat q * unat vn0"
  proof -
    have "unat q * unat vn0 \<le> (B + 1) * (B - 1)" using qB lt(2) by (intro mult_le_mono) auto
    also have "\<dots> < B * B" using lt(6) by (simp add: algebra_simps)
    finally show ?thesis by (simp add: unat_word_ariths BB)
  qed
  have m2: "unat (push_bit 32 1 * rhat + un) = B * unat rhat + unat un"
  proof -
    have "B * (unat rhat + 1) \<le> B * B" using lt(5) by (intro mult_le_mono2) auto
    then have "B * unat rhat + unat un < B * B" using lt(3) by simp
    then show ?thesis using b by (simp add: unat_word_ariths BB mod_simps)
  qed
  have vB: "v = unat vn1 * B + unat vn0" using v by (simp add: B_def)
  have test: "q \<ge> push_bit 32 1 \<or> q * vn0 > push_bit 32 1 * rhat + un
      \<longleftrightarrow> B \<le> unat q \<or> un64 * B + unat un < unat q * v"
    using digit_test [where B=B and ?vn0.0="unat vn0" and ?un1.0="unat un", OF eq]
    by (simp only: word_le_nat_alt word_less_nat_alt b m1 m2 vB)
  show ?case
  proof (cases "q \<ge> push_bit 32 1 \<or> q * vn0 > push_bit 32 1 * rhat + un")
    case False
    then have "unat q * v \<le> un64 * B + unat un" using test by auto
    then have "unat q \<le> qt" using v0 by (simp add: qt_def less_eq_div_iff_mult_less_eq)
    with qq False show ?thesis
      by (subst correct_digit.simps) (simp add: Let_def qt_def B_def)
  next
    case True
    have "qt < unat q"
    proof (cases "B \<le> unat q")
      case False
      then have "un64 * B + unat un < unat q * v" using True test by blast
      then show ?thesis using v0 by (simp add: qt_def div_less_iff_less_mult)
    qed (use qt_less in linarith)
    then have q1: "unat (q - 1) = unat q - 1" and q0: "0 < unat q"
      by (auto simp: unat_sub word_le_nat_alt)
    have r1: "unat (rhat + vn1) = unat rhat + unat vn1"
      using lt(1,5) by (simp add: unat_word_ariths B_def)
    have eq1: "unat (q - 1) * unat vn1 + unat (rhat + vn1) = un64"
      using eq q0 by (simp add: q1 r1 diff_mult_distrib)
    have qq1: "qt \<le> unat (q - 1)" using \<open>qt < unat q\<close> q1 by simp
    show ?thesis
    proof (cases "rhat + vn1 \<ge> push_bit 32 1")
      case stop: True
      then have "B \<le> unat (rhat + vn1)" by (simp only: word_le_nat_alt b)
      then have "unat (q - 1) * v \<le> un64 * B + unat un"
        unfolding vB using eq1 qB lt(2) q1 by (intro digit_stop [of _ _ "unat (rhat + vn1)"]) simp_all
      then have "unat (q - 1) \<le> qt" using v0 by (simp add: qt_def less_eq_div_iff_mult_less_eq)
      with qq1 True stop show ?thesis
        by (subst correct_digit.simps) (simp only: Let_def if_True; simp add: qt_def B_def)
    next
      case go: False
      then have lt1: "unat (rhat + vn1) < B" by (simp only: word_le_nat_alt b not_le)
      have "2 ^ 32 - unat (rhat + vn1) < 2 ^ 32 - unat rhat"
        using lt1 lt(4,6) by (simp add: r1 B_def)
      from less.hyps [OF this eq1] lt1 qq1 qB q1
      have "\<exists>q' r'. correct_digit vn1 vn0 un (q - 1) (rhat + vn1) = Some (q', r') \<and> unat q' = (un64 * 2 ^ 32 + unat un) div v"
        by (simp add: qt_def B_def)
      then show ?thesis
        using True go by (subst correct_digit.simps) (simp only: Let_def if_True if_False)
    qed
  qed
qed


text \<open>One digit of the quotient of a normalised divisor, with the remainder it leaves.\<close>

lemma digit_step:
  fixes u v un :: du_int
  assumes norm: "2 ^ 63 \<le> unat v" and u: "unat u < unat v" and un: "unat un < 2 ^ 32"
  defines "vn1 \<equiv> drop_bit 32 v" and "vn0 \<equiv> v AND 0xFFFFFFFF"
  shows "\<exists>q r. correct_digit vn1 vn0 un (u div vn1) (u - u div vn1 * vn1) = Some (q, r)
     \<and> unat q = (unat u * 2 ^ 32 + unat un) div unat v \<and> unat q < 2 ^ 32
     \<and> unat (u * push_bit 32 1 + un - q * v) = (unat u * 2 ^ 32 + unat un) mod unat v"
proof -
  have v1: "unat vn1 = unat v div 2 ^ 32"
    by (simp add: vn1_def unat_drop_bit_eq drop_bit_eq_div [where 'a=nat])
  have "vn0 = take_bit 32 v" by (simp add: vn0_def take_bit_eq_mask mask_eq_exp_minus_1)
  then have v0: "unat vn0 = unat v mod 2 ^ 32"
    by (simp add: unsigned_take_bit_eq take_bit_eq_mod [where 'a=nat])
  have v: "unat v = unat vn1 * 2 ^ 32 + unat vn0" by (simp only: v1 v0 div_mult_mod_eq)
  have v1_lt: "unat vn1 < 2 ^ 32" using unat_less [of v] v by simp
  have v0_lt: "unat vn0 < 2 ^ 32" by (simp add: v0)
  have v1_ge: "2 ^ 31 \<le> unat vn1" using norm v v0_lt by simp
  then have v1_nz: "vn1 \<noteq> 0" by auto
  let ?q = "u div vn1" and ?U = "unat u * 2 ^ 32 + unat un"
  have q: "unat ?q = unat u div unat vn1" by (simp add: unat_div)
  have r: "u - ?q * vn1 = u mod vn1" by (simp add: minus_div_mult_eq_mod)
  have e1: "unat ?q * unat vn1 + unat (u mod vn1) = unat u" by (simp add: unat_div unat_mod)
  have mod_lt: "unat (u mod vn1) < unat vn1" using v1_nz by (simp add: unat_mod unat_gt_0)
  then have e2: "unat (u mod vn1) < 2 ^ 32" using v1_lt by linarith
  have e3: "unat ?q \<le> 2 ^ 32 + 1"
    unfolding q using v1_ge v0_lt u by (intro estimate_bound [OF v]) simp_all
  have e4: "?U div unat v \<le> unat ?q"
  proof -
    have "?U < (unat ?q + 1) * unat v"
    proof -
      have "unat u + 1 \<le> (unat ?q + 1) * unat vn1"
        using e1 mod_lt by (simp add: algebra_simps)
      then have "(unat u + 1) * 2 ^ 32 \<le> (unat ?q + 1) * unat vn1 * 2 ^ 32" by (rule mult_le_mono1)
      also have "\<dots> \<le> (unat ?q + 1) * unat v" unfolding v by (simp add: algebra_simps)
      finally show ?thesis using un by simp
    qed
    then show ?thesis using u by (simp add: div_less_iff_less_mult less_Suc_eq_le [symmetric])
  qed
  obtain q' r' where run: "correct_digit vn1 vn0 un ?q (u - ?q * vn1) = Some (q', r')"
    and q': "unat q' = ?U div unat v"
    using correct_digit_correct [OF v1_lt v0_lt un v1_ge u v e1 e2 e4 e3] r by auto
  have q'_lt: "unat q' < 2 ^ 32"
  proof -
    have "(unat u + 1) * 2 ^ 32 \<le> unat v * 2 ^ 32" using u by (intro mult_le_mono1) simp
    then have "?U < 2 ^ 32 * unat v" using un by simp
    then show ?thesis using u unfolding q' by (simp add: div_less_iff_less_mult)
  qed
  have "u * push_bit 32 1 + un - q' * v = of_nat (?U mod unat v)"
  proof -
    have "?U = unat q' * unat v + ?U mod unat v" by (simp add: q')
    then have "(of_nat ?U :: du_int) = of_nat (unat q' * unat v + ?U mod unat v)" by (rule arg_cong)
    then have "u * 2 ^ 32 + un = q' * v + of_nat (?U mod unat v)" by simp
    then show ?thesis by (simp add: mult.commute)
  qed
  moreover have "?U mod unat v < 2 ^ 64"
  proof -
    have "?U mod unat v < unat v" using u by (intro mod_less_divisor) simp
    then show ?thesis using unat_less [of v] by simp
  qed
  ultimately have "unat (u * push_bit 32 1 + un - q' * v) = ?U mod unat v"
    by (simp add: unat_of_nat)
  with run q' q'_lt show ?thesis by blast
qed


text \<open>Both digits; the divisor is normalised first, which scales the remainder.\<close>

lemma udiv128by64to64_normalised:
  fixes u v un10 :: du_int
  assumes norm: "2 ^ 63 \<le> unat v" and u: "unat u < unat v"
  defines "vn1 \<equiv> drop_bit 32 v" and "vn0 \<equiv> v AND 0xFFFFFFFF"
    and "un1 \<equiv> drop_bit 32 un10" and "un0 \<equiv> un10 AND 0xFFFFFFFF"
  shows "\<exists>q1 r1 q0 r0. correct_digit vn1 vn0 un1 (u div vn1) (u - u div vn1 * vn1) = Some (q1, r1) \<and>
    (let un21 = u * push_bit 32 1 + un1 - q1 * v in
       correct_digit vn1 vn0 un0 (un21 div vn1) (un21 - un21 div vn1 * vn1) = Some (q0, r0)
       \<and> unat (q1 * push_bit 32 1 + q0) = (unat u * 2 ^ 64 + unat un10) div unat v
       \<and> unat (un21 * push_bit 32 1 + un0 - q0 * v) = (unat u * 2 ^ 64 + unat un10) mod unat v)"
proof -
  define B :: nat where "B = 2 ^ 32"
  have un1: "unat un1 = unat un10 div B"
    by (simp add: un1_def unat_drop_bit_eq drop_bit_eq_div [where 'a=nat] B_def)
  have "un0 = take_bit 32 un10" by (simp add: un0_def take_bit_eq_mask mask_eq_exp_minus_1)
  then have un0: "unat un0 = unat un10 mod B"
    by (simp add: unsigned_take_bit_eq take_bit_eq_mod [where 'a=nat] B_def)
  have lt: "unat un1 < 2 ^ 32" "unat un0 < 2 ^ 32"
    using unat_less [of un10] by (simp_all add: un1 un0 B_def div_less_iff_less_mult)
  obtain q1 r1 where d1: "correct_digit vn1 vn0 un1 (u div vn1) (u - u div vn1 * vn1) = Some (q1, r1)"
    and q1: "unat q1 = (unat u * B + unat un1) div unat v" "unat q1 < B"
    and un21: "unat (u * push_bit 32 1 + un1 - q1 * v) = (unat u * B + unat un1) mod unat v"
    using digit_step [OF norm u lt(1)] unfolding vn1_def vn0_def B_def by blast
  define un21w where "un21w = u * push_bit 32 1 + un1 - q1 * v"
  have v0: "0 < unat v" using u by simp
  have u2: "unat un21w < unat v" using un21 v0 by (simp add: un21w_def)
  obtain q0 r0 where d0: "correct_digit vn1 vn0 un0 (un21w div vn1) (un21w - un21w div vn1 * vn1) = Some (q0, r0)"
    and q0: "unat q0 = (unat un21w * B + unat un0) div unat v" "unat q0 < B"
    and rem: "unat (un21w * push_bit 32 1 + un0 - q0 * v) = (unat un21w * B + unat un0) mod unat v"
    using digit_step [OF norm u2 lt(2)] unfolding vn1_def vn0_def B_def by blast
  have whole: "unat u * 2 ^ 64 + unat un10 = unat q1 * B * unat v + (unat un21w * B + unat un0)"
  proof -
    have "unat u * B + unat un1 = unat q1 * unat v + unat un21w"
      using un21 by (simp add: q1 un21w_def)
    then have "(unat u * B + unat un1) * B + unat un0 = (unat q1 * unat v + unat un21w) * B + unat un0" by simp
    moreover have "unat un1 * B + unat un0 = unat un10" by (simp only: un1 un0 div_mult_mod_eq)
    ultimately show ?thesis by (simp add: B_def algebra_simps)
  qed
  have q: "unat (q1 * push_bit 32 1 + q0) = unat q1 * B + unat q0"
  proof -
    have "(unat q1 + 1) * B \<le> B * B" using q1(2) by (intro mult_le_mono1) simp
    then have "unat q1 * B + unat q0 < 2 ^ 64" using q0(2) by (simp add: B_def)
    then show ?thesis by (simp add: unat_word_ariths B_def)
  qed
  have qd: "(unat u * 2 ^ 64 + unat un10) div unat v = unat q1 * B + unat q0"
    using v0 by (simp only: whole q0(1) div_mult_self3 mult.commute [of _ "unat v"]) simp
  have md: "(unat u * 2 ^ 64 + unat un10) mod unat v = (unat un21w * B + unat un0) mod unat v"
    unfolding whole by simp
  show ?thesis
    by (rule exI [of _ q1], rule exI [of _ r1], rule exI [of _ q0], rule exI [of _ r0])
      (simp only: Let_def un21w_def [symmetric] d1 d0 q rem qd md simp_thms)
qed


lemma sint_small: "unat w < 2 ^ (LENGTH('a) - 1) \<Longrightarrow> sint w = int (unat w)" for w :: "'a::len word"
proof -
  assume "unat w < 2 ^ (LENGTH('a) - 1)"
  then have "int (unat w) < 2 ^ (LENGTH('a) - 1)" by (metis of_nat_less_iff of_nat_numeral of_nat_power)
  then have "fits LENGTH('a) (int (unat w))" unfolding fits_def using zero_le_power [of "2::int" "LENGTH('a) - 1"] by linarith
  then show ?thesis using sint_of_fits [of "int (unat w)", where 'a='a] by simp
qed

lemma udiv128by64to64_correct:
  assumes "u1 < v"
  shows "\<exists>q r. udiv128by64to64 u1 u0 v = Some (q, r)
     \<and> unat q = (unat u1 * 2 ^ 64 + unat u0) div unat v
     \<and> unat r = (unat u1 * 2 ^ 64 + unat u0) mod unat v"
proof -
  define s where "s = unat (builtin_clz v)"
  define V U where "V = push_bit s v" and "U = push_bit s (make_tu u1 u0)"
  have u1: "unat u1 < unat v" using assms by (simp add: word_less_nat_alt)
  have v0: "v \<noteq> 0" using u1 by auto
  have s: "s = 64 - bitlen (unat v)" "bitlen (unat v) \<le> 64" "0 < bitlen (unat v)"
    using v0 bitlen_word_le [of v] by (simp_all add: s_def builtin_clz_unat unat_gt_0)
  have hi: "unat v < 2 ^ bitlen (unat v)" and lo: "2 ^ (bitlen (unat v) - 1) \<le> unat v"
    using bitlen_le_iff [of "unat v" "bitlen (unat v)"] bitlen_gt_iff [of "bitlen (unat v) - 1" "unat v"] s(3) by auto
  have "unat v * 2 ^ s < 2 ^ bitlen (unat v) * 2 ^ s" using hi by simp
  also have "\<dots> = 2 ^ 64" using s by (simp flip: power_add)
  finally have V_lt: "unat v * 2 ^ s < 2 ^ 64" .
  then have V: "unat V = unat v * 2 ^ s"
    by (simp add: V_def unsigned_push_bit_eq push_bit_eq_mult [where 'a=nat] take_bit_eq_mod [where 'a=nat])
  have "2 ^ (bitlen (unat v) - 1) * 2 ^ s \<le> unat v * 2 ^ s" using lo by simp
  moreover have "(2::nat) ^ (bitlen (unat v) - 1) * 2 ^ s = 2 ^ 63"
  proof -
    have "bitlen (unat v) - 1 + s = 63" using s by linarith
    then show ?thesis by (simp only: power_add [symmetric])
  qed
  ultimately have norm: "2 ^ 63 \<le> unat V" by (simp only: V)
  have num: "unat (make_tu u1 u0) = unat u1 * 2 ^ 64 + unat u0" by (simp add: tw.unat_mk)
  have "(unat u1 + 1) * 2 ^ 64 \<le> unat v * 2 ^ 64" using u1 by (intro mult_le_mono1) simp
  then have n_lt: "unat u1 * 2 ^ 64 + unat u0 < unat v * 2 ^ 64" using unat_less [of u0] by simp
  have "(unat u1 * 2 ^ 64 + unat u0) * 2 ^ s < unat v * 2 ^ 64 * 2 ^ s" using n_lt by simp
  also have "unat v * 2 ^ 64 * 2 ^ s = unat V * 2 ^ 64" by (simp add: V)
  finally have U_lt: "(unat u1 * 2 ^ 64 + unat u0) * 2 ^ s < unat V * 2 ^ 64" .
  also have "unat V * 2 ^ 64 < 2 ^ 64 * 2 ^ 64" using unat_less [of V] by simp
  finally have U: "unat U = (unat u1 * 2 ^ 64 + unat u0) * 2 ^ s"
    by (simp add: U_def unsigned_push_bit_eq push_bit_eq_mult [where 'a=nat] take_bit_eq_mod [where 'a=nat] num)
  have UV: "unat (hi64 U) < unat V"
  proof -
    have "unat (hi64 U) * 2 ^ 64 < unat V * 2 ^ 64"
      using tw.unat_mk [of "hi64 U" "lo64 U"] U U_lt by simp
    then show ?thesis by simp
  qed
  have regs: "(if 0 <s builtin_clz v then
               (push_bit s v, push_bit s u1 OR drop_bit (unat (64 - builtin_clz v)) u0, push_bit s u0)
             else (v, u1, u0)) = (V, hi64 U, lo64 U)"
  proof (cases "s = 0")
    case True
    then have "builtin_clz v = 0" by (simp add: s_def word_unat_eq_iff)
    then show ?thesis using True by (simp add: V_def U_def)
  next
    case False
    then have k: "0 < s" "s < 64" using s by simp_all
    have "unat (64 - builtin_clz v) = 64 - s" using k by (simp add: unat_sub word_le_nat_alt s_def)
    moreover have "sint (builtin_clz v) = int s"
      using k sint_small [of "builtin_clz v"] by (simp add: s_def)
    then have "0 <s builtin_clz v" using k by (simp add: word_sless_alt)
    moreover have "U = make_tu (push_bit s u1 OR drop_bit (64 - s) u0) (push_bit s u0)"
      using tw.shl_within [of s "make_tu u1 u0"] k by (simp add: U_def)
    ultimately show ?thesis by (simp add: V_def)
  qed
  have UU: "unat (hi64 U) * 2 ^ 64 + unat (lo64 U) = unat U"
    using tw.unat_mk [of "hi64 U" "lo64 U"] by simp
  obtain q1 r1 q0 r0 where run: "correct_digit (drop_bit 32 V) (V AND 0xFFFFFFFF) (drop_bit 32 (lo64 U))
      (hi64 U div drop_bit 32 V) (hi64 U - hi64 U div drop_bit 32 V * drop_bit 32 V) = Some (q1, r1)"
    and run2: "let un21 = hi64 U * push_bit 32 1 + drop_bit 32 (lo64 U) - q1 * V in
       correct_digit (drop_bit 32 V) (V AND 0xFFFFFFFF) (lo64 U AND 0xFFFFFFFF)
         (un21 div drop_bit 32 V) (un21 - un21 div drop_bit 32 V * drop_bit 32 V) = Some (q0, r0)
       \<and> unat (q1 * push_bit 32 1 + q0) = unat U div unat V
       \<and> unat (un21 * push_bit 32 1 + (lo64 U AND 0xFFFFFFFF) - q0 * V) = unat U mod unat V"
    using udiv128by64to64_normalised [OF norm UV, of "lo64 U"] unfolding UU by blast
  define un21 where "un21 = hi64 U * push_bit 32 1 + drop_bit 32 (lo64 U) - q1 * V"
  have run2': "correct_digit (drop_bit 32 V) (V AND 0xFFFFFFFF) (lo64 U AND 0xFFFFFFFF)
         (un21 div drop_bit 32 V) (un21 - un21 div drop_bit 32 V * drop_bit 32 V) = Some (q0, r0)"
    and q: "unat (q1 * push_bit 32 1 + q0) = unat U div unat V"
    and r: "unat (un21 * push_bit 32 1 + (lo64 U AND 0xFFFFFFFF) - q0 * V) = unat U mod unat V"
    using run2 unfolding Let_def un21_def [symmetric] by blast+
  have "udiv128by64to64 u1 u0 v
      = Some (q1 * push_bit 32 1 + q0, drop_bit s (un21 * push_bit 32 1 + (lo64 U AND 0xFFFFFFFF) - q0 * V))"
    unfolding udiv128by64to64_def udiv128by64to64default_def Let_def s_def [symmetric] regs prod.case
      run option.case un21_def [symmetric] run2' ..
  moreover have "unat U div unat V = (unat u1 * 2 ^ 64 + unat u0) div unat v"
    unfolding U V by simp
  moreover have "unat U mod unat V = ((unat u1 * 2 ^ 64 + unat u0) mod unat v) * 2 ^ s"
    unfolding U V by (rule mod_mult_mult2)
  ultimately show ?thesis
    using q r by (simp add: unat_drop_bit_eq drop_bit_eq_div [where 'a=nat])
qed


section \<open>Dividing 128 by 128 bits\<close>

text \<open>\<open>shift + 1\<close> rounds of the final loop.\<close>

fun udivmodti4_loop :: "nat \<Rightarrow> tu_int \<Rightarrow> tu_int \<Rightarrow> du_int \<Rightarrow> tu_int \<times> du_int" where
  "udivmodti4_loop 0 dividend divisor quotient_low = (dividend, quotient_low)"
| "udivmodti4_loop (Suc k) dividend divisor quotient_low =
     (let quotient_low = push_bit 1 quotient_low;
          s = signed_drop_bit 127 (divisor - dividend - 1);
          quotient_low = quotient_low OR ucast (s AND 1);
          dividend = dividend - (divisor AND s);
          divisor = drop_bit 1 divisor
      in udivmodti4_loop k dividend divisor quotient_low)"

definition udivmodti4 :: "tu_int \<Rightarrow> tu_int \<Rightarrow> (tu_int \<times> tu_int) option" where
  "udivmodti4 dividend divisor =
     (if divisor > dividend then Some (0, dividend)
      else if hi64 divisor = 0 then
        if hi64 dividend < lo64 divisor then
          (case udiv128by64to64 (hi64 dividend) (lo64 dividend) (lo64 divisor) of
             None \<Rightarrow> None
           | Some (q, r) \<Rightarrow> Some (make_tu 0 q, make_tu 0 r))
        else if lo64 divisor = 0 then None
        else
          let quotient_high = hi64 dividend div lo64 divisor;
              dividend_high = hi64 dividend mod lo64 divisor
          in case udiv128by64to64 dividend_high (lo64 dividend) (lo64 divisor) of
               None \<Rightarrow> None
             | Some (q, r) \<Rightarrow> Some (make_tu quotient_high q, make_tu 0 r)
      else
        let shift = builtin_clz (hi64 divisor) - builtin_clz (hi64 dividend);
            divisor = push_bit (unat shift) divisor
        in case udivmodti4_loop (Suc (unat shift)) dividend divisor 0 of
             (dividend, quotient_low) \<Rightarrow> Some (make_tu 0 quotient_low, dividend))"

text \<open>
  The invariant of the loop: the divisor has been shifted left by \<open>j\<close>, the dividend is below
  twice the shifted divisor, and dividend and quotient add up to the original.
\<close>

lemma round_mask:
  fixes D n :: tu_int
  assumes "unat n < 2 * unat D" "2 ^ 127 \<le> unat D \<Longrightarrow> 2 ^ 127 \<le> unat n"
  shows "signed_drop_bit 127 (D - n - 1) = (if unat D \<le> unat n then - 1 else 0)"
    and "unat (n - (D AND (if unat D \<le> unat n then - 1 else 0))) < unat D"
    and "unat n = (if unat D \<le> unat n then unat D else 0) + unat (n - (D AND (if unat D \<le> unat n then - 1 else 0)))"
proof -
  have "unat n - unat D < 2 ^ 127" if "unat D \<le> unat n"
    using that assms(1) unat_less [of n] by (cases "2 ^ 127 \<le> unat D") auto
  moreover have "unat D - unat n \<le> 2 ^ 127" if "unat n < unat D"
    using that assms(2) unat_less [of D] by (cases "2 ^ 127 \<le> unat D") auto
  ultimately show "signed_drop_bit 127 (D - n - 1) = (if unat D \<le> unat n then - 1 else 0)"
    using borrow_mask [of D n] by simp
  show "unat (n - (D AND (if unat D \<le> unat n then - 1 else 0))) < unat D"
    and "unat n = (if unat D \<le> unat n then unat D else 0) + unat (n - (D AND (if unat D \<le> unat n then - 1 else 0)))"
    using assms(1) by (auto simp: unat_sub word_le_nat_alt)
qed

lemma udivmodti4_loop_correct:
  fixes d n :: tu_int and q :: du_int
  assumes "unat d * 2 ^ j < 2 ^ 128" "unat n < 2 * (unat d * 2 ^ j)"
    and "(unat q + 1) * 2 ^ Suc j \<le> 2 ^ 64"
    and "2 ^ 127 \<le> unat d * 2 ^ j \<Longrightarrow> 2 ^ 127 \<le> unat n"
  shows "\<exists>n' q'. udivmodti4_loop (Suc j) n (push_bit j d) q = (n', q')
     \<and> unat n' = unat n mod unat d \<and> unat q' = unat q * 2 ^ Suc j + unat n div unat d"
  using assms
proof (induction j arbitrary: n q)
  case (0 n q)
  define c :: nat where "c = (if unat d \<le> unat n then 1 else 0)"
  define n1 where "n1 = n - (d AND (if unat d \<le> unat n then - 1 else 0))"
  note round = round_mask [of n d, folded n1_def]
  have r: "unat n1 < unat d" "unat n = c * unat d + unat n1"
    using round(2,3) 0(2,4) by (simp_all add: c_def split: if_splits)
  have "udivmodti4_loop (Suc 0) n (push_bit 0 d) q = (n1, push_bit 1 q OR of_nat c)"
    using round(1) 0(2,4) by (simp add: Let_def n1_def c_def)
  moreover have "unat (push_bit 1 q OR of_nat c) = unat q * 2 + c"
    using 0(3) shift_in [of "of_nat c" q] by (simp add: c_def mult.commute)
  moreover have "unat n div unat d = c" "unat n mod unat d = unat n1"
    using r(1) by (simp_all add: r(2))
  ultimately show ?case by simp
next
  case (Suc j n q)
  define D where "D = push_bit (Suc j) d"
  have D: "unat D = unat d * 2 ^ Suc j"
    using Suc.prems(1) by (simp only: D_def unsigned_push_bit_eq push_bit_eq_mult [where 'a=nat] take_bit_eq_mod) simp
  define c :: nat where "c = (if unat D \<le> unat n then 1 else 0)"
  define n1 where "n1 = n - (D AND (if unat D \<le> unat n then - 1 else 0))"
  note round = round_mask [of n D, folded n1_def]
  have r: "unat n1 < unat D" "unat n = c * unat D + unat n1"
    using round(2,3) Suc.prems(2,4) D by (simp_all add: c_def split: if_splits)
  have q1: "unat (push_bit 1 q OR of_nat c) = unat q * 2 + c"
  proof -
    have "(unat q + 1) * 2 \<le> (unat q + 1) * 2 ^ Suc (Suc j)" by (intro mult_le_mono2) simp
    then have "(unat q + 1) * 2 \<le> 2 ^ 64" using Suc.prems(3) by (rule order_trans)
    then have "unat q * 2 < 2 ^ 64" by simp
    then show ?thesis using shift_in [of "of_nat c" q] by (simp add: c_def mult.commute)
  qed
  have half: "drop_bit 1 D = push_bit j d"
  proof -
    have "unat d * 2 ^ j < 2 ^ 128" using Suc.prems(1) by simp
    then have "unat (push_bit j d) = unat d * 2 ^ j"
      by (simp only: unsigned_push_bit_eq push_bit_eq_mult [where 'a=nat] take_bit_eq_mod) simp
    moreover have "unat (drop_bit 1 D) = unat d * 2 ^ j"
      by (simp add: unat_drop_bit_eq drop_bit_eq_div [where 'a=nat] D)
    ultimately show ?thesis by (simp only: word_unat_eq_iff)
  qed
  have step: "udivmodti4_loop (Suc (Suc j)) n (push_bit (Suc j) d) q
      = udivmodti4_loop (Suc j) n1 (push_bit j d) (push_bit 1 q OR of_nat c)"
  proof -
    have p1: "unat n < 2 * unat D" and p2: "2 ^ 127 \<le> unat D \<Longrightarrow> 2 ^ 127 \<le> unat n"
      using Suc.prems(2,4) D by simp_all
    have mask: "signed_drop_bit 127 (D - n - 1) = (if unat D \<le> unat n then - 1 else 0)"
      by (rule round_mask(1) [OF p1 p2])
    have low: "ucast ((if unat D \<le> unat n then - 1 else 0 :: tu_int) AND 1) = (of_nat c :: du_int)"
      by (simp add: c_def)
    show ?thesis
      unfolding udivmodti4_loop.simps(2) [of "Suc j"] Let_def D_def [symmetric] mask
      unfolding half low n1_def [symmetric] ..
  qed
  have "\<exists>n' q'. udivmodti4_loop (Suc j) n1 (push_bit j d) (push_bit 1 q OR of_nat c) = (n', q')
     \<and> unat n' = unat n1 mod unat d
     \<and> unat q' = unat (push_bit 1 q OR of_nat c) * 2 ^ Suc j + unat n1 div unat d"
  proof (rule Suc.IH)
    show "unat d * 2 ^ j < 2 ^ 128" using Suc.prems(1) by simp
    show "unat n1 < 2 * (unat d * 2 ^ j)" using r(1) D by (simp add: mult.left_commute)
    have "(unat q * 2 + c + 1) * 2 ^ Suc j \<le> (unat q + 1) * 2 * 2 ^ Suc j"
      by (intro mult_le_mono1) (simp add: c_def)
    also have "\<dots> \<le> 2 ^ 64" using Suc.prems(3) by (simp add: mult.assoc)
    finally show "(unat (push_bit 1 q OR of_nat c) + 1) * 2 ^ Suc j \<le> 2 ^ 64" by (simp only: q1)
    show "2 ^ 127 \<le> unat d * 2 ^ j \<Longrightarrow> 2 ^ 127 \<le> unat n1" using Suc.prems(1) by simp
  qed
  moreover have "unat n mod unat d = unat n1 mod unat d"
  proof -
    have "unat n = unat n1 + (c * 2 ^ Suc j) * unat d" unfolding r(2) D by (simp add: algebra_simps)
    then show ?thesis by simp
  qed
  moreover have "unat n div unat d = c * 2 ^ Suc j + unat n1 div unat d"
  proof -
    have "unat n = unat n1 + (c * 2 ^ Suc j) * unat d" unfolding r(2) D by (simp add: algebra_simps)
    moreover have "unat d \<noteq> 0"
    proof
      assume "unat d = 0"
      then show False using Suc.prems(2) by (simp del: unat_eq_zero)
    qed
    ultimately show ?thesis by simp
  qed
  ultimately show ?case unfolding step q1 by (auto simp: algebra_simps)
qed


text \<open>The three branches of the routine.\<close>

lemma tu_unat: "unat x = unat (hi64 x) * 2 ^ 64 + unat (lo64 x)"
  using tw.unat_mk [of "hi64 x" "lo64 x"] by simp

lemma tu_div_mod_eq:
  fixes n d q r :: tu_int
  assumes "unat n = unat q * unat d + unat r" "unat r < unat d"
  shows "n div d = q \<and> n mod d = r"
  using assms by (simp add: word_unat_eq_iff unat_div unat_mod)

lemma udivmodti4_narrow:
  assumes d: "hi64 d = 0" "lo64 d \<noteq> 0"
    and n: "unat n = (unat qh * unat (lo64 d) + unat h) * 2 ^ 64 + unat (lo64 n)" and h: "h < lo64 d"
  shows "\<exists>q r. udiv128by64to64 h (lo64 n) (lo64 d) = Some (q, r)
    \<and> n div d = make_tu qh q \<and> n mod d = make_tu 0 r"
proof -
  obtain q r where run: "udiv128by64to64 h (lo64 n) (lo64 d) = Some (q, r)"
    and q: "unat q = (unat h * 2 ^ 64 + unat (lo64 n)) div unat (lo64 d)"
    and r: "unat r = (unat h * 2 ^ 64 + unat (lo64 n)) mod unat (lo64 d)"
    using udiv128by64to64_correct [OF h] by blast
  have ud: "unat d = unat (lo64 d)" using tu_unat [of d] d(1) by simp
  have "unat n = unat qh * 2 ^ 64 * unat (lo64 d) + (unat h * 2 ^ 64 + unat (lo64 n))"
    unfolding n by (simp add: algebra_simps)
  also have "unat h * 2 ^ 64 + unat (lo64 n) = unat q * unat (lo64 d) + unat r"
    unfolding q r by (rule div_mult_mod_eq [symmetric])
  finally have "unat n = unat (make_tu qh q) * unat d + unat (make_tu 0 r)"
    unfolding tw.unat_mk ud by (simp add: distrib_right)
  moreover have "unat (make_tu 0 r) < unat d"
    using d(2) by (simp add: tw.unat_mk ud r unat_gt_0)
  ultimately show ?thesis using run tu_div_mod_eq by blast
qed

lemma udivmodti4_wide:
  assumes d: "hi64 d \<noteq> 0" and le: "d \<le> n"
  defines "shift \<equiv> builtin_clz (hi64 d) - builtin_clz (hi64 n)"
  shows "\<exists>r q. udivmodti4_loop (Suc (unat shift)) n (push_bit (unat shift) d) 0 = (r, q)
    \<and> n div d = make_tu 0 q \<and> n mod d = r"
proof -
  let ?bn = "bitlen (unat (hi64 n))" and ?bd = "bitlen (unat (hi64 d))"
  have dn: "unat d \<le> unat n" using le by (simp add: word_le_nat_alt)
  have "unat (hi64 d) \<le> unat (hi64 n)"
    using dn by (simp add: tw.unat_hi div_le_mono)
  then have bl: "?bd \<le> ?bn" and hn: "hi64 n \<noteq> 0"
    using bitlen_mono d by (auto simp: unat_gt_0 [symmetric] simp del: unat_gt_0)
  have b64: "?bn \<le> 64" "0 < ?bd" using bitlen_word_le [of "hi64 n"] d by (simp_all add: unat_gt_0)
  have shift: "unat shift = ?bn - ?bd"
    using shift_count(2) [of "hi64 d" "hi64 n"] d hn bl by (simp add: shift_def)
  have wide: "bitlen (unat x) = bitlen (unat (hi64 x)) + 64" if "hi64 x \<noteq> 0" for x
    unfolding tu_unat [of x] using that unat_less [of "lo64 x"]
    by (intro bitlen_mult_add) (simp_all add: unat_gt_0)
  have n_lt: "unat n < 2 ^ (?bn + 64)" using bitlen_le_iff [of "unat n" "?bn + 64"] wide [OF hn] by simp
  have n_ge: "2 ^ (?bn + 63) \<le> unat n"
    using bitlen_gt_iff [of "?bn + 63" "unat n"] wide [OF hn] by simp
  have d_lt: "unat d < 2 ^ (?bd + 64)" using bitlen_le_iff [of "unat d" "?bd + 64"] wide [OF d] by simp
  have d_ge: "2 ^ (?bd + 63) \<le> unat d"
    using bitlen_gt_iff [of "?bd + 63" "unat d"] wide [OF d] by simp
  have "unat d * 2 ^ unat shift < 2 ^ (?bd + 64) * 2 ^ unat shift" using d_lt by simp
  also have "\<dots> = 2 ^ (?bn + 64)" using bl shift by (simp flip: power_add)
  finally have hi: "unat d * 2 ^ unat shift < 2 ^ (?bn + 64)" .
  also have "\<dots> \<le> 2 ^ 128" using b64 by (intro power_increasing) simp_all
  finally have a1: "unat d * 2 ^ unat shift < 2 ^ 128" .
  have "2 ^ (?bd + 63) * 2 ^ unat shift \<le> unat d * 2 ^ unat shift" using d_ge by simp
  moreover have "(2::nat) ^ (?bd + 63) * 2 ^ unat shift = 2 ^ (?bn + 63)" using bl shift by (simp flip: power_add)
  ultimately have lo: "2 ^ (?bn + 63) \<le> unat d * 2 ^ unat shift" by (simp only:)
  have "(2::nat) ^ (?bn + 64) = 2 * 2 ^ (?bn + 63)" by (simp add: power_add)
  then have a2: "unat n < 2 * (unat d * 2 ^ unat shift)" using n_lt lo by linarith
  have a4: "2 ^ 127 \<le> unat n" if "2 ^ 127 \<le> unat d * 2 ^ unat shift"
  proof -
    have "(2::nat) ^ 127 < 2 ^ (?bn + 64)" using that hi by linarith
    then have "127 < ?bn + 64" by (rule power_less_imp_less_exp [rotated]) simp
    then have "(2::nat) ^ 127 \<le> 2 ^ (?bn + 63)" by (intro power_increasing) simp_all
    then show ?thesis using n_ge by linarith
  qed
  have "Suc (unat shift) \<le> 64" using shift b64 by linarith
  then have "(2::nat) ^ Suc (unat shift) \<le> 2 ^ 64" by (intro power_increasing) simp_all
  then have a3: "(unat (0 :: du_int) + 1) * 2 ^ Suc (unat shift) \<le> 2 ^ 64" by simp
  obtain r q where run: "udivmodti4_loop (Suc (unat shift)) n (push_bit (unat shift) d) 0 = (r, q)"
    and "unat r = unat n mod unat d" "unat q = unat n div unat d"
    using udivmodti4_loop_correct [OF a1 a2 a3 a4] by auto
  then have "n div d = make_tu 0 q \<and> n mod d = r"
    by (simp add: word_unat_eq_iff unat_div unat_mod tw.unat_mk)
  with run show ?thesis by blast
qed

lemma udivmodti4_correct: "d \<noteq> 0 \<Longrightarrow> udivmodti4 n d = Some (n div d, n mod d)"
proof -
  assume d0: "d \<noteq> 0"
  consider (less) "d > n" | (narrow) "\<not> d > n" "hi64 d = 0" | (wide) "\<not> d > n" "hi64 d \<noteq> 0" by blast
  then show ?thesis
  proof cases
    case less
    then have "unat n = unat (0 :: tu_int) * unat d + unat n" "unat n < unat d"
      by (simp_all add: word_less_nat_alt)
    from tu_div_mod_eq [OF this] less show ?thesis by (simp add: udivmodti4_def)
  next
    case narrow
    have l0: "lo64 d \<noteq> 0" using d0 narrow(2) tu_unat [of d] by (auto simp: word_unat_eq_iff)
    show ?thesis
    proof (cases "hi64 n < lo64 d")
      case True
      have "unat n = (unat (0 :: du_int) * unat (lo64 d) + unat (hi64 n)) * 2 ^ 64 + unat (lo64 n)"
        using tu_unat [of n] by simp
      from udivmodti4_narrow [OF narrow(2) l0 this True] narrow True show ?thesis
        by (auto simp: udivmodti4_def)
    next
      case False
      have "unat n = (unat (hi64 n div lo64 d) * unat (lo64 d) + unat (hi64 n mod lo64 d)) * 2 ^ 64 + unat (lo64 n)"
        using tu_unat [of n] by (simp add: unat_div unat_mod)
      moreover have "hi64 n mod lo64 d < lo64 d"
        using l0 by (simp add: word_less_nat_alt unat_mod unat_gt_0)
      ultimately obtain q r where "udiv128by64to64 (hi64 n mod lo64 d) (lo64 n) (lo64 d) = Some (q, r)"
        "n div d = make_tu (hi64 n div lo64 d) q" "n mod d = make_tu 0 r"
        using udivmodti4_narrow [OF narrow(2) l0] by blast
      with narrow False l0 show ?thesis by (simp add: udivmodti4_def Let_def)
    qed
  next
    case wide
    then have "d \<le> n" by simp
    from udivmodti4_wide [OF wide(2) this] obtain r q where
      "udivmodti4_loop (Suc (unat (builtin_clz (hi64 d) - builtin_clz (hi64 n)))) n
         (push_bit (unat (builtin_clz (hi64 d) - builtin_clz (hi64 n))) d) 0 = (r, q)"
      "n div d = make_tu 0 q" "n mod d = r" by blast
    with wide show ?thesis by (simp add: udivmodti4_def Let_def del: udivmodti4_loop.simps)
  qed
qed

lemma udivmodti4_zero: "udivmodti4 n 0 = None"
  by (simp add: udivmodti4_def lo64_def hi64_def)

interpretation ti: udivmod udivmodti4
  by unfold_locales (rule udivmodti4_correct)

section \<open>The clients\<close>

definition udivti3 :: "tu_int \<Rightarrow> tu_int \<Rightarrow> tu_int option" where
  "udivti3 a b = map_option fst (udivmodti4 a b)"

definition umodti3 :: "tu_int \<Rightarrow> tu_int \<Rightarrow> tu_int option" where
  "umodti3 a b = map_option snd (udivmodti4 a b)"

definition divmodti4 :: "tu_int \<Rightarrow> tu_int \<Rightarrow> (tu_int \<times> tu_int) option" where
  "divmodti4 a b = divmodXi4 udivmodti4 a b"

definition divti3 :: "tu_int \<Rightarrow> tu_int \<Rightarrow> tu_int option" where
  "divti3 a b = divXi3 udivmodti4 a b"

definition modti3 :: "tu_int \<Rightarrow> tu_int \<Rightarrow> tu_int option" where
  "modti3 a b = modXi3 udivmodti4 a b"

section \<open>The property of the component\<close>

text \<open>C10: 128-bit division returns quotient and remainder for every nonzero divisor, and every
  correction loop it runs ends; dividing by zero never returns.\<close>

theorem udivmodti4_returns:
  "udivmodti4 n d = (if d = 0 then None else Some (n div d, n mod d))
   \<and> udivti3 n d = (if d = 0 then None else Some (n div d))
   \<and> umodti3 n d = (if d = 0 then None else Some (n mod d))"
  by (simp add: udivmodti4_correct udivmodti4_zero udivti3_def umodti3_def)

text \<open>C16: The 128-by-64-bit division step (Knuth's algorithm D) returns the exact quotient and
  remainder whenever the quotient fits in 64 bits, that is, whenever the high word is below
  the divisor; in particular both digit correction loops terminate.\<close>

theorem udiv128by64_exact:
  assumes "u1 < v"
  shows "case udiv128by64to64 u1 u0 v of None \<Rightarrow> False
    | Some (q, r) \<Rightarrow> unat (make_tu u1 u0) = unat q * unat v + unat r \<and> r < v"
proof -
  obtain q r where "udiv128by64to64 u1 u0 v = Some (q, r)"
    "unat q = (unat u1 * 2 ^ 64 + unat u0) div unat v" "unat r = (unat u1 * 2 ^ 64 + unat u0) mod unat v"
    using udiv128by64to64_correct [OF assms] by blast
  moreover have "0 < unat v" using assms by (auto simp: word_less_nat_alt)
  ultimately show ?thesis by (simp add: tw.unat_mk word_less_nat_alt)
qed

theorem udiv128by64_exact_witness:
  "case udiv128by64to64 1 2 3 of None \<Rightarrow> False
    | Some (q, r) \<Rightarrow> unat (make_tu 1 2) = unat q * unat (3 :: du_int) + unat r \<and> r < 3"
  using udiv128by64_exact [of 1 3 2] by simp

end
