(* ===== verification/AtomicLocks.thy ===== *)
theory AtomicLocks
  imports Prelude
begin

text \<open>
  The lock-based atomics of \<^verbatim>\<open>atomic.c\<close>.  Every operation either runs as one lock-free access
  or takes the spin lock its address hashes to, copies or compares its bytes one by one, and
  releases the lock.  The operations are programs of byte steps; threads interleave these
  steps freely in the step relation \<open>astep\<close>.  What is proved: the hash stays inside the
  table, holders of a lock exclude each other, and a locked operation acts as if all its byte
  steps ran at once.  The compiler builtin \<open>__atomic_always_lock_free\<close> is the parameter \<open>alf\<close>;
  the buffers passed by pointer (\<open>dest\<close>, \<open>expected\<close>, \<open>val\<close>, \<open>old\<close>) belong to the calling thread.
\<close>

unbundle bit_operations_syntax

section \<open>The table of locks\<close>

definition SPINLOCK_COUNT :: uptr where "SPINLOCK_COUNT = push_bit 10 1"
definition SPINLOCK_MASK :: uptr where "SPINLOCK_MASK = SPINLOCK_COUNT - 1"

definition lock_for_pointer :: "uptr \<Rightarrow> uptr" where
  "lock_for_pointer ptr =
     (let hash = signed_drop_bit 4 ptr;
          low = hash AND SPINLOCK_MASK;
          hash = signed_drop_bit 16 hash;
          hash = hash XOR low
      in hash AND SPINLOCK_MASK)"

text \<open>
  A weak compare-and-exchange from 0 to 1: \<open>spurious\<close> says that it failed although the lock
  was free, which the language allows.
\<close>

definition lock_cas :: "bool \<Rightarrow> uptr \<Rightarrow> bool \<times> uptr" where
  "lock_cas spurious l = (if l = 0 \<and> \<not> spurious then (True, 1) else (False, l))"

definition unlock :: "uptr \<Rightarrow> uptr" where "unlock l = 0"

text \<open>\<open>alf size (Some p)\<close> and \<open>alf size None\<close> are the builtin at \<open>p\<close> and at the null pointer.\<close>

definition is_lock_free :: "(nat \<Rightarrow> uptr option \<Rightarrow> bool) \<Rightarrow> nat \<Rightarrow> uptr \<Rightarrow> bool" where
  "is_lock_free alf n p =
     (n \<in> {1, 2, 4, 8, 16} \<and>
      (alf n (Some p) \<or> (alf n None \<and> p mod of_nat n = 0)))"

section \<open>The operations as programs of byte steps\<close>

type_synonym memory = "uptr \<Rightarrow> byte"

text \<open>The buffers of the calling thread: \<open>arg\<close> is read, \<open>out\<close> written; \<open>ok\<close> is the result of \<open>memcmp\<close>.\<close>

record regs =
  out :: "nat \<Rightarrow> byte"
  arg :: "nat \<Rightarrow> byte"
  ok :: bool

type_synonym micro = "memory \<times> regs \<Rightarrow> memory \<times> regs"

definition copy_out :: "uptr \<Rightarrow> nat \<Rightarrow> micro" where
  "copy_out p i = (\<lambda>(m, r). (m, r\<lparr>out := (out r)(i := m (p + of_nat i))\<rparr>))"

definition copy_in :: "uptr \<Rightarrow> nat \<Rightarrow> micro" where
  "copy_in p i = (\<lambda>(m, r). (m(p + of_nat i := arg r i), r))"

definition compare_byte :: "uptr \<Rightarrow> nat \<Rightarrow> micro" where
  "compare_byte p i = (\<lambda>(m, r). (m, r\<lparr>ok := ok r \<and> m (p + of_nat i) = out r i\<rparr>))"

definition set_ok :: micro where
  "set_ok = (\<lambda>(m, r). (m, r\<lparr>ok := True\<rparr>))"

text \<open>Little-endian value of the first \<open>n\<close> bytes of a buffer, and back.\<close>

fun value_of :: "nat \<Rightarrow> (nat \<Rightarrow> byte) \<Rightarrow> tu_int" where
  "value_of 0 f = 0"
| "value_of (Suc n) f = value_of n f OR push_bit (8 * n) (ucast (f n))"

definition bytes_of :: "tu_int \<Rightarrow> nat \<Rightarrow> byte" where
  "bytes_of v i = ucast (drop_bit (8 * i) v)"

datatype rmw = Add | Sub | And | Or | Xor | Nand

fun rmw_op :: "rmw \<Rightarrow> tu_int \<Rightarrow> tu_int \<Rightarrow> tu_int" where
  "rmw_op Add tmp val = tmp + val"
| "rmw_op Sub tmp val = tmp - val"
| "rmw_op And tmp val = tmp AND val"
| "rmw_op Or tmp val = tmp OR val"
| "rmw_op Xor tmp val = tmp XOR val"
| "rmw_op Nand tmp val = NOT (tmp AND val)"

definition compute :: "rmw \<Rightarrow> nat \<Rightarrow> micro" where
  "compute f n = (\<lambda>(m, r). (m, r\<lparr>arg := bytes_of (rmw_op f (value_of n (out r)) (value_of n (arg r)))\<rparr>))"

datatype aop = Load | Store | Exchange | CompareExchange | Fetch rmw

record call =
  op :: aop
  size_of :: nat
  ptr :: uptr

text \<open>The critical section of each operation, between \<open>lock(l)\<close> and \<open>unlock(l)\<close>.\<close>

definition load_body :: "nat \<Rightarrow> uptr \<Rightarrow> micro list" where
  "load_body n src = map (copy_out src) [0..<n]"

definition store_body :: "nat \<Rightarrow> uptr \<Rightarrow> micro list" where
  "store_body n dest = map (copy_in dest) [0..<n]"

definition exchange_body :: "nat \<Rightarrow> uptr \<Rightarrow> micro list" where
  "exchange_body n p = map (copy_out p) [0..<n] @ map (copy_in p) [0..<n]"

definition copy_selected :: "uptr \<Rightarrow> nat \<Rightarrow> micro" where
  "copy_selected p i = (\<lambda>(m, r). if ok r then copy_in p i (m, r) else copy_out p i (m, r))"

definition compare_exchange_body :: "nat \<Rightarrow> uptr \<Rightarrow> micro list" where
  "compare_exchange_body n p =
     set_ok # map (compare_byte p) [0..<n] @ map (copy_selected p) [0..<n]"

definition fetch_body :: "rmw \<Rightarrow> nat \<Rightarrow> uptr \<Rightarrow> micro list" where
  "fetch_body f n p = map (copy_out p) [0..<n] @ compute f n # map (copy_in p) [0..<n]"

definition body :: "call \<Rightarrow> micro list" where
  "body c =
     (case op c of
        Load \<Rightarrow> load_body (size_of c) (ptr c)
      | Store \<Rightarrow> store_body (size_of c) (ptr c)
      | Exchange \<Rightarrow> exchange_body (size_of c) (ptr c)
      | CompareExchange \<Rightarrow> compare_exchange_body (size_of c) (ptr c)
      | Fetch f \<Rightarrow> fetch_body f (size_of c) (ptr c))"

definition run :: "micro list \<Rightarrow> memory \<times> regs \<Rightarrow> memory \<times> regs" where
  "run fs s = fold (\<lambda>f s. f s) fs s"

text \<open>The functions of fixed size are the same critical sections at that size.\<close>

definition atomic_load_n :: "nat \<Rightarrow> uptr \<Rightarrow> call" where
  "atomic_load_n n src = \<lparr>op = Load, size_of = n, ptr = src\<rparr>"
definition atomic_store_n :: "nat \<Rightarrow> uptr \<Rightarrow> call" where
  "atomic_store_n n dest = \<lparr>op = Store, size_of = n, ptr = dest\<rparr>"
definition atomic_exchange_n :: "nat \<Rightarrow> uptr \<Rightarrow> call" where
  "atomic_exchange_n n dest = \<lparr>op = Exchange, size_of = n, ptr = dest\<rparr>"
definition atomic_compare_exchange_n :: "nat \<Rightarrow> uptr \<Rightarrow> call" where
  "atomic_compare_exchange_n n p = \<lparr>op = CompareExchange, size_of = n, ptr = p\<rparr>"
definition atomic_fetch_n :: "rmw \<Rightarrow> nat \<Rightarrow> uptr \<Rightarrow> call" where
  "atomic_fetch_n f n p = \<lparr>op = Fetch f, size_of = n, ptr = p\<rparr>"

section \<open>Threads\<close>

text \<open>
  A thread is idle, spins for its lock, is in the critical section with \<open>k\<close> byte steps
  done, or is about to perform its access lock-free.  \<open>entry\<close> is a ghost: memory and buffers when
  the critical section was entered.
\<close>

datatype phase = Idle | Spinning | Critical nat

record thread =
  current :: call
  phase :: phase
  regs_of :: regs
  entry :: "memory \<times> regs"

record state =
  mem :: memory
  locks :: "uptr \<Rightarrow> uptr"
  threads :: "nat \<Rightarrow> thread"

abbreviation set_thread :: "nat \<Rightarrow> thread \<Rightarrow> state \<Rightarrow> state" where
  "set_thread t th s \<equiv> s\<lparr>threads := (threads s)(t := th)\<rparr>"

text \<open>One step of thread \<open>t\<close>.\<close>

inductive astep :: "(nat \<Rightarrow> uptr option \<Rightarrow> bool) \<Rightarrow> nat \<Rightarrow> state \<Rightarrow> state \<Rightarrow> bool" for alf t where
  call_locked:
    "phase (threads s t) = Idle \<Longrightarrow> \<not> is_lock_free alf (size_of c) (ptr c) \<Longrightarrow>
     astep alf t s (set_thread t ((threads s t)\<lparr>current := c, phase := Spinning, regs_of := r\<rparr>) s)"
| lock_free:
    "phase (threads s t) = Idle \<Longrightarrow> is_lock_free alf (size_of c) (ptr c) \<Longrightarrow>
     run (body c) (mem s, r) = (m', r') \<Longrightarrow>
     astep alf t s ((set_thread t ((threads s t)\<lparr>current := c, regs_of := r'\<rparr>) s)\<lparr>mem := m'\<rparr>)"
| spin:
    "phase (threads s t) = Spinning \<Longrightarrow>
     lock_cas spurious (locks s (lock_for_pointer (ptr (current (threads s t))))) = (False, l) \<Longrightarrow>
     astep alf t s s"
| acquire:
    "phase (threads s t) = Spinning \<Longrightarrow>
     lock_cas spurious (locks s (lock_for_pointer (ptr (current (threads s t))))) = (True, l) \<Longrightarrow>
     astep alf t s
       ((set_thread t ((threads s t)\<lparr>phase := Critical 0, entry := (mem s, regs_of (threads s t))\<rparr>) s)
         \<lparr>locks := (locks s)(lock_for_pointer (ptr (current (threads s t))) := l)\<rparr>)"
| work:
    "phase (threads s t) = Critical k \<Longrightarrow> k < List.length (body (current (threads s t))) \<Longrightarrow>
     (body (current (threads s t)) ! k) (mem s, regs_of (threads s t)) = (m', r') \<Longrightarrow>
     astep alf t s
       ((set_thread t ((threads s t)\<lparr>phase := Critical (Suc k), regs_of := r'\<rparr>) s)\<lparr>mem := m'\<rparr>)"
| release:
    "phase (threads s t) = Critical k \<Longrightarrow> k = List.length (body (current (threads s t))) \<Longrightarrow>
     astep alf t s
       ((set_thread t ((threads s t)\<lparr>phase := Idle\<rparr>) s)
         \<lparr>locks := (locks s)(lock_for_pointer (ptr (current (threads s t))) :=
            unlock (locks s (lock_for_pointer (ptr (current (threads s t))))))\<rparr>)"

inductive_cases astepE: "astep alf t s s'"

section \<open>What a critical section computes\<close>

text \<open>The addresses of a call, and what its steps may touch.\<close>

definition footprint :: "call \<Rightarrow> uptr set" where
  "footprint c = {ptr c + of_nat i | i. i < size_of c}"

definition local_micro :: "uptr set \<Rightarrow> micro \<Rightarrow> bool" where
  "local_micro F f \<longleftrightarrow>
     (\<forall>m r. \<forall>a. a \<notin> F \<longrightarrow> fst (f (m, r)) a = m a) \<and>
     (\<forall>m m' r. (\<forall>a\<in>F. m a = m' a) \<longrightarrow>
        snd (f (m, r)) = snd (f (m', r)) \<and> (\<forall>a\<in>F. fst (f (m, r)) a = fst (f (m', r)) a))"

lemma local_copy: "p + of_nat i \<in> F \<Longrightarrow> local_micro F (copy_out p i)" "p + of_nat i \<in> F \<Longrightarrow> local_micro F (copy_in p i)"
  "p + of_nat i \<in> F \<Longrightarrow> local_micro F (compare_byte p i)" "p + of_nat i \<in> F \<Longrightarrow> local_micro F (copy_selected p i)"
  "local_micro F set_ok" "local_micro F (compute f n)"
  by (auto simp: local_micro_def copy_out_def copy_in_def compare_byte_def copy_selected_def set_ok_def compute_def)

lemma in_footprint: "i < size_of c \<Longrightarrow> ptr c + of_nat i \<in> footprint c"
  by (auto simp: footprint_def)

lemma body_local: "f \<in> set (body c) \<Longrightarrow> local_micro (footprint c) f"
  by (cases "op c")
    (auto simp: body_def load_body_def store_body_def exchange_body_def compare_exchange_body_def fetch_body_def
      intro!: local_copy in_footprint)

lemma run_Nil [simp]: "run [] s = s" by (simp add: run_def)
lemma run_Cons: "run (f # fs) s = run fs (f s)" by (simp add: run_def)
lemma run_append: "run (fs @ gs) s = run gs (run fs s)" by (simp add: run_def)

lemma run_outside:
  "(\<And>f. f \<in> set fs \<Longrightarrow> local_micro F f) \<Longrightarrow> a \<notin> F \<Longrightarrow> fst (run fs (m, r)) a = m a"
proof (induction fs arbitrary: m r)
  case (Cons f fs)
  have "local_micro F f" using Cons.prems(1) by simp
  then have one: "fst (f (m, r)) a = m a" using Cons.prems(2) unfolding local_micro_def by blast
  have "fst (run fs (fst (f (m, r)), snd (f (m, r)))) a = fst (f (m, r)) a"
    by (rule Cons.IH) (use Cons.prems in simp_all)
  with one show ?case by (simp add: run_Cons)
qed simp

lemma run_copy_out:
  "run (map (copy_out p) [0..<n]) (m, r) = (m, r\<lparr>out := (\<lambda>i. if i < n then m (p + of_nat i) else out r i)\<rparr>)"
proof (induction n)
  case (Suc n)
  have "(\<lambda>i. if i < n then m (p + of_nat i) else out r i)(n := m (p + of_nat n))
      = (\<lambda>i. if i < Suc n then m (p + of_nat i) else out r i)"
    by (auto simp: fun_eq_iff less_Suc_eq)
  with Suc show ?case by (simp add: run_append run_Cons copy_out_def)
qed simp

definition written :: "uptr \<Rightarrow> nat \<Rightarrow> (nat \<Rightarrow> byte) \<Rightarrow> memory \<Rightarrow> memory" where
  "written p n f m = (\<lambda>a. if unat (a - p) < n then f (unat (a - p)) else m a)"

lemma run_copy_in:
  "n \<le> 2 ^ 64 \<Longrightarrow> run (map (copy_in p) [0..<n]) (m, r) = (written p n (arg r) m, r)"
proof (induction n)
  case (Suc n)
  have "(written p n (arg r) m)(p + of_nat n := arg r n) = written p (Suc n) (arg r) m"
  proof
    fix a
    have u: "unat (of_nat n :: uptr) = n" using Suc.prems by (simp add: unat_of_nat)
    have "a = p + of_nat n \<longleftrightarrow> unat (a - p) = n"
      proof
      assume "unat (a - p) = n"
      then have "a - p = of_nat n" using u by (simp add: word_unat_eq_iff)
      then show "a = p + of_nat n" by (simp add: algebra_simps)
    qed (use u in simp)
    then show "((written p n (arg r) m)(p + of_nat n := arg r n)) a = written p (Suc n) (arg r) m a"
      by (auto simp: written_def u less_Suc_eq)
  qed
  with Suc show ?case by (simp add: run_append run_Cons copy_in_def)
qed (simp add: written_def)

lemma run_compare:
  "run (map (compare_byte p) [0..<n]) (m, r) = (m, r\<lparr>ok := ok r \<and> (\<forall>i<n. m (p + of_nat i) = out r i)\<rparr>)"
  by (induction n) (simp_all add: run_append run_Cons compare_byte_def All_less_Suc conj_ac)

lemma run_selected:
  "run (map (copy_selected p) [0..<n]) (m, r)
     = (if ok r then run (map (copy_in p) [0..<n]) (m, r) else run (map (copy_out p) [0..<n]) (m, r))"
proof (induction n)
  case (Suc n)
  have "ok (snd (run (map (copy_out p) [0..<n]) (m, r))) = ok r" "ok (snd (run (map (copy_in p) [0..<n]) (m, r))) = ok r"
    by (induction n) (auto simp: run_append run_Cons copy_out_def copy_in_def split: prod.splits)
  with Suc show ?case
    by (auto simp: run_append run_Cons copy_selected_def split: prod.splits)
qed simp

text \<open>The sequential meaning of each operation.\<close>

definition bytes_at :: "memory \<Rightarrow> uptr \<Rightarrow> nat \<Rightarrow> byte" where
  "bytes_at m p i = m (p + of_nat i)"

definition spec :: "call \<Rightarrow> memory \<times> regs \<Rightarrow> memory \<times> regs" where
  "spec c s =
     (let (m, r) = s; n = size_of c; p = ptr c; old = (\<lambda>i. if i < n then bytes_at m p i else out r i) in
      case op c of
        Load \<Rightarrow> (m, r\<lparr>out := old\<rparr>)
      | Store \<Rightarrow> (written p n (arg r) m, r)
      | Exchange \<Rightarrow> (written p n (arg r) m, r\<lparr>out := old\<rparr>)
      | CompareExchange \<Rightarrow>
          if \<forall>i<n. bytes_at m p i = out r i then (written p n (arg r) m, r\<lparr>ok := True\<rparr>)
          else (m, r\<lparr>ok := False, out := old\<rparr>)
      | Fetch f \<Rightarrow>
          let new = bytes_of (rmw_op f (value_of n (bytes_at m p)) (value_of n (arg r))) in
          (written p n new m, r\<lparr>out := old, arg := new\<rparr>))"

lemma value_of_cong: "(\<And>i. i < n \<Longrightarrow> f i = g i) \<Longrightarrow> value_of n f = value_of n g"
  by (induction n) auto

lemma body_spec: "size_of c \<le> 2 ^ 64 \<Longrightarrow> run (body c) s = spec c s"
proof -
  assume n: "size_of c \<le> 2 ^ 64"
  obtain m r where s: "s = (m, r)" by fastforce
  have v: "value_of (size_of c) (\<lambda>i. if i < size_of c then m (ptr c + of_nat i) else out r i)
      = value_of (size_of c) (bytes_at m (ptr c))"
    by (rule value_of_cong) (simp add: bytes_at_def)
  have ba: "bytes_at m p = (\<lambda>i. m (p + of_nat i))" for p
    by (simp add: bytes_at_def fun_eq_iff)
  show ?thesis
  proof (cases "op c")
    case CompareExchange
    show ?thesis
    proof (cases "\<forall>i < size_of c. m (ptr c + of_nat i) = out r i")
      case True
      then show ?thesis
        using n CompareExchange by (simp add: s body_def spec_def compare_exchange_body_def run_append run_Cons
            run_copy_in run_compare run_selected set_ok_def bytes_at_def Let_def)
    next
      case False
      then have no: "(\<forall>i < size_of c. m (ptr c + of_nat i) = out r i) = False" by blast
      show ?thesis
        using n CompareExchange by (simp add: s body_def spec_def compare_exchange_body_def run_append run_Cons
            run_copy_out run_compare run_selected set_ok_def bytes_at_def Let_def no cong: if_cong)
    qed
  qed (use n v in \<open>simp_all add: s body_def spec_def load_body_def store_body_def exchange_body_def
      fetch_body_def run_append run_Cons run_copy_out run_copy_in compute_def ba Let_def cong: if_cong\<close>)
qed


section \<open>Mutual exclusion and atomicity\<close>

definition lock_of :: "call \<Rightarrow> uptr" where
  "lock_of c = lock_for_pointer (ptr c)"

definition locked_call :: "(nat \<Rightarrow> uptr option \<Rightarrow> bool) \<Rightarrow> call \<Rightarrow> bool" where
  "locked_call alf c \<longleftrightarrow> \<not> is_lock_free alf (size_of c) (ptr c)"

text \<open>Two calls may run at once: if they share a byte, they protect it in the same way.\<close>

definition compatible :: "(nat \<Rightarrow> uptr option \<Rightarrow> bool) \<Rightarrow> call \<Rightarrow> call \<Rightarrow> bool" where
  "compatible alf c c' \<longleftrightarrow>
     footprint c \<inter> footprint c' = {} \<or>
     (locked_call alf c = locked_call alf c' \<and> (locked_call alf c \<longrightarrow> lock_of c = lock_of c'))"

definition critical :: "thread \<Rightarrow> bool" where
  "critical th \<longleftrightarrow> (\<exists>k. phase th = Critical k)"

text \<open>The states reached from an idle start with free locks when all calls come from \<open>C\<close>.\<close>

inductive reach :: "(nat \<Rightarrow> uptr option \<Rightarrow> bool) \<Rightarrow> call set \<Rightarrow> state \<Rightarrow> bool" for alf C where
  start: "(\<forall>t. phase (threads s t) = Idle \<and> current (threads s t) \<in> C) \<Longrightarrow> (\<forall>l. locks s l = 0) \<Longrightarrow> reach alf C s"
| step: "reach alf C s \<Longrightarrow> astep alf t s s' \<Longrightarrow> (\<forall>t. current (threads s' t) \<in> C) \<Longrightarrow> reach alf C s'"

text \<open>
  Exclusion: a lock is taken exactly when a thread is in a critical section under it, and
  then only one is.  No lock is lost and a critical thread is always within its program.
\<close>

definition excl :: "state \<Rightarrow> bool" where
  "excl s \<longleftrightarrow>
     (\<forall>l. locks s l \<noteq> 0 \<longleftrightarrow> (\<exists>t. critical (threads s t) \<and> lock_of (current (threads s t)) = l)) \<and>
     (\<forall>t t'. critical (threads s t) \<longrightarrow> critical (threads s t') \<longrightarrow>
        lock_of (current (threads s t)) = lock_of (current (threads s t')) \<longrightarrow> t = t') \<and>
     (\<forall>t k. phase (threads s t) = Critical k \<longrightarrow> k \<le> List.length (body (current (threads s t))))"

text \<open>
  Progress: what a critical thread has computed on its own bytes and buffers is what its
  finished steps compute from the memory at its entry.
\<close>

definition progress_ok :: "state \<Rightarrow> thread \<Rightarrow> bool" where
  "progress_ok s th \<longleftrightarrow>
     (\<forall>k. phase th = Critical k \<longrightarrow>
        snd (run (take k (body (current th))) (entry th)) = regs_of th \<and>
        (\<forall>a\<in>footprint (current th). fst (run (take k (body (current th))) (entry th)) a = mem s a))"

definition ainv :: "(nat \<Rightarrow> uptr option \<Rightarrow> bool) \<Rightarrow> call set \<Rightarrow> state \<Rightarrow> bool" where
  "ainv alf C s \<longleftrightarrow>
     (\<forall>t. current (threads s t) \<in> C) \<and>
     (\<forall>t. phase (threads s t) \<noteq> Idle \<longrightarrow> locked_call alf (current (threads s t))) \<and>
     (\<forall>t. progress_ok s (threads s t))"

lemma excl_frame:
  assumes ex: "excl s" and lk: "locks s' = locks s" and cr: "\<And>u. critical (threads s' u) = critical (threads s u)"
    and cu: "\<And>u. critical (threads s u) \<Longrightarrow> current (threads s' u) = current (threads s u)"
    and ph: "\<And>u k. phase (threads s' u) = Critical k \<Longrightarrow> k \<le> List.length (body (current (threads s' u)))"
  shows "excl s'"
proof -
  have "locks s' x \<noteq> 0 \<longleftrightarrow> (\<exists>u. critical (threads s' u) \<and> lock_of (current (threads s' u)) = x)" for x
    using ex cu unfolding excl_def lk cr by metis
  moreover have "u = u'" if "critical (threads s' u)" "critical (threads s' u')"
      "lock_of (current (threads s' u)) = lock_of (current (threads s' u'))" for u u'
    using that ex cu unfolding excl_def cr by metis
  ultimately show ?thesis using ph unfolding excl_def by blast
qed

lemma excl_step:
  assumes ex: "excl s" and st: "astep alf t s s'"
  shows "excl s'"
  using st
proof cases
  case (acquire spurious l)
  let ?c = "current (threads s t)"
  have free: "locks s (lock_of ?c) = 0" "l = 1"
    using acquire(3) by (auto simp: lock_cas_def lock_of_def split: if_splits)
  then have none: "\<not> (critical (threads s u) \<and> lock_of (current (threads s u)) = lock_of ?c)" for u
    using ex unfolding excl_def by metis
  have cr: "critical (threads s' u) \<longleftrightarrow> u = t \<or> critical (threads s u)" for u
    using acquire by (auto simp: critical_def)
  have cu: "current (threads s' u) = current (threads s u)" for u using acquire by auto
  have lk: "locks s' x = (if x = lock_of ?c then 1 else locks s x)" for x
    using acquire free by (simp add: lock_of_def)
  have ph: "phase (threads s' u) = Critical k \<Longrightarrow> k = 0 \<or> phase (threads s u) = Critical k" for u k
    using acquire by (auto split: if_splits)
  have "(if x = lock_of ?c then 1 else locks s x) \<noteq> 0 \<longleftrightarrow>
      (\<exists>u. (u = t \<or> critical (threads s u)) \<and> lock_of (current (threads s u)) = x)" for x
    using ex by (auto simp: excl_def)
  moreover have "u = u'" if "u = t \<or> critical (threads s u)" "u' = t \<or> critical (threads s u')"
      "lock_of (current (threads s u)) = lock_of (current (threads s u'))" for u u'
    using that none ex unfolding excl_def by metis
  moreover have "k \<le> List.length (body (current (threads s u)))" if "phase (threads s' u) = Critical k" for u k
    using ph [OF that] ex unfolding excl_def by auto
  ultimately show ?thesis unfolding excl_def cr cu lk by blast
next
  case (release k)
  let ?c = "current (threads s t)"
  have ct: "critical (threads s t)" using release by (auto simp: critical_def)
  have cr: "critical (threads s' u) \<longleftrightarrow> u \<noteq> t \<and> critical (threads s u)" for u
    using release by (auto simp: critical_def)
  have cu: "current (threads s' u) = current (threads s u)" for u using release by auto
  have lk: "locks s' x = (if x = lock_of ?c then 0 else locks s x)" for x
    using release by (simp add: lock_of_def unlock_def)
  have ph: "phase (threads s' u) = Critical k \<Longrightarrow> phase (threads s u) = Critical k" for u k
    using release by (auto split: if_splits)
  have only: "critical (threads s u) \<Longrightarrow> lock_of (current (threads s u)) = lock_of ?c \<Longrightarrow> u = t" for u
    using ex ct unfolding excl_def by blast
  have "(if x = lock_of ?c then 0 else locks s x) \<noteq> 0 \<longleftrightarrow>
      (\<exists>u. (u \<noteq> t \<and> critical (threads s u)) \<and> lock_of (current (threads s u)) = x)" for x
    using ex ct only by (auto simp: excl_def)
  moreover have "u = u'" if "critical (threads s u)" "critical (threads s u')"
      "lock_of (current (threads s u)) = lock_of (current (threads s u'))" for u u'
    using that ex unfolding excl_def by blast
  moreover have "k \<le> List.length (body (current (threads s u)))" if "phase (threads s' u) = Critical k" for u k
    using ph [OF that] ex unfolding excl_def by blast
  ultimately show ?thesis unfolding excl_def cr cu lk by blast
next
  case (call_locked c r)
  then show ?thesis using ex
    by (intro excl_frame [OF ex]) (auto simp: critical_def excl_def split: if_splits)
next
  case (lock_free c r m' r')
  then show ?thesis using ex
    by (intro excl_frame [OF ex]) (auto simp: critical_def excl_def split: if_splits)
next
  case (work k m' r')
  then show ?thesis using ex
    by (intro excl_frame [OF ex]) (auto simp: critical_def excl_def split: if_splits)
qed (use ex in simp)

lemma excl_reach: "reach alf C s \<Longrightarrow> excl s"
proof (induction rule: reach.induct)
  case (start s)
  then show ?case by (auto simp: excl_def critical_def)
qed (use excl_step in blast)

lemma progress_frame:
  "progress_ok s th \<Longrightarrow> (\<And>a. critical th \<Longrightarrow> a \<in> footprint (current th) \<Longrightarrow> mem s' a = mem s a) \<Longrightarrow> progress_ok s' th"
  by (auto simp: progress_ok_def critical_def)

lemma micro_outside: "f \<in> set (body c) \<Longrightarrow> f (m, r) = (m', r') \<Longrightarrow> a \<notin> footprint c \<Longrightarrow> m' a = m a"
  using body_local [of f c] unfolding local_micro_def by (metis fst_conv)

lemma run_body_outside: "run (body c) (m, r) = (m', r') \<Longrightarrow> a \<notin> footprint c \<Longrightarrow> m' a = m a"
  using run_outside [of "body c" "footprint c" a m r] body_local [of _ c] by simp

lemma micro_on_footprint:
  assumes "f \<in> set (body c)" "\<forall>a\<in>footprint c. m a = m' a"
  shows "snd (f (m, r)) = snd (f (m', r)) \<and> (\<forall>a\<in>footprint c. fst (f (m, r)) a = fst (f (m', r)) a)"
  using body_local [OF assms(1)] assms(2) unfolding local_micro_def by blast

lemma progress_work:
  assumes "progress_ok s th" "phase th = Critical k" "k < List.length (body (current th))"
    and step: "(body (current th) ! k) (mem s, regs_of th) = (m', r')"
  shows "progress_ok (s'\<lparr>mem := m'\<rparr>) (th\<lparr>phase := Critical (Suc k), regs_of := r'\<rparr>)"
proof -
  let ?B = "body (current th)"
  obtain m0 r0 where e: "run (take k ?B) (entry th) = (m0, r0)" by fastforce
  have r0: "r0 = regs_of th" and m0: "\<forall>a\<in>footprint (current th). m0 a = mem s a"
    using assms(1,2) e by (auto simp: progress_ok_def)
  have "run (take (Suc k) ?B) (entry th) = (?B ! k) (m0, r0)"
    using assms(3) e by (simp add: take_Suc_conv_app_nth run_append run_Cons)
  moreover have "snd ((?B ! k) (m0, r0)) = r' \<and> (\<forall>a\<in>footprint (current th). fst ((?B ! k) (m0, r0)) a = m' a)"
    using micro_on_footprint [OF nth_mem [OF assms(3)] m0, of "regs_of th"] step r0 by simp
  ultimately show ?thesis using assms(3) by (simp add: progress_ok_def)
qed


lemma ainv_start: "(\<forall>t. phase (threads s t) = Idle \<and> current (threads s t) \<in> C) \<Longrightarrow> ainv alf C s"
  by (auto simp: ainv_def critical_def progress_ok_def)

text \<open>What a step of another thread writes is outside the bytes of a critical thread.\<close>

lemma writes_outside:
  assumes inv: "ainv alf C s" "excl s" and compat: "\<forall>c\<in>C. \<forall>c'\<in>C. compatible alf c c'"
    and u: "critical (threads s u)" and ne: "u \<noteq> t" and c: "c \<in> C"
    and how: "locked_call alf c \<Longrightarrow> critical (threads s t) \<and> c = current (threads s t)"
    and a: "a \<in> footprint (current (threads s u))"
  shows "a \<notin> footprint c"
proof
  assume "a \<in> footprint c"
  have lu: "locked_call alf (current (threads s u))" "current (threads s u) \<in> C"
    using inv(1) u unfolding ainv_def critical_def by (metis phase.distinct(3))+
  with compat [rule_format, OF lu(2) c] a \<open>a \<in> footprint c\<close>
  have "locked_call alf c" "lock_of (current (threads s u)) = lock_of c"
    by (auto simp: compatible_def)
  with how have "critical (threads s t)" "lock_of (current (threads s u)) = lock_of (current (threads s t))" by auto
  with inv(2) u ne show False unfolding excl_def by blast
qed

lemma ainv_step:
  assumes inv: "ainv alf C s" and ex: "excl s" and st: "astep alf t s s'" and C': "\<forall>t. current (threads s' t) \<in> C"
    and compat: "\<forall>c\<in>C. \<forall>c'\<in>C. compatible alf c c'"
  shows "ainv alf C s'"
  using st
proof cases
  case (call_locked c r)
  then show ?thesis
    using inv C' by (auto simp: ainv_def progress_ok_def locked_call_def)
next
  case (lock_free c r m' r')
  have c: "c \<in> C" "\<not> locked_call alf c" using C' [rule_format, of t] lock_free by (simp_all add: locked_call_def)
  have "m' a = mem s a" if "critical (threads s u)" "u \<noteq> t" "a \<in> footprint (current (threads s u))" for u a
    using writes_outside [OF inv ex compat that(1,2) c(1) _ that(3)] c(2) run_body_outside [OF lock_free(4)] by blast
  then have "progress_ok s' (threads s' u)" for u
    using inv lock_free by (cases "u = t") (auto simp: ainv_def progress_ok_def critical_def)
  then show ?thesis
    using inv C' lock_free unfolding ainv_def by auto
next
  case (spin l spurious)
  then show ?thesis using inv by simp
next
  case (acquire spurious l)
  have "progress_ok s' (threads s' u)" for u
    using inv acquire by (cases "u = t") (auto simp: ainv_def progress_ok_def)
  then show ?thesis
    using inv C' acquire unfolding ainv_def by auto
next
  case (work k m' r')
  let ?c = "current (threads s t)"
  have crit: "critical (threads s t)" using work by (auto simp: critical_def)
  have f: "body ?c ! k \<in> set (body ?c)" using work(3) by (rule nth_mem)
  have "m' a = mem s a" if "critical (threads s u)" "u \<noteq> t" "a \<in> footprint (current (threads s u))" for u a
    using writes_outside [OF inv ex compat that(1,2) _ _ that(3), of ?c] crit inv micro_outside [OF f work(4)]
    unfolding ainv_def by blast
  moreover have "progress_ok s (threads s t)" using inv by (simp add: ainv_def)
  ultimately have "progress_ok s' (threads s' u)" for u
    using inv work progress_work [OF _ work(2,3,4)] progress_frame [of s "threads s u" s']
    by (cases "u = t") (auto simp: ainv_def)
  then show ?thesis
    using inv C' work crit unfolding ainv_def by auto
next
  case (release k)
  have "progress_ok s' (threads s' u)" for u
    using inv release by (cases "u = t") (auto simp: ainv_def progress_ok_def)
  then show ?thesis
    using inv C' release unfolding ainv_def by auto
qed

lemma ainv_reach:
  assumes "reach alf C s" and "\<forall>c\<in>C. \<forall>c'\<in>C. compatible alf c c'"
  shows "ainv alf C s"
  using assms(1)
proof induction
  case (start s)
  show ?case using start(1) by (rule ainv_start)
next
  case (step s t s')
  show ?case using ainv_step [OF step.IH excl_reach [OF step.hyps(1)] step.hyps(2) step.hyps(3) assms(2)] .
qed


text \<open>A holder of a lock, left to run alone, finishes its critical section and frees the lock.\<close>

lemma holder_releases:
  assumes "excl s" "phase (threads s u) = Critical k"
  shows "\<exists>s'. (astep alf u)\<^sup>+\<^sup>+ s s' \<and> phase (threads s' u) = Idle \<and> locks s' (lock_of (current (threads s u))) = 0"
  using assms
proof (induction "List.length (body (current (threads s u))) - k" arbitrary: s k)
  case 0
  have "k \<le> List.length (body (current (threads s u)))" using 0(2,3) unfolding excl_def by blast
  with 0(1) have k: "k = List.length (body (current (threads s u)))" by simp
  show ?case
    by (rule exI, rule conjI, rule tranclp.r_into_trancl, rule release [OF 0(3) k]) (simp add: lock_of_def unlock_def)
next
  case (Suc d)
  then have k: "k < List.length (body (current (threads s u)))" by auto
  obtain m' r' where mr: "(body (current (threads s u)) ! k) (mem s, regs_of (threads s u)) = (m', r')" by fastforce
  have st: "astep alf u s ((set_thread u ((threads s u)\<lparr>phase := Critical (Suc k), regs_of := r'\<rparr>) s)\<lparr>mem := m'\<rparr>)"
    (is "astep alf u s ?s") using Suc.prems(2) k mr by (rule work)
  have "excl ?s" using excl_step [OF Suc.prems(1) st] .
  moreover have "d = List.length (body (current (threads ?s u))) - Suc k" using Suc.hyps(2) by simp
  ultimately obtain s' where "(astep alf u)\<^sup>+\<^sup>+ ?s s'" "phase (threads s' u) = Idle"
      "locks s' (lock_of (current (threads ?s u))) = 0"
    using Suc.hyps(1) [of ?s "Suc k"] by auto
  with st show ?case by (auto intro: tranclp_into_tranclp2)
qed

section \<open>The sequential meaning is local\<close>

lemma spec_outside: "a \<notin> footprint c \<Longrightarrow> size_of c \<le> 2 ^ 64 \<Longrightarrow> fst (spec c (m, r)) a = m a"
  using run_outside [of "body c" "footprint c" a m r] body_local [of _ c] body_spec [of c "(m, r)"] by simp

lemma run_local:
  "(\<And>f. f \<in> set fs \<Longrightarrow> local_micro F f) \<Longrightarrow> \<forall>a\<in>F. m a = m' a \<Longrightarrow>
   snd (run fs (m, r)) = snd (run fs (m', r)) \<and> (\<forall>a\<in>F. fst (run fs (m, r)) a = fst (run fs (m', r)) a)"
proof (induction fs arbitrary: m m' r)
  case (Cons f fs)
  obtain m1 r1 m2 r2 where f: "f (m, r) = (m1, r1)" "f (m', r) = (m2, r2)" by fastforce
  have "local_micro F f" using Cons.prems(1) by simp
  then have "r1 = r2 \<and> (\<forall>a\<in>F. m1 a = m2 a)"
    using Cons.prems(2) f unfolding local_micro_def by (metis fst_conv snd_conv)
  then show ?case using Cons.IH [of m1 m2 r1] Cons.prems(1) by (simp add: run_Cons f)
qed simp

lemma spec_local:
  "size_of c \<le> 2 ^ 64 \<Longrightarrow> \<forall>a\<in>footprint c. m a = m' a \<Longrightarrow>
   snd (spec c (m, r)) = snd (spec c (m', r)) \<and> (\<forall>a\<in>footprint c. fst (spec c (m, r)) a = fst (spec c (m', r)) a)"
  using run_local [of "body c" "footprint c" m m' r] body_local [of _ c] body_spec [of c] by simp

section \<open>Refinement of an atomic memory\<close>

text \<open>
  The atomic memory \<open>am\<close> that a state stands for: on the bytes of a running critical section,
  what was there at its entry, elsewhere what is there now.
\<close>

definition sim :: "state \<Rightarrow> memory \<Rightarrow> bool" where
  "sim s am \<longleftrightarrow>
     (\<forall>t. critical (threads s t) \<longrightarrow>
        (\<forall>a\<in>footprint (current (threads s t)). am a = fst (entry (threads s t)) a)) \<and>
     (\<forall>a. (\<forall>t. critical (threads s t) \<longrightarrow> a \<notin> footprint (current (threads s t))) \<longrightarrow> am a = mem s a)"


lemma sim_start: "(\<forall>t. phase (threads s t) = Idle) \<Longrightarrow> sim s (mem s)"
  by (simp add: sim_def critical_def)

text \<open>Critical threads of compatible calls have disjoint bytes, and so has a call made lock-free.\<close>

lemma disjoint_footprints:
  assumes "ainv alf C s" "excl s" "\<forall>c\<in>C. \<forall>c'\<in>C. compatible alf c c'"
    and "critical (threads s u)" "critical (threads s t)" "u \<noteq> t"
  shows "footprint (current (threads s u)) \<inter> footprint (current (threads s t)) = {}"
proof -
  have "a \<notin> footprint (current (threads s t))" if "a \<in> footprint (current (threads s u))" for a
    by (rule writes_outside [OF assms(1,2,3,4,6) _ _ that]) (use assms in \<open>auto simp: ainv_def\<close>)
  then show ?thesis by blast
qed

lemma sim_release:
  assumes inv: "ainv alf C s" "excl s" and compat: "\<forall>c\<in>C. \<forall>c'\<in>C. compatible alf c c'"
    and small: "\<forall>c\<in>C. size_of c \<le> 2 ^ 64" and sim: "sim s am"
    and ph: "phase (threads s t) = Critical k" "k = List.length (body (current (threads s t)))"
    and s': "s' = (set_thread t ((threads s t)\<lparr>phase := Idle\<rparr>) s)\<lparr>locks := lk\<rparr>"
  shows "\<exists>am'. sim s' am' \<and> (am', regs_of (threads s t)) = spec (current (threads s t)) (am, snd (entry (threads s t)))"
proof -
  let ?th = "threads s t"
  let ?c = "current ?th"
  obtain m0 r0 where e: "entry ?th = (m0, r0)" by fastforce
  have c: "size_of ?c \<le> 2 ^ 64" using inv small by (auto simp: ainv_def)
  have ct: "critical ?th" using ph by (auto simp: critical_def)
  have pr: "progress_ok s ?th" using inv(1) by (simp add: ainv_def)
  have fin: "snd (spec ?c (m0, r0)) = regs_of ?th" "\<forall>a\<in>footprint ?c. fst (spec ?c (m0, r0)) a = mem s a"
    using pr [unfolded progress_ok_def, rule_format, OF ph(1)] ph(2) body_spec [OF c, of "(m0, r0)"] by (simp_all add: e)
  have "\<forall>a\<in>footprint ?c. am a = m0 a" using sim ct by (simp add: sim_def e)
  from spec_local [OF c this, of r0] fin
  have am: "snd (spec ?c (am, r0)) = regs_of ?th" "\<forall>a\<in>footprint ?c. fst (spec ?c (am, r0)) a = mem s a" by auto
  define am' where "am' = fst (spec ?c (am, r0))"
  have out: "a \<notin> footprint ?c \<Longrightarrow> am' a = am a" for a
    unfolding am'_def by (rule spec_outside [OF _ c])
  have disj: "critical (threads s u) \<Longrightarrow> u \<noteq> t \<Longrightarrow> footprint (current (threads s u)) \<inter> footprint ?c = {}" for u
    by (rule disjoint_footprints [OF inv compat _ ct])
  have cr: "critical (threads s' u) \<longleftrightarrow> u \<noteq> t \<and> critical (threads s u)" for u
    using s' by (auto simp: critical_def)
  have th: "u \<noteq> t \<Longrightarrow> threads s' u = threads s u" "mem s' = mem s" for u using s' by auto
  have "am' a = fst (entry (threads s' u)) a" if "critical (threads s' u)" "a \<in> footprint (current (threads s' u))" for u a
    proof -
    have u: "u \<noteq> t" "critical (threads s u)" "a \<in> footprint (current (threads s u))" using that by (auto simp: cr th)
    then have "am' a = am a" using out disj by blast
    then show ?thesis using u sim by (simp add: sim_def th)
  qed
  moreover have "am' a = mem s' a" if no: "\<forall>u. critical (threads s' u) \<longrightarrow> a \<notin> footprint (current (threads s' u))" for a
  proof (cases "a \<in> footprint ?c")
    case True
    then show ?thesis using am(2) by (simp add: am'_def th)
  next
    case False
    then have "\<forall>u. critical (threads s u) \<longrightarrow> a \<notin> footprint (current (threads s u))"
      using no cr th by metis
    then show ?thesis using out [OF False] sim by (simp add: sim_def th)
  qed
  ultimately have "sim s' am'" unfolding sim_def by blast
  moreover have "(am', regs_of ?th) = spec ?c (am, snd (entry ?th))" by (simp add: am'_def e flip: am(1))
  ultimately show ?thesis by blast
qed


lemma sim_lock_free:
  assumes inv: "ainv alf C s" "excl s" and compat: "\<forall>c\<in>C. \<forall>c'\<in>C. compatible alf c c'"
    and c: "c \<in> C" "\<not> locked_call alf c" "size_of c \<le> 2 ^ 64" and sim: "sim s am"
    and idle: "phase (threads s t) = Idle" and rn: "run (body c) (mem s, r) = (m', r')"
    and s': "s' = (set_thread t ((threads s t)\<lparr>current := c, regs_of := r'\<rparr>) s)\<lparr>mem := m'\<rparr>"
  shows "\<exists>am'. sim s' am' \<and> (am', r') = spec c (am, r)"
proof -
  have free: "critical (threads s u) \<Longrightarrow> a \<in> footprint (current (threads s u)) \<Longrightarrow> a \<notin> footprint c" for u a
    using writes_outside [OF inv compat, of u t c a] c(1,2) idle by (cases "u = t") (auto simp: critical_def)
  then have "\<forall>a\<in>footprint c. am a = mem s a" using sim unfolding sim_def by blast
  from spec_local [OF c(3) this, of r] rn
  have am: "snd (spec c (am, r)) = r'" "\<forall>a\<in>footprint c. fst (spec c (am, r)) a = m' a"
    by (simp_all add: body_spec [OF c(3)])
  define am' where "am' = fst (spec c (am, r))"
  have out: "a \<notin> footprint c \<Longrightarrow> am' a = am a" "a \<notin> footprint c \<Longrightarrow> m' a = mem s a" for a
    using spec_outside [OF _ c(3)] run_body_outside [OF rn] by (simp_all add: am'_def)
  have cr: "critical (threads s' u) \<longleftrightarrow> u \<noteq> t \<and> critical (threads s u)" for u
    using s' idle by (auto simp: critical_def)
  have th: "u \<noteq> t \<Longrightarrow> threads s' u = threads s u" "mem s' = m'" for u using s' by auto
  have "am' a = fst (entry (threads s' u)) a" if "critical (threads s' u)" "a \<in> footprint (current (threads s' u))" for u a
  proof -
    have u: "u \<noteq> t" "critical (threads s u)" "a \<in> footprint (current (threads s u))" using that by (auto simp: cr th)
    then have "am' a = am a" using out(1) free by blast
    then show ?thesis using u sim by (simp add: sim_def th)
  qed
  moreover have "am' a = mem s' a" if no: "\<forall>u. critical (threads s' u) \<longrightarrow> a \<notin> footprint (current (threads s' u))" for a
  proof (cases "a \<in> footprint c")
    case False
    then have "\<forall>u. critical (threads s u) \<longrightarrow> a \<notin> footprint (current (threads s u))"
      using no cr th idle by (metis critical_def phase.distinct(3))
    then show ?thesis using out [OF False] sim by (simp add: sim_def th)
  qed (use am(2) in \<open>simp add: am'_def th\<close>)
  ultimately have "sim s' am'" unfolding sim_def by blast
  moreover have "(am', r') = spec c (am, r)" by (simp add: am'_def flip: am(1))
  ultimately show ?thesis by blast
qed

lemma sim_work:
  assumes sim: "sim s am" and ph: "phase (threads s t) = Critical k" and k: "k < List.length (body (current (threads s t)))"
    and st: "(body (current (threads s t)) ! k) (mem s, regs_of (threads s t)) = (m', r')"
    and s': "s' = (set_thread t ((threads s t)\<lparr>phase := Critical (Suc k), regs_of := r'\<rparr>) s)\<lparr>mem := m'\<rparr>"
  shows "sim s' am"
proof -
  have out: "a \<notin> footprint (current (threads s t)) \<Longrightarrow> m' a = mem s a" for a
    by (rule micro_outside [OF nth_mem [OF k] st])
  have cr: "critical (threads s' u) = critical (threads s u)" "current (threads s' u) = current (threads s u)"
    "entry (threads s' u) = entry (threads s u)" "mem s' = m'" for u
    using s' ph by (auto simp: critical_def)
  have "critical (threads s t)" using ph by (auto simp: critical_def)
  with sim out show ?thesis unfolding sim_def cr by metis
qed

lemma sim_acquire:
  assumes sim: "sim s am" and none: "\<And>u. critical (threads s u) \<Longrightarrow> footprint (current (threads s u)) \<inter> footprint (current (threads s t)) = {}"
    and ph: "phase (threads s t) = Spinning"
    and s': "s' = (set_thread t ((threads s t)\<lparr>phase := Critical 0, entry := (mem s, r)\<rparr>) s)\<lparr>locks := lk\<rparr>"
  shows "sim s' am"
proof -
  have cr: "critical (threads s' u) \<longleftrightarrow> u = t \<or> critical (threads s u)" "current (threads s' u) = current (threads s u)"
    "mem s' = mem s" "entry (threads s' t) = (mem s, r)" "u \<noteq> t \<Longrightarrow> entry (threads s' u) = entry (threads s u)" for u
    using s' by (auto simp: critical_def)
  have nt: "\<not> critical (threads s t)" using ph by (simp add: critical_def)
  have "am a = fst (entry (threads s' u)) a" if u: "critical (threads s' u)" and a: "a \<in> footprint (current (threads s' u))" for u a
  proof (cases "u = t")
    case True
    then have "\<forall>u. critical (threads s u) \<longrightarrow> a \<notin> footprint (current (threads s u))" using none a True by (auto simp: cr(2))
    then show ?thesis using sim True by (simp add: sim_def cr(4))
  next
    case False
    then show ?thesis using u a sim by (simp add: sim_def cr)
  qed
  moreover have "am a = mem s' a" if "\<forall>u. critical (threads s' u) \<longrightarrow> a \<notin> footprint (current (threads s' u))" for a
    using that sim unfolding cr sim_def by blast
  ultimately show ?thesis unfolding sim_def by blast
qed

lemma sim_spinning:
  "sim s am \<Longrightarrow> phase (threads s t) = Idle \<Longrightarrow>
   sim (set_thread t ((threads s t)\<lparr>current := c, phase := Spinning, regs_of := r\<rparr>) s) am"
  unfolding sim_def critical_def by (auto split: if_splits) (metis phase.distinct(3))+

text \<open>C17: the locks exclude each other.  In every reachable state a lock word is nonzero exactly when some thread
  is inside a critical section of an address that hashes to it, and that thread is the only one.\<close>

theorem locks_exclude:
  assumes "reach alf C s"
  shows "(locks s l \<noteq> 0) = (\<exists>t. critical (threads s t) \<and> lock_of (current (threads s t)) = l) \<and>
     (critical (threads s t) \<longrightarrow> critical (threads s t') \<longrightarrow>
        lock_of (current (threads s t)) = lock_of (current (threads s t')) \<longrightarrow> t = t')"
  using excl_reach [OF assms] unfolding excl_def by blast

text \<open>C35: no operation waits for a lock that is never freed.  A spinning thread either finds its lock free and can take it
  in one step, or another thread holds it, and that thread alone, running a finite number of
  its own steps, returns and leaves the lock free.\<close>

theorem locks_make_progress:
  assumes "reach alf C s" and "phase (threads s t) = Spinning"
  shows "(\<exists>s'. astep alf t s s' \<and> critical (threads s' t)) \<or>
     (\<exists>u s'. u \<noteq> t \<and> (astep alf u)\<^sup>+\<^sup>+ s s' \<and> phase (threads s' u) = Idle \<and>
        locks s' (lock_of (current (threads s t))) = 0)"
proof (cases "locks s (lock_of (current (threads s t))) = 0")
  case True
  then have "lock_cas False (locks s (lock_for_pointer (ptr (current (threads s t))))) = (True, 1)"
    by (simp add: lock_cas_def lock_of_def)
  from acquire [of s t, OF assms(2) this, of alf] show ?thesis by (auto simp: critical_def)
next
  case False
  then obtain u k where u: "phase (threads s u) = Critical k" "lock_of (current (threads s u)) = lock_of (current (threads s t))"
    using excl_reach [OF assms(1)] unfolding excl_def critical_def by blast
  moreover have "u \<noteq> t" using u(1) assms(2) by auto
  ultimately show ?thesis using holder_releases [OF excl_reach [OF assms(1)] u(1), of alf] by metis
qed

text \<open>C9: the operations are atomic.  If calls that share a byte are protected in the same way, the interleaved byte
  steps refine an atomic memory: every step either leaves that memory as it is or, when a call
  returns, changes it by the sequential meaning of the whole call, which also gives the result.\<close>

theorem atomics_linearize:
  assumes "reach alf C s" and "astep alf t s s'" and "\<forall>t. current (threads s' t) \<in> C"
    and "\<forall>c\<in>C. \<forall>c'\<in>C. compatible alf c c'" and "\<forall>c\<in>C. size_of c \<le> 2 ^ 64" and "sim s am"
  shows "\<exists>am'. sim s' am' \<and>
     (if phase (threads s' t) = Idle
      then \<exists>r. (critical (threads s t) \<longrightarrow> r = snd (entry (threads s t))) \<and>
             (am', regs_of (threads s' t)) = spec (current (threads s' t)) (am, r)
      else am' = am)"
proof -
  note inv = ainv_reach [OF assms(1,4)] and ex = excl_reach [OF assms(1)]
  show ?thesis
    using assms(2)
  proof cases
    case (call_locked c r)
    then show ?thesis using sim_spinning [OF assms(6) call_locked(2)] by auto
  next
    case (lock_free c r m' r')
    have c: "c \<in> C" using assms(3) [rule_format, of t] lock_free(1) by simp
    from sim_lock_free [OF inv ex assms(4) c _ _ assms(6) lock_free(2,4,1)] lock_free(3) assms(5) c
    obtain am' where "sim s' am'" "(am', r') = spec c (am, r)" by (auto simp: locked_call_def)
    then show ?thesis using lock_free by (auto simp: critical_def)
  next
    case (spin l spurious)
    then show ?thesis using assms(6) by auto
  next
    case (acquire spurious l)
    let ?c = "current (threads s t)"
    have "locks s (lock_of ?c) = 0"
      using acquire(3) by (auto simp: lock_cas_def lock_of_def split: if_splits)
    then have free: "\<not> (critical (threads s u) \<and> lock_of (current (threads s u)) = lock_of ?c)" for u
      using ex unfolding excl_def by metis
    have "locked_call alf ?c" "?c \<in> C" using inv acquire(2) by (auto simp: ainv_def)
    then have "critical (threads s u) \<Longrightarrow> footprint (current (threads s u)) \<inter> footprint ?c = {}" for u
      using free [of u] assms(4) inv by (auto simp: ainv_def compatible_def)
    from sim_acquire [OF assms(6) this acquire(2,1)] acquire show ?thesis by auto
  next
    case (work k m' r')
    from sim_work [OF assms(6) work(2,3,4,1)] work show ?thesis by auto
  next
    case (release k)
    from sim_release [OF inv ex assms(4,5,6) release(2,3,1)] obtain am' where
      "sim s' am'" "(am', regs_of (threads s t)) = spec (current (threads s t)) (am, snd (entry (threads s t)))" by blast
    then show ?thesis using release by auto
  qed
qed


text \<open>Witnesses: two compatible calls on one byte, and the steps of a thread that runs one of them.\<close>

definition store_call :: call where "store_call = atomic_store_n 1 5"

definition idle_state :: state where
  "idle_state = \<lparr>mem = (\<lambda>a. 0), locks = (\<lambda>l. 0),
     threads = (\<lambda>t. \<lparr>current = store_call, phase = Idle,
       regs_of = \<lparr>out = (\<lambda>i. 0), arg = (\<lambda>i. 9), ok = False\<rparr>, entry = (\<lambda>a. 0, \<lparr>out = (\<lambda>i. 0), arg = (\<lambda>i. 9), ok = False\<rparr>)\<rparr>)\<rparr>"

lemma reach_idle_state: "reach alf {store_call} idle_state"
  by (rule start) (simp_all add: idle_state_def)

definition spinning_state :: state where
  "spinning_state = set_thread 0 ((threads idle_state 0)\<lparr>current := store_call, phase := Spinning,
     regs_of := \<lparr>out = (\<lambda>i. 0), arg = (\<lambda>i. 9), ok = False\<rparr>\<rparr>) idle_state"

lemma reach_spinning_state: "reach (\<lambda>_ _. False) {store_call} spinning_state"
  unfolding spinning_state_def
  by (rule step [OF reach_idle_state call_locked]) (simp_all add: idle_state_def is_lock_free_def)

definition holding_state :: state where
  "holding_state = (set_thread 0 ((threads spinning_state 0)\<lparr>phase := Critical 0,
       entry := (mem spinning_state, regs_of (threads spinning_state 0))\<rparr>) spinning_state)
     \<lparr>locks := (locks spinning_state)(lock_for_pointer (ptr (current (threads spinning_state 0))) := 1)\<rparr>"

lemma reach_holding_state: "reach (\<lambda>_ _. False) {store_call} holding_state"
  unfolding holding_state_def
  by (rule step [OF reach_spinning_state acquire [where spurious = False]])
    (simp_all add: spinning_state_def idle_state_def lock_cas_def)

theorem locks_exclude_witness: "locks holding_state (lock_of store_call) \<noteq> 0 \<and> \<not> critical (threads holding_state 1)"
  using locks_exclude [OF reach_holding_state, of "lock_of store_call" 1 0]
  by (auto simp: holding_state_def spinning_state_def idle_state_def critical_def)

theorem locks_make_progress_witness:
  "(\<exists>s'. astep (\<lambda>_ _. False) 0 spinning_state s' \<and> critical (threads s' 0)) \<or>
   (\<exists>u s'. u \<noteq> 0 \<and> (astep (\<lambda>_ _. False) u)\<^sup>+\<^sup>+ spinning_state s' \<and> phase (threads s' u) = Idle \<and>
      locks s' (lock_of store_call) = 0)"
  using locks_make_progress [OF reach_spinning_state, of 0] by (simp add: spinning_state_def idle_state_def)

definition stored_state :: state where
  "stored_state = (set_thread 0 ((threads idle_state 0)\<lparr>current := store_call,
     regs_of := \<lparr>out = (\<lambda>i. 0), arg = (\<lambda>i. 9), ok = False\<rparr>\<rparr>) idle_state)\<lparr>mem := (\<lambda>a. 0)(5 := 9)\<rparr>"

lemma store_step: "astep (\<lambda>_ _. True) 0 idle_state stored_state"
  unfolding stored_state_def
  by (rule lock_free [where r = "\<lparr>out = (\<lambda>i. 0), arg = (\<lambda>i. 9), ok = False\<rparr>"])
    (simp_all add: idle_state_def is_lock_free_def store_call_def atomic_store_n_def body_def
      store_body_def run_Cons copy_in_def)

theorem atomics_linearize_witness:
  "\<exists>am'. sim stored_state am' \<and> am' 5 = 9 \<and> am' 6 = 0"
proof -
  have "\<exists>am'. sim stored_state am' \<and>
     (if phase (threads stored_state 0) = Idle
      then \<exists>r. (critical (threads idle_state 0) \<longrightarrow> r = snd (entry (threads idle_state 0))) \<and>
             (am', regs_of (threads stored_state 0)) = spec (current (threads stored_state 0)) (\<lambda>a. 0, r)
      else am' = (\<lambda>a. 0))"
    by (rule atomics_linearize [OF reach_idle_state store_step])
      (simp_all add: stored_state_def idle_state_def compatible_def store_call_def atomic_store_n_def sim_def critical_def)
  then show ?thesis
    by (auto simp: stored_state_def idle_state_def spec_def store_call_def atomic_store_n_def written_def Let_def)
qed

section \<open>The hash\<close>

lemma spinlock_mask: "SPINLOCK_MASK = mask 10"
  by (simp add: SPINLOCK_MASK_def SPINLOCK_COUNT_def mask_eq_decr_exp)

lemma lock_for_pointer_bits:
  "lock_for_pointer p = take_bit 10 (drop_bit 4 p) XOR take_bit 10 (drop_bit 20 p)"
proof (rule bit_word_eqI)
  fix n
  assume "n < LENGTH(64)"
  then show "bit (lock_for_pointer p) n = bit (take_bit 10 (drop_bit 4 p) XOR take_bit 10 (drop_bit 20 p)) n"
    by (auto simp: lock_for_pointer_def Let_def spinlock_mask bit_simps bit_signed_drop_bit_iff ac_simps)
qed

lemma xor_cancel: "(a XOR c = b XOR c) = (a = b)" for a b c :: "'a::len word"
  by (metis xor.assoc xor_self_eq xor.right_neutral)

text \<open>the hash of an address is an index of the lock table, addresses in one 16-byte granule share their lock,
  and two addresses of one 1-megabyte block share it only when their bits 4 to 13 agree.\<close>

theorem lock_hash:
  "unat (lock_for_pointer p) < unat SPINLOCK_COUNT \<and>
   (drop_bit 4 p = drop_bit 4 q \<longrightarrow> lock_for_pointer p = lock_for_pointer q) \<and>
   (drop_bit 20 p = drop_bit 20 q \<longrightarrow>
     (lock_for_pointer p = lock_for_pointer q \<longleftrightarrow> take_bit 10 (drop_bit 4 p) = take_bit 10 (drop_bit 4 q)))"
proof (intro conjI impI)
  have "lock_for_pointer p = take_bit 10 (lock_for_pointer p)"
    by (simp add: lock_for_pointer_bits)
  then have "unat (lock_for_pointer p) = take_bit 10 (unat (lock_for_pointer p))"
    by (metis unsigned_take_bit_eq)
  also have "\<dots> < 2 ^ 10" by (rule take_bit_nat_less_exp)
  also have "(2::nat) ^ 10 = unat SPINLOCK_COUNT" by (simp add: SPINLOCK_COUNT_def unsigned_push_bit_eq)
  finally show "unat (lock_for_pointer p) < unat SPINLOCK_COUNT" .
  show "lock_for_pointer p = lock_for_pointer q" if "drop_bit 4 p = drop_bit 4 q"
  proof -
    have "drop_bit 20 x = drop_bit 16 (drop_bit 4 x)" for x :: uptr by simp
    then show ?thesis using that by (simp add: lock_for_pointer_bits del: drop_bit_drop_bit)
  qed
  show "(lock_for_pointer p = lock_for_pointer q) = (take_bit 10 (drop_bit 4 p) = take_bit 10 (drop_bit 4 q))"
    if "drop_bit 20 p = drop_bit 20 q"
    using that by (simp add: lock_for_pointer_bits xor_cancel)
qed

theorem lock_hash_witness:
  "lock_for_pointer 0x7FFF0010 = lock_for_pointer 0x7FFF001F \<and> lock_for_pointer 0x7FFF0010 \<noteq> lock_for_pointer 0x7FFF0020"
  using lock_hash [of "0x7FFF0010" "0x7FFF001F"] lock_hash [of "0x7FFF0010" "0x7FFF0020"]
  by (simp add: drop_bit_eq_div)

end
