(* ===== verification/UnwindTypes.thy ===== *)
theory UnwindTypes
  imports Prelude
begin

text \<open>
  The types of the unwinding interface of \<^verbatim>\<open>unwind.h\<close> and \<^verbatim>\<open>unwind_itanium.h\<close>: reason codes, action
  flags, the exception object.  Addresses of code are the \<open>uptr\<close> they are stored as; the code
  behind them is a parameter of the model.
\<close>

unbundle bit_operations_syntax

text \<open>A C enumeration; a personality may return a value that is none of its constants.\<close>

datatype reason =
    NO_REASON
  | FOREIGN_EXCEPTION_CAUGHT
  | FATAL_PHASE2_ERROR
  | FATAL_PHASE1_ERROR
  | NORMAL_STOP
  | END_OF_STACK
  | HANDLER_FOUND
  | INSTALL_CONTEXT
  | CONTINUE_UNWIND
  | FAILURE
  | OTHER_REASON int

type_synonym action = "32 word"

definition UA_SEARCH_PHASE :: action where "UA_SEARCH_PHASE = 1"
definition UA_CLEANUP_PHASE :: action where "UA_CLEANUP_PHASE = 2"
definition UA_HANDLER_FRAME :: action where "UA_HANDLER_FRAME = 4"
definition UA_FORCE_UNWIND :: action where "UA_FORCE_UNWIND = 8"
definition UA_END_OF_STACK :: action where "UA_END_OF_STACK = 16"

lemmas action_defs = UA_SEARCH_PHASE_def UA_CLEANUP_PHASE_def UA_HANDLER_FRAME_def
  UA_FORCE_UNWIND_def UA_END_OF_STACK_def

record exc =
  exception_class :: "64 word"
  exception_cleanup :: uptr
  private_1 :: uptr
  private_2 :: uptr

text \<open>What a call into the unwinder ends in: it returns, jumps into a frame, or aborts the process.\<close>

datatype ('c, 'n) outcome = Returned reason | Resumed 'c 'n | Aborted

text \<open>
  The part a frame plays in the specifications: one without personality routine, one whose personality has nothing to do, one with
  a cleanup to run, one that catches the exception.
\<close>

datatype role = Plain | Passing | Cleanup | Catching

end
