(* ===== verification/Sjlj.thy ===== *)
theory Sjlj
  imports UnwindTypes
begin

text \<open>
  Unwinding over registered function contexts, \<^verbatim>\<open>Unwind-sjlj.c\<close>.  A context is a block in its
  function's frame, linked to the next one out; the top of the list is a thread-local
  variable.  The memory of contexts is a map from their addresses; a personality routine or
  stop function is a parameter that changes the state.  A jump through \<open>__builtin_longjmp\<close> is
  the outcome \<open>Resumed\<close> with the address of its context.
\<close>

unbundle bit_operations_syntax

section \<open>Contexts\<close>

record fctx =
  prev :: uptr
  resumeLocation :: "32 word"
  resumeParameters :: "32 word list"
  personality :: uptr
  lsda :: uptr
  jbuf :: "uptr list"

record 'w sjlj =
  top :: uptr
  ctxs :: "uptr \<Rightarrow> fctx"
  exc :: exc
  world :: 'w

definition GetTopOfFunctionStack :: "'w sjlj \<Rightarrow> uptr" where
  "GetTopOfFunctionStack s = top s"

definition SetTopOfFunctionStack :: "uptr \<Rightarrow> 'w sjlj \<Rightarrow> 'w sjlj" where
  "SetTopOfFunctionStack fc s = s\<lparr>top := fc\<rparr>"

definition SjLj_Register :: "uptr \<Rightarrow> 'w sjlj \<Rightarrow> 'w sjlj" where
  "SjLj_Register fc s =
     SetTopOfFunctionStack fc (s\<lparr>ctxs := (ctxs s)(fc := (ctxs s fc)\<lparr>prev := GetTopOfFunctionStack s\<rparr>)\<rparr>)"

definition SjLj_Unregister :: "uptr \<Rightarrow> 'w sjlj \<Rightarrow> 'w sjlj" where
  "SjLj_Unregister fc s = SetTopOfFunctionStack (prev (ctxs s fc)) s"

section \<open>The code called back\<close>

record 'w callbacks =
  call_personality :: "uptr \<Rightarrow> action \<Rightarrow> uptr \<Rightarrow> 'w sjlj \<Rightarrow> reason \<times> 'w sjlj"
  call_stop :: "uptr \<Rightarrow> action \<Rightarrow> uptr \<Rightarrow> uptr \<Rightarrow> 'w sjlj \<Rightarrow> reason \<times> 'w sjlj"
  call_cleanup :: "uptr \<Rightarrow> reason \<Rightarrow> 'w sjlj \<Rightarrow> 'w sjlj"

section \<open>The phases\<close>

partial_function (option) sjlj_phase1_loop ::
    "'w callbacks \<Rightarrow> uptr \<Rightarrow> 'w sjlj \<Rightarrow> (reason \<times> 'w sjlj) option" where
  "sjlj_phase1_loop K c s =
     (if c = 0 then Some (END_OF_STACK, s)
      else if personality (ctxs s c) \<noteq> 0 then
        let (personalityResult, s) = call_personality K (personality (ctxs s c)) UA_SEARCH_PHASE c s in
        if personalityResult = HANDLER_FOUND then Some (NO_REASON, s\<lparr>exc := (exc s)\<lparr>private_2 := c\<rparr>\<rparr>)
        else if personalityResult = CONTINUE_UNWIND then sjlj_phase1_loop K (prev (ctxs s c)) s
        else Some (FATAL_PHASE1_ERROR, s)
      else sjlj_phase1_loop K (prev (ctxs s c)) s)"

definition sjlj_phase1 :: "'w callbacks \<Rightarrow> 'w sjlj \<Rightarrow> (reason \<times> 'w sjlj) option" where
  "sjlj_phase1 K s = sjlj_phase1_loop K (GetTopOfFunctionStack s) s"

partial_function (option) sjlj_phase2_loop ::
    "'w callbacks \<Rightarrow> uptr \<Rightarrow> 'w sjlj \<Rightarrow> ((uptr, unit) outcome \<times> 'w sjlj) option" where
  "sjlj_phase2_loop K c s =
     (if c = 0 then Some (Returned END_OF_STACK, s)
      else if personality (ctxs s c) \<noteq> 0 then
        let action = (if c = private_2 (exc s) then UA_CLEANUP_PHASE OR UA_HANDLER_FRAME else UA_CLEANUP_PHASE);
            (personalityResult, s) = call_personality K (personality (ctxs s c)) action c s in
        if personalityResult = CONTINUE_UNWIND then
          if c = private_2 (exc s) then Some (Aborted, s)
          else sjlj_phase2_loop K (prev (ctxs s c)) s
        else if personalityResult = INSTALL_CONTEXT then
          Some (Resumed c (), SetTopOfFunctionStack c s)
        else Some (Returned FATAL_PHASE2_ERROR, s)
      else sjlj_phase2_loop K (prev (ctxs s c)) s)"

definition sjlj_phase2 :: "'w callbacks \<Rightarrow> 'w sjlj \<Rightarrow> ((uptr, unit) outcome \<times> 'w sjlj) option" where
  "sjlj_phase2 K s = sjlj_phase2_loop K (GetTopOfFunctionStack s) s"

partial_function (option) sjlj_forced_loop ::
    "'w callbacks \<Rightarrow> uptr \<Rightarrow> uptr \<Rightarrow> uptr \<Rightarrow> 'w sjlj \<Rightarrow> ((uptr, unit) outcome \<times> 'w sjlj) option" where
  "sjlj_forced_loop K stop stop_parameter c s =
     (if c = 0 then Some (Returned END_OF_STACK, s)
      else
        let action = UA_FORCE_UNWIND OR UA_CLEANUP_PHASE;
            (stopResult, s) = call_stop K stop action c stop_parameter s in
        if stopResult \<noteq> NO_REASON then Some (Returned FATAL_PHASE2_ERROR, s)
        else if personality (ctxs s c) \<noteq> 0 then
          let (personalityResult, s) = call_personality K (personality (ctxs s c)) action c s in
          if personalityResult = CONTINUE_UNWIND then sjlj_forced_loop K stop stop_parameter (prev (ctxs s c)) s
          else if personalityResult = INSTALL_CONTEXT then Some (Resumed c (), SetTopOfFunctionStack c s)
          else Some (Returned FATAL_PHASE2_ERROR, s)
        else sjlj_forced_loop K stop stop_parameter (prev (ctxs s c)) s)"

definition sjlj_phase2_forced ::
    "'w callbacks \<Rightarrow> uptr \<Rightarrow> uptr \<Rightarrow> 'w sjlj \<Rightarrow> ((uptr, unit) outcome \<times> 'w sjlj) option" where
  "sjlj_phase2_forced K stop stop_parameter s =
     sjlj_forced_loop K stop stop_parameter (GetTopOfFunctionStack s) s"

section \<open>The entry points\<close>

definition SjLj_RaiseException :: "'w callbacks \<Rightarrow> 'w sjlj \<Rightarrow> ((uptr, unit) outcome \<times> 'w sjlj) option" where
  "SjLj_RaiseException K s =
     (let s = s\<lparr>exc := (exc s)\<lparr>private_1 := 0, private_2 := 0\<rparr>\<rparr> in
      case sjlj_phase1 K s of
        None \<Rightarrow> None
      | Some (phase1, s) \<Rightarrow> if phase1 \<noteq> NO_REASON then Some (Returned phase1, s) else sjlj_phase2 K s)"

definition returned_aborts :: "('c, 'n) outcome \<times> 's \<Rightarrow> ('c, 'n) outcome \<times> 's" where
  "returned_aborts r = (case r of (Returned _, s) \<Rightarrow> (Aborted, s) | r \<Rightarrow> r)"

definition SjLj_Resume :: "'w callbacks \<Rightarrow> 'w sjlj \<Rightarrow> ((uptr, unit) outcome \<times> 'w sjlj) option" where
  "SjLj_Resume K s =
     map_option returned_aborts
       (if private_1 (exc s) \<noteq> 0
        then sjlj_phase2_forced K (private_1 (exc s)) (private_2 (exc s)) s
        else sjlj_phase2 K s)"

definition SjLj_Resume_or_Rethrow :: "'w callbacks \<Rightarrow> 'w sjlj \<Rightarrow> ((uptr, unit) outcome \<times> 'w sjlj) option" where
  "SjLj_Resume_or_Rethrow K s =
     (if private_1 (exc s) = 0 then SjLj_RaiseException K s
      else map_option returned_aborts (SjLj_Resume K s))"

definition sjlj_GetLanguageSpecificData :: "uptr \<Rightarrow> 'w sjlj \<Rightarrow> uptr" where
  "sjlj_GetLanguageSpecificData c s = lsda (ctxs s c)"

text \<open>The array has four parameters; an index outside it is undefined in C and \<open>None\<close> here.\<close>

definition sjlj_GetGR :: "uptr \<Rightarrow> nat \<Rightarrow> 'w sjlj \<Rightarrow> uptr option" where
  "sjlj_GetGR c index s =
     (if index < length (resumeParameters (ctxs s c)) then Some (ucast (resumeParameters (ctxs s c) ! index)) else None)"

definition sjlj_SetGR :: "uptr \<Rightarrow> nat \<Rightarrow> uptr \<Rightarrow> 'w sjlj \<Rightarrow> 'w sjlj option" where
  "sjlj_SetGR c index new_value s =
     (if index < length (resumeParameters (ctxs s c)) then
        Some (s\<lparr>ctxs := (ctxs s)(c := (ctxs s c)\<lparr>resumeParameters := (resumeParameters (ctxs s c))[index := ucast new_value]\<rparr>)\<rparr>)
      else None)"

definition sjlj_GetIP :: "uptr \<Rightarrow> 'w sjlj \<Rightarrow> uptr" where
  "sjlj_GetIP c s = ucast (resumeLocation (ctxs s c) + 1)"

definition sjlj_GetIPInfo :: "uptr \<Rightarrow> 'w sjlj \<Rightarrow> uptr \<times> int" where
  "sjlj_GetIPInfo c s = (ucast (resumeLocation (ctxs s c) + 1), 0)"

definition sjlj_SetIP :: "uptr \<Rightarrow> uptr \<Rightarrow> 'w sjlj \<Rightarrow> 'w sjlj" where
  "sjlj_SetIP c new_value s = s\<lparr>ctxs := (ctxs s)(c := (ctxs s c)\<lparr>resumeLocation := ucast (new_value - 1)\<rparr>)\<rparr>"

definition sjlj_GetRegionStart :: "uptr \<Rightarrow> uptr" where
  "sjlj_GetRegionStart c = 0"

definition sjlj_DeleteException :: "'w callbacks \<Rightarrow> 'w sjlj \<Rightarrow> 'w sjlj" where
  "sjlj_DeleteException K s =
     (if exception_cleanup (exc s) \<noteq> 0
      then call_cleanup K (exception_cleanup (exc s)) FOREIGN_EXCEPTION_CAUGHT s else s)"

definition sjlj_GetCFA :: "uptr \<Rightarrow> 'w sjlj \<Rightarrow> uptr" where
  "sjlj_GetCFA c s = (if c \<noteq> 0 then jbuf (ctxs s c) ! 2 else 0)"

section \<open>The list of contexts\<close>

text \<open>\<open>chain s p cs\<close>: the contexts from \<open>p\<close> outwards are \<open>cs\<close>.\<close>

fun chain :: "(uptr \<Rightarrow> fctx) \<Rightarrow> uptr \<Rightarrow> uptr list \<Rightarrow> bool" where
  "chain m p [] \<longleftrightarrow> p = 0"
| "chain m p (c # cs) \<longleftrightarrow> p = c \<and> c \<noteq> 0 \<and> chain m (prev (m c)) cs"

lemma chain_update: "fc \<notin> set cs \<Longrightarrow> chain (m(fc := x)) p cs = chain m p cs"
  by (induction cs arbitrary: p) auto

lemma chain_fields:
  "(\<And>c. c \<in> set cs \<Longrightarrow> prev (m' c) = prev (m c)) \<Longrightarrow> chain m' p cs = chain m p cs"
  by (induction cs arbitrary: p) auto

lemma chain_unique: "chain m p cs \<Longrightarrow> chain m p cs' \<Longrightarrow> cs = cs'"
proof (induction cs arbitrary: p cs')
  case Nil
  then show ?case by (cases cs') auto
next
  case (Cons c cs)
  then show ?case by (cases cs') auto
qed

text \<open>the contexts form a stack.  Registering a block that is not yet registered puts it on top of the list of
  contexts, unregistering the top block takes it off again, and a register followed by an
  unregister leaves the list as it was.\<close>

theorem register_unregister_stack:
  assumes "chain (ctxs s) (top s) cs" and "fc \<notin> set cs" and "fc \<noteq> 0"
  shows "chain (ctxs (SjLj_Register fc s)) (top (SjLj_Register fc s)) (fc # cs) \<and>
     (let s' = SjLj_Unregister fc (SjLj_Register fc s) in
        top s' = top s \<and> chain (ctxs s') (top s') cs) \<and>
     (cs \<noteq> [] \<longrightarrow> chain (ctxs s) (top (SjLj_Unregister (hd cs) s)) (tl cs))"
  using assms
  by (cases cs) (auto simp: SjLj_Register_def SjLj_Unregister_def SetTopOfFunctionStack_def GetTopOfFunctionStack_def
      Let_def chain_update)

text \<open>what a personality stores in a context is what the landing pad reads: the resume location and each
  of the four parameters come back as the low 32 bits of the value stored, and no other field changes.\<close>

theorem resume_fields_roundtrip:
  assumes "length (resumeParameters (ctxs s c)) = 4"
  shows "sjlj_GetIP c (sjlj_SetIP c v s) = take_bit 32 v \<and>
     (i < 4 \<longrightarrow> (\<exists>s'. sjlj_SetGR c i v s = Some s' \<and> sjlj_GetGR c i s' = Some (take_bit 32 v) \<and>
        (\<forall>j. j \<noteq> i \<longrightarrow> sjlj_GetGR c j s' = sjlj_GetGR c j s) \<and> sjlj_GetIP c s' = sjlj_GetIP c s)) \<and>
     (4 \<le> i \<longrightarrow> sjlj_SetGR c i v s = None)"
proof -
  have low: "ucast (of_nat n :: uptr) = (of_nat n :: 32 word)" for n
    by (simp add: unsigned_of_nat word_of_nat_eq_iff)
  have "(ucast w :: 32 word) + 1 = ucast (w + 1)" for w :: uptr
    using low [of "unat w"] low [of "Suc (unat w)"] by (simp add: add.commute)
  from this [of "v - 1"] have "(ucast (v - 1) :: 32 word) + 1 = ucast v" by simp
  then show ?thesis
    using assms by (auto simp: sjlj_GetIP_def sjlj_SetIP_def sjlj_SetGR_def sjlj_GetGR_def unsigned_ucast_eq)
qed


section \<open>Raising over the list\<close>

text \<open>A callback may set the parameters of contexts and its own world, not the list or the exception object.\<close>

definition same_list :: "'w sjlj \<Rightarrow> 'w sjlj \<Rightarrow> bool" where
  "same_list s s' \<longleftrightarrow> top s' = top s \<and> exc s' = exc s \<and>
     (\<forall>c. prev (ctxs s' c) = prev (ctxs s c) \<and> personality (ctxs s' c) = personality (ctxs s c))"

lemma same_list_trans: "same_list s s' \<Longrightarrow> same_list s' s'' \<Longrightarrow> same_list s s''"
  by (simp add: same_list_def)

lemma same_list_refl [simp]: "same_list s s"
  by (simp add: same_list_def)

definition tells :: "'w callbacks \<Rightarrow> uptr \<Rightarrow> action \<Rightarrow> uptr \<Rightarrow> reason \<Rightarrow> bool" where
  "tells K p a c r \<longleftrightarrow> (\<forall>s. \<exists>s'. call_personality K p a c s = (r, s') \<and> same_list s s')"

definition plays :: "'w callbacks \<Rightarrow> uptr \<Rightarrow> uptr \<Rightarrow> role \<Rightarrow> bool" where
  "plays K p c r \<longleftrightarrow>
     (p = 0 \<longleftrightarrow> r = Plain) \<and>
     (r \<in> {Passing, Cleanup} \<longrightarrow> tells K p UA_SEARCH_PHASE c CONTINUE_UNWIND) \<and>
     (r = Passing \<longrightarrow> tells K p UA_CLEANUP_PHASE c CONTINUE_UNWIND) \<and>
     (r = Cleanup \<longrightarrow> tells K p UA_CLEANUP_PHASE c INSTALL_CONTEXT) \<and>
     (r = Catching \<longrightarrow> tells K p UA_SEARCH_PHASE c HANDLER_FOUND \<and>
        tells K p (UA_CLEANUP_PHASE OR UA_HANDLER_FRAME) c INSTALL_CONTEXT)"

definition list_plays :: "'w callbacks \<Rightarrow> 'w sjlj \<Rightarrow> uptr \<Rightarrow> uptr list \<Rightarrow> (uptr \<Rightarrow> role) \<Rightarrow> bool" where
  "list_plays K s p cs \<rho> \<longleftrightarrow> chain (ctxs s) p cs \<and> (\<forall>c\<in>set cs. plays K (personality (ctxs s c)) c (\<rho> c))"

lemma list_plays_same: "same_list s s' \<Longrightarrow> list_plays K s p cs \<rho> \<Longrightarrow> list_plays K s' p cs \<rho>"
  using chain_fields [of cs "ctxs s'" "ctxs s" p] by (simp add: same_list_def list_plays_def)

lemma sjlj_phase1_spec:
  assumes "list_plays K s p cs \<rho>"
  shows "\<exists>s'. same_list s s' \<and> sjlj_phase1_loop K p s =
     Some (if \<exists>c\<in>set cs. \<rho> c = Catching
           then (NO_REASON, s'\<lparr>exc := (exc s')\<lparr>private_2 := hd (dropWhile (\<lambda>c. \<rho> c \<noteq> Catching) cs)\<rparr>\<rparr>)
           else (END_OF_STACK, s'))"
  using assms
proof (induction cs arbitrary: p s)
  case Nil
  then show ?case by (subst sjlj_phase1_loop.simps) (auto simp: list_plays_def)
next
  case (Cons c cs)
  have c: "p = c" "c \<noteq> 0" "list_plays K s (prev (ctxs s c)) cs \<rho>" "plays K (personality (ctxs s c)) c (\<rho> c)"
    using Cons.prems by (auto simp: list_plays_def)
  consider "\<rho> c = Plain" | "\<rho> c = Catching" | "\<rho> c \<in> {Passing, Cleanup}" by (cases "\<rho> c") auto
  then show ?case
  proof cases
    case 1
    with c have "personality (ctxs s c) = 0" by (simp add: plays_def)
    with Cons.IH [OF c(3)] c 1 show ?thesis
      by (subst sjlj_phase1_loop.simps, cases "\<exists>c\<in>set cs. \<rho> c = Catching") simp_all
  next
    case 2
    with c(4) have "personality (ctxs s c) \<noteq> 0" "tells K (personality (ctxs s c)) UA_SEARCH_PHASE c HANDLER_FOUND"
      by (auto simp: plays_def)
    with c 2 show ?thesis unfolding tells_def by (subst sjlj_phase1_loop.simps) (auto dest!: spec [of _ s])
  next
    case 3
    with c(4) have p: "personality (ctxs s c) \<noteq> 0" "tells K (personality (ctxs s c)) UA_SEARCH_PHASE c CONTINUE_UNWIND"
      by (auto simp: plays_def)
    then obtain s1 where s1: "call_personality K (personality (ctxs s c)) UA_SEARCH_PHASE c s = (CONTINUE_UNWIND, s1)" "same_list s s1"
      unfolding tells_def by blast
    have "prev (ctxs s1 c) = prev (ctxs s c)" using s1(2) by (simp add: same_list_def)
    with Cons.IH [OF list_plays_same [OF s1(2) c(3)]] s1 c p 3 show ?thesis
      by (subst sjlj_phase1_loop.simps, cases "\<exists>c\<in>set cs. \<rho> c = Catching") (auto intro: same_list_trans)
  qed
qed

lemma sjlj_phase2_spec:
  assumes "list_plays K s p cs \<rho>" and "\<exists>c\<in>set cs. \<rho> c = Catching"
    and "private_2 (exc s) = hd (dropWhile (\<lambda>c. \<rho> c \<noteq> Catching) cs)"
  shows "\<exists>s'. same_list s s' \<and> sjlj_phase2_loop K p s =
     Some (Resumed (hd (dropWhile (\<lambda>c. \<rho> c \<in> {Plain, Passing}) cs)) (),
       s'\<lparr>top := hd (dropWhile (\<lambda>c. \<rho> c \<in> {Plain, Passing}) cs)\<rparr>)"
  using assms
proof (induction cs arbitrary: p s)
  case Nil
  then show ?case by simp
next
  case (Cons c cs)
  have c: "p = c" "c \<noteq> 0" "list_plays K s (prev (ctxs s c)) cs \<rho>" "plays K (personality (ctxs s c)) c (\<rho> c)"
    using Cons.prems by (auto simp: list_plays_def)
  have "dropWhile (\<lambda>c. \<rho> c \<noteq> Catching) (c # cs) \<noteq> []"
    using Cons.prems(2) by (auto simp: dropWhile_eq_Nil_conv simp del: dropWhile.simps)
  from hd_dropWhile [OF this] have "\<rho> (private_2 (exc s)) = Catching" unfolding Cons.prems(3) by simp
  then have ne: "\<rho> c \<noteq> Catching \<Longrightarrow> c \<noteq> private_2 (exc s)" by auto
  consider "\<rho> c = Plain" | "\<rho> c = Catching" | "\<rho> c = Passing" | "\<rho> c = Cleanup" by (cases "\<rho> c") auto
  then show ?case
  proof cases
    case 1
    with c have "personality (ctxs s c) = 0" by (simp add: plays_def)
    with Cons.IH [OF c(3)] Cons.prems c 1 show ?thesis by (subst sjlj_phase2_loop.simps) simp
  next
    case 2
    with c(4) have "personality (ctxs s c) \<noteq> 0"
        "tells K (personality (ctxs s c)) (UA_CLEANUP_PHASE OR UA_HANDLER_FRAME) c INSTALL_CONTEXT"
      by (auto simp: plays_def)
    with c 2 Cons.prems(3) show ?thesis unfolding tells_def
      by (subst sjlj_phase2_loop.simps) (auto simp: SetTopOfFunctionStack_def Let_def dest!: spec [of _ s])
  next
    case 3
    with c(4) have p: "personality (ctxs s c) \<noteq> 0" "tells K (personality (ctxs s c)) UA_CLEANUP_PHASE c CONTINUE_UNWIND"
      by (auto simp: plays_def)
    then obtain s1 where s1: "call_personality K (personality (ctxs s c)) UA_CLEANUP_PHASE c s = (CONTINUE_UNWIND, s1)" "same_list s s1"
      unfolding tells_def by blast
    have keep: "prev (ctxs s1 c) = prev (ctxs s c)" "exc s1 = exc s" using s1(2) by (simp_all add: same_list_def)
    have "\<exists>c\<in>set cs. \<rho> c = Catching" "private_2 (exc s1) = hd (dropWhile (\<lambda>c. \<rho> c \<noteq> Catching) cs)"
      using Cons.prems(2,3) 3 keep by auto
    with Cons.IH [OF list_plays_same [OF s1(2) c(3)]] s1 c p 3 ne keep show ?thesis
      by (subst sjlj_phase2_loop.simps) (auto simp: Let_def intro: same_list_trans)
  next
    case 4
    with c(4) have "personality (ctxs s c) \<noteq> 0" "tells K (personality (ctxs s c)) UA_CLEANUP_PHASE c INSTALL_CONTEXT"
      by (auto simp: plays_def)
    with c 4 ne show ?thesis unfolding tells_def
      by (subst sjlj_phase2_loop.simps) (auto simp: SetTopOfFunctionStack_def Let_def dest!: spec [of _ s])
  qed
qed

lemma chain_suffix: "chain m p (ds @ c # cs) \<Longrightarrow> chain m c (c # cs)"
  by (induction ds arbitrary: p) auto

text \<open>C20: \<open>_Unwind_SjLj_RaiseException\<close> implements the two-phase protocol over the list of contexts.  If some
  registered function catches, control goes to the innermost one with a cleanup or the handler, the
  contexts inside it are popped and the handler is recorded for the resume; otherwise the list
  is left as it was and the call returns end of stack.\<close>

theorem sjlj_raise_two_phases:
  assumes "list_plays K s (top s) cs \<rho>"
  shows "\<exists>s'. if \<exists>c\<in>set cs. \<rho> c = Catching
     then SjLj_RaiseException K s = Some (Resumed (hd (dropWhile (\<lambda>c. \<rho> c \<in> {Plain, Passing}) cs)) (), s') \<and>
       chain (ctxs s') (top s') (dropWhile (\<lambda>c. \<rho> c \<in> {Plain, Passing}) cs) \<and>
       private_1 (exc s') = 0 \<and> private_2 (exc s') = hd (dropWhile (\<lambda>c. \<rho> c \<noteq> Catching) cs)
     else SjLj_RaiseException K s = Some (Returned END_OF_STACK, s') \<and> chain (ctxs s') (top s') cs"
proof -
  let ?s = "s\<lparr>exc := (exc s)\<lparr>private_1 := 0, private_2 := 0\<rparr>\<rparr>"
  have lp: "list_plays K ?s (top s) cs \<rho>" using assms by (simp add: list_plays_def)
  from sjlj_phase1_spec [OF this] obtain s1 where s1: "same_list ?s s1" "sjlj_phase1_loop K (top s) ?s =
     Some (if \<exists>c\<in>set cs. \<rho> c = Catching
           then (NO_REASON, s1\<lparr>exc := (exc s1)\<lparr>private_2 := hd (dropWhile (\<lambda>c. \<rho> c \<noteq> Catching) cs)\<rparr>\<rparr>)
           else (END_OF_STACK, s1))" by blast
  show ?thesis
  proof (cases "\<exists>c\<in>set cs. \<rho> c = Catching")
    case True
    let ?s2 = "s1\<lparr>exc := (exc s1)\<lparr>private_2 := hd (dropWhile (\<lambda>c. \<rho> c \<noteq> Catching) cs)\<rparr>\<rparr>"
    let ?l = "dropWhile (\<lambda>c. \<rho> c \<in> {Plain, Passing}) cs"
    have "list_plays K ?s2 (top s) cs \<rho>" using list_plays_same [OF s1(1) lp] by (simp add: list_plays_def)
    from sjlj_phase2_spec [OF this True] obtain s3 where
      s3: "same_list ?s2 s3" "sjlj_phase2_loop K (top s) ?s2 = Some (Resumed (hd ?l) (), s3\<lparr>top := hd ?l\<rparr>)" by auto
    have t: "top s1 = top s" "exc s1 = exc ?s" using s1(1) by (auto simp: same_list_def)
    have "\<forall>c. prev (ctxs s3 c) = prev (ctxs s c)" using s1(1) s3(1) by (simp add: same_list_def)
    then have ch: "chain (ctxs s3) (top s) cs"
      using assms chain_fields [of cs "ctxs s3" "ctxs s"] by (simp add: list_plays_def)
    obtain c where "c \<in> set cs" "\<rho> c = Catching" using True by blast
    then have "\<exists>x\<in>set cs. \<not> \<rho> x \<in> {Plain, Passing}" by (intro bexI [of _ c]) simp_all
    then have "?l \<noteq> []" by (auto simp: dropWhile_eq_Nil_conv)
    then obtain x xs where l: "?l = x # xs" by (cases ?l) auto
    have "cs = takeWhile (\<lambda>c. \<rho> c \<in> {Plain, Passing}) cs @ x # xs" using l by (metis takeWhile_dropWhile_id)
    with ch chain_suffix have "chain (ctxs s3) x (x # xs)" by metis
    then show ?thesis
      using s1(2) s3 True t unfolding l
      by (auto simp: SjLj_RaiseException_def sjlj_phase1_def sjlj_phase2_def GetTopOfFunctionStack_def same_list_def)
  next
    case False
    have "chain (ctxs s1) (top s1) cs"
      using assms s1(1) chain_fields [of cs "ctxs s1" "ctxs s"] by (simp add: list_plays_def same_list_def)
    with False s1 show ?thesis
      by (auto simp: SjLj_RaiseException_def sjlj_phase1_def GetTopOfFunctionStack_def)
  qed
qed


section \<open>Two registered functions\<close>

definition demo_callbacks :: "unit callbacks" where
  "demo_callbacks =
     \<lparr>call_personality = (\<lambda>p a c s.
        (if a = UA_SEARCH_PHASE then (if c = 512 then HANDLER_FOUND else CONTINUE_UNWIND) else INSTALL_CONTEXT, s)),
      call_stop = (\<lambda>f a c v s. (NO_REASON, s)), call_cleanup = (\<lambda>f r s. s)\<rparr>"

definition demo_ctx :: "uptr \<Rightarrow> fctx" where
  "demo_ctx next = \<lparr>prev = next, resumeLocation = 0, resumeParameters = [0, 0, 0, 0], personality = 64, lsda = 0, jbuf = [0, 0, 0]\<rparr>"

definition demo_sjlj :: "unit sjlj" where
  "demo_sjlj = \<lparr>top = 256, ctxs = (\<lambda>c. demo_ctx 0)(256 := demo_ctx 512),
     exc = \<lparr>exception_class = 7, exception_cleanup = 0, private_1 = 0, private_2 = 0\<rparr>, world = ()\<rparr>"

theorem register_unregister_stack_witness:
  "chain (ctxs (SjLj_Register 1024 demo_sjlj)) 1024 [1024, 256, 512] \<and>
   top (SjLj_Unregister 256 demo_sjlj) = 512"
  using register_unregister_stack [of demo_sjlj "[256, 512]" 1024]
  by (simp add: demo_sjlj_def demo_ctx_def SjLj_Register_def SetTopOfFunctionStack_def)

theorem resume_fields_roundtrip_witness:
  "sjlj_GetIP 256 (sjlj_SetIP 256 0x100001234 demo_sjlj) = 0x1234 \<and> sjlj_SetGR 256 4 1 demo_sjlj = None"
  using resume_fields_roundtrip [of demo_sjlj 256 "0x100001234" 2] resume_fields_roundtrip [of demo_sjlj 256 1 4]
  by (simp add: demo_sjlj_def demo_ctx_def)

theorem sjlj_raise_two_phases_witness:
  "\<exists>s'. SjLj_RaiseException demo_callbacks demo_sjlj = Some (Resumed 256 (), s') \<and> chain (ctxs s') (top s') [256, 512] \<and>
     private_2 (exc s') = 512"
proof -
  have "list_plays demo_callbacks demo_sjlj (top demo_sjlj) [256, 512] (\<lambda>c. if c = 512 then Catching else Cleanup)"
    by (auto simp: list_plays_def demo_sjlj_def demo_callbacks_def demo_ctx_def plays_def tells_def action_defs)
  from sjlj_raise_two_phases [OF this] show ?thesis by (simp del: chain.simps) blast
qed

end
