(* ===== verification/UnwindWasm.thy ===== *)
theory UnwindWasm
  imports UnwindTypes
begin

text \<open>
  \<^verbatim>\<open>Unwind-wasm.c\<close>: the virtual machine unwinds, and a landing pad asks the personality
  routine which handler to run.  The two talk through one thread-local record.  The personality
  of C++ is a parameter on that record.
\<close>

record lpad_context =
  lpad_index :: uptr
  lsda :: uptr
  selector :: uptr

text \<open>\<open>_Unwind_CallPersonality\<close>: the selector is reset, then the personality runs.\<close>

definition wasm_CallPersonality ::
    "(action \<Rightarrow> 'x \<Rightarrow> lpad_context \<Rightarrow> reason \<times> lpad_context) \<Rightarrow> 'x \<Rightarrow> lpad_context \<Rightarrow> reason \<times> lpad_context" where
  "wasm_CallPersonality gxx_personality exception_object ctx =
     gxx_personality UA_SEARCH_PHASE exception_object (ctx\<lparr>selector := 0\<rparr>)"

definition wasm_SetGR :: "int \<Rightarrow> uptr \<Rightarrow> lpad_context \<Rightarrow> lpad_context" where
  "wasm_SetGR index v ctx = (if index = 1 then ctx\<lparr>selector := v\<rparr> else ctx)"

definition wasm_GetIP :: "lpad_context \<Rightarrow> uptr" where
  "wasm_GetIP ctx = lpad_index ctx + 2"

definition wasm_SetIP :: "uptr \<Rightarrow> lpad_context \<Rightarrow> lpad_context" where
  "wasm_SetIP v ctx = ctx"

definition wasm_GetLanguageSpecificData :: "lpad_context \<Rightarrow> uptr" where
  "wasm_GetLanguageSpecificData ctx = lsda ctx"

definition wasm_GetRegionStart :: "lpad_context \<Rightarrow> uptr" where
  "wasm_GetRegionStart ctx = 0"

text \<open>\<open>cleanup\<close> is the function stored in the exception object, if any.\<close>

definition wasm_DeleteException :: "(reason \<Rightarrow> 's \<Rightarrow> 's) option \<Rightarrow> 's \<Rightarrow> 's" where
  "wasm_DeleteException cleanup s = (case cleanup of None \<Rightarrow> s | Some f \<Rightarrow> f FOREIGN_EXCEPTION_CAUGHT s)"

text \<open>
  A personality built from these operations only: it reads the landing pad index and the
  language data and sets registers.
\<close>

datatype lpad_request = Set_GR int uptr | Set_IP uptr

fun serve :: "lpad_request list \<Rightarrow> lpad_context \<Rightarrow> lpad_context" where
  "serve [] ctx = ctx"
| "serve (Set_GR i v # rs) ctx = serve rs (wasm_SetGR i v ctx)"
| "serve (Set_IP v # rs) ctx = serve rs (wasm_SetIP v ctx)"

definition answering :: "(uptr \<Rightarrow> uptr \<Rightarrow> reason \<times> lpad_request list) \<Rightarrow> action \<Rightarrow> 'x \<Rightarrow> lpad_context \<Rightarrow> reason \<times> lpad_context" where
  "answering ask a x ctx =
     (let (r, rs) = ask (wasm_GetIP ctx) (wasm_GetLanguageSpecificData ctx) in (r, serve rs ctx))"

fun last_selector :: "lpad_request list \<Rightarrow> uptr \<Rightarrow> uptr" where
  "last_selector [] v = v"
| "last_selector (Set_GR i w # rs) v = last_selector rs (if i = 1 then w else v)"
| "last_selector (Set_IP w # rs) v = last_selector rs v"

lemma serve_fields:
  "lpad_index (serve rs ctx) = lpad_index ctx \<and> lsda (serve rs ctx) = lsda ctx \<and>
   selector (serve rs ctx) = last_selector rs (selector ctx)"
  by (induction rs ctx rule: serve.induct) (auto simp: wasm_SetGR_def wasm_SetIP_def)

text \<open>the landing pad hears exactly what this call of the personality answered.  The selector it reads afterwards is
  the last value this personality stored for register 1, or 0 when it stored none, never one left
  over from an earlier exception; the inputs of the record are unchanged.\<close>

theorem wasm_selector_fresh:
  "let (r, ctx') = wasm_CallPersonality (answering ask) x ctx in
     r = fst (ask (lpad_index ctx + 2) (lsda ctx)) \<and>
     selector ctx' = last_selector (snd (ask (lpad_index ctx + 2) (lsda ctx))) 0 \<and>
     lpad_index ctx' = lpad_index ctx \<and> lsda ctx' = lsda ctx"
  using serve_fields [of "snd (ask (lpad_index ctx + 2) (lsda ctx))" "ctx\<lparr>selector := 0\<rparr>"]
  by (simp add: wasm_CallPersonality_def answering_def wasm_GetIP_def wasm_GetLanguageSpecificData_def case_prod_unfold Let_def)

end
