(* ===== verification/UnwindLevel1.thy ===== *)
theory UnwindLevel1
  imports UnwindTypes
begin

text \<open>
  Itanium two-phase unwinding of \<^verbatim>\<open>UnwindLevel1.c\<close> and the entry points of
  \<^verbatim>\<open>UnwindLevel1-gcc-ext.c\<close> that use it.  The cursor operations of \<^verbatim>\<open>libunwind.cpp\<close> (C++), the
  personality routines, the stop functions and callbacks are the fields of the record \<open>env\<close>,
  a parameter of every definition.  The program state holds the exception object, the
  state \<open>world\<close> of the code called back, and a ghost trace of these calls.
\<close>

unbundle bit_operations_syntax

section \<open>The interface\<close>

record proc_info =
  start_ip :: uptr
  lsda :: uptr
  handler :: uptr
  unwind_info :: uptr
  extra :: uptr

definition UNW_REG_IP :: int where "UNW_REG_IP = -1"
definition UNW_REG_SP :: int where "UNW_REG_SP = -2"

text \<open>
  \<open>shadow\<close> is the shadow stack of the builds that have one and where it is enabled: the return
  address at \<open>shadowStackTop + __shstk_step_size * n\<close>.  \<open>resumes\<close> tells whether
  \<open>__unw_phase2_resume\<close> transfers control.
\<close>

record ('u, 'c, 'w) env =
  init_local :: "'u \<Rightarrow> 'c"
  step :: "'c \<Rightarrow> int \<times> 'c"
  step_stage2 :: "'c \<Rightarrow> int \<times> 'c"
  get_proc_info :: "'c \<Rightarrow> proc_info option"
  get_reg :: "'c \<Rightarrow> int \<Rightarrow> uptr"
  set_reg :: "'c \<Rightarrow> int \<Rightarrow> uptr \<Rightarrow> 'c"
  is_signal_frame :: "'c \<Rightarrow> int"
  resumes :: "'c \<Rightarrow> 32 word \<Rightarrow> bool"
  shadow :: "(32 word \<Rightarrow> uptr) option"
  personality :: "uptr \<Rightarrow> action \<Rightarrow> exc \<Rightarrow> 'c \<Rightarrow> 'w \<Rightarrow> reason \<times> exc \<times> 'c \<times> 'w"
  stop_fn :: "uptr \<Rightarrow> action \<Rightarrow> exc \<Rightarrow> 'c \<Rightarrow> uptr \<Rightarrow> 'w \<Rightarrow> reason \<times> exc \<times> 'c \<times> 'w"
  cleanup_fn :: "uptr \<Rightarrow> reason \<Rightarrow> exc \<Rightarrow> 'w \<Rightarrow> exc \<times> 'w"
  trace_fn :: "uptr \<Rightarrow> 'c \<Rightarrow> uptr \<Rightarrow> 'w \<Rightarrow> reason \<times> 'c \<times> 'w"

text \<open>A call of a personality routine or a stop function, with the stack pointer of its frame.\<close>

datatype event = Personality_called action uptr | Stop_called action uptr

record 'w st =
  exc :: exc
  world :: 'w
  trace :: "event list"

definition call_personality ::
    "('u, 'c, 'w) env \<Rightarrow> uptr \<Rightarrow> action \<Rightarrow> 'c \<Rightarrow> 'w st \<Rightarrow> reason \<times> 'c \<times> 'w st" where
  "call_personality E p a c s =
     (let (r, x, c', w) = personality E p a (exc s) c (world s)
      in (r, c', s\<lparr>exc := x, world := w, trace := trace s @ [Personality_called a (get_reg E c UNW_REG_SP)]\<rparr>))"

definition call_stop ::
    "('u, 'c, 'w) env \<Rightarrow> uptr \<Rightarrow> action \<Rightarrow> 'c \<Rightarrow> uptr \<Rightarrow> 'w st \<Rightarrow> reason \<times> 'c \<times> 'w st" where
  "call_stop E f a c param s =
     (let (r, x, c', w) = stop_fn E f a (exc s) c param (world s)
      in (r, c', s\<lparr>exc := x, world := w, trace := trace s @ [Stop_called a (get_reg E c UNW_REG_SP)]\<rparr>))"

section \<open>The search phase\<close>

partial_function (option) phase1_loop ::
    "('u, 'c, 'w) env \<Rightarrow> 'c \<Rightarrow> 'w st \<Rightarrow> (reason \<times> 'w st) option" where
  "phase1_loop E c s =
     (let (stepResult, c) = step E c in
      if stepResult = 0 then Some (END_OF_STACK, s)
      else if stepResult < 0 then Some (FATAL_PHASE1_ERROR, s)
      else
        case get_proc_info E c of
          None \<Rightarrow> Some (FATAL_PHASE1_ERROR, s)
        | Some frameInfo \<Rightarrow>
            if handler frameInfo \<noteq> 0 then
              let (personalityResult, c, s) = call_personality E (handler frameInfo) UA_SEARCH_PHASE c s in
              if personalityResult = HANDLER_FOUND then
                Some (NO_REASON, s\<lparr>exc := (exc s)\<lparr>private_2 := get_reg E c UNW_REG_SP\<rparr>\<rparr>)
              else if personalityResult = CONTINUE_UNWIND then phase1_loop E c s
              else Some (FATAL_PHASE1_ERROR, s)
            else phase1_loop E c s)"

definition unwind_phase1 :: "('u, 'c, 'w) env \<Rightarrow> 'u \<Rightarrow> 'w st \<Rightarrow> (reason \<times> 'w st) option" where
  "unwind_phase1 E uc s = phase1_loop E (init_local E uc) s"

section \<open>The cleanup phase\<close>

text \<open>The check of the shadow stack against the return address of the frame.\<close>

definition shadow_mismatch :: "('u, 'c, 'w) env \<Rightarrow> 'c \<Rightarrow> 32 word \<Rightarrow> bool" where
  "shadow_mismatch E c framesWalked =
     (case shadow E of None \<Rightarrow> False | Some ret \<Rightarrow> get_reg E c UNW_REG_IP \<noteq> ret framesWalked)"

partial_function (option) phase2_loop ::
    "('u, 'c, 'w) env \<Rightarrow> 'c \<Rightarrow> 32 word \<Rightarrow> 'w st \<Rightarrow> (('c, 32 word) outcome \<times> 'w st) option" where
  "phase2_loop E c framesWalked s =
     (let (stepResult, c) = step_stage2 E c in
      if stepResult = 0 then Some (Returned END_OF_STACK, s)
      else if stepResult < 0 then Some (Returned FATAL_PHASE2_ERROR, s)
      else
        let sp = get_reg E c UNW_REG_SP in
        case get_proc_info E c of
          None \<Rightarrow> Some (Returned FATAL_PHASE2_ERROR, s)
        | Some frameInfo \<Rightarrow>
            if shadow_mismatch E c framesWalked then Some (Returned FATAL_PHASE2_ERROR, s)
            else
              let framesWalked = framesWalked + 1 in
              if handler frameInfo \<noteq> 0 then
                let action = (if sp = private_2 (exc s) then UA_CLEANUP_PHASE OR UA_HANDLER_FRAME
                              else UA_CLEANUP_PHASE);
                    (personalityResult, c, s) = call_personality E (handler frameInfo) action c s in
                if personalityResult = CONTINUE_UNWIND then
                  if sp = private_2 (exc s) then Some (Aborted, s)
                  else phase2_loop E c framesWalked s
                else if personalityResult = INSTALL_CONTEXT then
                  if resumes E c framesWalked then Some (Resumed c framesWalked, s)
                  else Some (Returned FATAL_PHASE2_ERROR, s)
                else Some (Returned FATAL_PHASE2_ERROR, s)
              else phase2_loop E c framesWalked s)"

definition unwind_phase2 ::
    "('u, 'c, 'w) env \<Rightarrow> 'u \<Rightarrow> 'w st \<Rightarrow> (('c, 32 word) outcome \<times> 'w st) option" where
  "unwind_phase2 E uc s = phase2_loop E (init_local E uc) 1 s"

section \<open>Forced unwinding\<close>

definition forced_end ::
    "('u, 'c, 'w) env \<Rightarrow> uptr \<Rightarrow> uptr \<Rightarrow> 'c \<Rightarrow> 'w st \<Rightarrow> ('c, 32 word) outcome \<times> 'w st" where
  "forced_end E stop stop_parameter c s =
     (let lastAction = UA_FORCE_UNWIND OR UA_CLEANUP_PHASE OR UA_END_OF_STACK;
          (_, c, s) = call_stop E stop lastAction c stop_parameter s
      in (Returned FATAL_PHASE2_ERROR, s))"

partial_function (option) forced_loop ::
    "('u, 'c, 'w) env \<Rightarrow> uptr \<Rightarrow> uptr \<Rightarrow> 'c \<Rightarrow> 32 word \<Rightarrow> 'w st \<Rightarrow>
     (('c, 32 word) outcome \<times> 'w st) option" where
  "forced_loop E stop stop_parameter c framesWalked s =
     (let (stepResult, c) = step_stage2 E c in
      if stepResult > 0 then
        case get_proc_info E c of
          None \<Rightarrow> Some (Returned FATAL_PHASE2_ERROR, s)
        | Some frameInfo \<Rightarrow>
            let action = UA_FORCE_UNWIND OR UA_CLEANUP_PHASE;
                (stopResult, c, s) = call_stop E stop action c stop_parameter s in
            if stopResult \<noteq> NO_REASON then Some (Returned FATAL_PHASE2_ERROR, s)
            else
              let framesWalked = framesWalked + 1 in
              if handler frameInfo \<noteq> 0 then
                let (personalityResult, c, s) = call_personality E (handler frameInfo) action c s in
                if personalityResult = CONTINUE_UNWIND then forced_loop E stop stop_parameter c framesWalked s
                else if personalityResult = INSTALL_CONTEXT then
                  if resumes E c framesWalked then Some (Resumed c framesWalked, s)
                  else forced_loop E stop stop_parameter c framesWalked s
                else Some (Returned FATAL_PHASE2_ERROR, s)
              else forced_loop E stop stop_parameter c framesWalked s
      else Some (forced_end E stop stop_parameter c s))"

definition unwind_phase2_forced ::
    "('u, 'c, 'w) env \<Rightarrow> 'u \<Rightarrow> uptr \<Rightarrow> uptr \<Rightarrow> 'w st \<Rightarrow> (('c, 32 word) outcome \<times> 'w st) option" where
  "unwind_phase2_forced E uc stop stop_parameter s =
     forced_loop E stop stop_parameter (init_local E uc) 1 s"

section \<open>The entry points\<close>

definition Unwind_RaiseException ::
    "('u, 'c, 'w) env \<Rightarrow> 'u \<Rightarrow> 'w st \<Rightarrow> (('c, 32 word) outcome \<times> 'w st) option" where
  "Unwind_RaiseException E uc s =
     (let s = s\<lparr>exc := (exc s)\<lparr>private_1 := 0, private_2 := 0\<rparr>\<rparr> in
      case unwind_phase1 E uc s of
        None \<Rightarrow> None
      | Some (phase1, s) \<Rightarrow>
          if phase1 \<noteq> NO_REASON then Some (Returned phase1, s) else unwind_phase2 E uc s)"

text \<open>After its phase returns, \<open>_Unwind_Resume\<close> aborts.\<close>

definition abort_on_return :: "('c, 'n) outcome \<times> 's \<Rightarrow> ('c, 'n) outcome \<times> 's" where
  "abort_on_return r = (case r of (Returned _, s) \<Rightarrow> (Aborted, s) | r \<Rightarrow> r)"

definition Unwind_Resume ::
    "('u, 'c, 'w) env \<Rightarrow> 'u \<Rightarrow> 'w st \<Rightarrow> (('c, 32 word) outcome \<times> 'w st) option" where
  "Unwind_Resume E uc s =
     map_option abort_on_return
       (if private_1 (exc s) \<noteq> 0
        then unwind_phase2_forced E uc (private_1 (exc s)) (private_2 (exc s)) s
        else unwind_phase2 E uc s)"

definition Unwind_ForcedUnwind ::
    "('u, 'c, 'w) env \<Rightarrow> 'u \<Rightarrow> uptr \<Rightarrow> uptr \<Rightarrow> 'w st \<Rightarrow> (('c, 32 word) outcome \<times> 'w st) option" where
  "Unwind_ForcedUnwind E uc stop stop_parameter s =
     unwind_phase2_forced E uc stop stop_parameter
       (s\<lparr>exc := (exc s)\<lparr>private_1 := stop, private_2 := stop_parameter\<rparr>\<rparr>)"

definition Unwind_Resume_or_Rethrow ::
    "('u, 'c, 'w) env \<Rightarrow> 'u \<Rightarrow> 'w st \<Rightarrow> (('c, 32 word) outcome \<times> 'w st) option" where
  "Unwind_Resume_or_Rethrow E uc s =
     (if private_1 (exc s) = 0 then Unwind_RaiseException E uc s
      else map_option abort_on_return (Unwind_Resume E uc s))"

definition Unwind_GetLanguageSpecificData :: "('u, 'c, 'w) env \<Rightarrow> 'c \<Rightarrow> uptr" where
  "Unwind_GetLanguageSpecificData E c = (case get_proc_info E c of None \<Rightarrow> 0 | Some fi \<Rightarrow> lsda fi)"

definition Unwind_GetRegionStart :: "('u, 'c, 'w) env \<Rightarrow> 'c \<Rightarrow> uptr" where
  "Unwind_GetRegionStart E c = (case get_proc_info E c of None \<Rightarrow> 0 | Some fi \<Rightarrow> start_ip fi)"

definition Unwind_DeleteException :: "('u, 'c, 'w) env \<Rightarrow> 'w st \<Rightarrow> 'w st" where
  "Unwind_DeleteException E s =
     (if exception_cleanup (exc s) \<noteq> 0
      then let (x, w) = cleanup_fn E (exception_cleanup (exc s)) FOREIGN_EXCEPTION_CAUGHT (exc s) (world s)
           in s\<lparr>exc := x, world := w\<rparr>
      else s)"

definition Unwind_GetGR :: "('u, 'c, 'w) env \<Rightarrow> 'c \<Rightarrow> int \<Rightarrow> uptr" where
  "Unwind_GetGR E c index = get_reg E c index"

definition Unwind_SetGR :: "('u, 'c, 'w) env \<Rightarrow> 'c \<Rightarrow> int \<Rightarrow> uptr \<Rightarrow> 'c" where
  "Unwind_SetGR E c index v = set_reg E c index v"

definition Unwind_GetIP :: "('u, 'c, 'w) env \<Rightarrow> 'c \<Rightarrow> uptr" where
  "Unwind_GetIP E c = get_reg E c UNW_REG_IP"

definition Unwind_SetIP :: "('u, 'c, 'w) env \<Rightarrow> 'c \<Rightarrow> uptr \<Rightarrow> 'c" where
  "Unwind_SetIP E c v = set_reg E c UNW_REG_IP v"

definition Unwind_FindEnclosingFunction :: "('u, 'c, 'w) env \<Rightarrow> 'u \<Rightarrow> uptr \<Rightarrow> uptr" where
  "Unwind_FindEnclosingFunction E uc pc =
     (case get_proc_info E (set_reg E (init_local E uc) UNW_REG_IP pc) of
        None \<Rightarrow> 0 | Some fi \<Rightarrow> start_ip fi)"

text \<open>\<open>_Unwind_GetCFA\<close>, and \<open>_Unwind_GetIPInfo\<close> with \<open>*ipBefore\<close> as second component.\<close>

definition Unwind_GetCFA :: "('u, 'c, 'w) env \<Rightarrow> 'c \<Rightarrow> uptr" where
  "Unwind_GetCFA E c = get_reg E c UNW_REG_SP"

definition Unwind_GetIPInfo :: "('u, 'c, 'w) env \<Rightarrow> 'c \<Rightarrow> uptr \<times> int" where
  "Unwind_GetIPInfo E c = (Unwind_GetIP E c, if is_signal_frame E c \<le> 0 then 0 else 1)"

partial_function (option) backtrace_loop ::
    "('u, 'c, 'w) env \<Rightarrow> uptr \<Rightarrow> uptr \<Rightarrow> 'c \<Rightarrow> 'w \<Rightarrow> (reason \<times> 'w) option" where
  "backtrace_loop E callback ref c w =
     (let (stepResult, c) = step E c in
      if stepResult \<le> 0 then Some (END_OF_STACK, w)
      else
        let (result, c, w) = trace_fn E callback c ref w in
        if result \<noteq> NO_REASON then Some (result, w)
        else backtrace_loop E callback ref c w)"

definition Unwind_Backtrace ::
    "('u, 'c, 'w) env \<Rightarrow> 'u \<Rightarrow> uptr \<Rightarrow> uptr \<Rightarrow> 'w \<Rightarrow> (reason \<times> 'w) option" where
  "Unwind_Backtrace E uc callback ref w = backtrace_loop E callback ref (init_local E uc) w"


text \<open>\<open>_Unwind_Find_FDE\<close> with the fields of \<open>*bases\<close>: the unwind info, \<open>tbase\<close>, \<open>dbase\<close>, \<open>func\<close>; \<open>None\<close> when
  the cursor has no info, where the code reads what \<open>__unw_get_proc_info\<close> left in its local.\<close>

definition Unwind_Find_FDE :: "('u, 'c, 'w) env \<Rightarrow> 'u \<Rightarrow> uptr \<Rightarrow> (uptr \<times> uptr \<times> uptr \<times> uptr) option" where
  "Unwind_Find_FDE E uc pc =
     map_option (\<lambda>fi. (unwind_info fi, extra fi, 0, start_ip fi))
       (get_proc_info E (set_reg E (init_local E uc) UNW_REG_IP pc))"

definition Unwind_GetDataRelBase :: "'c \<Rightarrow> ('c, 32 word) outcome" where
  "Unwind_GetDataRelBase c = Aborted"

definition Unwind_GetTextRelBase :: "'c \<Rightarrow> ('c, 32 word) outcome" where
  "Unwind_GetTextRelBase c = Aborted"

section \<open>Termination\<close>

text \<open>
  The stack is finite: \<open>depth\<close> bounds the frames above a cursor, stepping to a frame lowers it,
  and the code called back, which may set registers of the cursor, does not raise it.
\<close>

definition finite_stack :: "('u, 'c, 'w) env \<Rightarrow> ('c \<Rightarrow> nat) \<Rightarrow> bool" where
  "finite_stack E depth \<longleftrightarrow>
     (\<forall>c. fst (step E c) > 0 \<longrightarrow> depth (snd (step E c)) < depth c) \<and>
     (\<forall>c. fst (step_stage2 E c) > 0 \<longrightarrow> depth (snd (step_stage2 E c)) < depth c) \<and>
     (\<forall>p a x c w. depth (fst (snd (snd (personality E p a x c w)))) \<le> depth c) \<and>
     (\<forall>f a x c v w. depth (fst (snd (snd (stop_fn E f a x c v w)))) \<le> depth c) \<and>
     (\<forall>f c v w. depth (fst (snd (trace_fn E f c v w))) \<le> depth c)"

lemma finite_stackD:
  assumes "finite_stack E depth"
  shows "step E c = (r, c') \<Longrightarrow> 0 < r \<Longrightarrow> depth c' < depth c"
    and "step_stage2 E c = (r, c') \<Longrightarrow> 0 < r \<Longrightarrow> depth c' < depth c"
    and "call_personality E p a c s = (pr, c', s') \<Longrightarrow> depth c' \<le> depth c"
    and "call_stop E f a c v s = (pr, c', s') \<Longrightarrow> depth c' \<le> depth c"
    and "trace_fn E f c v w = (pr, c', w') \<Longrightarrow> depth c' \<le> depth c"
  using assms unfolding finite_stack_def call_personality_def call_stop_def
  by (auto simp: Let_def split: prod.splits) (metis fst_conv snd_conv)+

lemma phase1_returns: "finite_stack E depth \<Longrightarrow> \<exists>r t. phase1_loop E c s = Some (r, t)"
proof (induction "depth c" arbitrary: c s rule: less_induct)
  case less
  note fin = finite_stackD [OF less.prems]
  show ?case
    by (subst phase1_loop.simps)
      (auto simp: Let_def split: prod.splits option.splits
        intro!: less.hyps [OF _ less.prems] dest!: fin(1,3))
qed

lemma phase2_returns: "finite_stack E depth \<Longrightarrow> \<exists>r t. phase2_loop E c n s = Some (r, t)"
proof (induction "depth c" arbitrary: c n s rule: less_induct)
  case less
  note fin = finite_stackD [OF less.prems]
  show ?case
    by (subst phase2_loop.simps)
      (auto simp: Let_def split: prod.splits option.splits
        intro!: less.hyps [OF _ less.prems] dest!: fin(2,3))
qed

lemma forced_returns: "finite_stack E depth \<Longrightarrow> \<exists>r t. forced_loop E f v c n s = Some (r, t)"
proof (induction "depth c" arbitrary: c n s rule: less_induct)
  case less
  note fin = finite_stackD [OF less.prems]
  show ?case
    by (subst forced_loop.simps)
      (auto simp: Let_def forced_end_def split: prod.splits option.splits
        intro!: less.hyps [OF _ less.prems] dest!: fin(2,3,4))
qed

lemma backtrace_returns: "finite_stack E depth \<Longrightarrow> \<exists>r t. backtrace_loop E f v c w = Some (r, t)"
proof (induction "depth c" arbitrary: c w rule: less_induct)
  case less
  note fin = finite_stackD [OF less.prems]
  show ?case
    by (subst backtrace_loop.simps)
      (auto simp: Let_def split: prod.splits option.splits
        intro!: less.hyps [OF _ less.prems] dest!: fin(1,5))
qed

end
