(* ===== verification/UnwindSpec.thy ===== *)
theory UnwindSpec
  imports UnwindLevel1
begin

text \<open>
  What two-phase unwinding promises.  A stack is described by its frames from the innermost
  one out, each with the part it plays; \<open>stack\<close> says that the cursor operations and the
  personality routines of an \<open>env\<close> present such a stack and follow the documented protocol.
  Raising, resuming and forced unwinding are refined to functions of the list of frames.
\<close>

unbundle bit_operations_syntax

section \<open>The abstract stack\<close>

record 'c frame =
  cursor_of :: 'c
  landing :: 'c
  role :: role

definition sp_of :: "('u, 'c, 'w) env \<Rightarrow> 'c frame \<Rightarrow> uptr" where
  "sp_of E f = get_reg E (cursor_of f) UNW_REG_SP"

text \<open>A personality answers \<open>r\<close> with cursor \<open>c'\<close> and leaves the exception object alone.\<close>

definition answers ::
    "('u, 'c, 'w) env \<Rightarrow> uptr \<Rightarrow> action \<Rightarrow> 'c \<Rightarrow> reason \<Rightarrow> 'c \<Rightarrow> bool" where
  "answers E p a c r c' \<longleftrightarrow> (\<forall>x w. \<exists>w'. personality E p a x c w = (r, x, c', w'))"

definition obeys :: "('u, 'c, 'w) env \<Rightarrow> 'c frame \<Rightarrow> bool" where
  "obeys E f \<longleftrightarrow>
     (\<exists>fi. get_proc_info E (cursor_of f) = Some fi \<and> (handler fi = 0 \<longleftrightarrow> role f = Plain) \<and>
       (role f \<in> {Passing, Cleanup} \<longrightarrow>
          answers E (handler fi) UA_SEARCH_PHASE (cursor_of f) CONTINUE_UNWIND (cursor_of f)) \<and>
       (role f = Passing \<longrightarrow>
          answers E (handler fi) UA_CLEANUP_PHASE (cursor_of f) CONTINUE_UNWIND (cursor_of f)) \<and>
       (role f = Cleanup \<longrightarrow>
          answers E (handler fi) UA_CLEANUP_PHASE (cursor_of f) INSTALL_CONTEXT (landing f)) \<and>
       (role f = Catching \<longrightarrow>
          answers E (handler fi) UA_SEARCH_PHASE (cursor_of f) HANDLER_FOUND (cursor_of f) \<and>
          answers E (handler fi) (UA_CLEANUP_PHASE OR UA_HANDLER_FRAME) (cursor_of f) INSTALL_CONTEXT (landing f)))"

fun stack :: "('u, 'c, 'w) env \<Rightarrow> 'c \<Rightarrow> 'c frame list \<Rightarrow> bool" where
  "stack E c [] \<longleftrightarrow> fst (step E c) = 0 \<and> fst (step_stage2 E c) = 0"
| "stack E c (f # fs) \<longleftrightarrow>
     fst (step E c) > 0 \<and> snd (step E c) = cursor_of f \<and>
     fst (step_stage2 E c) > 0 \<and> snd (step_stage2 E c) = cursor_of f \<and>
     obeys E f \<and> stack E (cursor_of f) fs"

abbreviation visible :: "'c frame list \<Rightarrow> 'c frame list" where
  "visible fs \<equiv> filter (\<lambda>f. role f \<noteq> Plain) fs"

definition calls :: "('u, 'c, 'w) env \<Rightarrow> action \<Rightarrow> 'c frame list \<Rightarrow> event list" where
  "calls E a fs = map (\<lambda>f. Personality_called a (sp_of E f)) (visible fs)"

lemma calls_simps [simp]:
  "calls E a [] = []"
  "calls E a (f # fs) = (if role f = Plain then [] else [Personality_called a (sp_of E f)]) @ calls E a fs"
  by (simp_all add: calls_def)

lemma call_answer:
  assumes "answers E p a c r c'"
  shows "\<exists>w. call_personality E p a c s
    = (r, c', s\<lparr>world := w, trace := trace s @ [Personality_called a (get_reg E c UNW_REG_SP)]\<rparr>)"
proof -
  obtain w where "personality E p a (exc s) c (world s) = (r, exc s, c', w)"
    using assms unfolding answers_def by blast
  then show ?thesis by (cases s) (auto simp: call_personality_def)
qed

text \<open>The state after the calls \<open>t\<close>: only the world and the trace have changed.\<close>

definition after :: "'w st \<Rightarrow> event list \<Rightarrow> 'w st \<Rightarrow> bool" where
  "after s t s' \<longleftrightarrow> exc s' = exc s \<and> trace s' = trace s @ t"

lemma after_refl [simp]: "after s [] s"
  by (simp add: after_def)

lemma after_trans: "after s t s' \<Longrightarrow> after s' t' s'' \<Longrightarrow> after s (t @ t') s''"
  by (simp add: after_def)

lemma call_after:
  "answers E p a c r c' \<Longrightarrow>
   \<exists>s'. call_personality E p a c s = (r, c', s') \<and> after s [Personality_called a (get_reg E c UNW_REG_SP)] s'"
  using call_answer [of E p a c r c' s] by (auto simp: after_def)

lemma stack_steps:
  assumes "stack E c (f # fs)"
  obtains r fi where "step E c = (r, cursor_of f)" "0 < r"
    "get_proc_info E (cursor_of f) = Some fi" "handler fi = 0 \<longleftrightarrow> role f = Plain"
    "role f \<in> {Passing, Cleanup} \<Longrightarrow> answers E (handler fi) UA_SEARCH_PHASE (cursor_of f) CONTINUE_UNWIND (cursor_of f)"
    "role f = Passing \<Longrightarrow> answers E (handler fi) UA_CLEANUP_PHASE (cursor_of f) CONTINUE_UNWIND (cursor_of f)"
    "role f = Cleanup \<Longrightarrow> answers E (handler fi) UA_CLEANUP_PHASE (cursor_of f) INSTALL_CONTEXT (landing f)"
    "role f = Catching \<Longrightarrow> answers E (handler fi) UA_SEARCH_PHASE (cursor_of f) HANDLER_FOUND (cursor_of f)"
    "role f = Catching \<Longrightarrow>
       answers E (handler fi) (UA_CLEANUP_PHASE OR UA_HANDLER_FRAME) (cursor_of f) INSTALL_CONTEXT (landing f)"
  using assms by (cases "step E c") (auto simp: obeys_def)

lemma stack_steps2:
  assumes "stack E c (f # fs)"
  obtains r fi where "step_stage2 E c = (r, cursor_of f)" "0 < r"
    "get_proc_info E (cursor_of f) = Some fi" "handler fi = 0 \<longleftrightarrow> role f = Plain"
    "role f \<in> {Passing, Cleanup} \<Longrightarrow> answers E (handler fi) UA_SEARCH_PHASE (cursor_of f) CONTINUE_UNWIND (cursor_of f)"
    "role f = Passing \<Longrightarrow> answers E (handler fi) UA_CLEANUP_PHASE (cursor_of f) CONTINUE_UNWIND (cursor_of f)"
    "role f = Cleanup \<Longrightarrow> answers E (handler fi) UA_CLEANUP_PHASE (cursor_of f) INSTALL_CONTEXT (landing f)"
    "role f = Catching \<Longrightarrow> answers E (handler fi) UA_SEARCH_PHASE (cursor_of f) HANDLER_FOUND (cursor_of f)"
    "role f = Catching \<Longrightarrow>
       answers E (handler fi) (UA_CLEANUP_PHASE OR UA_HANDLER_FRAME) (cursor_of f) INSTALL_CONTEXT (landing f)"
  using assms by (cases "step_stage2 E c") (auto simp: obeys_def)

section \<open>The search phase\<close>

text \<open>The search passes over the frames that do not catch, calling their personality routines.\<close>

lemma phase1_pass:
  assumes "stack E c (pre @ fs)" "\<forall>f\<in>set pre. role f \<noteq> Catching"
  shows "\<exists>c' s'. stack E c' fs \<and> after s (calls E UA_SEARCH_PHASE pre) s' \<and> phase1_loop E c s = phase1_loop E c' s'"
  using assms
proof (induction pre arbitrary: c s)
  case Nil
  then show ?case by (auto intro!: exI [of _ c] exI [of _ s])
next
  case (Cons f pre)
  obtain r fi where f: "step E c = (r, cursor_of f)" "0 < r" "get_proc_info E (cursor_of f) = Some fi"
      "handler fi = 0 \<longleftrightarrow> role f = Plain"
      "role f \<in> {Passing, Cleanup} \<Longrightarrow> answers E (handler fi) UA_SEARCH_PHASE (cursor_of f) CONTINUE_UNWIND (cursor_of f)"
    by (rule stack_steps [OF Cons.prems(1) [unfolded append_Cons]], rule that) simp_all
  have rest: "stack E (cursor_of f) (pre @ fs)" "\<forall>f\<in>set pre. role f \<noteq> Catching" using Cons.prems by auto
  show ?case
  proof (cases "role f = Plain")
    case True
    then show ?thesis using Cons.IH [OF rest, of s] f by (subst phase1_loop.simps) (simp add: Let_def)
  next
    case False
    then have "role f \<in> {Passing, Cleanup}" using Cons.prems(2) by (cases "role f") auto
    then obtain s1 where s1: "call_personality E (handler fi) UA_SEARCH_PHASE (cursor_of f) s = (CONTINUE_UNWIND, cursor_of f, s1)"
        "after s [Personality_called UA_SEARCH_PHASE (sp_of E f)] s1"
      using call_after [OF f(5)] unfolding sp_of_def by blast
    then have "phase1_loop E c s = phase1_loop E (cursor_of f) s1"
      using f False by (subst phase1_loop.simps) (simp add: Let_def)
    then show ?thesis using Cons.IH [OF rest, of s1] after_trans [OF s1(2)] False by fastforce
  qed
qed

lemma phase1_end: "stack E c [] \<Longrightarrow> phase1_loop E c s = Some (END_OF_STACK, s)"
  by (cases "step E c", subst phase1_loop.simps) simp

lemma phase1_handler:
  assumes "stack E c (h # fs)" "role h = Catching"
  shows "\<exists>s'. phase1_loop E c s = Some (NO_REASON, s') \<and> exc s' = (exc s)\<lparr>private_2 := sp_of E h\<rparr> \<and>
     trace s' = trace s @ [Personality_called UA_SEARCH_PHASE (sp_of E h)]"
proof -
  obtain r fi where f: "step E c = (r, cursor_of h)" "0 < r" "get_proc_info E (cursor_of h) = Some fi"
      "handler fi \<noteq> 0" "answers E (handler fi) UA_SEARCH_PHASE (cursor_of h) HANDLER_FOUND (cursor_of h)"
    by (rule stack_steps [OF assms(1)], rule that) (simp_all add: assms(2))
  obtain s1 where "call_personality E (handler fi) UA_SEARCH_PHASE (cursor_of h) s = (HANDLER_FOUND, cursor_of h, s1)"
      "after s [Personality_called UA_SEARCH_PHASE (sp_of E h)] s1"
    using call_after [OF f(5)] unfolding sp_of_def by blast
  then show ?thesis using f by (subst phase1_loop.simps) (simp add: Let_def after_def sp_of_def)
qed

section \<open>The cleanup phase\<close>

text \<open>
  Cursors resume, and the shadow stack, if there is one, holds the return addresses of the
  frames at their places.
\<close>

definition shadow_ok :: "('u, 'c, 'w) env \<Rightarrow> 32 word \<Rightarrow> 'c frame list \<Rightarrow> bool" where
  "shadow_ok E n fs \<longleftrightarrow> (\<forall>i<length fs. \<not> shadow_mismatch E (cursor_of (fs ! i)) (n + of_nat i))"

lemma shadow_ok_Cons [simp]:
  "shadow_ok E n (f # fs) \<longleftrightarrow> \<not> shadow_mismatch E (cursor_of f) n \<and> shadow_ok E (n + 1) fs"
  by (auto simp: shadow_ok_def nth_Cons All_less_Suc2 add.assoc split: nat.splits)

lemma phase2_pass:
  assumes "stack E c (pre @ fs)" "\<forall>f\<in>set pre. role f \<in> {Plain, Passing} \<and> sp_of E f \<noteq> private_2 (exc s)"
    "shadow_ok E n (pre @ fs)"
  shows "\<exists>c' s'. stack E c' fs \<and> shadow_ok E (n + of_nat (length pre)) fs \<and> after s (calls E UA_CLEANUP_PHASE pre) s' \<and>
     phase2_loop E c n s = phase2_loop E c' (n + of_nat (length pre)) s'"
  using assms
proof (induction pre arbitrary: c n s)
  case Nil
  then show ?case by (auto intro!: exI [of _ c] exI [of _ s])
next
  case (Cons f pre)
  obtain r fi where f: "step_stage2 E c = (r, cursor_of f)" "0 < r" "get_proc_info E (cursor_of f) = Some fi"
      "handler fi = 0 \<longleftrightarrow> role f = Plain"
      "role f = Passing \<Longrightarrow> answers E (handler fi) UA_CLEANUP_PHASE (cursor_of f) CONTINUE_UNWIND (cursor_of f)"
    by (rule stack_steps2 [OF Cons.prems(1) [unfolded append_Cons]], rule that) simp_all
  have rest: "stack E (cursor_of f) (pre @ fs)" "shadow_ok E (n + 1) (pre @ fs)"
    and sh: "\<not> shadow_mismatch E (cursor_of f) n" and sp: "sp_of E f \<noteq> private_2 (exc s)"
    and roles: "\<And>x. x \<in> set pre \<Longrightarrow> role x \<in> {Plain, Passing} \<and> sp_of E x \<noteq> private_2 (exc s)"
    using Cons.prems by auto
  have n: "n + 1 + of_nat (length pre) = n + of_nat (length (f # pre))" by (simp add: ac_simps)
  show ?case
  proof (cases "role f = Plain")
    case True
    then have "phase2_loop E c n s = phase2_loop E (cursor_of f) (n + 1) s"
      using f sh by (subst phase2_loop.simps) (simp add: Let_def)
    then show ?thesis using Cons.IH [OF rest(1) _ rest(2), of s] roles True n by simp
  next
    case False
    then have "role f = Passing" using Cons.prems(2) by auto
    then obtain s1 where s1: "call_personality E (handler fi) UA_CLEANUP_PHASE (cursor_of f) s = (CONTINUE_UNWIND, cursor_of f, s1)"
        "after s [Personality_called UA_CLEANUP_PHASE (sp_of E f)] s1"
      using call_after [OF f(5)] unfolding sp_of_def by blast
    then have x: "exc s1 = exc s" by (simp add: after_def)
    have "phase2_loop E c n s = phase2_loop E (cursor_of f) (n + 1) s1"
      using f False sh sp s1(1) by (subst phase2_loop.simps) (simp add: Let_def sp_of_def x)
    moreover obtain c' s' where "stack E c' fs" "shadow_ok E (n + 1 + of_nat (length pre)) fs"
        "after s1 (calls E UA_CLEANUP_PHASE pre) s'"
        "phase2_loop E (cursor_of f) (n + 1) s1 = phase2_loop E c' (n + 1 + of_nat (length pre)) s'"
      using Cons.IH [OF rest(1) _ rest(2), of s1] roles unfolding x by blast
    moreover have "calls E UA_CLEANUP_PHASE (f # pre) = [Personality_called UA_CLEANUP_PHASE (sp_of E f)] @ calls E UA_CLEANUP_PHASE pre"
      using False by simp
    ultimately show ?thesis using after_trans [OF s1(2)] unfolding n by metis
  qed
qed

text \<open>The frame where the cleanup phase installs a context: a cleanup, or the handler found before.\<close>

lemma phase2_land:
  assumes "stack E c (f # fs)" "shadow_ok E n (f # fs)"
    and "resumes E (landing f) (n + 1)"
    and "role f = Cleanup \<and> sp_of E f \<noteq> private_2 (exc s) \<or> role f = Catching \<and> sp_of E f = private_2 (exc s)"
  shows "\<exists>s'. phase2_loop E c n s = Some (Resumed (landing f) (n + 1), s') \<and>
     after s [Personality_called (if role f = Catching then UA_CLEANUP_PHASE OR UA_HANDLER_FRAME else UA_CLEANUP_PHASE) (sp_of E f)] s'"
proof -
  let ?a = "if role f = Catching then UA_CLEANUP_PHASE OR UA_HANDLER_FRAME else UA_CLEANUP_PHASE"
  obtain r fi where f: "step_stage2 E c = (r, cursor_of f)" "0 < r" "get_proc_info E (cursor_of f) = Some fi"
      "handler fi \<noteq> 0" "answers E (handler fi) ?a (cursor_of f) INSTALL_CONTEXT (landing f)"
    by (rule stack_steps2 [OF assms(1)], rule that) (use assms(4) in auto)
  obtain s1 where "call_personality E (handler fi) ?a (cursor_of f) s = (INSTALL_CONTEXT, landing f, s1)"
      "after s [Personality_called ?a (sp_of E f)] s1"
    using call_after [OF f(5)] unfolding sp_of_def by blast
  then show ?thesis using f assms(2,3,4) by (subst phase2_loop.simps) (auto simp: Let_def sp_of_def)
qed

lemma phase2_end: "stack E c [] \<Longrightarrow> phase2_loop E c n s = Some (Returned END_OF_STACK, s)"
  by (cases "step_stage2 E c", subst phase2_loop.simps) simp


section \<open>What the entry points do\<close>

text \<open>Where the cleanup phase stops: at the first frame with something to run.\<close>

definition idle_prefix :: "'c frame list \<Rightarrow> 'c frame list" where
  "idle_prefix fs = takeWhile (\<lambda>f. role f \<in> {Plain, Passing}) fs"

definition landing_frame :: "'c frame list \<Rightarrow> 'c frame" where
  "landing_frame fs = hd (dropWhile (\<lambda>f. role f \<in> {Plain, Passing}) fs)"

definition searched :: "'c frame list \<Rightarrow> 'c frame list" where
  "searched fs = takeWhile (\<lambda>f. role f \<noteq> Catching) fs @ take 1 (dropWhile (\<lambda>f. role f \<noteq> Catching) fs)"

definition handler_frame :: "'c frame list \<Rightarrow> 'c frame" where
  "handler_frame fs = hd (dropWhile (\<lambda>f. role f \<noteq> Catching) fs)"

text \<open>
  No frame inside the handler shares its stack pointer, which is how the phases
  recognise it.
\<close>

definition sp_marks_handler :: "('u, 'c, 'w) env \<Rightarrow> 'c frame list \<Rightarrow> bool" where
  "sp_marks_handler E fs \<longleftrightarrow>
     (\<forall>f\<in>set (takeWhile (\<lambda>f. role f \<noteq> Catching) fs). sp_of E f \<noteq> sp_of E (handler_frame fs))"

definition landing_action :: "'c frame list \<Rightarrow> action" where
  "landing_action fs =
     (if role (landing_frame fs) = Catching then UA_CLEANUP_PHASE OR UA_HANDLER_FRAME else UA_CLEANUP_PHASE)"

text \<open>The cleanup phase as a function of the frames, when one of them is the handler.\<close>

definition cleanup_trace :: "('u, 'c, 'w) env \<Rightarrow> 'c frame list \<Rightarrow> event list" where
  "cleanup_trace E fs =
     calls E UA_CLEANUP_PHASE (idle_prefix fs) @ [Personality_called (landing_action fs) (sp_of E (landing_frame fs))]"

lemma phase2_spec:
  assumes st: "stack E c fs" and h: "\<exists>f\<in>set fs. role f = Catching" and marks: "sp_marks_handler E fs"
    and x: "private_2 (exc s) = sp_of E (handler_frame fs)" and sh: "shadow_ok E n fs"
    and res: "\<And>n. resumes E (landing (landing_frame fs)) n"
  shows "\<exists>s'. phase2_loop E c n s
      = Some (Resumed (landing (landing_frame fs)) (n + of_nat (length (idle_prefix fs)) + 1), s') \<and>
     after s (cleanup_trace E fs) s'"
proof -
  let ?P = "\<lambda>f. role f \<in> {Plain, Passing}"
  obtain f where "f \<in> set fs" "role f = Catching" using h by blast
  then have "\<exists>f\<in>set fs. \<not> ?P f" by (intro bexI [of _ f]) simp_all
  then have "dropWhile ?P fs \<noteq> []" by (auto simp: dropWhile_eq_Nil_conv)
  then obtain l rest where d: "dropWhile ?P fs = l # rest" and l: "\<not> ?P l"
    by (metis hd_dropWhile list.collapse)
  have fs: "fs = idle_prefix fs @ l # rest" and lf: "landing_frame fs = l"
    unfolding idle_prefix_def landing_frame_def d by (metis d takeWhile_dropWhile_id) simp
  have pre: "f \<in> set (idle_prefix fs) \<Longrightarrow> ?P f" for f
    unfolding idle_prefix_def by (rule set_takeWhileD [THEN conjunct2])
  then have nc: "f \<in> set (idle_prefix fs) \<Longrightarrow> role f \<noteq> Catching" for f by force
  have tw: "takeWhile (\<lambda>f. role f \<noteq> Catching) fs = idle_prefix fs @ takeWhile (\<lambda>f. role f \<noteq> Catching) (l # rest)"
    by (subst fs, rule takeWhile_append2) (rule nc)
  have dw: "dropWhile (\<lambda>f. role f \<noteq> Catching) fs = dropWhile (\<lambda>f. role f \<noteq> Catching) (l # rest)"
    by (subst fs, rule dropWhile_append2) (rule nc)
  have sps: "\<forall>f\<in>set (idle_prefix fs). ?P f \<and> sp_of E f \<noteq> private_2 (exc s)"
    using marks pre unfolding sp_marks_handler_def x tw by auto
  obtain c' s1 where 1: "stack E c' (l # rest)" "shadow_ok E (n + of_nat (length (idle_prefix fs))) (l # rest)"
      "after s (calls E UA_CLEANUP_PHASE (idle_prefix fs)) s1"
      "phase2_loop E c n s = phase2_loop E c' (n + of_nat (length (idle_prefix fs))) s1"
    using phase2_pass [OF _ sps, of c "l # rest" n] st sh unfolding fs [symmetric] by blast
  have lsp: "role l = Cleanup \<and> sp_of E l \<noteq> private_2 (exc s1) \<or> role l = Catching \<and> sp_of E l = private_2 (exc s1)"
  proof (cases "role l = Catching")
    case True
    then show ?thesis using 1(3) x by (simp add: after_def handler_frame_def dw)
  next
    case False
    then have "role l = Cleanup" using l by (cases "role l") auto
    moreover have "l \<in> set (takeWhile (\<lambda>f. role f \<noteq> Catching) fs)" using False unfolding tw by simp
    ultimately show ?thesis using marks x 1(3) by (auto simp: sp_marks_handler_def after_def)
  qed
  from phase2_land [OF 1(1,2) _ this] res after_trans [OF 1(3)] 1(4)
  show ?thesis by (fastforce simp: cleanup_trace_def lf landing_action_def)
qed

lemma phase1_spec:
  assumes "stack E c fs"
  shows "\<exists>s'. phase1_loop E c s = Some (if \<exists>f\<in>set fs. role f = Catching then NO_REASON else END_OF_STACK, s') \<and>
     trace s' = trace s @ calls E UA_SEARCH_PHASE (searched fs) \<and>
     exc s' = (if \<exists>f\<in>set fs. role f = Catching then (exc s)\<lparr>private_2 := sp_of E (handler_frame fs)\<rparr> else exc s)"
proof -
  let ?P = "\<lambda>f. role f \<noteq> Catching"
  have fs: "fs = takeWhile ?P fs @ dropWhile ?P fs" by simp
  have "\<forall>f\<in>set (takeWhile ?P fs). ?P f" by (auto dest: set_takeWhileD)
  from phase1_pass [OF _ this, of E c "dropWhile ?P fs" s] assms obtain c' s1 where
    1: "stack E c' (dropWhile ?P fs)" "after s (calls E UA_SEARCH_PHASE (takeWhile ?P fs)) s1"
      "phase1_loop E c s = phase1_loop E c' s1" by auto
  show ?thesis
  proof (cases "dropWhile ?P fs")
    case Nil
    then have "\<not> (\<exists>f\<in>set fs. role f = Catching)" by (simp add: dropWhile_eq_Nil_conv)
    moreover have "searched fs = takeWhile ?P fs" unfolding searched_def Nil by simp
    ultimately show ?thesis using 1 phase1_end [of E c' s1] Nil by (auto simp: after_def)
  next
    case (Cons h rest)
    then have h: "role h = Catching" using hd_dropWhile [of ?P fs] by simp
    have "h \<in> set fs" using Cons by (metis list.set_intros(1) set_dropWhileD)
    with h have ex: "\<exists>f\<in>set fs. role f = Catching" by blast
    have "handler_frame fs = h" "searched fs = takeWhile ?P fs @ [h]" using Cons by (simp_all add: handler_frame_def searched_def)
    then show ?thesis using phase1_handler [of E c' h rest s1] 1 Cons h ex by (auto simp: after_def calls_def)
  qed
qed


lemma stack_set_exc [simp]: "exc (s\<lparr>exc := x\<rparr>) = x"
  by simp

text \<open>
  The protocol is met where the runtime has control: contexts install and the shadow stack,
  if any, agrees with the frames.
\<close>

definition can_resume :: "('u, 'c, 'w) env \<Rightarrow> 'c frame list \<Rightarrow> bool" where
  "can_resume E fs \<longleftrightarrow> shadow_ok E 1 fs \<and> (\<forall>f\<in>set fs. \<forall>n. resumes E (landing f) n)"

definition raise_outcome :: "'c frame list \<Rightarrow> ('c, 32 word) outcome" where
  "raise_outcome fs =
     (if \<exists>f\<in>set fs. role f = Catching
      then Resumed (landing (landing_frame fs)) (of_nat (length (idle_prefix fs)) + 2)
      else Returned END_OF_STACK)"

definition raise_trace :: "('u, 'c, 'w) env \<Rightarrow> 'c frame list \<Rightarrow> event list" where
  "raise_trace E fs =
     calls E UA_SEARCH_PHASE (searched fs) @
     (if \<exists>f\<in>set fs. role f = Catching then cleanup_trace E fs else [])"

lemma landing_frame_in: "\<exists>f\<in>set fs. role f = Catching \<Longrightarrow> landing_frame fs \<in> set fs"
proof -
  assume "\<exists>f\<in>set fs. role f = Catching"
  then have "dropWhile (\<lambda>f. role f \<in> {Plain, Passing}) fs \<noteq> []" by (force simp: dropWhile_eq_Nil_conv)
  then show ?thesis unfolding landing_frame_def by (metis hd_in_set set_dropWhileD)
qed

text \<open>C1: \<open>_Unwind_RaiseException\<close> implements the two-phase protocol.  The search calls the personality of every frame
  up to the one that catches, and nothing else happens when none does: the result is end of
  stack and no cleanup has run.  Otherwise control goes to the first frame with a cleanup or
  to the handler, told apart by the handler flag, after the personalities in between.\<close>

theorem raise_exception_two_phases:
  assumes "stack E (init_local E uc) fs" and "sp_marks_handler E fs" and "can_resume E fs"
  shows "\<exists>s'. Unwind_RaiseException E uc s = Some (raise_outcome fs, s') \<and>
     trace s' = trace s @ raise_trace E fs \<and> private_1 (exc s') = 0 \<and>
     private_2 (exc s') = (if \<exists>f\<in>set fs. role f = Catching then sp_of E (handler_frame fs) else 0)"
proof -
  let ?s = "s\<lparr>exc := (exc s)\<lparr>private_1 := 0, private_2 := 0\<rparr>\<rparr>"
  obtain s1 where 1: "phase1_loop E (init_local E uc) ?s
      = Some (if \<exists>f\<in>set fs. role f = Catching then NO_REASON else END_OF_STACK, s1)"
    "trace s1 = trace s @ calls E UA_SEARCH_PHASE (searched fs)"
    "exc s1 = (if \<exists>f\<in>set fs. role f = Catching then (exc ?s)\<lparr>private_2 := sp_of E (handler_frame fs)\<rparr> else exc ?s)"
    using phase1_spec [OF assms(1), of ?s] by auto
  show ?thesis
  proof (cases "\<exists>f\<in>set fs. role f = Catching")
    case True
    then have x: "private_2 (exc s1) = sp_of E (handler_frame fs)" using 1(3) by simp
    have "\<And>n. resumes E (landing (landing_frame fs)) n" "shadow_ok E 1 fs"
      using landing_frame_in [OF True] assms(3) by (auto simp: can_resume_def)
    from phase2_spec [OF assms(1) True assms(2) x this(2,1)] obtain s2 where
      "phase2_loop E (init_local E uc) 1 s1 = Some (Resumed (landing (landing_frame fs)) (1 + of_nat (length (idle_prefix fs)) + 1), s2)"
      "after s1 (cleanup_trace E fs) s2" by blast
    with 1 True show ?thesis
      by (simp add: Unwind_RaiseException_def unwind_phase1_def unwind_phase2_def raise_outcome_def raise_trace_def after_def ac_simps)
  next
    case False
    with 1 show ?thesis
      by (simp add: Unwind_RaiseException_def unwind_phase1_def raise_outcome_def raise_trace_def)
  qed
qed

text \<open>C34: \<open>_Unwind_Resume\<close>, called at the end of a cleanup, continues the cleanup phase of a raised exception up
  to the next frame with something to run, or to the handler that the search phase recorded, and
  leaves that record alone.\<close>

theorem resume_continues_cleanup:
  assumes "stack E (init_local E uc) fs" and "sp_marks_handler E fs" and "can_resume E fs"
    and "private_1 (exc s) = 0" and "\<exists>f\<in>set fs. role f = Catching" and "private_2 (exc s) = sp_of E (handler_frame fs)"
  shows "\<exists>s'. Unwind_Resume E uc s = Some (raise_outcome fs, s') \<and>
     trace s' = trace s @ cleanup_trace E fs \<and> exc s' = exc s"
proof -
  have "\<And>n. resumes E (landing (landing_frame fs)) n" "shadow_ok E 1 fs"
    using landing_frame_in [OF assms(5)] assms(3) by (auto simp: can_resume_def)
  from phase2_spec [OF assms(1,5,2,6) this(2,1)] obtain s2 where
    "phase2_loop E (init_local E uc) 1 s = Some (Resumed (landing (landing_frame fs)) (1 + of_nat (length (idle_prefix fs)) + 1), s2)"
    "after s (cleanup_trace E fs) s2" by blast
  then show ?thesis using assms(4,5)
    by (simp add: Unwind_Resume_def unwind_phase2_def raise_outcome_def abort_on_return_def after_def ac_simps)
qed

text \<open>C36: every entry point of the unwinder ends on a finite stack, whatever the code called back does: raising,
  resuming, rethrowing, forced unwinding and the backtrace return, resume or abort; and
  \<open>_Unwind_Resume\<close> never returns to its caller.\<close>

theorem unwinding_ends:
  assumes "finite_stack E depth"
  shows "Unwind_RaiseException E uc s \<noteq> None \<and> Unwind_Resume E uc s \<noteq> None \<and>
    Unwind_ForcedUnwind E uc f v s \<noteq> None \<and> Unwind_Resume_or_Rethrow E uc s \<noteq> None \<and>
    Unwind_Backtrace E uc f v w \<noteq> None \<and> Unwind_Resume E uc s \<noteq> Some (Returned r, s')"
proof (intro conjI)
  have 1: "\<And>s. phase1_loop E (init_local E uc) s \<noteq> None" "\<And>s. phase2_loop E (init_local E uc) 1 s \<noteq> None"
      "\<And>f v s. forced_loop E f v (init_local E uc) 1 s \<noteq> None"
    using phase1_returns [OF assms] phase2_returns [OF assms] forced_returns [OF assms] by (metis option.distinct(1))+
  have r: "Unwind_RaiseException E uc s \<noteq> None"
    using 1(1,2) by (auto simp: Unwind_RaiseException_def unwind_phase1_def unwind_phase2_def Let_def split: option.split prod.split)
  have u: "Unwind_Resume E uc s \<noteq> None"
    using 1(2,3) by (auto simp: Unwind_Resume_def unwind_phase2_def unwind_phase2_forced_def)
  show "Unwind_RaiseException E uc s \<noteq> None" "Unwind_Resume E uc s \<noteq> None" by (fact r) (fact u)
  show "Unwind_ForcedUnwind E uc f v s \<noteq> None"
    using 1(3) by (auto simp: Unwind_ForcedUnwind_def unwind_phase2_forced_def)
  show "Unwind_Resume_or_Rethrow E uc s \<noteq> None" using r u by (auto simp: Unwind_Resume_or_Rethrow_def)
  show "Unwind_Backtrace E uc f v w \<noteq> None"
    using backtrace_returns [OF assms] by (simp add: Unwind_Backtrace_def)
  show "Unwind_Resume E uc s \<noteq> Some (Returned r, s')"
    by (auto simp: Unwind_Resume_def abort_on_return_def split: outcome.splits)
qed


section \<open>Forced unwinding\<close>

abbreviation forced_action :: action where
  "forced_action \<equiv> UA_FORCE_UNWIND OR UA_CLEANUP_PHASE"

text \<open>In forced unwinding only cleanups run; a handler frame continues like the others.\<close>

definition forced_obeys :: "('u, 'c, 'w) env \<Rightarrow> 'c frame \<Rightarrow> bool" where
  "forced_obeys E f \<longleftrightarrow>
     (\<exists>fi. get_proc_info E (cursor_of f) = Some fi \<and> (handler fi = 0 \<longleftrightarrow> role f = Plain) \<and>
       (role f \<in> {Passing, Catching} \<longrightarrow>
          answers E (handler fi) forced_action (cursor_of f) CONTINUE_UNWIND (cursor_of f)) \<and>
       (role f = Cleanup \<longrightarrow> answers E (handler fi) forced_action (cursor_of f) INSTALL_CONTEXT (landing f)))"

fun forced_stack :: "('u, 'c, 'w) env \<Rightarrow> 'c \<Rightarrow> 'c frame list \<Rightarrow> bool" where
  "forced_stack E c [] \<longleftrightarrow> fst (step_stage2 E c) \<le> 0"
| "forced_stack E c (f # fs) \<longleftrightarrow>
     fst (step_stage2 E c) > 0 \<and> snd (step_stage2 E c) = cursor_of f \<and> forced_obeys E f \<and>
     forced_stack E (cursor_of f) fs"

definition stop_agrees :: "('u, 'c, 'w) env \<Rightarrow> uptr \<Rightarrow> uptr \<Rightarrow> bool" where
  "stop_agrees E stop v \<longleftrightarrow> (\<forall>a x c w. \<exists>w'. stop_fn E stop a x c v w = (NO_REASON, x, c, w'))"

definition forced_trace :: "('u, 'c, 'w) env \<Rightarrow> 'c frame list \<Rightarrow> event list" where
  "forced_trace E fs =
     concat (map (\<lambda>f. Stop_called forced_action (sp_of E f) #
       (if role f = Plain then [] else [Personality_called forced_action (sp_of E f)])) fs)"

lemma forced_trace_simps [simp]:
  "forced_trace E [] = []"
  "forced_trace E (f # fs) = [Stop_called forced_action (sp_of E f)] @
     (if role f = Plain then [] else [Personality_called forced_action (sp_of E f)]) @ forced_trace E fs"
  by (simp_all add: forced_trace_def)

lemma stop_after:
  assumes "stop_agrees E stop v"
  shows "\<exists>s'. call_stop E stop a c v s = (NO_REASON, c, s') \<and> after s [Stop_called a (get_reg E c UNW_REG_SP)] s'"
proof -
  obtain w where "stop_fn E stop a (exc s) c v (world s) = (NO_REASON, exc s, c, w)"
    using assms unfolding stop_agrees_def by blast
  then show ?thesis by (auto simp: call_stop_def after_def)
qed

text \<open>The stop function, then the personality of one frame.\<close>

lemma forced_frame:
  assumes "forced_stack E c (f # fs)" and stop: "stop_agrees E stop v"
  shows "\<exists>s'. after s (forced_trace E [f]) s' \<and>
     forced_loop E stop v c n s =
       (if role f = Cleanup \<and> resumes E (landing f) (n + 1) then Some (Resumed (landing f) (n + 1), s')
        else forced_loop E stop v (if role f = Cleanup then landing f else cursor_of f) (n + 1) s')"
proof -
  let ?c = "if role f = Cleanup then landing f else cursor_of f"
  let ?r = "if role f = Cleanup then INSTALL_CONTEXT else CONTINUE_UNWIND"
  obtain r fi where f: "step_stage2 E c = (r, cursor_of f)" "0 < r" "get_proc_info E (cursor_of f) = Some fi"
      "handler fi = 0 \<longleftrightarrow> role f = Plain"
      "role f \<noteq> Plain \<Longrightarrow> answers E (handler fi) forced_action (cursor_of f) ?r ?c"
    using assms(1) by (cases "step_stage2 E c"; cases "role f") (auto simp: forced_obeys_def)
  obtain s1 where s1: "call_stop E stop forced_action (cursor_of f) v s = (NO_REASON, cursor_of f, s1)"
      "after s [Stop_called forced_action (sp_of E f)] s1"
    using stop_after [OF stop] unfolding sp_of_def by blast
  show ?thesis
  proof (cases "role f = Plain")
    case True
    then show ?thesis using f(1-4) s1 by (subst forced_loop.simps) (auto simp: Let_def)
  next
    case False
    obtain s2 where s2: "call_personality E (handler fi) forced_action (cursor_of f) s1 = (?r, ?c, s2)"
        "after s1 [Personality_called forced_action (sp_of E f)] s2"
      using call_after [OF f(5) [OF False], of s1] unfolding sp_of_def by blast
    have "after s (forced_trace E [f]) s2" using after_trans [OF s1(2) s2(2)] False by simp
    then show ?thesis using f(1-4) s1(1) s2(1) False by (subst forced_loop.simps) (auto simp: Let_def)
  qed
qed

text \<open>C19: forced unwinding shows the stop function every frame, before the personality of that frame is asked, up to
  the first cleanup, which it enters; if there is none it calls the stop function once more with the
  end-of-stack flag and reports an error to its caller.\<close>

theorem forced_unwinding_visits_frames:
  assumes "forced_stack E (init_local E uc) fs" and "stop_agrees E stop v"
    and "\<forall>f\<in>set fs. \<forall>n. resumes E (landing f) n"
  shows "\<exists>s' sp. Unwind_ForcedUnwind E uc stop v s =
      Some (case dropWhile (\<lambda>f. role f \<noteq> Cleanup) fs of
              [] \<Rightarrow> Returned FATAL_PHASE2_ERROR
            | f # _ \<Rightarrow> Resumed (landing f) (of_nat (length (takeWhile (\<lambda>f. role f \<noteq> Cleanup) fs)) + 2), s') \<and>
     trace s' = trace s @
      (case dropWhile (\<lambda>f. role f \<noteq> Cleanup) fs of
         [] \<Rightarrow> forced_trace E fs @ [Stop_called (UA_FORCE_UNWIND OR UA_CLEANUP_PHASE OR UA_END_OF_STACK) sp]
       | f # _ \<Rightarrow> forced_trace E (takeWhile (\<lambda>f. role f \<noteq> Cleanup) fs @ [f])) \<and>
     private_1 (exc s') = stop \<and> private_2 (exc s') = v"
proof -
  have "\<exists>s' sp. forced_loop E stop v c n s =
      Some (case dropWhile (\<lambda>f. role f \<noteq> Cleanup) fs of
              [] \<Rightarrow> Returned FATAL_PHASE2_ERROR
            | f # _ \<Rightarrow> Resumed (landing f) (of_nat (length (takeWhile (\<lambda>f. role f \<noteq> Cleanup) fs)) + n + 1), s') \<and>
     after s (case dropWhile (\<lambda>f. role f \<noteq> Cleanup) fs of
         [] \<Rightarrow> forced_trace E fs @ [Stop_called (UA_FORCE_UNWIND OR UA_CLEANUP_PHASE OR UA_END_OF_STACK) sp]
       | f # _ \<Rightarrow> forced_trace E (takeWhile (\<lambda>f. role f \<noteq> Cleanup) fs @ [f])) s'"
    if "forced_stack E c fs" for c n s
    using that assms(3)
  proof (induction fs arbitrary: c n s)
    case Nil
    obtain r c1 where c1: "step_stage2 E c = (r, c1)" "\<not> 0 < r" using Nil.prems(1) by (cases "step_stage2 E c") auto
    obtain s1 where s1: "call_stop E stop (UA_FORCE_UNWIND OR UA_CLEANUP_PHASE OR UA_END_OF_STACK) c1 v s = (NO_REASON, c1, s1)"
        "after s [Stop_called (UA_FORCE_UNWIND OR UA_CLEANUP_PHASE OR UA_END_OF_STACK) (get_reg E c1 UNW_REG_SP)] s1"
      using stop_after [OF assms(2)] by blast
    have "forced_loop E stop v c n s = Some (Returned FATAL_PHASE2_ERROR, s1)"
      using c1 s1(1) by (subst forced_loop.simps) (simp add: forced_end_def Let_def)
    with s1(2) show ?case by auto
  next
    case (Cons f fs)
    obtain s1 where s1: "after s (forced_trace E [f]) s1" "forced_loop E stop v c n s =
       (if role f = Cleanup \<and> resumes E (landing f) (n + 1) then Some (Resumed (landing f) (n + 1), s1)
        else forced_loop E stop v (if role f = Cleanup then landing f else cursor_of f) (n + 1) s1)"
      using forced_frame [OF Cons.prems(1) assms(2)] by blast
    show ?case
    proof (cases "role f = Cleanup")
      case True
      with s1 Cons.prems(2) show ?thesis by auto
    next
      case False
      have "forced_stack E (cursor_of f) fs" "\<forall>f\<in>set fs. \<forall>n. resumes E (landing f) n" using Cons.prems by auto
      from Cons.IH [OF this, of "n + 1" s1] obtain s' sp where s': "forced_loop E stop v (cursor_of f) (n + 1) s1 =
          Some (case dropWhile (\<lambda>f. role f \<noteq> Cleanup) fs of
              [] \<Rightarrow> Returned FATAL_PHASE2_ERROR
            | f # _ \<Rightarrow> Resumed (landing f) (of_nat (length (takeWhile (\<lambda>f. role f \<noteq> Cleanup) fs)) + (n + 1) + 1), s')"
        "after s1 (case dropWhile (\<lambda>f. role f \<noteq> Cleanup) fs of
         [] \<Rightarrow> forced_trace E fs @ [Stop_called (UA_FORCE_UNWIND OR UA_CLEANUP_PHASE OR UA_END_OF_STACK) sp]
       | f # _ \<Rightarrow> forced_trace E (takeWhile (\<lambda>f. role f \<noteq> Cleanup) fs @ [f])) s'" by blast
      have d: "dropWhile (\<lambda>f. role f \<noteq> Cleanup) (f # fs) = dropWhile (\<lambda>f. role f \<noteq> Cleanup) fs"
        "takeWhile (\<lambda>f. role f \<noteq> Cleanup) (f # fs) = f # takeWhile (\<lambda>f. role f \<noteq> Cleanup) fs" using False by simp_all
      show ?thesis
        using s1(2) s'(1) after_trans [OF s1(1) s'(2)] False unfolding d
        by (intro exI [of _ s'] exI [of _ sp], cases "dropWhile (\<lambda>f. role f \<noteq> Cleanup) fs")
          (simp_all only: list.case if_False simp_thms, simp_all add: add.assoc add.commute add.left_commute)
    qed
  qed
  note run = this
  have two: "x + 1 + 1 = x + (2 :: 32 word)" for x by simp
  show ?thesis
    using run [OF assms(1), of 1 "s\<lparr>exc := (exc s)\<lparr>private_1 := stop, private_2 := v\<rparr>\<rparr>"]
    unfolding Unwind_ForcedUnwind_def unwind_phase2_forced_def after_def two
    by - (elim exE conjE, rule exI, rule exI, rule conjI, assumption, simp)
qed

section \<open>The shadow stack\<close>

text \<open>
  A walk of the cleanup phase from \<open>c\<close> to the cursor that is installed: every frame on it was
  returned by a step, and its return address is the one on the shadow stack.
\<close>

inductive guarded_walk ::
    "('u, 'c, 'w) env \<Rightarrow> (32 word \<Rightarrow> uptr) \<Rightarrow> 'c \<Rightarrow> 32 word \<Rightarrow> 'c \<Rightarrow> 32 word \<Rightarrow> bool" for E ret where
  here: "step_stage2 E c = (r, c1) \<Longrightarrow> 0 < r \<Longrightarrow> get_reg E c1 UNW_REG_IP = ret n \<Longrightarrow>
     (\<exists>p a x w. c2 = fst (snd (snd (personality E p a x c1 w)))) \<Longrightarrow> guarded_walk E ret c n c2 (n + 1)"
| outer: "step_stage2 E c = (r, c1) \<Longrightarrow> 0 < r \<Longrightarrow> get_reg E c1 UNW_REG_IP = ret n \<Longrightarrow>
     c2 = c1 \<or> (\<exists>p a x w. c2 = fst (snd (snd (personality E p a x c1 w)))) \<Longrightarrow>
     guarded_walk E ret c2 (n + 1) c' m \<Longrightarrow> guarded_walk E ret c n c' m"

lemma call_cursor:
  "call_personality E p a c s = (r, c', s') \<Longrightarrow> \<exists>p a x w. c' = fst (snd (snd (personality E p a x c w)))"
  unfolding call_personality_def Let_def by (auto split: prod.splits) (metis fst_conv snd_conv)

lemma phase2_guarded:
  fixes E :: "('u, 'c, 'w) env"
  assumes "phase2_loop E c n s = Some res" "shadow E = Some ret" "fst res = Resumed c' m"
  shows "guarded_walk E ret c n c' m"
proof -
  have "\<forall>c' m. fst res = Resumed c' m \<longrightarrow> shadow E = Some ret \<longrightarrow> guarded_walk E ret c n c' m"
  proof (rule phase2_loop.raw_induct [OF _ assms(1), where P = "\<lambda>E c n s res. \<forall>c' m. fst res = Resumed c' m \<longrightarrow>
      shadow E = Some ret \<longrightarrow> guarded_walk E ret c n c' m"])
    fix loop :: "('u, 'c, 'w) env \<Rightarrow> 'c \<Rightarrow> 32 word \<Rightarrow> 'w st \<Rightarrow> (('c, 32 word) outcome \<times> 'w st) option"
      and E :: "('u, 'c, 'w) env" and c n and s :: "'w st" and res
    assume IH: "\<And>E c n s y. loop E c n s = Some y \<Longrightarrow>
        \<forall>c' m. fst y = Resumed c' m \<longrightarrow> shadow E = Some ret \<longrightarrow> guarded_walk E ret c n c' m"
    let ?body = "let (stepResult, c) = step_stage2 E c in
      if stepResult = 0 then Some (Returned END_OF_STACK, s)
      else if stepResult < 0 then Some (Returned FATAL_PHASE2_ERROR, s)
      else
        let sp = get_reg E c UNW_REG_SP in
        case get_proc_info E c of
          None \<Rightarrow> Some (Returned FATAL_PHASE2_ERROR, s)
        | Some frameInfo \<Rightarrow>
            if shadow_mismatch E c n then Some (Returned FATAL_PHASE2_ERROR, s)
            else
              let framesWalked = n + 1 in
              if handler frameInfo \<noteq> 0 then
                let action = (if sp = private_2 (exc s) then UA_CLEANUP_PHASE OR UA_HANDLER_FRAME
                              else UA_CLEANUP_PHASE);
                    (personalityResult, c, s) = call_personality E (handler frameInfo) action c s in
                if personalityResult = CONTINUE_UNWIND then
                  if sp = private_2 (exc s) then Some (Aborted, s)
                  else loop E c framesWalked s
                else if personalityResult = INSTALL_CONTEXT then
                  if resumes E c framesWalked then Some (Resumed c framesWalked, s)
                  else Some (Returned FATAL_PHASE2_ERROR, s)
                else Some (Returned FATAL_PHASE2_ERROR, s)
              else loop E c framesWalked s"
    assume run: "?body = Some res"
    show "\<forall>c' m. fst res = Resumed c' m \<longrightarrow> shadow E = Some ret \<longrightarrow> guarded_walk E ret c n c' m"
    proof (intro allI impI)
      fix c' m
      assume r: "fst res = Resumed c' m" and sh: "shadow E = Some ret"
      obtain k c1 where st: "step_stage2 E c = (k, c1)" by fastforce
      with run r have k: "0 < k" by (auto split: if_splits)
      from run r st k obtain fi where fi: "get_proc_info E c1 = Some fi"
        by (cases "get_proc_info E c1") (auto simp: Let_def)
      from run r st k fi sh have ip: "get_reg E c1 UNW_REG_IP = ret n"
        by (auto simp: Let_def shadow_mismatch_def split: if_splits)
      show "guarded_walk E ret c n c' m"
      proof (cases "handler fi = 0")
        case True
        with run st k fi sh ip have "loop E c1 (n + 1) s = Some res" by (auto simp: Let_def shadow_mismatch_def split: if_splits)
        from IH [OF this] r sh have "guarded_walk E ret c1 (n + 1) c' m" by blast
        with outer [of E c k c1 ret n c1] st k ip show ?thesis by blast
      next
        case False
        define a where "a = (if get_reg E c1 UNW_REG_SP = private_2 (exc s) then UA_CLEANUP_PHASE OR UA_HANDLER_FRAME
            else UA_CLEANUP_PHASE)"
        obtain pr c2 s2 where call: "call_personality E (handler fi) a c1 s = (pr, c2, s2)" by (metis prod_cases3)
        have "loop E c2 (n + 1) s2 = Some res \<or> res = (Resumed c2 (n + 1), s2)"
          using run r st k fi sh ip False call
          by (auto simp: shadow_mismatch_def Let_def simp flip: a_def split: if_splits)
        then show ?thesis
        proof
          assume "loop E c2 (n + 1) s2 = Some res"
          from IH [OF this] r sh have "guarded_walk E ret c2 (n + 1) c' m" by blast
          with outer [of E c k c1 ret n c2] st k ip call_cursor [OF call] show ?thesis by blast
        next
          assume "res = (Resumed c2 (n + 1), s2)"
          with here [of E c k c1 ret n c2] st k ip call_cursor [OF call] r show ?thesis by simp
        qed
      qed
    qed
  qed
  with assms show ?thesis by blast
qed


text \<open>C21: with a shadow stack the cleanup phase jumps only where the return addresses allow it.  Control is transferred
  to a frame only over a chain of frames whose return addresses are those on the shadow stack,
  in order, and the number of entries popped is the number of frames walked; where one differs the
  call returns an error instead.\<close>

theorem shadow_stack_guards_resume:
  assumes "unwind_phase2 E uc s = Some (Resumed c' m, s')" and "shadow E = Some ret"
  shows "guarded_walk E ret (init_local E uc) 1 c' m"
  using phase2_guarded [of E "init_local E uc" 1 s "(Resumed c' m, s')" ret c' m] assms
  by (simp add: unwind_phase2_def)

section \<open>A stack of three frames\<close>

text \<open>
  Cursors count the frames further out.  The frame 2 has no personality, 1 has a cleanup, 0
  catches; \<open>guarded\<close> adds a shadow stack.
\<close>

definition demo_env :: "bool \<Rightarrow> (nat, nat, unit) env" where
  "demo_env guarded =
     \<lparr>init_local = (\<lambda>u. u),
      step = (\<lambda>c. if c = 0 then (0, 0) else (1, c - 1)),
      step_stage2 = (\<lambda>c. if c = 0 then (0, 0) else (1, c - 1)),
      get_proc_info = (\<lambda>c. Some \<lparr>start_ip = 16, lsda = 0, handler = (if c = 2 then 0 else 64), unwind_info = 0, extra = 0\<rparr>),
      get_reg = (\<lambda>c r. of_nat (c + 100)),
      set_reg = (\<lambda>c r v. c),
      is_signal_frame = (\<lambda>c. 0),
      resumes = (\<lambda>c n. True),
      shadow = (if guarded then Some (\<lambda>n. 103 - ucast n) else None),
      personality = (\<lambda>p a x c w.
        (if a = UA_SEARCH_PHASE then (if c = 0 then HANDLER_FOUND else CONTINUE_UNWIND)
         else if a = forced_action then (if c = 1 then INSTALL_CONTEXT else CONTINUE_UNWIND)
         else INSTALL_CONTEXT, x, c, w)),
      stop_fn = (\<lambda>f a x c v w. (NO_REASON, x, c, w)),
      cleanup_fn = (\<lambda>f r x w. (x, w)),
      trace_fn = (\<lambda>f c v w. (NO_REASON, c, w))\<rparr>"

definition demo_frames :: "nat frame list" where
  "demo_frames =
     [\<lparr>cursor_of = 2, landing = 2, role = Plain\<rparr>, \<lparr>cursor_of = 1, landing = 1, role = Cleanup\<rparr>,
      \<lparr>cursor_of = 0, landing = 0, role = Catching\<rparr>]"

definition demo_state :: "unit st" where
  "demo_state = \<lparr>exc = \<lparr>exception_class = 7, exception_cleanup = 0, private_1 = 0, private_2 = 100\<rparr>, world = (), trace = []\<rparr>"

lemma demo_stack: "stack (demo_env g) 3 demo_frames" "sp_marks_handler (demo_env g) demo_frames"
  "can_resume (demo_env False) demo_frames" "forced_stack (demo_env g) 3 demo_frames"
  by (auto simp: demo_env_def demo_frames_def obeys_def answers_def action_defs sp_marks_handler_def sp_of_def
      handler_frame_def can_resume_def shadow_ok_def shadow_mismatch_def forced_obeys_def)

theorem raise_exception_two_phases_witness:
  "\<exists>s'. Unwind_RaiseException (demo_env False) 3 demo_state = Some (Resumed 1 3, s') \<and>
     trace s' = [Personality_called 1 101, Personality_called 1 100, Personality_called 2 101]"
proof -
  have "init_local (demo_env False) 3 = 3" by (simp add: demo_env_def)
  from raise_exception_two_phases [of "demo_env False" 3 demo_frames demo_state, unfolded this, OF demo_stack(1,2,3)]
  show ?thesis
    by (auto simp: raise_outcome_def raise_trace_def demo_frames_def landing_frame_def idle_prefix_def searched_def
        cleanup_trace_def landing_action_def sp_of_def action_defs) (simp_all add: demo_env_def demo_state_def)
qed


theorem resume_continues_cleanup_witness:
  "\<exists>s'. Unwind_Resume (demo_env False) 3 demo_state = Some (Resumed 1 3, s') \<and>
     trace s' = [Personality_called 2 101] \<and> private_2 (exc s') = 100"
proof -
  have i: "init_local (demo_env False) 3 = 3" "private_1 (exc demo_state) = 0"
      "\<exists>f\<in>set demo_frames. role f = Catching" "private_2 (exc demo_state) = sp_of (demo_env False) (handler_frame demo_frames)"
      "private_2 (exc demo_state) = 100"
    by (simp_all add: demo_env_def demo_state_def demo_frames_def handler_frame_def sp_of_def)
  obtain s' where s': "Unwind_Resume (demo_env False) 3 demo_state = Some (raise_outcome demo_frames, s')"
      "trace s' = trace demo_state @ cleanup_trace (demo_env False) demo_frames" "exc s' = exc demo_state"
    using resume_continues_cleanup [of "demo_env False" 3 demo_frames demo_state, unfolded i(1), OF demo_stack(1,2,3) i(2,3,4)] by blast
  have "raise_outcome demo_frames = Resumed 1 3"
    by (simp add: raise_outcome_def demo_frames_def landing_frame_def idle_prefix_def)
  moreover have "trace demo_state @ cleanup_trace (demo_env False) demo_frames = [Personality_called 2 101]"
    by (simp add: demo_state_def demo_frames_def landing_frame_def idle_prefix_def cleanup_trace_def landing_action_def sp_of_def
        action_defs) (simp add: demo_env_def)
  ultimately show ?thesis using s' i(5) by auto
qed

lemma demo_finite: "finite_stack (demo_env g) (\<lambda>c. c)"
  by (auto simp: finite_stack_def demo_env_def)

theorem unwinding_ends_witness:
  "Unwind_Backtrace (demo_env True) 3 0 0 () \<noteq> None \<and> Unwind_Resume (demo_env True) 3 demo_state \<noteq> None"
  using unwinding_ends [OF demo_finite, of True 3 demo_state 0 0 "()"] by blast

theorem forced_unwinding_visits_frames_witness:
  "\<exists>s'. Unwind_ForcedUnwind (demo_env False) 3 9 8 demo_state = Some (Resumed 1 3, s') \<and>
     trace s' = [Stop_called 10 102, Stop_called 10 101, Personality_called 10 101]"
proof -
  have i: "init_local (demo_env False) 3 = 3" "stop_agrees (demo_env False) 9 8"
      "\<forall>f\<in>set demo_frames. \<forall>n. resumes (demo_env False) (landing f) n"
    by (simp_all add: demo_env_def stop_agrees_def)
  obtain s' where "Unwind_ForcedUnwind (demo_env False) 3 9 8 demo_state = Some (Resumed 1 3, s')"
      "trace s' = trace demo_state @ forced_trace (demo_env False) (take 2 demo_frames)"
    using forced_unwinding_visits_frames [of "demo_env False" 3 demo_frames 9 8 demo_state, unfolded i(1), OF demo_stack(4) i(2,3)]
    by (auto simp: demo_frames_def)
  then show ?thesis
    by (auto simp: demo_frames_def sp_of_def action_defs) (simp_all add: demo_env_def demo_state_def)
qed

theorem shadow_stack_guards_resume_witness:
  "guarded_walk (demo_env True) (\<lambda>n. 103 - ucast n) 3 1 1 3"
proof -
  have "init_local (demo_env True) 3 = 3" "shadow (demo_env True) = Some (\<lambda>n. 103 - ucast n)" by (simp_all add: demo_env_def)
  moreover have "\<exists>s'. unwind_phase2 (demo_env True) 3 demo_state = Some (Resumed 1 3, s')"
    unfolding unwind_phase2_def
    by (subst phase2_loop.simps, subst phase2_loop.simps)
      (simp add: demo_env_def demo_state_def shadow_mismatch_def call_personality_def action_defs Let_def)
  ultimately show ?thesis
    using shadow_stack_guards_resume [of "demo_env True" 3 demo_state 1 3 _ "\<lambda>n. 103 - ucast n"] by auto
qed

end
