(* ===== verification/GccPersonality.thy ===== *)
theory GccPersonality
  imports UnwindSpec
begin

text \<open>
  \<^verbatim>\<open>gcc_personality_v0.c\<close>: the personality routine of C frames with cleanups.  It parses the
  language-specific data of the frame, byte by byte, for the call site of the current
  instruction.  Memory is a map from addresses to bytes, read little-endian as on the targets with
  unaligned loads.  What the code cannot read ends in a \<open>fault\<close>: \<open>compilerrt_abort\<close>, or a shift that C
  leaves undefined.
\<close>

unbundle bit_operations_syntax

section \<open>Reading encoded values\<close>

datatype fault = Aborts | Undefined

definition DW_EH_PE_omit :: byte where "DW_EH_PE_omit = 0xFF"
definition DW_EH_PE_absptr :: byte where "DW_EH_PE_absptr = 0x00"
definition DW_EH_PE_uleb128 :: byte where "DW_EH_PE_uleb128 = 0x01"
definition DW_EH_PE_udata2 :: byte where "DW_EH_PE_udata2 = 0x02"
definition DW_EH_PE_udata4 :: byte where "DW_EH_PE_udata4 = 0x03"
definition DW_EH_PE_udata8 :: byte where "DW_EH_PE_udata8 = 0x04"
definition DW_EH_PE_sdata2 :: byte where "DW_EH_PE_sdata2 = 0x0A"
definition DW_EH_PE_sdata4 :: byte where "DW_EH_PE_sdata4 = 0x0B"
definition DW_EH_PE_sdata8 :: byte where "DW_EH_PE_sdata8 = 0x0C"
definition DW_EH_PE_pcrel :: byte where "DW_EH_PE_pcrel = 0x10"
definition DW_EH_PE_indirect :: byte where "DW_EH_PE_indirect = 0x80"

lemmas DW_EH_PE_defs = DW_EH_PE_omit_def DW_EH_PE_absptr_def DW_EH_PE_uleb128_def DW_EH_PE_udata2_def
  DW_EH_PE_udata4_def DW_EH_PE_udata8_def DW_EH_PE_sdata2_def DW_EH_PE_sdata4_def DW_EH_PE_sdata8_def
  DW_EH_PE_pcrel_def DW_EH_PE_indirect_def

text \<open>
  \<open>byte & 0x7f\<close> is an \<open>int\<close>: it is shifted at 32 bits, where a shift of 32 or more is undefined, and
  widened with its sign to \<open>size_t\<close> by the assignment.
\<close>

function uleb128_loop :: "(uptr \<Rightarrow> byte) \<Rightarrow> uptr \<Rightarrow> uptr \<Rightarrow> nat \<Rightarrow> fault + uptr \<times> uptr" where
  "uleb128_loop m p result shift =
     (if 32 \<le> shift then Inl Undefined
      else
        let byte = m p;
            p = p + 1;
            result = result OR scast (push_bit shift (ucast (byte AND 0x7F)) :: 32 word);
            shift = shift + 7
        in if byte AND 0x80 \<noteq> 0 then uleb128_loop m p result shift else Inr (result, p))"
  by pat_completeness auto
termination by (relation "measure (\<lambda>(m, p, result, shift). 32 - shift)") auto

definition readULEB128 :: "(uptr \<Rightarrow> byte) \<Rightarrow> uptr \<Rightarrow> fault + uptr \<times> uptr" where
  "readULEB128 m p = uleb128_loop m p 0 0"

text \<open>\<open>n\<close> bytes from \<open>p\<close> as an unsigned number, the lowest first.\<close>

fun load :: "(uptr \<Rightarrow> byte) \<Rightarrow> uptr \<Rightarrow> nat \<Rightarrow> uptr" where
  "load m p 0 = 0"
| "load m p (Suc n) = ucast (m p) OR push_bit 8 (load m (p + 1) n)"

definition encoded_value :: "(uptr \<Rightarrow> byte) \<Rightarrow> uptr \<Rightarrow> byte \<Rightarrow> fault + uptr \<times> uptr" where
  "encoded_value m p encoding =
     (let format = encoding AND 0x0F in
      if format = DW_EH_PE_absptr then Inr (load m p 8, p + 8)
      else if format = DW_EH_PE_uleb128 then readULEB128 m p
      else if format = DW_EH_PE_udata2 then Inr (load m p 2, p + 2)
      else if format = DW_EH_PE_udata4 then Inr (load m p 4, p + 4)
      else if format = DW_EH_PE_udata8 then Inr (load m p 8, p + 8)
      else if format = DW_EH_PE_sdata2 then Inr (signed_take_bit 15 (load m p 2), p + 2)
      else if format = DW_EH_PE_sdata4 then Inr (signed_take_bit 31 (load m p 4), p + 4)
      else if format = DW_EH_PE_sdata8 then Inr (load m p 8, p + 8)
      else Inl Aborts)"

definition readEncodedPointer :: "(uptr \<Rightarrow> byte) \<Rightarrow> uptr \<Rightarrow> byte \<Rightarrow> fault + uptr \<times> uptr" where
  "readEncodedPointer m data encoding =
     (if encoding = DW_EH_PE_omit then Inr (0, data)
      else
        case encoded_value m data encoding of
          Inl e \<Rightarrow> Inl e
        | Inr (result, p) \<Rightarrow>
            let application = encoding AND 0x70 in
            if application \<noteq> DW_EH_PE_absptr \<and> application \<noteq> DW_EH_PE_pcrel then Inl Aborts
            else
              let result = (if application = DW_EH_PE_pcrel then result + data else result);
                  result = (if encoding AND DW_EH_PE_indirect \<noteq> 0 then load m result 8 else result)
              in Inr (result, p))"

section \<open>The call-site table\<close>

record call_site =
  site_start :: uptr
  site_length :: uptr
  site_pad :: uptr

text \<open>One entry and the address behind it.\<close>

definition read_call_site :: "(uptr \<Rightarrow> byte) \<Rightarrow> byte \<Rightarrow> uptr \<Rightarrow> fault + call_site \<times> uptr" where
  "read_call_site m callSiteEncoding p =
     (case readEncodedPointer m p callSiteEncoding of
        Inl e \<Rightarrow> Inl e
      | Inr (start, p) \<Rightarrow>
          (case readEncodedPointer m p callSiteEncoding of
             Inl e \<Rightarrow> Inl e
           | Inr (len, p) \<Rightarrow>
               (case readEncodedPointer m p callSiteEncoding of
                  Inl e \<Rightarrow> Inl e
                | Inr (landingPadOffset, p) \<Rightarrow>
                    (case readULEB128 m p of
                       Inl e \<Rightarrow> Inl e
                     | Inr (action, p) \<Rightarrow>
                         Inr (\<lparr>site_start = start, site_length = len, site_pad = landingPadOffset\<rparr>, p)))))"

text \<open>The walk of the table: the offset of the landing pad, 0 when there is none.\<close>

partial_function (option) find_landing_pad ::
    "(uptr \<Rightarrow> byte) \<Rightarrow> byte \<Rightarrow> uptr \<Rightarrow> uptr \<Rightarrow> uptr \<Rightarrow> (fault + uptr) option" where
  "find_landing_pad m callSiteEncoding callSiteTableEnd pcOffset p =
     (if p < callSiteTableEnd then
        let entry = read_call_site m callSiteEncoding p in
        if isl entry then Some (Inl (projl entry))
        else
          let (site, p) = projr entry in
          if site_pad site = 0 then find_landing_pad m callSiteEncoding callSiteTableEnd pcOffset p
          else if site_start site \<le> pcOffset \<and> pcOffset < site_start site + site_length site
          then Some (Inr (site_pad site))
          else find_landing_pad m callSiteEncoding callSiteTableEnd pcOffset p
      else Some (Inr 0))"

text \<open>The header: the call-site encoding, the bounds of the table.\<close>

definition read_lsda_header :: "(uptr \<Rightarrow> byte) \<Rightarrow> uptr \<Rightarrow> fault + byte \<times> uptr \<times> uptr" where
  "read_lsda_header m data =
     (let lpStartEncoding = m data; data = data + 1 in
      case (if lpStartEncoding \<noteq> DW_EH_PE_omit then readEncodedPointer m data lpStartEncoding else Inr (0, data)) of
        Inl e \<Rightarrow> Inl e
      | Inr (_, data) \<Rightarrow>
          let ttypeEncoding = m data; data = data + 1 in
          case (if ttypeEncoding \<noteq> DW_EH_PE_omit then readULEB128 m data else Inr (0, data)) of
            Inl e \<Rightarrow> Inl e
          | Inr (_, data) \<Rightarrow>
              let callSiteEncoding = m data; data = data + 1 in
              case readULEB128 m data of
                Inl e \<Rightarrow> Inl e
              | Inr (callSiteTableLength, callSiteTableStart) \<Rightarrow>
                  Inr (callSiteEncoding, callSiteTableStart, callSiteTableStart + callSiteTableLength))"

section \<open>The personality\<close>

definition continueUnwind :: "'c \<Rightarrow> reason \<times> 'c" where
  "continueUnwind context = (CONTINUE_UNWIND, context)"

text \<open>
  \<open>regno\<close> is \<open>__builtin_eh_return_data_regno\<close>; \<open>xo\<close> the address of the exception object.  The
  registers of the context are those of the unwinder's cursor.
\<close>

definition gcc_personality_v0 ::
    "('u, 'c, 'w) env \<Rightarrow> (uptr \<Rightarrow> byte) \<Rightarrow> (nat \<Rightarrow> int) \<Rightarrow> action \<Rightarrow> uptr \<Rightarrow> 'c \<Rightarrow> (fault + reason \<times> 'c) option" where
  "gcc_personality_v0 E m regno actions xo context =
     (if actions AND UA_SEARCH_PHASE \<noteq> 0 then Some (Inr (continueUnwind context))
      else
        let data = Unwind_GetLanguageSpecificData E context in
        if data = 0 then Some (Inr (continueUnwind context))
        else
          let pc = Unwind_GetIP E context - 1;
              funcStart = Unwind_GetRegionStart E context;
              pcOffset = pc - funcStart in
          case read_lsda_header m data of
            Inl e \<Rightarrow> Some (Inl e)
          | Inr (callSiteEncoding, p, callSiteTableEnd) \<Rightarrow>
              (case find_landing_pad m callSiteEncoding callSiteTableEnd pcOffset p of
                 None \<Rightarrow> None
               | Some (Inl e) \<Rightarrow> Some (Inl e)
               | Some (Inr landingPadOffset) \<Rightarrow>
                   if landingPadOffset \<noteq> 0 then
                     let context = Unwind_SetGR E context (regno 0) xo;
                         context = Unwind_SetGR E context (regno 1) 0;
                         landingPad = funcStart + landingPadOffset;
                         context = Unwind_SetIP E context landingPad
                     in Some (Inr (INSTALL_CONTEXT, context))
                   else Some (Inr (continueUnwind context))))"

section \<open>What the reader of variable-length numbers decodes\<close>

text \<open>The encoding of a number: seven bits in a byte, the high bit on all but the last.\<close>

function uleb128 :: "nat \<Rightarrow> byte list" where
  "uleb128 n = (if n < 128 then [of_nat n] else of_nat (n mod 128 + 128) # uleb128 (n div 128))"
  by pat_completeness auto
termination by (relation "measure id") auto

definition bytes_at :: "(uptr \<Rightarrow> byte) \<Rightarrow> uptr \<Rightarrow> byte list \<Rightarrow> bool" where
  "bytes_at m p bs \<longleftrightarrow> (\<forall>i<length bs. m (p + of_nat i) = bs ! i)"

lemma bytes_at_simps [simp]:
  "bytes_at m p []"
  "bytes_at m p (b # bs) \<longleftrightarrow> m p = b \<and> bytes_at m (p + 1) bs"
  by (auto simp: bytes_at_def All_less_Suc2 add.assoc)

declare uleb128.simps [simp del] uleb128_loop.simps [simp del]


lemma bit_word_of_nat: "bit (of_nat k :: uptr) i \<longleftrightarrow> i < 64 \<and> bit k i"
  by transfer (simp add: bit_take_bit_iff bit_of_nat_iff)

text \<open>One round of the loop adds seven bits above those read so far.\<close>

lemma uleb_digit:
  assumes "b < 128" "b * 2 ^ shift < 2 ^ 31" "r < 2 ^ shift" "shift < 32"
  shows "of_nat r OR scast (push_bit shift (of_nat b) :: 32 word) = (of_nat (r + b * 2 ^ shift) :: uptr)"
proof -
  have b: "push_bit shift (of_nat b) = (of_nat (b * 2 ^ shift) :: 32 word)"
    by (simp add: push_bit_eq_mult)
  have "sint (of_nat (b * 2 ^ shift) :: 32 word) = int (b * 2 ^ shift)"
    using assms(2) by (simp add: signed_of_nat signed_take_bit_int_eq_self_iff del: of_nat_mult)
  then have s: "scast (of_nat (b * 2 ^ shift) :: 32 word) = (of_nat (b * 2 ^ shift) :: uptr)"
    by (simp only: scast_eq of_int_of_nat_eq)
  have "\<not> bit (of_nat r :: uptr) i \<or> \<not> bit (of_nat (b * 2 ^ shift) :: uptr) i" for i
  proof (cases "i < shift")
    case True
    then have "\<not> bit (push_bit shift b) i" by (simp add: bit_push_bit_iff)
    then show ?thesis by (simp add: bit_word_of_nat push_bit_eq_mult del: of_nat_mult)
  next
    case False
    have "\<not> bit r i" using assms(3) False by (metis bit_iff_odd div_less even_zero not_less order_less_le_trans power_increasing numeral_le_one_iff one_le_numeral)
    then show ?thesis by (simp add: bit_word_of_nat)
  qed
  then show ?thesis unfolding b s by (simp add: disjunctive_add [symmetric])
qed


lemma uleb_low7: "(of_nat n :: byte) AND 0x7F = of_nat (n mod 128)"
proof -
  have "(of_nat n :: byte) AND 0x7F = take_bit 7 (of_nat n)"
    by (simp add: take_bit_eq_mask mask_eq_decr_exp)
  also have "\<dots> = of_nat (n mod 128)"
    by (simp add: word_unat_eq_iff unsigned_take_bit_eq unsigned_of_nat take_bit_eq_mod [where 'a = nat] mod_mod_cancel)
  finally show ?thesis .
qed

lemma ucast_digit: "k < 128 \<Longrightarrow> (ucast (of_nat k :: byte) :: 32 word) = of_nat k"
  by (simp add: word_unat_eq_iff unsigned_ucast_eq unsigned_of_nat take_bit_eq_mod [where 'a = nat])

lemma uleb_high: "n < 256 \<Longrightarrow> (of_nat n :: byte) AND 0x80 \<noteq> 0 \<longleftrightarrow> 128 \<le> n"
  using and_top_bit [where m = 7 and b = "of_nat n :: byte"] by (simp add: unat_of_nat)

lemma uleb_loop_correct:
  assumes "bytes_at m p (uleb128 n)" "n * 2 ^ shift < 2 ^ 31" "r < 2 ^ shift" "shift < 32"
  shows "uleb128_loop m p (of_nat r) shift = Inr (of_nat (r + n * 2 ^ shift), p + of_nat (length (uleb128 n)))"
  using assms
proof (induction n arbitrary: p r shift rule: uleb128.induct)
  case (1 n)
  let ?b = "n mod 128"
  have low: "?b * 2 ^ shift < 2 ^ 31" using 1(3) by (meson le_less_trans mod_less_eq_dividend mult_le_mono1)
  show ?case
  proof (cases "n < 128")
    case True
    have mp: "m p = of_nat n" using 1(2) True by (simp add: uleb128.simps [of n])
    have "m p AND 0x80 = 0" using uleb_high [of n] True by (simp add: mp)
    moreover have "(ucast (m p AND 0x7F) :: 32 word) = of_nat n"
      unfolding mp uleb_low7 using True by (simp add: ucast_digit)
    ultimately show ?thesis
      using uleb_digit [of n shift r] True 1(3,4,5) by (subst uleb128_loop.simps) (simp add: uleb128.simps [of n])
  next
    case False
    have mp: "m p = of_nat (?b + 128)" and rest: "bytes_at m (p + 1) (uleb128 (n div 128))"
      using 1(2) False by (simp_all add: uleb128.simps [of n])
    have high: "m p AND 0x80 \<noteq> 0" unfolding mp by (subst uleb_high) auto
    have "(ucast (m p AND 0x7F) :: 32 word) = of_nat ?b"
      unfolding mp uleb_low7 using ucast_digit [of ?b] by simp
    moreover have split: "r + ?b * 2 ^ shift + n div 128 * 2 ^ (shift + 7) = r + n * 2 ^ shift"
    proof -
      have "(?b + 128 * (n div 128)) * 2 ^ shift = n * 2 ^ shift" by (simp only: mod_mult_div_eq)
      moreover have "n div 128 * 2 ^ (shift + 7) = (128 * (n div 128)) * 2 ^ shift" by (simp add: power_add)
      ultimately show ?thesis by (simp only: distrib_right add.assoc)
    qed
    moreover have "n div 128 * 2 ^ (shift + 7) < 2 ^ 31"
      using split 1(3) by linarith
    moreover have "r + ?b * 2 ^ shift < 2 ^ (shift + 7)"
    proof -
      have "?b * 2 ^ shift \<le> 127 * 2 ^ shift" by (rule mult_le_mono1) simp
      moreover have "(2::nat) ^ (shift + 7) = 128 * 2 ^ shift" by (simp add: power_add)
      ultimately show ?thesis using 1(4) by linarith
    qed
    moreover have "shift + 7 < 32"
    proof (rule ccontr)
      assume "\<not> shift + 7 < 32"
      then have "(2::nat) ^ 25 \<le> 2 ^ shift" by (intro power_increasing) auto
      moreover have "128 * 2 ^ shift \<le> n * 2 ^ shift" using False by (intro mult_le_mono1) simp
      moreover have "(2::nat) ^ 31 < 128 * 2 ^ 25" by simp
      ultimately have "2 ^ 31 < n * 2 ^ shift" by (meson le_less_trans less_le_trans mult_le_mono2)
      then show False using 1(3) by simp
    qed
    ultimately show ?thesis
      using 1(1) [OF False rest, of "shift + 7" "r + ?b * 2 ^ shift"] uleb_digit [of ?b shift r] low 1(4,5) high False
      by (subst uleb128_loop.simps) (simp add: Let_def uleb128.simps [of n] add.assoc)
  qed
qed


text \<open>the reader of variable-length numbers inverts their encoding up to 31 bits.  Of a number below 2 to the 31
  encoded at an address it returns the number and the address behind it.\<close>

theorem readULEB128_roundtrip:
  assumes "n < 2 ^ 31" and "bytes_at m p (uleb128 n)"
  shows "readULEB128 m p = Inr (of_nat n, p + of_nat (length (uleb128 n)))"
  using uleb_loop_correct [of m p n 0 0] assms by (simp add: readULEB128_def)

theorem readULEB128_roundtrip_witness:
  "readULEB128 ((\<lambda>a. 0)(8 := 0xE5, 9 := 0x8E, 10 := 0x26)) 8 = Inr (624485, 11)"
  using readULEB128_roundtrip [of 624485 "(\<lambda>a. 0)(8 := 0xE5, 9 := 0x8E, 10 := 0x26)" 8]
  by (simp add: uleb128.simps)

text \<open>beyond 31 bits the reader goes wrong.  The digit of the fifth byte is shifted in a 32-bit \<open>int\<close> and
  sign-extended, so the encoding of 2 to the 31 is read as a number with all upper bits set, and an
  encoding of six bytes is a shift by 35, which is undefined.\<close>

theorem readULEB128_wide_numbers:
  "(bytes_at m p (uleb128 (2 ^ 31)) \<longrightarrow> readULEB128 m p = Inr (0xFFFFFFFF80000000, p + 5)) \<and>
   ((\<forall>i<5. m (p + of_nat i) AND 0x80 \<noteq> 0) \<longrightarrow> readULEB128 m p = Inl Undefined)"
proof (intro conjI impI)
  assume "bytes_at m p (uleb128 (2 ^ 31))"
  then have "m p = 0x80" "m (p + 1) = 0x80" "m (p + 2) = 0x80" "m (p + 3) = 0x80" "m (p + 4) = 8"
    by (simp_all add: uleb128.simps add.assoc)
  then show "readULEB128 m p = Inr (0xFFFFFFFF80000000, p + 5)"
    unfolding readULEB128_def
    by (subst uleb128_loop.simps, subst uleb128_loop.simps, subst uleb128_loop.simps, subst uleb128_loop.simps,
        subst uleb128_loop.simps) (simp add: add.assoc)
next
  assume "\<forall>i<5. m (p + of_nat i) AND 0x80 \<noteq> 0"
  then have "m p AND 0x80 \<noteq> 0" "m (p + 1) AND 0x80 \<noteq> 0" "m (p + 2) AND 0x80 \<noteq> 0" "m (p + 3) AND 0x80 \<noteq> 0"
      "m (p + 4) AND 0x80 \<noteq> 0"
    by (auto dest: spec [of _ 0] spec [of _ 1] spec [of _ 2] spec [of _ 3] spec [of _ 4])
  then show "readULEB128 m p = Inl Undefined"
    unfolding readULEB128_def
    by (subst uleb128_loop.simps, subst uleb128_loop.simps, subst uleb128_loop.simps, subst uleb128_loop.simps,
        subst uleb128_loop.simps, subst uleb128_loop.simps) (simp add: add.assoc)
qed

theorem readULEB128_wide_numbers_witness:
  "readULEB128 ((\<lambda>a. 0x80)(4 := 8)) 0 = Inr (0xFFFFFFFF80000000, 5) \<and> readULEB128 (\<lambda>a. 0x80) 0 = Inl Undefined"
  using readULEB128_wide_numbers [of "(\<lambda>a. 0x80)(4 := 8)" 0] readULEB128_wide_numbers [of "\<lambda>a. 0x80" 0]
  by (simp add: uleb128.simps add.assoc)

section \<open>The search of the call-site table\<close>

text \<open>The entries of a table, read one after the other up to its end.\<close>

fun sites_at :: "(uptr \<Rightarrow> byte) \<Rightarrow> byte \<Rightarrow> uptr \<Rightarrow> uptr \<Rightarrow> call_site list \<Rightarrow> bool" where
  "sites_at m enc e p [] \<longleftrightarrow> e \<le> p"
| "sites_at m enc e p (s # ss) \<longleftrightarrow>
     p < e \<and> (\<exists>p'. read_call_site m enc p = Inr (s, p') \<and> sites_at m enc e p' ss)"

definition covers :: "uptr \<Rightarrow> call_site \<Rightarrow> bool" where
  "covers pcOffset s \<longleftrightarrow>
     site_pad s \<noteq> 0 \<and> site_start s \<le> pcOffset \<and> pcOffset < site_start s + site_length s"

definition landing_pad :: "uptr \<Rightarrow> call_site list \<Rightarrow> uptr" where
  "landing_pad pcOffset ss = (case find (covers pcOffset) ss of None \<Rightarrow> 0 | Some s \<Rightarrow> site_pad s)"

lemma find_landing_pad_spec:
  "sites_at m enc e p ss \<Longrightarrow> find_landing_pad m enc e off p = Some (Inr (landing_pad off ss))"
proof (induction ss arbitrary: p)
  case Nil
  then have "\<not> p < e" by (simp add: not_less)
  then show ?case by (subst find_landing_pad.simps) (simp add: landing_pad_def)
next
  case (Cons s ss)
  then obtain p' where "p < e" "read_call_site m enc p = Inr (s, p')" "sites_at m enc e p' ss" by auto
  with Cons.IH show ?case by (subst find_landing_pad.simps) (simp add: landing_pad_def covers_def Let_def)
qed


text \<open>C37: the personality runs the cleanup of the innermost call site.  In the search phase it never stops; in the cleanup
  phase it installs the landing pad of the first entry of the table that has one and covers the
  current instruction, with the exception object and 0 in the two argument registers; with no
  such entry it lets the unwinding go on and leaves the context alone.\<close>

theorem gcc_personality_runs_cleanup:
  assumes "Unwind_GetLanguageSpecificData E c = data" and "data \<noteq> 0"
    and "read_lsda_header m data = Inr (enc, p, e)" and "sites_at m enc e p ss"
    and "lp = landing_pad (Unwind_GetIP E c - 1 - Unwind_GetRegionStart E c) ss"
  shows "(a AND UA_SEARCH_PHASE \<noteq> 0 \<longrightarrow> gcc_personality_v0 E m regno a xo c = Some (Inr (CONTINUE_UNWIND, c))) \<and>
     (a AND UA_SEARCH_PHASE = 0 \<longrightarrow> gcc_personality_v0 E m regno a xo c =
        Some (Inr (if lp = 0 then (CONTINUE_UNWIND, c)
          else (INSTALL_CONTEXT,
            set_reg E (set_reg E (set_reg E c (regno 0) xo) (regno 1) 0) UNW_REG_IP (Unwind_GetRegionStart E c + lp)))))"
  using assms find_landing_pad_spec [OF assms(4)]
  by (simp add: gcc_personality_v0_def continueUnwind_def Unwind_SetGR_def Unwind_SetIP_def Let_def)

text \<open>C15: a C frame takes part in unwinding as a frame that passes or cleans up, never as one that catches.  Where
  the unwinder calls this routine as the personality of a frame, the frame obeys the protocol of the
  two phases in the part that the table gives it.\<close>

theorem gcc_personality_obeys_protocol:
  assumes "get_proc_info E c = Some fi" and "handler fi = h" and "h \<noteq> 0" and "lsda fi \<noteq> 0"
    and "\<forall>a x w. \<exists>r. gcc_personality_v0 E m regno a xo c = Some (Inr r) \<and> personality E h a x c w = (fst r, x, snd r, w)"
    and "read_lsda_header m (lsda fi) = Inr (enc, p, e)" and "sites_at m enc e p ss"
    and "lp = landing_pad (Unwind_GetIP E c - 1 - Unwind_GetRegionStart E c) ss"
  shows "obeys E \<lparr>cursor_of = c,
     landing = set_reg E (set_reg E (set_reg E c (regno 0) xo) (regno 1) 0) UNW_REG_IP (Unwind_GetRegionStart E c + lp),
     role = (if lp = 0 then Passing else Cleanup)\<rparr>"
proof -
  have l: "Unwind_GetLanguageSpecificData E c = lsda fi" using assms(1) by (simp add: Unwind_GetLanguageSpecificData_def)
  have pr: "gcc_personality_v0 E m regno a xo c = Some (Inr r) \<Longrightarrow> personality E h a x c w = (fst r, x, snd r, w)" for a r x w
    using assms(5) by (metis option.inject sum.inject(2))
  have s: "gcc_personality_v0 E m regno UA_SEARCH_PHASE xo c = Some (Inr (CONTINUE_UNWIND, c))"
    by (simp add: gcc_personality_v0_def continueUnwind_def action_defs)
  have "gcc_personality_v0 E m regno UA_CLEANUP_PHASE xo c =
        Some (Inr (if lp = 0 then (CONTINUE_UNWIND, c)
          else (INSTALL_CONTEXT,
            set_reg E (set_reg E (set_reg E c (regno 0) xo) (regno 1) 0) UNW_REG_IP (Unwind_GetRegionStart E c + lp))))"
    using assms(4,6,8) l find_landing_pad_spec [OF assms(7)]
    by (simp add: gcc_personality_v0_def continueUnwind_def Unwind_SetGR_def Unwind_SetIP_def Let_def action_defs)
  from pr [OF s] pr [OF this] show ?thesis
    using assms(1-3) by (auto simp: obeys_def answers_def)
qed

section \<open>Termination of the search\<close>

lemma uleb_advance:
  "uleb128_loop m p r shift = Inr (v, p') \<Longrightarrow> shift < 32 \<Longrightarrow> \<exists>k. 0 < k \<and> 7 * k + shift \<le> 38 \<and> p' = p + of_nat k"
proof (induction m p r shift rule: uleb128_loop.induct)
  case (1 m p r shift)
  show ?case
  proof (cases "m p AND 0x80 = 0")
    case True
    with 1(2,3) have "p' = p + of_nat 1" by (subst (asm) uleb128_loop.simps) simp
    with 1(3) show ?thesis by (intro exI [of _ 1]) simp
  next
    case False
    let ?r = "r OR scast (push_bit shift (ucast (m p AND 0x7F)) :: 32 word)"
    have rest: "uleb128_loop m (p + 1) ?r (shift + 7) = Inr (v, p')"
      using 1(2,3) False by (subst (asm) uleb128_loop.simps) simp
    have "shift + 7 < 32" using rest by (subst (asm) uleb128_loop.simps) (auto split: if_splits)
    then obtain k where "0 < k" "7 * k + (shift + 7) \<le> 38" "p' = p + 1 + of_nat k"
      using 1(1) [of "m p" "p + 1" ?r "shift + 7"] 1(3) False rest by auto
    then show ?thesis by (intro exI [of _ "Suc k"]) (simp add: add.assoc)
  qed
qed


lemma readULEB128_advance: "readULEB128 m p = Inr (v, p') \<Longrightarrow> \<exists>k. 0 < k \<and> k \<le> 5 \<and> p' = p + of_nat k"
  using uleb_advance [of m p 0 0 v p'] unfolding readULEB128_def by fastforce

lemma encoded_value_advance: "encoded_value m p enc = Inr (v, p') \<Longrightarrow> \<exists>k\<le>8. p' = p + of_nat k"
proof -
  assume a: "encoded_value m p enc = Inr (v, p')"
  then have "readULEB128 m p = Inr (v, p') \<or> p' = p + 2 \<or> p' = p + 4 \<or> p' = p + 8"
    by (auto simp: encoded_value_def Let_def split: if_splits)
  moreover have "p' = p + 2 \<Longrightarrow> p' = p + of_nat 2" "p' = p + 4 \<Longrightarrow> p' = p + of_nat 4" "p' = p + 8 \<Longrightarrow> p' = p + of_nat 8"
    by simp_all
  moreover have ?thesis if "p' = p + of_nat k" "k \<in> {2, 4, 8}" for k
    using that by (intro exI [of _ k]) auto
  moreover have ?thesis if r: "readULEB128 m p = Inr (v, p')"
  proof -
    obtain k where "k \<le> 5" "p' = p + of_nat k" using readULEB128_advance [OF r] by blast
    then show ?thesis by (intro exI [of _ k]) simp
  qed
  ultimately show ?thesis by blast
qed

lemma readEncodedPointer_advance: "readEncodedPointer m p enc = Inr (v, p') \<Longrightarrow> \<exists>k\<le>8. p' = p + of_nat k"
proof (cases "enc = DW_EH_PE_omit")
  case True
  assume "readEncodedPointer m p enc = Inr (v, p')"
  with True show ?thesis by (intro exI [of _ 0]) (simp add: readEncodedPointer_def)
next
  case False
  assume "readEncodedPointer m p enc = Inr (v, p')"
  with False obtain r where "encoded_value m p enc = Inr (r, p')"
    by (auto simp: readEncodedPointer_def Let_def split: sum.splits if_splits)
  then show ?thesis by (rule encoded_value_advance)
qed

lemma read_call_site_advance:
  "read_call_site m enc p = Inr (s, p') \<Longrightarrow> \<exists>k. 0 < k \<and> k \<le> 29 \<and> p' = p + of_nat k"
proof -
  assume "read_call_site m enc p = Inr (s, p')"
  then obtain v1 p1 v2 p2 v3 p3 v4 where r: "readEncodedPointer m p enc = Inr (v1, p1)"
      "readEncodedPointer m p1 enc = Inr (v2, p2)" "readEncodedPointer m p2 enc = Inr (v3, p3)"
      "readULEB128 m p3 = Inr (v4, p')"
    by (auto simp: read_call_site_def split: sum.splits)
  obtain k1 k2 k3 k4 where "k1 \<le> 8" "k2 \<le> 8" "k3 \<le> 8" "0 < k4" "k4 \<le> 5"
      "p1 = p + of_nat k1" "p2 = p1 + of_nat k2" "p3 = p2 + of_nat k3" "p' = p3 + of_nat k4"
    using readEncodedPointer_advance [OF r(1)] readEncodedPointer_advance [OF r(2)]
      readEncodedPointer_advance [OF r(3)] readULEB128_advance [OF r(4)] by blast
  then show ?thesis by (intro exI [of _ "k1 + k2 + k3 + k4"]) (simp add: add.assoc)
qed

text \<open>C38: the search of the table ends.  If the table does not lie within the last 32 bytes of the address space, every
  entry read moves the pointer forward without wrapping, and the personality returns or faults,
  whatever the bytes are.\<close>

theorem landing_pad_search_ends:
  assumes "unat e + 32 < 2 ^ 64"
  shows "find_landing_pad m enc e off p \<noteq> None"
proof (induction "2 ^ 64 - unat p" arbitrary: p rule: less_induct)
  case less
  show ?case
  proof (cases "p < e \<and> \<not> isl (read_call_site m enc p)")
    case False
    then show ?thesis by (subst find_landing_pad.simps) auto
  next
    case True
    then obtain s p' where r: "read_call_site m enc p = Inr (s, p')" by (cases "read_call_site m enc p") auto
    obtain k where k: "0 < k" "k \<le> 29" "p' = p + of_nat k" using read_call_site_advance [OF r] by blast
    have "unat p + k < 2 ^ 64" using True k assms by (simp add: word_less_nat_alt)
    then have "unat p' = unat p + k" using k by (simp add: unat_word_ariths unat_of_nat)
    then have "2 ^ 64 - unat p' < 2 ^ 64 - unat p" using k \<open>unat p + k < 2 ^ 64\<close> by linarith
    from less [OF this] show ?thesis using r by (subst find_landing_pad.simps) (auto simp: Let_def)
  qed
qed

theorem landing_pad_search_ends_witness: "find_landing_pad (\<lambda>a. 0) DW_EH_PE_udata4 100 3 10 \<noteq> None"
  using landing_pad_search_ends [of 100 "\<lambda>a. 0" DW_EH_PE_udata4 3 10] by simp

section \<open>A frame with one cleanup\<close>

text \<open>At \<open>0x1000\<close>: no landing pad base, no types, entries in variable-length numbers, one entry.\<close>

definition demo_lsda :: "uptr \<Rightarrow> byte" where
  "demo_lsda = (\<lambda>a. 0)(0x1000 := 0xFF, 0x1001 := 0xFF, 0x1002 := 1, 0x1003 := 4, 0x1004 := 0, 0x1005 := 16, 0x1006 := 32, 0x1007 := 0)"

definition c_env :: "(nat, nat, unit) env" where
  "c_env = (demo_env False)\<lparr>
     get_proc_info := (\<lambda>c. Some \<lparr>start_ip = 0x100, lsda = 0x1000, handler = 64, unwind_info = 0, extra = 0\<rparr>),
     get_reg := (\<lambda>c r. 0x105), set_reg := (\<lambda>c r v. c + 10),
     personality := (\<lambda>p a x c w. (if a AND UA_SEARCH_PHASE \<noteq> 0 then CONTINUE_UNWIND else INSTALL_CONTEXT, x,
        if a AND UA_SEARCH_PHASE \<noteq> 0 then c else c + 10 + 10 + 10, w))\<rparr>"

lemma demo_table:
  "read_lsda_header demo_lsda 0x1000 = Inr (1, 0x1004, 0x1008)"
  "sites_at demo_lsda 1 0x1008 0x1004 [\<lparr>site_start = 0, site_length = 16, site_pad = 32\<rparr>]"
  by (simp_all add: read_lsda_header_def DW_EH_PE_defs demo_lsda_def readULEB128_def uleb128_loop.simps Let_def
      read_call_site_def readEncodedPointer_def encoded_value_def)

lemma demo_context:
  "Unwind_GetLanguageSpecificData c_env c = 0x1000" "Unwind_GetIP c_env c = 0x105" "Unwind_GetRegionStart c_env c = 0x100"
  "landing_pad (Unwind_GetIP c_env c - 1 - Unwind_GetRegionStart c_env c) [\<lparr>site_start = 0, site_length = 16, site_pad = 32\<rparr>] = 32"
  by (simp_all add: c_env_def Unwind_GetLanguageSpecificData_def Unwind_GetIP_def Unwind_GetRegionStart_def landing_pad_def covers_def)

lemma demo_personality:
  "gcc_personality_v0 c_env demo_lsda regno a xo c =
     Some (Inr (if a AND UA_SEARCH_PHASE \<noteq> 0 then (CONTINUE_UNWIND, c) else (INSTALL_CONTEXT, c + 10 + 10 + 10)))"
  using find_landing_pad_spec [OF demo_table(2), of "Unwind_GetIP c_env c - 1 - Unwind_GetRegionStart c_env c"]
  by (simp add: gcc_personality_v0_def demo_context demo_table continueUnwind_def Let_def landing_pad_def covers_def)
    (simp add: Unwind_SetGR_def Unwind_SetIP_def c_env_def)

theorem gcc_personality_runs_cleanup_witness:
  "gcc_personality_v0 c_env demo_lsda (\<lambda>i. int i) UA_CLEANUP_PHASE 0x77 3 = Some (Inr (INSTALL_CONTEXT, 33))"
  using gcc_personality_runs_cleanup [OF demo_context(1) _ demo_table demo_context(4) [symmetric],
      where a = UA_CLEANUP_PHASE and regno = "\<lambda>i. int i" and xo = "0x77" and c = 3]
  by (simp add: action_defs) (simp add: c_env_def)

theorem gcc_personality_obeys_protocol_witness:
  "obeys c_env \<lparr>cursor_of = 3, landing = 33, role = Cleanup\<rparr>"
proof -
  let ?fi = "\<lparr>start_ip = 0x100, lsda = 0x1000, handler = 64, unwind_info = 0, extra = 0\<rparr>"
  have info: "get_proc_info c_env 3 = Some ?fi" and set: "set_reg c_env c r v = c + 10" for c r v
    by (simp_all add: c_env_def)
  have pers: "\<forall>a x w. \<exists>r. gcc_personality_v0 c_env demo_lsda (\<lambda>i. int i) a 0x77 3 = Some (Inr r) \<and>
      personality c_env 64 a x 3 w = (fst r, x, snd r, w)"
    by (simp add: demo_personality) (simp add: c_env_def)
  have lsda: "lsda ?fi \<noteq> 0" "handler ?fi = 64" "read_lsda_header demo_lsda (lsda ?fi) = Inr (1, 0x1004, 0x1008)"
    using demo_table(1) by simp_all
  have "(64::uptr) \<noteq> 0" by simp
  from gcc_personality_obeys_protocol [OF info lsda(2) this lsda(1) pers lsda(3) demo_table(2) demo_context(4) [of 3, symmetric]]
  show ?thesis by (simp add: set)
qed

end
