(* ===== verification/X86Types.thy ===== *)
theory X86Types
  imports Prelude
begin

text \<open>
  The enumerations of \<^verbatim>\<open>cpu_model/x86.c\<close>.  Processor types and subtypes are datatypes with the
  constructors of the source and their numbers; a feature is the number of its bit.
\<close>

section \<open>Processor types\<close>

datatype ProcessorTypes =
    INTEL_BONNELL | INTEL_CORE2 | INTEL_COREI7 | AMDFAM10H | AMDFAM15H | INTEL_SILVERMONT | INTEL_KNL
    | AMD_BTVER1 | AMD_BTVER2 | AMDFAM17H | INTEL_KNM | INTEL_GOLDMONT | INTEL_GOLDMONT_PLUS | INTEL_TREMONT
    | AMDFAM19H | ZHAOXIN_FAM7H | INTEL_SIERRAFOREST | INTEL_GRANDRIDGE | INTEL_CLEARWATERFOREST | AMDFAM1AH
    | CPU_TYPE_MAX

primrec type_code :: "ProcessorTypes \<Rightarrow> nat" where
  "type_code INTEL_BONNELL = 1"
| "type_code INTEL_CORE2 = 2"
| "type_code INTEL_COREI7 = 3"
| "type_code AMDFAM10H = 4"
| "type_code AMDFAM15H = 5"
| "type_code INTEL_SILVERMONT = 6"
| "type_code INTEL_KNL = 7"
| "type_code AMD_BTVER1 = 8"
| "type_code AMD_BTVER2 = 9"
| "type_code AMDFAM17H = 10"
| "type_code INTEL_KNM = 11"
| "type_code INTEL_GOLDMONT = 12"
| "type_code INTEL_GOLDMONT_PLUS = 13"
| "type_code INTEL_TREMONT = 14"
| "type_code AMDFAM19H = 15"
| "type_code ZHAOXIN_FAM7H = 16"
| "type_code INTEL_SIERRAFOREST = 17"
| "type_code INTEL_GRANDRIDGE = 18"
| "type_code INTEL_CLEARWATERFOREST = 19"
| "type_code AMDFAM1AH = 20"
| "type_code CPU_TYPE_MAX = 21"

datatype ProcessorSubtypes =
    INTEL_COREI7_NEHALEM | INTEL_COREI7_WESTMERE | INTEL_COREI7_SANDYBRIDGE | AMDFAM10H_BARCELONA
    | AMDFAM10H_SHANGHAI | AMDFAM10H_ISTANBUL | AMDFAM15H_BDVER1 | AMDFAM15H_BDVER2 | AMDFAM15H_BDVER3
    | AMDFAM15H_BDVER4 | AMDFAM17H_ZNVER1 | INTEL_COREI7_IVYBRIDGE | INTEL_COREI7_HASWELL
    | INTEL_COREI7_BROADWELL | INTEL_COREI7_SKYLAKE | INTEL_COREI7_SKYLAKE_AVX512 | INTEL_COREI7_CANNONLAKE
    | INTEL_COREI7_ICELAKE_CLIENT | INTEL_COREI7_ICELAKE_SERVER | AMDFAM17H_ZNVER2 | INTEL_COREI7_CASCADELAKE
    | INTEL_COREI7_TIGERLAKE | INTEL_COREI7_COOPERLAKE | INTEL_COREI7_SAPPHIRERAPIDS | INTEL_COREI7_ALDERLAKE
    | AMDFAM19H_ZNVER3 | INTEL_COREI7_ROCKETLAKE | ZHAOXIN_FAM7H_LUJIAZUI | AMDFAM19H_ZNVER4
    | INTEL_COREI7_GRANITERAPIDS | INTEL_COREI7_GRANITERAPIDS_D | INTEL_COREI7_ARROWLAKE
    | INTEL_COREI7_ARROWLAKE_S | INTEL_COREI7_PANTHERLAKE | AMDFAM1AH_ZNVER5 | INTEL_COREI7_DIAMONDRAPIDS
    | INTEL_COREI7_NOVALAKE | CPU_SUBTYPE_MAX

primrec subtype_code :: "ProcessorSubtypes \<Rightarrow> nat" where
  "subtype_code INTEL_COREI7_NEHALEM = 1"
| "subtype_code INTEL_COREI7_WESTMERE = 2"
| "subtype_code INTEL_COREI7_SANDYBRIDGE = 3"
| "subtype_code AMDFAM10H_BARCELONA = 4"
| "subtype_code AMDFAM10H_SHANGHAI = 5"
| "subtype_code AMDFAM10H_ISTANBUL = 6"
| "subtype_code AMDFAM15H_BDVER1 = 7"
| "subtype_code AMDFAM15H_BDVER2 = 8"
| "subtype_code AMDFAM15H_BDVER3 = 9"
| "subtype_code AMDFAM15H_BDVER4 = 10"
| "subtype_code AMDFAM17H_ZNVER1 = 11"
| "subtype_code INTEL_COREI7_IVYBRIDGE = 12"
| "subtype_code INTEL_COREI7_HASWELL = 13"
| "subtype_code INTEL_COREI7_BROADWELL = 14"
| "subtype_code INTEL_COREI7_SKYLAKE = 15"
| "subtype_code INTEL_COREI7_SKYLAKE_AVX512 = 16"
| "subtype_code INTEL_COREI7_CANNONLAKE = 17"
| "subtype_code INTEL_COREI7_ICELAKE_CLIENT = 18"
| "subtype_code INTEL_COREI7_ICELAKE_SERVER = 19"
| "subtype_code AMDFAM17H_ZNVER2 = 20"
| "subtype_code INTEL_COREI7_CASCADELAKE = 21"
| "subtype_code INTEL_COREI7_TIGERLAKE = 22"
| "subtype_code INTEL_COREI7_COOPERLAKE = 23"
| "subtype_code INTEL_COREI7_SAPPHIRERAPIDS = 24"
| "subtype_code INTEL_COREI7_ALDERLAKE = 25"
| "subtype_code AMDFAM19H_ZNVER3 = 26"
| "subtype_code INTEL_COREI7_ROCKETLAKE = 27"
| "subtype_code ZHAOXIN_FAM7H_LUJIAZUI = 28"
| "subtype_code AMDFAM19H_ZNVER4 = 29"
| "subtype_code INTEL_COREI7_GRANITERAPIDS = 30"
| "subtype_code INTEL_COREI7_GRANITERAPIDS_D = 31"
| "subtype_code INTEL_COREI7_ARROWLAKE = 32"
| "subtype_code INTEL_COREI7_ARROWLAKE_S = 33"
| "subtype_code INTEL_COREI7_PANTHERLAKE = 34"
| "subtype_code AMDFAM1AH_ZNVER5 = 35"
| "subtype_code INTEL_COREI7_DIAMONDRAPIDS = 36"
| "subtype_code INTEL_COREI7_NOVALAKE = 37"
| "subtype_code CPU_SUBTYPE_MAX = 38"

section \<open>Features\<close>

named_theorems feature_number

definition FEATURE_CMOV :: nat where [feature_number]: "FEATURE_CMOV = 0"
definition FEATURE_MMX :: nat where [feature_number]: "FEATURE_MMX = 1"
definition FEATURE_POPCNT :: nat where [feature_number]: "FEATURE_POPCNT = 2"
definition FEATURE_SSE :: nat where [feature_number]: "FEATURE_SSE = 3"
definition FEATURE_SSE2 :: nat where [feature_number]: "FEATURE_SSE2 = 4"
definition FEATURE_SSE3 :: nat where [feature_number]: "FEATURE_SSE3 = 5"
definition FEATURE_SSSE3 :: nat where [feature_number]: "FEATURE_SSSE3 = 6"
definition FEATURE_SSE4_1 :: nat where [feature_number]: "FEATURE_SSE4_1 = 7"
definition FEATURE_SSE4_2 :: nat where [feature_number]: "FEATURE_SSE4_2 = 8"
definition FEATURE_AVX :: nat where [feature_number]: "FEATURE_AVX = 9"
definition FEATURE_AVX2 :: nat where [feature_number]: "FEATURE_AVX2 = 10"
definition FEATURE_SSE4_A :: nat where [feature_number]: "FEATURE_SSE4_A = 11"
definition FEATURE_FMA4 :: nat where [feature_number]: "FEATURE_FMA4 = 12"
definition FEATURE_XOP :: nat where [feature_number]: "FEATURE_XOP = 13"
definition FEATURE_FMA :: nat where [feature_number]: "FEATURE_FMA = 14"
definition FEATURE_AVX512F :: nat where [feature_number]: "FEATURE_AVX512F = 15"
definition FEATURE_BMI :: nat where [feature_number]: "FEATURE_BMI = 16"
definition FEATURE_BMI2 :: nat where [feature_number]: "FEATURE_BMI2 = 17"
definition FEATURE_AES :: nat where [feature_number]: "FEATURE_AES = 18"
definition FEATURE_PCLMUL :: nat where [feature_number]: "FEATURE_PCLMUL = 19"
definition FEATURE_AVX512VL :: nat where [feature_number]: "FEATURE_AVX512VL = 20"
definition FEATURE_AVX512BW :: nat where [feature_number]: "FEATURE_AVX512BW = 21"
definition FEATURE_AVX512DQ :: nat where [feature_number]: "FEATURE_AVX512DQ = 22"
definition FEATURE_AVX512CD :: nat where [feature_number]: "FEATURE_AVX512CD = 23"
definition FEATURE_AVX512VBMI :: nat where [feature_number]: "FEATURE_AVX512VBMI = 26"
definition FEATURE_AVX512IFMA :: nat where [feature_number]: "FEATURE_AVX512IFMA = 27"
definition FEATURE_AVX512VPOPCNTDQ :: nat where [feature_number]: "FEATURE_AVX512VPOPCNTDQ = 30"
definition FEATURE_AVX512VBMI2 :: nat where [feature_number]: "FEATURE_AVX512VBMI2 = 31"
definition FEATURE_GFNI :: nat where [feature_number]: "FEATURE_GFNI = 32"
definition FEATURE_VPCLMULQDQ :: nat where [feature_number]: "FEATURE_VPCLMULQDQ = 33"
definition FEATURE_AVX512VNNI :: nat where [feature_number]: "FEATURE_AVX512VNNI = 34"
definition FEATURE_AVX512BITALG :: nat where [feature_number]: "FEATURE_AVX512BITALG = 35"
definition FEATURE_AVX512BF16 :: nat where [feature_number]: "FEATURE_AVX512BF16 = 36"
definition FEATURE_AVX512VP2INTERSECT :: nat where [feature_number]: "FEATURE_AVX512VP2INTERSECT = 37"
definition FEATURE_ADX :: nat where [feature_number]: "FEATURE_ADX = 40"
definition FEATURE_CLDEMOTE :: nat where [feature_number]: "FEATURE_CLDEMOTE = 42"
definition FEATURE_CLFLUSHOPT :: nat where [feature_number]: "FEATURE_CLFLUSHOPT = 43"
definition FEATURE_CLWB :: nat where [feature_number]: "FEATURE_CLWB = 44"
definition FEATURE_CLZERO :: nat where [feature_number]: "FEATURE_CLZERO = 45"
definition FEATURE_CMPXCHG16B :: nat where [feature_number]: "FEATURE_CMPXCHG16B = 46"
definition FEATURE_ENQCMD :: nat where [feature_number]: "FEATURE_ENQCMD = 48"
definition FEATURE_F16C :: nat where [feature_number]: "FEATURE_F16C = 49"
definition FEATURE_FSGSBASE :: nat where [feature_number]: "FEATURE_FSGSBASE = 50"
definition FEATURE_LAHF_LM :: nat where [feature_number]: "FEATURE_LAHF_LM = 54"
definition FEATURE_LM :: nat where [feature_number]: "FEATURE_LM = 55"
definition FEATURE_LWP :: nat where [feature_number]: "FEATURE_LWP = 56"
definition FEATURE_LZCNT :: nat where [feature_number]: "FEATURE_LZCNT = 57"
definition FEATURE_MOVBE :: nat where [feature_number]: "FEATURE_MOVBE = 58"
definition FEATURE_MOVDIR64B :: nat where [feature_number]: "FEATURE_MOVDIR64B = 59"
definition FEATURE_MOVDIRI :: nat where [feature_number]: "FEATURE_MOVDIRI = 60"
definition FEATURE_MWAITX :: nat where [feature_number]: "FEATURE_MWAITX = 61"
definition FEATURE_PCONFIG :: nat where [feature_number]: "FEATURE_PCONFIG = 63"
definition FEATURE_PKU :: nat where [feature_number]: "FEATURE_PKU = 64"
definition FEATURE_PRFCHW :: nat where [feature_number]: "FEATURE_PRFCHW = 66"
definition FEATURE_PTWRITE :: nat where [feature_number]: "FEATURE_PTWRITE = 67"
definition FEATURE_RDPID :: nat where [feature_number]: "FEATURE_RDPID = 68"
definition FEATURE_RDRND :: nat where [feature_number]: "FEATURE_RDRND = 69"
definition FEATURE_RDSEED :: nat where [feature_number]: "FEATURE_RDSEED = 70"
definition FEATURE_RTM :: nat where [feature_number]: "FEATURE_RTM = 71"
definition FEATURE_SERIALIZE :: nat where [feature_number]: "FEATURE_SERIALIZE = 72"
definition FEATURE_SGX :: nat where [feature_number]: "FEATURE_SGX = 73"
definition FEATURE_SHA :: nat where [feature_number]: "FEATURE_SHA = 74"
definition FEATURE_SHSTK :: nat where [feature_number]: "FEATURE_SHSTK = 75"
definition FEATURE_TBM :: nat where [feature_number]: "FEATURE_TBM = 76"
definition FEATURE_TSXLDTRK :: nat where [feature_number]: "FEATURE_TSXLDTRK = 77"
definition FEATURE_VAES :: nat where [feature_number]: "FEATURE_VAES = 78"
definition FEATURE_WAITPKG :: nat where [feature_number]: "FEATURE_WAITPKG = 79"
definition FEATURE_WBNOINVD :: nat where [feature_number]: "FEATURE_WBNOINVD = 80"
definition FEATURE_XSAVE :: nat where [feature_number]: "FEATURE_XSAVE = 81"
definition FEATURE_XSAVEC :: nat where [feature_number]: "FEATURE_XSAVEC = 82"
definition FEATURE_XSAVEOPT :: nat where [feature_number]: "FEATURE_XSAVEOPT = 83"
definition FEATURE_XSAVES :: nat where [feature_number]: "FEATURE_XSAVES = 84"
definition FEATURE_AMX_TILE :: nat where [feature_number]: "FEATURE_AMX_TILE = 85"
definition FEATURE_AMX_INT8 :: nat where [feature_number]: "FEATURE_AMX_INT8 = 86"
definition FEATURE_AMX_BF16 :: nat where [feature_number]: "FEATURE_AMX_BF16 = 87"
definition FEATURE_UINTR :: nat where [feature_number]: "FEATURE_UINTR = 88"
definition FEATURE_HRESET :: nat where [feature_number]: "FEATURE_HRESET = 89"
definition FEATURE_KL :: nat where [feature_number]: "FEATURE_KL = 90"
definition FEATURE_WIDEKL :: nat where [feature_number]: "FEATURE_WIDEKL = 92"
definition FEATURE_AVXVNNI :: nat where [feature_number]: "FEATURE_AVXVNNI = 93"
definition FEATURE_AVX512FP16 :: nat where [feature_number]: "FEATURE_AVX512FP16 = 94"
definition FEATURE_X86_64_BASELINE :: nat where [feature_number]: "FEATURE_X86_64_BASELINE = 95"
definition FEATURE_X86_64_V2 :: nat where [feature_number]: "FEATURE_X86_64_V2 = 96"
definition FEATURE_X86_64_V3 :: nat where [feature_number]: "FEATURE_X86_64_V3 = 97"
definition FEATURE_X86_64_V4 :: nat where [feature_number]: "FEATURE_X86_64_V4 = 98"
definition FEATURE_AVXIFMA :: nat where [feature_number]: "FEATURE_AVXIFMA = 99"
definition FEATURE_AVXVNNIINT8 :: nat where [feature_number]: "FEATURE_AVXVNNIINT8 = 100"
definition FEATURE_AVXNECONVERT :: nat where [feature_number]: "FEATURE_AVXNECONVERT = 101"
definition FEATURE_CMPCCXADD :: nat where [feature_number]: "FEATURE_CMPCCXADD = 102"
definition FEATURE_AMX_FP16 :: nat where [feature_number]: "FEATURE_AMX_FP16 = 103"
definition FEATURE_PREFETCHI :: nat where [feature_number]: "FEATURE_PREFETCHI = 104"
definition FEATURE_RAOINT :: nat where [feature_number]: "FEATURE_RAOINT = 105"
definition FEATURE_AMX_COMPLEX :: nat where [feature_number]: "FEATURE_AMX_COMPLEX = 106"
definition FEATURE_AVXVNNIINT16 :: nat where [feature_number]: "FEATURE_AVXVNNIINT16 = 107"
definition FEATURE_SM3 :: nat where [feature_number]: "FEATURE_SM3 = 108"
definition FEATURE_SHA512 :: nat where [feature_number]: "FEATURE_SHA512 = 109"
definition FEATURE_SM4 :: nat where [feature_number]: "FEATURE_SM4 = 110"
definition FEATURE_APXF :: nat where [feature_number]: "FEATURE_APXF = 111"
definition FEATURE_USERMSR :: nat where [feature_number]: "FEATURE_USERMSR = 112"
definition FEATURE_AVX10_1 :: nat where [feature_number]: "FEATURE_AVX10_1 = 114"
definition FEATURE_AVX10_2 :: nat where [feature_number]: "FEATURE_AVX10_2 = 116"
definition FEATURE_AMX_AVX512 :: nat where [feature_number]: "FEATURE_AMX_AVX512 = 117"
definition FEATURE_AMX_TF32 :: nat where [feature_number]: "FEATURE_AMX_TF32 = 118"
definition FEATURE_AMX_FP8 :: nat where [feature_number]: "FEATURE_AMX_FP8 = 120"
definition FEATURE_MOVRS :: nat where [feature_number]: "FEATURE_MOVRS = 121"
definition FEATURE_AMX_MOVRS :: nat where [feature_number]: "FEATURE_AMX_MOVRS = 122"
definition CPU_FEATURE_MAX :: nat where [feature_number]: "CPU_FEATURE_MAX = 123"

end
