(* ===== verification/X86Detect.thy ===== *)
theory X86Detect
  imports X86Types
begin

text \<open>
  Family, model and processor type of \<^verbatim>\<open>cpu_model/x86.c\<close>: the decoding of the signature that
  cpuid returns, and the tables of Intel and AMD models.  The switch over the models of
  Intel family 6 is cut into four definitions in the order of the source.
\<close>

unbundle bit_operations_syntax

section \<open>The feature words\<close>

definition testFeature :: "32 word list \<Rightarrow> nat \<Rightarrow> bool" where
  "testFeature Features F \<longleftrightarrow> Features ! (F div 32) AND push_bit (F mod 32) 1 \<noteq> 0"

section \<open>Family and model\<close>

definition detectX86FamilyModel :: "32 word \<Rightarrow> 32 word \<times> 32 word" where
  "detectX86FamilyModel EAX =
     (let Family = drop_bit 8 EAX AND 0xF;
          Model = drop_bit 4 EAX AND 0xF in
      if Family = 6 \<or> Family = 0xF then
        let Family' = (if Family = 0xF then Family + (drop_bit 20 EAX AND 0xFF) else Family);
            Model' = Model + push_bit 4 (drop_bit 16 EAX AND 0xF)
        in (Family', Model')
      else (Family, Model))"

section \<open>Intel\<close>

text \<open>The processor name, its type and subtype; the last constructor of an enumeration is "none".\<close>

type_synonym decoded = "string option \<times> ProcessorTypes \<times> ProcessorSubtypes"

definition intel_core_models :: "32 word \<Rightarrow> decoded \<Rightarrow> decoded" where
  "intel_core_models Model other =
    (if Model \<in> {0x0f, 0x16} then
       (Some ''core2'', INTEL_CORE2, CPU_SUBTYPE_MAX)
     else if Model \<in> {0x17, 0x1d} then
       (Some ''penryn'', INTEL_CORE2, CPU_SUBTYPE_MAX)
     else if Model \<in> {0x1a, 0x1e, 0x1f, 0x2e} then
       (Some ''nehalem'', INTEL_COREI7, INTEL_COREI7_NEHALEM)
     else if Model \<in> {0x25, 0x2c, 0x2f} then
       (Some ''westmere'', INTEL_COREI7, INTEL_COREI7_WESTMERE)
     else if Model \<in> {0x2a, 0x2d} then
       (Some ''sandybridge'', INTEL_COREI7, INTEL_COREI7_SANDYBRIDGE)
     else if Model \<in> {0x3a, 0x3e} then
       (Some ''ivybridge'', INTEL_COREI7, INTEL_COREI7_IVYBRIDGE)
     else if Model \<in> {0x3c, 0x3f, 0x45, 0x46} then
       (Some ''haswell'', INTEL_COREI7, INTEL_COREI7_HASWELL)
     else if Model \<in> {0x3d, 0x47, 0x4f, 0x56} then
       (Some ''broadwell'', INTEL_COREI7, INTEL_COREI7_BROADWELL)
     else if Model \<in> {0x4e, 0x5e, 0x8e, 0x9e, 0xa5, 0xa6} then
       (Some ''skylake'', INTEL_COREI7, INTEL_COREI7_SKYLAKE)
     else other)"

definition intel_lake_models :: "32 word list \<Rightarrow> 32 word \<Rightarrow> decoded \<Rightarrow> decoded" where
  "intel_lake_models Features Model other =
    (if Model \<in> {0xa7} then
       (Some ''rocketlake'', INTEL_COREI7, INTEL_COREI7_ROCKETLAKE)
     else if Model \<in> {0x55} then
       (if testFeature Features FEATURE_AVX512BF16 then (Some ''cooperlake'', INTEL_COREI7, INTEL_COREI7_COOPERLAKE)
        else if testFeature Features FEATURE_AVX512VNNI then (Some ''cascadelake'', INTEL_COREI7, INTEL_COREI7_CASCADELAKE)
        else (Some ''skylake-avx512'', INTEL_COREI7, INTEL_COREI7_SKYLAKE_AVX512))
     else if Model \<in> {0x66} then
       (Some ''cannonlake'', INTEL_COREI7, INTEL_COREI7_CANNONLAKE)
     else if Model \<in> {0x7d, 0x7e} then
       (Some ''icelake-client'', INTEL_COREI7, INTEL_COREI7_ICELAKE_CLIENT)
     else if Model \<in> {0x8c, 0x8d} then
       (Some ''tigerlake'', INTEL_COREI7, INTEL_COREI7_TIGERLAKE)
     else if Model \<in> {0x97, 0x9a} then
       (Some ''alderlake'', INTEL_COREI7, INTEL_COREI7_ALDERLAKE)
     else if Model \<in> {0xb7, 0xba, 0xbf} then
       (Some ''raptorlake'', INTEL_COREI7, INTEL_COREI7_ALDERLAKE)
     else if Model \<in> {0xaa, 0xac} then
       (Some ''meteorlake'', INTEL_COREI7, INTEL_COREI7_ALDERLAKE)
     else if Model \<in> {0xbe} then
       (Some ''gracemont'', INTEL_COREI7, INTEL_COREI7_ALDERLAKE)
     else if Model \<in> {0xc5, 0xb5} then
       (Some ''arrowlake'', INTEL_COREI7, INTEL_COREI7_ARROWLAKE)
     else if Model \<in> {0xc6} then
       (Some ''arrowlake-s'', INTEL_COREI7, INTEL_COREI7_ARROWLAKE_S)
     else if Model \<in> {0xbd} then
       (Some ''lunarlake'', INTEL_COREI7, INTEL_COREI7_ARROWLAKE_S)
     else if Model \<in> {0xcc} then
       (Some ''pantherlake'', INTEL_COREI7, INTEL_COREI7_PANTHERLAKE)
     else if Model \<in> {0xd5} then
       (Some ''wildcatlake'', INTEL_COREI7, INTEL_COREI7_PANTHERLAKE)
     else other)"

definition intel_server_models :: "32 word \<Rightarrow> decoded \<Rightarrow> decoded" where
  "intel_server_models Model other =
    (if Model \<in> {0x6a, 0x6c} then
       (Some ''icelake-server'', INTEL_COREI7, INTEL_COREI7_ICELAKE_SERVER)
     else if Model \<in> {0xcf} then
       (Some ''emeraldrapids'', INTEL_COREI7, INTEL_COREI7_SAPPHIRERAPIDS)
     else if Model \<in> {0x8f} then
       (Some ''sapphirerapids'', INTEL_COREI7, INTEL_COREI7_SAPPHIRERAPIDS)
     else if Model \<in> {0xad} then
       (Some ''graniterapids'', INTEL_COREI7, INTEL_COREI7_GRANITERAPIDS)
     else if Model \<in> {0xae} then
       (Some ''graniterapids-d'', INTEL_COREI7, INTEL_COREI7_GRANITERAPIDS_D)
     else other)"

definition intel_atom_models :: "32 word \<Rightarrow> decoded \<Rightarrow> decoded" where
  "intel_atom_models Model other =
    (if Model \<in> {0x1c, 0x26, 0x27, 0x35, 0x36} then
       (Some ''bonnell'', INTEL_BONNELL, CPU_SUBTYPE_MAX)
     else if Model \<in> {0x37, 0x4a, 0x4d, 0x5a, 0x5d, 0x4c} then
       (Some ''silvermont'', INTEL_SILVERMONT, CPU_SUBTYPE_MAX)
     else if Model \<in> {0x5c, 0x5f} then
       (Some ''goldmont'', INTEL_GOLDMONT, CPU_SUBTYPE_MAX)
     else if Model \<in> {0x7a} then
       (Some ''goldmont-plus'', INTEL_GOLDMONT_PLUS, CPU_SUBTYPE_MAX)
     else if Model \<in> {0x86, 0x8a, 0x96, 0x9c} then
       (Some ''tremont'', INTEL_TREMONT, CPU_SUBTYPE_MAX)
     else if Model \<in> {0xaf} then
       (Some ''sierraforest'', INTEL_SIERRAFOREST, CPU_SUBTYPE_MAX)
     else if Model \<in> {0xb6} then
       (Some ''grandridge'', INTEL_GRANDRIDGE, CPU_SUBTYPE_MAX)
     else if Model \<in> {0xdd} then
       (Some ''clearwaterforest'', INTEL_CLEARWATERFOREST, CPU_SUBTYPE_MAX)
     else if Model \<in> {0x57} then
       (Some ''knl'', INTEL_KNL, CPU_SUBTYPE_MAX)
     else if Model \<in> {0x85} then
       (Some ''knm'', INTEL_KNM, CPU_SUBTYPE_MAX)
     else other)"

definition intel_models :: "32 word \<Rightarrow> 32 word \<Rightarrow> 32 word list \<Rightarrow> decoded" where
  "intel_models Family Model Features =
     (let unknown = (None, CPU_TYPE_MAX, CPU_SUBTYPE_MAX) in
      if Family = 0x6 then
        intel_core_models Model (intel_lake_models Features Model (intel_server_models Model (intel_atom_models Model unknown)))
      else if Family = 0x13 then
        (if Model = 0x01 then (Some ''diamondrapids'', INTEL_COREI7, INTEL_COREI7_DIAMONDRAPIDS) else unknown)
      else if Family = 0x12 then
        (if Model \<in> {0x1, 0x3} then (Some ''novalake'', INTEL_COREI7, INTEL_COREI7_NOVALAKE) else unknown)
      else unknown)"

section \<open>AMD\<close>

definition amd_old_models :: "32 word \<Rightarrow> 32 word \<Rightarrow> 32 word list \<Rightarrow> decoded \<Rightarrow> decoded" where
  "amd_old_models Family Model Features other =
     (if Family = 4 then (Some ''i486'', CPU_TYPE_MAX, CPU_SUBTYPE_MAX)
      else if Family = 5 then
        (Some (if Model \<in> {6, 7} then ''k6'' else if Model = 8 then ''k6-2'' else if Model \<in> {9, 13} then ''k6-3''
               else if Model = 10 then ''geode'' else ''pentium''), CPU_TYPE_MAX, CPU_SUBTYPE_MAX)
      else if Family = 6 then
        (Some (if testFeature Features FEATURE_SSE then ''athlon-xp'' else ''athlon''), CPU_TYPE_MAX, CPU_SUBTYPE_MAX)
      else if Family = 15 then
        (Some (if testFeature Features FEATURE_SSE3 then ''k8-sse3'' else ''k8''), CPU_TYPE_MAX, CPU_SUBTYPE_MAX)
      else if Family \<in> {16, 18} then
        (Some ''amdfam10'', AMDFAM10H,
           if Model = 2 then AMDFAM10H_BARCELONA else if Model = 4 then AMDFAM10H_SHANGHAI
           else if Model = 8 then AMDFAM10H_ISTANBUL else CPU_SUBTYPE_MAX)
      else if Family = 20 then (Some ''btver1'', AMD_BTVER1, CPU_SUBTYPE_MAX)
      else if Family = 21 then
        (if 0x60 \<le> Model \<and> Model \<le> 0x7F then (Some ''bdver4'', AMDFAM15H, AMDFAM15H_BDVER4)
         else if 0x30 \<le> Model \<and> Model \<le> 0x3F then (Some ''bdver3'', AMDFAM15H, AMDFAM15H_BDVER3)
         else if 0x10 \<le> Model \<and> Model \<le> 0x1F \<or> Model = 0x02 then (Some ''bdver2'', AMDFAM15H, AMDFAM15H_BDVER2)
         else if Model \<le> 0x0F then (Some ''bdver1'', AMDFAM15H, AMDFAM15H_BDVER1)
         else (Some ''bdver1'', AMDFAM15H, CPU_SUBTYPE_MAX))
      else if Family = 22 then (Some ''btver2'', AMD_BTVER2, CPU_SUBTYPE_MAX)
      else other)"

definition amd_zen_models :: "32 word \<Rightarrow> 32 word \<Rightarrow> decoded \<Rightarrow> decoded" where
  "amd_zen_models Family Model other =
     (if Family = 23 then
        (if 0x30 \<le> Model \<and> Model \<le> 0x3F \<or> Model = 0x47 \<or>
            0x60 \<le> Model \<and> Model \<le> 0x67 \<or> 0x68 \<le> Model \<and> Model \<le> 0x6F \<or>
            0x70 \<le> Model \<and> Model \<le> 0x7F \<or> 0x84 \<le> Model \<and> Model \<le> 0x87 \<or>
            0x90 \<le> Model \<and> Model \<le> 0x97 \<or> 0x98 \<le> Model \<and> Model \<le> 0x9F \<or>
            0xA0 \<le> Model \<and> Model \<le> 0xAF
         then (Some ''znver2'', AMDFAM17H, AMDFAM17H_ZNVER2)
         else if 0x10 \<le> Model \<and> Model \<le> 0x1F \<or> 0x20 \<le> Model \<and> Model \<le> 0x2F
         then (Some ''znver1'', AMDFAM17H, AMDFAM17H_ZNVER1)
         else (Some ''znver1'', AMDFAM17H, CPU_SUBTYPE_MAX))
      else if Family = 25 then
        (if Model \<le> 0x0F \<or> 0x20 \<le> Model \<and> Model \<le> 0x2F \<or> 0x30 \<le> Model \<and> Model \<le> 0x3F \<or>
            0x40 \<le> Model \<and> Model \<le> 0x4F \<or> 0x50 \<le> Model \<and> Model \<le> 0x5F
         then (Some ''znver3'', AMDFAM19H, AMDFAM19H_ZNVER3)
         else if 0x10 \<le> Model \<and> Model \<le> 0x1F \<or> 0x60 \<le> Model \<and> Model \<le> 0x6F \<or>
            0x70 \<le> Model \<and> Model \<le> 0x77 \<or> 0x78 \<le> Model \<and> Model \<le> 0x7F \<or>
            0xA0 \<le> Model \<and> Model \<le> 0xAF
         then (Some ''znver4'', AMDFAM19H, AMDFAM19H_ZNVER4)
         else (Some ''znver3'', AMDFAM19H, CPU_SUBTYPE_MAX))
      else if Family = 26 then
        (if Model \<le> 0x77 then (Some ''znver5'', AMDFAM1AH, AMDFAM1AH_ZNVER5)
         else (Some ''znver5'', AMDFAM1AH, CPU_SUBTYPE_MAX))
      else other)"

section \<open>Storing the result\<close>

record processor_model =
  cpu_vendor :: nat
  cpu_type :: nat
  cpu_subtype :: nat
  cpu_features :: "32 word"

definition store_decoded :: "decoded \<Rightarrow> processor_model \<Rightarrow> string option \<times> processor_model" where
  "store_decoded d CpuModel =
     (let (CPU, Type, Subtype) = d;
          CpuModel = (if Type \<noteq> CPU_TYPE_MAX then CpuModel\<lparr>cpu_type := type_code Type\<rparr> else CpuModel);
          CpuModel = (if Subtype \<noteq> CPU_SUBTYPE_MAX then CpuModel\<lparr>cpu_subtype := subtype_code Subtype\<rparr> else CpuModel)
      in (CPU, CpuModel))"

definition getIntelProcessorTypeAndSubtype ::
    "32 word \<Rightarrow> 32 word \<Rightarrow> 32 word list \<Rightarrow> processor_model \<Rightarrow> string option \<times> processor_model" where
  "getIntelProcessorTypeAndSubtype Family Model Features CpuModel =
     store_decoded (intel_models Family Model Features) CpuModel"

definition getAMDProcessorTypeAndSubtype ::
    "32 word \<Rightarrow> 32 word \<Rightarrow> 32 word list \<Rightarrow> processor_model \<Rightarrow> string option \<times> processor_model" where
  "getAMDProcessorTypeAndSubtype Family Model Features CpuModel =
     store_decoded
       (amd_old_models Family Model Features (amd_zen_models Family Model (None, CPU_TYPE_MAX, CPU_SUBTYPE_MAX))) CpuModel"

end
