(* ===== verification/X86Features.thy ===== *)
theory X86Features
  imports X86Detect
begin

text \<open>
  \<open>getAvailableFeatures\<close> of \<^verbatim>\<open>cpu_model/x86.c\<close>.  The instructions cpuid and xgetbv are the record \<open>cpu\<close>, a
  parameter: \<open>None\<close> is a leaf the wrapper reports as unavailable, where the registers keep what an
  earlier leaf left in them, as the variables of the code do.  A row of a list is one
  \<open>if (condition) setFeature(F)\<close>; the rows are in the order of the source.
\<close>

unbundle bit_operations_syntax

section \<open>Registers and leaves\<close>

record regs =
  EAX :: "32 word"
  EBX :: "32 word"
  ECX :: "32 word"
  EDX :: "32 word"

record cpu =
  cpuid :: "32 word \<Rightarrow> regs option"
  cpuid_count :: "32 word \<Rightarrow> 32 word \<Rightarrow> regs option"
  xgetbv :: "(32 word \<times> 32 word) option"

text \<open>The wrappers; the flag is true where the C function returns false, that is on success.\<close>

definition getX86CpuIDAndInfo :: "cpu \<Rightarrow> 32 word \<Rightarrow> regs \<Rightarrow> bool \<times> regs" where
  "getX86CpuIDAndInfo C leaf r = (case cpuid C leaf of None \<Rightarrow> (False, r) | Some r' \<Rightarrow> (True, r'))"

definition getX86CpuIDAndInfoEx :: "cpu \<Rightarrow> 32 word \<Rightarrow> 32 word \<Rightarrow> regs \<Rightarrow> bool \<times> regs" where
  "getX86CpuIDAndInfoEx C leaf subleaf r =
     (case cpuid_count C leaf subleaf of None \<Rightarrow> (False, r) | Some r' \<Rightarrow> (True, r'))"

definition getX86XCR0 :: "cpu \<Rightarrow> regs \<Rightarrow> bool \<times> regs" where
  "getX86XCR0 C r = (case xgetbv C of None \<Rightarrow> (False, r) | Some (a, d) \<Rightarrow> (True, r\<lparr>EAX := a, EDX := d\<rparr>))"

text \<open>\<open>guarded c read r\<close> is the C expression \<open>c && read(...)\<close>; \<open>max_leaf\<close> reads leaf 0 or \<open>0x80000000\<close> into a variable of its own.\<close>

definition guarded :: "bool \<Rightarrow> (regs \<Rightarrow> bool \<times> regs) \<Rightarrow> regs \<Rightarrow> bool \<times> regs" where
  "guarded c read r = (if c then read r else (False, r))"

definition max_leaf :: "cpu \<Rightarrow> 32 word \<Rightarrow> regs \<Rightarrow> 32 word \<times> regs" where
  "max_leaf C leaf r =
     (case cpuid C leaf of None \<Rightarrow> (0, r) | Some r' \<Rightarrow> (EAX r', r'\<lparr>EAX := EAX r\<rparr>))"

section \<open>The feature words\<close>

definition flag :: "32 word \<Rightarrow> nat \<Rightarrow> bool" where
  "flag w n \<longleftrightarrow> drop_bit n w AND 1 \<noteq> 0"

definition hasFeature :: "32 word list \<Rightarrow> nat \<Rightarrow> bool" where
  "hasFeature Features F \<longleftrightarrow> flag (Features ! (F div 32)) (F mod 32)"

definition setFeature :: "32 word list \<Rightarrow> nat \<Rightarrow> 32 word list" where
  "setFeature Features F = Features[F div 32 := Features ! (F div 32) OR push_bit (F mod 32) 1]"

type_synonym row = "bool \<times> nat"

fun set_when :: "row list \<Rightarrow> 32 word list \<Rightarrow> 32 word list" where
  "set_when [] Features = Features"
| "set_when ((c, F) # rows) Features = set_when rows (if c then setFeature Features F else Features)"

section \<open>The leaves one by one\<close>

definition leaf1_rows :: "regs \<Rightarrow> row list" where
  "leaf1_rows r =
    [(flag (EDX r) 15, FEATURE_CMOV),
     (flag (EDX r) 23, FEATURE_MMX),
     (flag (EDX r) 25, FEATURE_SSE),
     (flag (EDX r) 26, FEATURE_SSE2),
     (flag (ECX r) 0, FEATURE_SSE3),
     (flag (ECX r) 1, FEATURE_PCLMUL),
     (flag (ECX r) 9, FEATURE_SSSE3),
     (flag (ECX r) 12, FEATURE_FMA),
     (flag (ECX r) 13, FEATURE_CMPXCHG16B),
     (flag (ECX r) 19, FEATURE_SSE4_1),
     (flag (ECX r) 20, FEATURE_SSE4_2),
     (flag (ECX r) 22, FEATURE_MOVBE),
     (flag (ECX r) 23, FEATURE_POPCNT),
     (flag (ECX r) 25, FEATURE_AES),
     (flag (ECX r) 29, FEATURE_F16C),
     (flag (ECX r) 30, FEATURE_RDRND)]"

text \<open>What the operating system saves on a context switch.\<close>

record saves =
  HasAVXSave :: bool
  HasAVX512Save :: bool
  HasAMXSave :: bool
  HasAPXSave :: bool

definition context_saves :: "cpu \<Rightarrow> regs \<Rightarrow> saves \<times> regs" where
  "context_saves C r =
     (let AVXBits = push_bit 27 1 OR push_bit 28 1;
          (xcr0, r) = guarded (ECX r AND AVXBits = AVXBits) (getX86XCR0 C) r;
          avx = (xcr0 \<and> EAX r AND 0x6 = 0x6);
          avx512 = (avx \<and> EAX r AND 0xE0 = 0xE0);
          AMXBits = push_bit 17 1 OR push_bit 18 1;
          (xsave, r) = guarded (flag (ECX r) 27) (getX86XCR0 C) r;
          amx = (xsave \<and> EAX r AND AMXBits = AMXBits);
          apx = (xsave \<and> flag (EAX r) 19)
      in (\<lparr>HasAVXSave = avx, HasAVX512Save = avx512, HasAMXSave = amx, HasAPXSave = apx\<rparr>, r))"

definition save_rows :: "saves \<Rightarrow> regs \<Rightarrow> row list" where
  "save_rows sv r =
    [(HasAVXSave sv, FEATURE_AVX),
     (flag (ECX r) 26 \<and> HasAVXSave sv, FEATURE_XSAVE)]"

definition leaf7_ebx_rows :: "bool \<Rightarrow> saves \<Rightarrow> regs \<Rightarrow> row list" where
  "leaf7_ebx_rows HasLeaf7 sv r =
    [(HasLeaf7 \<and> flag (EBX r) 0, FEATURE_FSGSBASE),
     (HasLeaf7 \<and> flag (EBX r) 2, FEATURE_SGX),
     (HasLeaf7 \<and> flag (EBX r) 3, FEATURE_BMI),
     (HasLeaf7 \<and> flag (EBX r) 5 \<and> HasAVXSave sv, FEATURE_AVX2),
     (HasLeaf7 \<and> flag (EBX r) 8, FEATURE_BMI2),
     (HasLeaf7 \<and> flag (EBX r) 11, FEATURE_RTM),
     (HasLeaf7 \<and> flag (EBX r) 16 \<and> HasAVX512Save sv, FEATURE_AVX512F),
     (HasLeaf7 \<and> flag (EBX r) 17 \<and> HasAVX512Save sv, FEATURE_AVX512DQ),
     (HasLeaf7 \<and> flag (EBX r) 18, FEATURE_RDSEED),
     (HasLeaf7 \<and> flag (EBX r) 19, FEATURE_ADX),
     (HasLeaf7 \<and> flag (EBX r) 21 \<and> HasAVX512Save sv, FEATURE_AVX512IFMA),
     (HasLeaf7 \<and> flag (EBX r) 23, FEATURE_CLFLUSHOPT),
     (HasLeaf7 \<and> flag (EBX r) 24, FEATURE_CLWB),
     (HasLeaf7 \<and> flag (EBX r) 28 \<and> HasAVX512Save sv, FEATURE_AVX512CD),
     (HasLeaf7 \<and> flag (EBX r) 29, FEATURE_SHA),
     (HasLeaf7 \<and> flag (EBX r) 30 \<and> HasAVX512Save sv, FEATURE_AVX512BW),
     (HasLeaf7 \<and> flag (EBX r) 31 \<and> HasAVX512Save sv, FEATURE_AVX512VL)]"

definition leaf7_ecx_rows :: "bool \<Rightarrow> saves \<Rightarrow> regs \<Rightarrow> row list" where
  "leaf7_ecx_rows HasLeaf7 sv r =
    [(HasLeaf7 \<and> flag (ECX r) 1 \<and> HasAVX512Save sv, FEATURE_AVX512VBMI),
     (HasLeaf7 \<and> flag (ECX r) 4, FEATURE_PKU),
     (HasLeaf7 \<and> flag (ECX r) 5, FEATURE_WAITPKG),
     (HasLeaf7 \<and> flag (ECX r) 6 \<and> HasAVX512Save sv, FEATURE_AVX512VBMI2),
     (HasLeaf7 \<and> flag (ECX r) 7, FEATURE_SHSTK),
     (HasLeaf7 \<and> flag (ECX r) 8, FEATURE_GFNI),
     (HasLeaf7 \<and> flag (ECX r) 9 \<and> HasAVXSave sv, FEATURE_VAES),
     (HasLeaf7 \<and> flag (ECX r) 10 \<and> HasAVXSave sv, FEATURE_VPCLMULQDQ),
     (HasLeaf7 \<and> flag (ECX r) 11 \<and> HasAVX512Save sv, FEATURE_AVX512VNNI),
     (HasLeaf7 \<and> flag (ECX r) 12 \<and> HasAVX512Save sv, FEATURE_AVX512BITALG),
     (HasLeaf7 \<and> flag (ECX r) 14 \<and> HasAVX512Save sv, FEATURE_AVX512VPOPCNTDQ),
     (HasLeaf7 \<and> flag (ECX r) 22, FEATURE_RDPID),
     (HasLeaf7 \<and> flag (ECX r) 23, FEATURE_KL),
     (HasLeaf7 \<and> flag (ECX r) 25, FEATURE_CLDEMOTE),
     (HasLeaf7 \<and> flag (ECX r) 27, FEATURE_MOVDIRI),
     (HasLeaf7 \<and> flag (ECX r) 28, FEATURE_MOVDIR64B),
     (HasLeaf7 \<and> flag (ECX r) 29, FEATURE_ENQCMD)]"

definition leaf7_edx_rows :: "bool \<Rightarrow> saves \<Rightarrow> regs \<Rightarrow> row list" where
  "leaf7_edx_rows HasLeaf7 sv r =
    [(HasLeaf7 \<and> flag (EDX r) 5, FEATURE_UINTR),
     (HasLeaf7 \<and> flag (EDX r) 8 \<and> HasAVX512Save sv, FEATURE_AVX512VP2INTERSECT),
     (HasLeaf7 \<and> flag (EDX r) 14, FEATURE_SERIALIZE),
     (HasLeaf7 \<and> flag (EDX r) 16, FEATURE_TSXLDTRK),
     (HasLeaf7 \<and> flag (EDX r) 18, FEATURE_PCONFIG),
     (HasLeaf7 \<and> flag (EDX r) 22 \<and> HasAMXSave sv, FEATURE_AMX_BF16),
     (HasLeaf7 \<and> flag (EDX r) 23 \<and> HasAVX512Save sv, FEATURE_AVX512FP16),
     (HasLeaf7 \<and> flag (EDX r) 24 \<and> HasAMXSave sv, FEATURE_AMX_TILE),
     (HasLeaf7 \<and> flag (EDX r) 25 \<and> HasAMXSave sv, FEATURE_AMX_INT8)]"

definition leaf7_1_rows :: "bool \<Rightarrow> saves \<Rightarrow> regs \<Rightarrow> row list" where
  "leaf7_1_rows HasLeaf7Subleaf1 sv r =
    [(HasLeaf7Subleaf1 \<and> flag (EAX r) 0, FEATURE_SHA512),
     (HasLeaf7Subleaf1 \<and> flag (EAX r) 1, FEATURE_SM3),
     (HasLeaf7Subleaf1 \<and> flag (EAX r) 2, FEATURE_SM4),
     (HasLeaf7Subleaf1 \<and> flag (EAX r) 3, FEATURE_RAOINT),
     (HasLeaf7Subleaf1 \<and> flag (EAX r) 4 \<and> HasAVXSave sv, FEATURE_AVXVNNI),
     (HasLeaf7Subleaf1 \<and> flag (EAX r) 5 \<and> HasAVX512Save sv, FEATURE_AVX512BF16),
     (HasLeaf7Subleaf1 \<and> flag (EAX r) 7, FEATURE_CMPCCXADD),
     (HasLeaf7Subleaf1 \<and> flag (EAX r) 21 \<and> HasAMXSave sv, FEATURE_AMX_FP16),
     (HasLeaf7Subleaf1 \<and> flag (EAX r) 22, FEATURE_HRESET),
     (HasLeaf7Subleaf1 \<and> flag (EAX r) 23 \<and> HasAVXSave sv, FEATURE_AVXIFMA),
     (HasLeaf7Subleaf1 \<and> flag (EAX r) 31, FEATURE_MOVRS),
     (HasLeaf7Subleaf1 \<and> flag (EDX r) 4 \<and> HasAVXSave sv, FEATURE_AVXVNNIINT8),
     (HasLeaf7Subleaf1 \<and> flag (EDX r) 5 \<and> HasAVXSave sv, FEATURE_AVXNECONVERT),
     (HasLeaf7Subleaf1 \<and> flag (EDX r) 8 \<and> HasAMXSave sv, FEATURE_AMX_COMPLEX),
     (HasLeaf7Subleaf1 \<and> flag (EDX r) 10 \<and> HasAVXSave sv, FEATURE_AVXVNNIINT16),
     (HasLeaf7Subleaf1 \<and> flag (EDX r) 14, FEATURE_PREFETCHI),
     (HasLeaf7Subleaf1 \<and> flag (EDX r) 15, FEATURE_USERMSR),
     (HasLeaf7Subleaf1 \<and> flag (EDX r) 21 \<and> HasAPXSave sv, FEATURE_APXF)]"

definition leafD_rows :: "bool \<Rightarrow> saves \<Rightarrow> regs \<Rightarrow> row list" where
  "leafD_rows HasLeafD sv r =
    [(HasLeafD \<and> flag (EAX r) 0 \<and> HasAVXSave sv, FEATURE_XSAVEOPT),
     (HasLeafD \<and> flag (EAX r) 1 \<and> HasAVXSave sv, FEATURE_XSAVEC),
     (HasLeafD \<and> flag (EAX r) 3 \<and> HasAVXSave sv, FEATURE_XSAVES)]"

definition leaf1E_rows :: "bool \<Rightarrow> regs \<Rightarrow> row list" where
  "leaf1E_rows HasLeaf1E r =
    [(HasLeaf1E \<and> EAX r AND 0x10 \<noteq> 0, FEATURE_AMX_FP8),
     (HasLeaf1E \<and> EAX r AND 0x40 \<noteq> 0, FEATURE_AMX_TF32),
     (HasLeaf1E \<and> EAX r AND 0x80 \<noteq> 0, FEATURE_AMX_AVX512),
     (HasLeaf1E \<and> EAX r AND 0x100 \<noteq> 0, FEATURE_AMX_MOVRS)]"

definition leaf24_rows :: "bool \<Rightarrow> bool \<Rightarrow> regs \<Rightarrow> row list" where
  "leaf24_rows HasLeaf7Subleaf1 HasLeaf24 r =
     (let present = (HasLeaf7Subleaf1 \<and> flag (EDX r) 19 \<and> HasLeaf24); AVX10Ver = EBX r AND 0xFF in
      [(present \<and> 1 \<le> AVX10Ver, FEATURE_AVX10_1), (present \<and> 2 \<le> AVX10Ver, FEATURE_AVX10_2)])"

definition ext1_rows :: "bool \<Rightarrow> regs \<Rightarrow> row list" where
  "ext1_rows HasExtLeaf1 r =
    [(HasExtLeaf1 \<and> flag (ECX r) 0, FEATURE_LAHF_LM),
     (HasExtLeaf1 \<and> flag (ECX r) 5, FEATURE_LZCNT),
     (HasExtLeaf1 \<and> flag (ECX r) 6, FEATURE_SSE4_A),
     (HasExtLeaf1 \<and> flag (ECX r) 8, FEATURE_PRFCHW),
     (HasExtLeaf1 \<and> flag (ECX r) 11, FEATURE_XOP),
     (HasExtLeaf1 \<and> flag (ECX r) 15, FEATURE_LWP),
     (HasExtLeaf1 \<and> flag (ECX r) 16, FEATURE_FMA4),
     (HasExtLeaf1 \<and> flag (ECX r) 21, FEATURE_TBM),
     (HasExtLeaf1 \<and> flag (ECX r) 29, FEATURE_MWAITX),
     (HasExtLeaf1 \<and> flag (EDX r) 29, FEATURE_LM)]"

definition ext8_rows :: "bool \<Rightarrow> regs \<Rightarrow> row list" where
  "ext8_rows HasExtLeaf8 r =
    [(HasExtLeaf8 \<and> flag (EBX r) 0, FEATURE_CLZERO),
     (HasExtLeaf8 \<and> flag (EBX r) 9, FEATURE_WBNOINVD)]"

definition ext21_rows :: "bool \<Rightarrow> regs \<Rightarrow> row list" where
  "ext21_rows HasExtLeaf21 r =
    [(HasExtLeaf21 \<and> flag (EAX r) 20, FEATURE_PREFETCHI)]"

definition leaf14_rows :: "bool \<Rightarrow> regs \<Rightarrow> row list" where
  "leaf14_rows HasLeaf14 r =
    [(HasLeaf14 \<and> flag (EBX r) 4, FEATURE_PTWRITE)]"

definition leaf19_rows :: "bool \<Rightarrow> bool \<Rightarrow> regs \<Rightarrow> row list" where
  "leaf19_rows HasLeaf7 HasLeaf19 r =
    [(HasLeaf7 \<and> HasLeaf19 \<and> flag (EBX r) 2, FEATURE_WIDEKL)]"

text \<open>The micro-architecture levels, from the features found.\<close>

definition set_levels :: "32 word list \<Rightarrow> 32 word list" where
  "set_levels fs =
     (if hasFeature fs FEATURE_LM \<and> hasFeature fs FEATURE_SSE2 then
        let fs = setFeature fs FEATURE_X86_64_BASELINE in
        if hasFeature fs FEATURE_CMPXCHG16B \<and> hasFeature fs FEATURE_POPCNT \<and>
           hasFeature fs FEATURE_LAHF_LM \<and> hasFeature fs FEATURE_SSE4_2 then
          let fs = setFeature fs FEATURE_X86_64_V2 in
          if hasFeature fs FEATURE_AVX2 \<and> hasFeature fs FEATURE_BMI \<and> hasFeature fs FEATURE_BMI2 \<and>
             hasFeature fs FEATURE_F16C \<and> hasFeature fs FEATURE_FMA \<and> hasFeature fs FEATURE_LZCNT \<and>
             hasFeature fs FEATURE_MOVBE then
            let fs = setFeature fs FEATURE_X86_64_V3 in
            if hasFeature fs FEATURE_AVX512BW \<and> hasFeature fs FEATURE_AVX512CD \<and>
               hasFeature fs FEATURE_AVX512DQ \<and> hasFeature fs FEATURE_AVX512VL
            then setFeature fs FEATURE_X86_64_V4 else fs
          else fs
        else fs
      else fs)"

section \<open>The whole scan\<close>

text \<open>The basic leaves, then the extended ones; both continue with the registers they are given.\<close>

definition basic_features :: "cpu \<Rightarrow> 32 word \<Rightarrow> regs \<Rightarrow> 32 word list \<Rightarrow> bool \<times> bool \<times> saves \<times> regs \<times> 32 word list" where
  "basic_features C MaxLeaf r fs =
     (let fs = set_when (leaf1_rows r) fs;
          (sv, r) = context_saves C r;
          fs = set_when (save_rows sv r) fs;
          (HasLeaf7, r) = guarded (0x7 \<le> MaxLeaf) (getX86CpuIDAndInfoEx C 0x7 0x0) r;
          fs = set_when (leaf7_ebx_rows HasLeaf7 sv r) fs;
          fs = set_when (leaf7_ecx_rows HasLeaf7 sv r) fs;
          fs = set_when (leaf7_edx_rows HasLeaf7 sv r) fs;
          (HasLeaf7Subleaf1, r) = guarded (HasLeaf7 \<and> 1 \<le> EAX r) (getX86CpuIDAndInfoEx C 0x7 0x1) r;
          fs = set_when (leaf7_1_rows HasLeaf7Subleaf1 sv r) fs
      in (HasLeaf7, HasLeaf7Subleaf1, sv, r, fs))"

definition further_features :: "cpu \<Rightarrow> bool \<times> bool \<times> saves \<times> regs \<times> 32 word list \<Rightarrow> 32 word list" where
  "further_features C scan =
     (let (HasLeaf7, HasLeaf7Subleaf1, sv, r, fs) = scan;
          (MaxLevel, r) = max_leaf C 0 r;
          (HasLeafD, r) = guarded (0xD \<le> MaxLevel) (getX86CpuIDAndInfoEx C 0xD 0x1) r;
          fs = set_when (leafD_rows HasLeafD sv r) fs;
          (HasLeaf1E, r) = guarded (0x1E \<le> MaxLevel) (getX86CpuIDAndInfoEx C 0x1E 0x1) r;
          fs = set_when (leaf1E_rows HasLeaf1E r) fs;
          (HasLeaf24, r) = guarded (0x24 \<le> MaxLevel) (getX86CpuIDAndInfoEx C 0x24 0x0) r;
          fs = set_when (leaf24_rows HasLeaf7Subleaf1 HasLeaf24 r) fs;
          (MaxExtLevel, r) = max_leaf C 0x80000000 r;
          (HasExtLeaf1, r) = guarded (0x80000001 \<le> MaxExtLevel) (getX86CpuIDAndInfo C 0x80000001) r;
          fs = set_when (ext1_rows HasExtLeaf1 r) fs;
          (HasExtLeaf8, r) = guarded (0x80000008 \<le> MaxExtLevel) (getX86CpuIDAndInfo C 0x80000008) r;
          fs = set_when (ext8_rows HasExtLeaf8 r) fs;
          (HasExtLeaf21, r) = guarded (0x80000021 \<le> MaxExtLevel) (getX86CpuIDAndInfo C 0x80000021) r;
          fs = set_when (ext21_rows HasExtLeaf21 r) fs;
          (HasLeaf14, r) = guarded (0x14 \<le> MaxLevel) (getX86CpuIDAndInfoEx C 0x14 0x0) r;
          fs = set_when (leaf14_rows HasLeaf14 r) fs;
          (HasLeaf19, r) = guarded (0x19 \<le> MaxLevel) (getX86CpuIDAndInfo C 0x19) r
      in set_when (leaf19_rows HasLeaf7 HasLeaf19 r) fs)"

definition getAvailableFeatures :: "cpu \<Rightarrow> 32 word \<Rightarrow> 32 word \<Rightarrow> 32 word \<Rightarrow> 32 word list \<Rightarrow> 32 word list" where
  "getAvailableFeatures C ECX0 EDX0 MaxLeaf Features =
     set_levels (further_features C
       (basic_features C MaxLeaf \<lparr>EAX = 0, EBX = 0, ECX = ECX0, EDX = EDX0\<rparr> Features))"

section \<open>Setting features\<close>

lemma flag_bit: "flag w n \<longleftrightarrow> bit w n"
  by (simp add: flag_def and_one_eq odd_iff_mod_2_eq_one [symmetric] bit_iff_odd_drop_bit)

lemma length_setFeature [simp]: "length (setFeature fs F) = length fs"
  by (simp add: setFeature_def)

lemma hasFeature_setFeature:
  "length fs = 4 \<Longrightarrow> F < 128 \<Longrightarrow> G < 128 \<Longrightarrow>
   hasFeature (setFeature fs G) F \<longleftrightarrow> hasFeature fs F \<or> F = G"
proof -
  assume fs: "length fs = 4" "F < 128" "G < 128"
  have "F div 32 = G div 32 \<and> F mod 32 = G mod 32 \<longleftrightarrow> F = G" by (metis div_mult_mod_eq)
  moreover have "F mod 32 < 32" by simp
  ultimately show ?thesis
    using fs by (cases "F div 32 = G div 32")
      (auto simp: hasFeature_def setFeature_def flag_bit bit_simps nth_list_update bit_push_bit_iff dest: bit_imp_le_length)
qed

lemma length_set_when [simp]: "length (set_when rows fs) = length fs"
  by (induction rows fs rule: set_when.induct) auto

lemma hasFeature_set_when:
  "length fs = 4 \<Longrightarrow> F < 128 \<Longrightarrow> (\<forall>(c, G)\<in>set rows. G < 128) \<Longrightarrow>
   hasFeature (set_when rows fs) F \<longleftrightarrow> hasFeature fs F \<or> (True, F) \<in> set rows"
  by (induction rows fs rule: set_when.induct) (auto simp: hasFeature_setFeature)


lemma rows_bounded [simp]:
  "\<forall>(c, G)\<in>set (leaf1_rows r). G < 128" "\<forall>(c, G)\<in>set (save_rows sv r). G < 128"
  "\<forall>(c, G)\<in>set (leaf7_ebx_rows b sv r). G < 128" "\<forall>(c, G)\<in>set (leaf7_ecx_rows b sv r). G < 128"
  "\<forall>(c, G)\<in>set (leaf7_edx_rows b sv r). G < 128" "\<forall>(c, G)\<in>set (leaf7_1_rows b sv r). G < 128"
  "\<forall>(c, G)\<in>set (leafD_rows b sv r). G < 128" "\<forall>(c, G)\<in>set (leaf1E_rows b r). G < 128"
  "\<forall>(c, G)\<in>set (leaf24_rows b b' r). G < 128" "\<forall>(c, G)\<in>set (ext1_rows b r). G < 128"
  "\<forall>(c, G)\<in>set (ext8_rows b r). G < 128" "\<forall>(c, G)\<in>set (ext21_rows b r). G < 128"
  "\<forall>(c, G)\<in>set (leaf14_rows b r). G < 128" "\<forall>(c, G)\<in>set (leaf19_rows b b' r). G < 128"
  by (simp_all add: leaf1_rows_def save_rows_def leaf7_ebx_rows_def leaf7_ecx_rows_def leaf7_edx_rows_def leaf7_1_rows_def
      leafD_rows_def leaf1E_rows_def leaf24_rows_def ext1_rows_def ext8_rows_def ext21_rows_def leaf14_rows_def leaf19_rows_def
      Let_def feature_number)

text \<open>
  Which rows decide a feature, whatever registers the leaves left: the saves are those computed
  from leaf 1, and the registers of the AVX10 rows are those of leaf \<open>0x24\<close>.
\<close>

definition deciding_rows :: "saves \<Rightarrow> (nat \<Rightarrow> regs) \<Rightarrow> (nat \<Rightarrow> bool) \<Rightarrow> row list" where
  "deciding_rows sv R H =
     leaf1_rows (R 0) @ save_rows sv (R 1) @ leaf7_ebx_rows (H 2) sv (R 2) @ leaf7_ecx_rows (H 2) sv (R 2) @
     leaf7_edx_rows (H 2) sv (R 2) @ leaf7_1_rows (H 3) sv (R 3) @ leafD_rows (H 4) sv (R 4) @ leaf1E_rows (H 5) (R 5) @
     leaf24_rows (H 3) (H 6) (R 6) @ ext1_rows (H 7) (R 7) @ ext8_rows (H 8) (R 8) @ ext21_rows (H 9) (R 9) @
     leaf14_rows (H 10) (R 10) @ leaf19_rows (H 2) (H 11) (R 11)"

text \<open>What the scan reads of the leaves 7.1, \<open>0x1E\<close>, \<open>0x24\<close> and \<open>0x80000001\<close>, and \<open>None\<close> where it reads none.\<close>

definition max_of :: "cpu \<Rightarrow> 32 word \<Rightarrow> 32 word" where
  "max_of C leaf = (case cpuid C leaf of None \<Rightarrow> 0 | Some x \<Rightarrow> EAX x)"

definition leaf7_1 :: "cpu \<Rightarrow> 32 word \<Rightarrow> regs option" where
  "leaf7_1 C MaxLeaf =
     (case if 7 \<le> MaxLeaf then cpuid_count C 7 0 else None of
        None \<Rightarrow> None
      | Some x \<Rightarrow> if 1 \<le> EAX x then cpuid_count C 7 1 else None)"

definition leaf1E :: "cpu \<Rightarrow> regs option" where
  "leaf1E C = (if 0x1E \<le> max_of C 0 then cpuid_count C 0x1E 1 else None)"

definition leaf24 :: "cpu \<Rightarrow> regs option" where
  "leaf24 C = (if 0x24 \<le> max_of C 0 then cpuid_count C 0x24 0 else None)"

definition ext1 :: "cpu \<Rightarrow> regs option" where
  "ext1 C = (if 0x80000001 \<le> max_of C 0x80000000 then cpuid C 0x80000001 else None)"

lemmas leaf_reads = leaf7_1_def leaf1E_def leaf24_def ext1_def

lemma leaf_without_xgetbv [simp]:
  "leaf7_1 (C\<lparr>xgetbv := x\<rparr>) m = leaf7_1 C m" "leaf1E (C\<lparr>xgetbv := x\<rparr>) = leaf1E C" "leaf24 (C\<lparr>xgetbv := x\<rparr>) = leaf24 C"
  "ext1 (C\<lparr>xgetbv := x\<rparr>) = ext1 C"
  by (auto simp: leaf_reads max_of_def split: option.splits)

definition read_leaf :: "bool \<Rightarrow> regs \<Rightarrow> regs option" where
  "read_leaf h r = (if h then Some r else None)"

lemma guarded_count: "guarded c (getX86CpuIDAndInfoEx C l k) r = (h, r') \<Longrightarrow>
    read_leaf h r' = (if c then cpuid_count C l k else None)"
  by (auto simp: read_leaf_def guarded_def getX86CpuIDAndInfoEx_def split: if_splits option.splits)

lemma guarded_cpuid: "guarded c (getX86CpuIDAndInfo C l) r = (h, r') \<Longrightarrow> read_leaf h r' = (if c then cpuid C l else None)"
  by (auto simp: read_leaf_def guarded_def getX86CpuIDAndInfo_def split: if_splits option.splits)

lemma max_leaf_read: "max_leaf C l r = (n, r') \<Longrightarrow> n = max_of C l"
  by (auto simp: max_leaf_def max_of_def split: option.splits)

lemma guarded_leaf: "guarded c (getX86CpuIDAndInfoEx C l k) r = (True, r') \<Longrightarrow> cpuid_count C l k = Some r'"
  by (auto simp: guarded_def getX86CpuIDAndInfoEx_def split: if_splits option.splits)

lemma scan_decides:
  "\<exists>R H. R 0 = r \<and> (H 6 \<longrightarrow> cpuid_count C 0x24 0 = Some (R 6)) \<and>
     (\<forall>x. 7 \<le> MaxLeaf \<and> cpuid_count C 7 0 = Some x \<longrightarrow> H 2 \<and> R 2 = x \<and> (\<forall>y. 1 \<le> EAX x \<and> cpuid_count C 7 1 = Some y \<longrightarrow> H 3)) \<and>
     (\<forall>x y. cpuid C 0 = Some x \<and> 0x24 \<le> EAX x \<and> cpuid_count C 0x24 0 = Some y \<longrightarrow> H 6 \<and> R 6 = y) \<and>
     read_leaf (H 3) (R 3) = leaf7_1 C MaxLeaf \<and> read_leaf (H 5) (R 5) = leaf1E C \<and> read_leaf (H 6) (R 6) = leaf24 C \<and>
     read_leaf (H 7) (R 7) = ext1 C \<and>
     (\<forall>fs F. length fs = 4 \<longrightarrow> F < 128 \<longrightarrow>
        (hasFeature (further_features C (basic_features C MaxLeaf r fs)) F \<longleftrightarrow>
           hasFeature fs F \<or> (True, F) \<in> set (deciding_rows (fst (context_saves C r)) R H)))"
proof -
  obtain sv r1 where 1: "context_saves C r = (sv, r1)" by fastforce
  obtain h2 r2 where 2: "guarded (0x7 \<le> MaxLeaf) (getX86CpuIDAndInfoEx C 0x7 0x0) r1 = (h2, r2)" by fastforce
  obtain h3 r3 where 3: "guarded (h2 \<and> 1 \<le> EAX r2) (getX86CpuIDAndInfoEx C 0x7 0x1) r2 = (h3, r3)" by fastforce
  obtain m ra where a: "max_leaf C 0 r3 = (m, ra)" by fastforce
  obtain h4 r4 where 4: "guarded (0xD \<le> m) (getX86CpuIDAndInfoEx C 0xD 0x1) ra = (h4, r4)" by fastforce
  obtain h5 r5 where 5: "guarded (0x1E \<le> m) (getX86CpuIDAndInfoEx C 0x1E 0x1) r4 = (h5, r5)" by fastforce
  obtain h6 r6 where 6: "guarded (0x24 \<le> m) (getX86CpuIDAndInfoEx C 0x24 0x0) r5 = (h6, r6)" by fastforce
  obtain x rb where b: "max_leaf C 0x80000000 r6 = (x, rb)" by fastforce
  obtain h7 r7 where 7: "guarded (0x80000001 \<le> x) (getX86CpuIDAndInfo C 0x80000001) rb = (h7, r7)" by fastforce
  obtain h8 r8 where 8: "guarded (0x80000008 \<le> x) (getX86CpuIDAndInfo C 0x80000008) r7 = (h8, r8)" by fastforce
  obtain h9 r9 where 9: "guarded (0x80000021 \<le> x) (getX86CpuIDAndInfo C 0x80000021) r8 = (h9, r9)" by fastforce
  obtain h10 r10 where 10: "guarded (0x14 \<le> m) (getX86CpuIDAndInfoEx C 0x14 0x0) r9 = (h10, r10)" by fastforce
  obtain h11 r11 where 11: "guarded (0x19 \<le> m) (getX86CpuIDAndInfo C 0x19) r10 = (h11, r11)" by fastforce
  define R where "R = (\<lambda>i::nat. [r, r1, r2, r3, r4, r5, r6, r7, r8, r9, r10, r11] ! i)"
  define H where "H = (\<lambda>i::nat. [False, False, h2, h3, h4, h5, h6, h7, h8, h9, h10, h11] ! i)"
  have R: "R 0 = r" "R 1 = r1" "R 2 = r2" "R 3 = r3" "R 4 = r4" "R 5 = r5" "R 6 = r6" "R 7 = r7" "R 8 = r8" "R 9 = r9"
      "R 10 = r10" "R 11 = r11"
    and H: "H 2 = h2" "H 3 = h3" "H 4 = h4" "H 5 = h5" "H 6 = h6" "H 7 = h7" "H 8 = h8" "H 9 = h9" "H 10 = h10" "H 11 = h11"
    by (simp_all add: R_def H_def)
  have f1: "H 6 \<longrightarrow> cpuid_count C 0x24 0 = Some (R 6)" unfolding R H using guarded_leaf [of _ C "0x24" 0 r5 r6] 6 by auto
  have f2: "\<forall>x. 7 \<le> MaxLeaf \<and> cpuid_count C 7 0 = Some x \<longrightarrow>
      H 2 \<and> R 2 = x \<and> (\<forall>y. 1 \<le> EAX x \<and> cpuid_count C 7 1 = Some y \<longrightarrow> H 3)"
    unfolding R H using 2 3 by (auto simp: guarded_def getX86CpuIDAndInfoEx_def)
  have f3: "\<forall>x y. cpuid C 0 = Some x \<and> 0x24 \<le> EAX x \<and> cpuid_count C 0x24 0 = Some y \<longrightarrow> H 6 \<and> R 6 = y"
    unfolding R H using a 6 by (auto simp: guarded_def getX86CpuIDAndInfoEx_def max_leaf_def)
  have f5: "read_leaf (H 3) (R 3) = leaf7_1 C MaxLeaf"
    using guarded_count [OF 2, symmetric] guarded_count [OF 3] unfolding R H by (auto simp: leaf7_1_def read_leaf_def split: if_splits)
  have f6: "read_leaf (H 5) (R 5) = leaf1E C" "read_leaf (H 6) (R 6) = leaf24 C" "read_leaf (H 7) (R 7) = ext1 C"
    unfolding R H guarded_count [OF 5] guarded_count [OF 6] guarded_cpuid [OF 7]
    by (simp_all add: leaf_reads max_leaf_read [OF a] max_leaf_read [OF b])
  have "hasFeature (further_features C (basic_features C MaxLeaf r fs)) F \<longleftrightarrow>
      hasFeature fs F \<or> (True, F) \<in> set (deciding_rows sv R H)" if "length fs = 4" "F < 128" for fs F
    using that
    by (simp add: further_features_def basic_features_def 1 2 3 a 4 5 6 b 7 8 9 10 11 Let_def hasFeature_set_when
        deciding_rows_def R R(2) [simplified] H disj_ac)
  then have f4: "\<forall>fs F. length fs = 4 \<longrightarrow> F < 128 \<longrightarrow>
      (hasFeature (further_features C (basic_features C MaxLeaf r fs)) F \<longleftrightarrow>
        hasFeature fs F \<or> (True, F) \<in> set (deciding_rows (fst (context_saves C r)) R H))"
    unfolding 1 fst_conv by blast
  show ?thesis by (intro exI [of _ R] exI [of _ H] conjI R(1) f1 f2 f3 f5 f6 f4)
qed

section \<open>What the operating system must save\<close>

text \<open>The features whose instructions use the AVX, the AVX-512 and the AMX state and which the code reports only when the
  system saves it (with those of XSAVE, which the code treats like them), and those it reports without that test.\<close>

definition avx_features :: "nat list" where
  "avx_features =
    [FEATURE_AVX, FEATURE_XSAVE, FEATURE_AVX2, FEATURE_VAES, FEATURE_VPCLMULQDQ, FEATURE_AVXVNNI, FEATURE_AVXIFMA,
     FEATURE_AVXVNNIINT8, FEATURE_AVXNECONVERT, FEATURE_AVXVNNIINT16, FEATURE_XSAVEOPT, FEATURE_XSAVEC, FEATURE_XSAVES]"

definition avx512_features :: "nat list" where
  "avx512_features =
    [FEATURE_AVX512F, FEATURE_AVX512DQ, FEATURE_AVX512IFMA, FEATURE_AVX512CD, FEATURE_AVX512BW, FEATURE_AVX512VL,
     FEATURE_AVX512VBMI, FEATURE_AVX512VBMI2, FEATURE_AVX512VNNI, FEATURE_AVX512BITALG, FEATURE_AVX512VPOPCNTDQ,
     FEATURE_AVX512VP2INTERSECT, FEATURE_AVX512FP16, FEATURE_AVX512BF16]"

definition amx_features :: "nat list" where
  "amx_features = [FEATURE_AMX_TILE, FEATURE_AMX_INT8, FEATURE_AMX_BF16, FEATURE_AMX_FP16, FEATURE_AMX_COMPLEX]"

definition unchecked_features :: "nat list" where
  "unchecked_features =
    [FEATURE_FMA, FEATURE_F16C, FEATURE_XOP, FEATURE_FMA4, FEATURE_SHA512, FEATURE_SM3, FEATURE_SM4, FEATURE_AVX10_1,
     FEATURE_AVX10_2, FEATURE_AMX_FP8, FEATURE_AMX_TF32, FEATURE_AMX_AVX512, FEATURE_AMX_MOVRS]"

text \<open>The features of general and SSE instructions, which need none of these states.\<close>

definition general_features :: "nat list" where
  "general_features =
    [FEATURE_CMOV, FEATURE_MMX, FEATURE_POPCNT, FEATURE_SSE, FEATURE_SSE2, FEATURE_SSE3, FEATURE_SSSE3, FEATURE_SSE4_1,
     FEATURE_SSE4_2, FEATURE_SSE4_A, FEATURE_BMI, FEATURE_BMI2, FEATURE_AES, FEATURE_PCLMUL, FEATURE_GFNI, FEATURE_ADX,
     FEATURE_CLDEMOTE, FEATURE_CLFLUSHOPT, FEATURE_CLWB, FEATURE_CLZERO, FEATURE_CMPXCHG16B, FEATURE_ENQCMD,
     FEATURE_FSGSBASE, FEATURE_LAHF_LM, FEATURE_LM, FEATURE_LWP, FEATURE_LZCNT, FEATURE_MOVBE, FEATURE_MOVDIR64B,
     FEATURE_MOVDIRI, FEATURE_MWAITX, FEATURE_PCONFIG, FEATURE_PKU, FEATURE_PRFCHW, FEATURE_PTWRITE, FEATURE_RDPID,
     FEATURE_RDRND, FEATURE_RDSEED, FEATURE_RTM, FEATURE_SERIALIZE, FEATURE_SGX, FEATURE_SHA, FEATURE_SHSTK, FEATURE_TBM,
     FEATURE_TSXLDTRK, FEATURE_WAITPKG, FEATURE_WBNOINVD, FEATURE_UINTR, FEATURE_HRESET, FEATURE_KL, FEATURE_WIDEKL,
     FEATURE_CMPCCXADD, FEATURE_PREFETCHI, FEATURE_RAOINT, FEATURE_USERMSR, FEATURE_MOVRS]"

lemmas row_lists =
  leaf1_rows_def save_rows_def leaf7_ebx_rows_def leaf7_ecx_rows_def leaf7_edx_rows_def leaf7_1_rows_def leafD_rows_def
  leaf1E_rows_def leaf24_rows_def ext1_rows_def ext8_rows_def ext21_rows_def leaf14_rows_def leaf19_rows_def

lemma rows_need_avx:
  "\<forall>(c, F)\<in>set (deciding_rows sv R H). F \<in> set avx_features \<longrightarrow> c \<longrightarrow> HasAVXSave sv"
  by (simp add: deciding_rows_def row_lists Let_def avx_features_def feature_number ball_Un)

lemma rows_need_avx512:
  "\<forall>(c, F)\<in>set (deciding_rows sv R H). F \<in> set avx512_features \<longrightarrow> c \<longrightarrow> HasAVX512Save sv"
  by (simp add: deciding_rows_def row_lists Let_def avx512_features_def feature_number ball_Un)

lemma rows_need_amx:
  "\<forall>(c, F)\<in>set (deciding_rows sv R H). F \<in> set amx_features \<longrightarrow> c \<longrightarrow> HasAMXSave sv"
  by (simp add: deciding_rows_def row_lists Let_def amx_features_def feature_number ball_Un)

lemma rows_need_apx:
  "\<forall>(c, F)\<in>set (deciding_rows sv R H). F = FEATURE_APXF \<longrightarrow> c \<longrightarrow> HasAPXSave sv"
  by (simp add: deciding_rows_def row_lists Let_def feature_number ball_Un)

lemma rows_classified:
  "\<forall>(c, F)\<in>set (deciding_rows sv R H).
     F \<in> set (avx_features @ avx512_features @ amx_features @ FEATURE_APXF # unchecked_features @ general_features)"
  by (simp add: deciding_rows_def row_lists Let_def avx_features_def avx512_features_def amx_features_def
      unchecked_features_def general_features_def feature_number ball_Un)

text \<open>The rows of the unchecked features, which look at the leaves alone.\<close>

definition announced :: "32 word \<Rightarrow> regs option \<Rightarrow> regs option \<Rightarrow> regs option \<Rightarrow> regs option \<Rightarrow> row list" where
  "announced ECX0 l7_1 l1E l24 e1 =
     (let flagged = (\<lambda>l reg n. case l of None \<Rightarrow> False | Some r \<Rightarrow> flag (reg r) n);
          version = (if l7_1 \<noteq> None \<and> flagged l24 EDX 19 then EBX (the l24) AND 0xFF else 0) in
      [(flag ECX0 12, FEATURE_FMA), (flag ECX0 29, FEATURE_F16C), (flagged e1 ECX 11, FEATURE_XOP),
       (flagged e1 ECX 16, FEATURE_FMA4), (flagged l7_1 EAX 0, FEATURE_SHA512), (flagged l7_1 EAX 1, FEATURE_SM3),
       (flagged l7_1 EAX 2, FEATURE_SM4), (1 \<le> version, FEATURE_AVX10_1), (2 \<le> version, FEATURE_AVX10_2),
       (flagged l1E EAX 4, FEATURE_AMX_FP8), (flagged l1E EAX 6, FEATURE_AMX_TF32),
       (flagged l1E EAX 7, FEATURE_AMX_AVX512), (flagged l1E EAX 8, FEATURE_AMX_MOVRS)])"

lemma flag_masks:
  "w AND 0x10 \<noteq> 0 \<longleftrightarrow> flag w 4" "w AND 0x40 \<noteq> 0 \<longleftrightarrow> flag w 6" "w AND 0x80 \<noteq> 0 \<longleftrightarrow> flag w 7" "w AND 0x100 \<noteq> 0 \<longleftrightarrow> flag w 8"
proof -
  have "w AND push_bit n 1 \<noteq> 0 \<longleftrightarrow> flag w n" for n
    by (simp add: flag_bit and_exp_eq_0_iff_not_bit push_bit_of_1)
  from this [of 4] this [of 6] this [of 7] this [of 8]
  show "w AND 0x10 \<noteq> 0 \<longleftrightarrow> flag w 4" "w AND 0x40 \<noteq> 0 \<longleftrightarrow> flag w 6" "w AND 0x80 \<noteq> 0 \<longleftrightarrow> flag w 7" "w AND 0x100 \<noteq> 0 \<longleftrightarrow> flag w 8"
    by simp_all
qed

lemma unchecked_rows:
  "list_all (\<lambda>F. (True, F) \<in> set (deciding_rows sv R H) \<longleftrightarrow>
     (True, F) \<in> set (announced (ECX (R 0)) (read_leaf (H 3) (R 3)) (read_leaf (H 5) (R 5)) (read_leaf (H 6) (R 6))
       (read_leaf (H 7) (R 7)))) unchecked_features"
  by (simp add: unchecked_features_def deciding_rows_def row_lists announced_def read_leaf_def Let_def feature_number
      flag_masks [symmetric])

lemma rows_gate_avx10:
  "\<forall>(c, F)\<in>set (deciding_rows sv R H). F = FEATURE_AVX10_1 \<or> F = FEATURE_AVX10_2 \<longrightarrow> c \<longrightarrow> H 6 \<and> flag (EDX (R 6)) 19"
  by (simp add: deciding_rows_def row_lists Let_def feature_number ball_Un)

lemma rows_no_level:
  "\<forall>(c, F)\<in>set (deciding_rows sv R H).
     F \<noteq> FEATURE_X86_64_BASELINE \<and> F \<noteq> FEATURE_X86_64_V2 \<and> F \<noteq> FEATURE_X86_64_V3 \<and> F \<noteq> FEATURE_X86_64_V4"
  by (simp add: deciding_rows_def row_lists Let_def feature_number ball_Un)

lemma and_mask_bit: "w AND m = m \<Longrightarrow> bit m n \<Longrightarrow> bit (w :: 32 word) n"
  by (metis bit_and_iff)

lemma saves_avx:
  assumes "HasAVXSave (fst (context_saves C r))"
  shows "\<exists>a d. xgetbv C = Some (a, d) \<and> bit (ECX r) 27 \<and> bit (ECX r) 28 \<and> bit a 1 \<and> bit a 2"
proof -
  have "ECX r AND (push_bit 27 1 OR push_bit 28 1) = push_bit 27 1 OR push_bit 28 1 \<and>
      (\<exists>a d. xgetbv C = Some (a, d) \<and> a AND 6 = 6)"
    using assms by (auto simp: context_saves_def guarded_def getX86XCR0_def Let_def split: if_splits option.splits prod.splits)
  then show ?thesis
    using and_mask_bit [of "ECX r" "push_bit 27 1 OR push_bit 28 1"] and_mask_bit [of _ 6]
    by (fastforce simp: bit_simps)
qed

lemma saves_avx512:
  assumes "HasAVX512Save (fst (context_saves C r))"
  shows "HasAVXSave (fst (context_saves C r)) \<and> (\<exists>a d. xgetbv C = Some (a, d) \<and> bit a 5 \<and> bit a 6 \<and> bit a 7)"
proof -
  have *: "HasAVXSave (fst (context_saves C r)) \<and> (\<exists>a d. xgetbv C = Some (a, d) \<and> a AND 0xE0 = 0xE0)"
    using assms by (auto simp: context_saves_def guarded_def getX86XCR0_def Let_def split: if_splits option.splits prod.splits)
  then show ?thesis using and_mask_bit [of _ "0xE0"] by (fastforce simp: bit_simps)
qed

lemma saves_amx:
  assumes "HasAMXSave (fst (context_saves C r))"
  shows "\<exists>a d. xgetbv C = Some (a, d) \<and> bit (ECX r) 27 \<and> bit a 17 \<and> bit a 18"
proof -
  have "bit (ECX r) 27 \<and> (\<exists>a d. xgetbv C = Some (a, d) \<and> a AND (push_bit 17 1 OR push_bit 18 1) = push_bit 17 1 OR push_bit 18 1)"
    using assms by (auto simp: context_saves_def guarded_def getX86XCR0_def Let_def flag_bit split: if_splits option.splits prod.splits)
  then show ?thesis using and_mask_bit [of _ "push_bit 17 1 OR push_bit 18 1"] by (fastforce simp: bit_simps)
qed

lemma saves_apx:
  assumes "HasAPXSave (fst (context_saves C r))"
  shows "\<exists>a d. xgetbv C = Some (a, d) \<and> bit (ECX r) 27 \<and> bit a 19"
  using assms by (auto simp: context_saves_def guarded_def getX86XCR0_def Let_def flag_bit split: if_splits option.splits prod.splits)

end
