(* ===== verification/X86Init.thy ===== *)
theory X86Init
  imports X86Features
begin

text \<open>
  \<open>__cpu_indicator_init\<close> of \<^verbatim>\<open>cpu_model/x86.c\<close>, the constructor that fills \<open>__cpu_model\<close> and
  \<open>__cpu_features2\<close> once, and the properties of the whole scan: what the operating system must save
  before a vector feature is reported, the micro-architecture levels, the decoding of a signature
  and the consistency of the stored type and subtype.
\<close>

unbundle bit_operations_syntax

section \<open>The constructor\<close>

record cpu_globals =
  cpu_model :: processor_model
  cpu_features2 :: "32 word list"

definition SIG_INTEL :: "32 word" where "SIG_INTEL = 0x756e6547"
definition SIG_AMD :: "32 word" where "SIG_AMD = 0x68747541"

definition VENDOR_INTEL :: nat where "VENDOR_INTEL = 1"
definition VENDOR_AMD :: nat where "VENDOR_AMD = 2"
definition VENDOR_OTHER :: nat where "VENDOR_OTHER = 3"
definition VENDOR_MAX :: nat where "VENDOR_MAX = 4"

definition initial_globals :: cpu_globals where
  "initial_globals =
     \<lparr>cpu_model = \<lparr>cpu_vendor = 0, cpu_type = 0, cpu_subtype = 0, cpu_features = 0\<rparr>, cpu_features2 = [0, 0, 0]\<rparr>"

text \<open>The type and subtype by vendor; the model's vendor field is written last.\<close>

definition decode_vendor :: "32 word \<Rightarrow> 32 word \<Rightarrow> 32 word \<Rightarrow> 32 word list \<Rightarrow> processor_model \<Rightarrow> processor_model" where
  "decode_vendor Vendor Family Model Features CpuModel =
     (if Vendor = SIG_INTEL then
        (snd (getIntelProcessorTypeAndSubtype Family Model Features CpuModel))\<lparr>cpu_vendor := VENDOR_INTEL\<rparr>
      else if Vendor = SIG_AMD then
        (snd (getAMDProcessorTypeAndSubtype Family Model Features CpuModel))\<lparr>cpu_vendor := VENDOR_AMD\<rparr>
      else CpuModel\<lparr>cpu_vendor := VENDOR_OTHER\<rparr>)"

text \<open>The three assertions at its end; a failed one aborts, which is the result \<open>None\<close>.\<close>

definition init_assertions :: "cpu_globals \<Rightarrow> bool" where
  "init_assertions g \<longleftrightarrow>
     cpu_vendor (cpu_model g) < VENDOR_MAX \<and> cpu_type (cpu_model g) < type_code CPU_TYPE_MAX \<and>
     cpu_subtype (cpu_model g) < subtype_code CPU_SUBTYPE_MAX"

definition cpu_indicator_init :: "cpu \<Rightarrow> cpu_globals \<Rightarrow> (int \<times> cpu_globals) option" where
  "cpu_indicator_init C g =
     (if cpu_vendor (cpu_model g) \<noteq> 0 then Some (0, g)
      else
        let (ok, r) = getX86CpuIDAndInfo C 0 \<lparr>EAX = 5, EBX = 0, ECX = 0, EDX = 0\<rparr>;
            MaxLeaf = EAX r; Vendor = EBX r
        in if \<not> ok \<or> MaxLeaf < 1 then Some (- 1, g\<lparr>cpu_model := (cpu_model g)\<lparr>cpu_vendor := VENDOR_OTHER\<rparr>\<rparr>)
        else
          let (_, r) = getX86CpuIDAndInfo C 1 (r\<lparr>EAX := 0, EBX := 0\<rparr>);
              (Family, Model) = detectX86FamilyModel (EAX r);
              Features = getAvailableFeatures C (ECX r) (EDX r) MaxLeaf [0, 0, 0, 0];
              M = (cpu_model g)\<lparr>cpu_features := Features ! 0\<rparr>;
              g = \<lparr>cpu_model = decode_vendor Vendor Family Model Features M,
                   cpu_features2 = [Features ! 1, Features ! 2, Features ! 3]\<rparr>
          in if init_assertions g then Some (0, g) else None)"

section \<open>The levels\<close>

lemma hasFeature_set_levels:
  assumes "length fs = 4" "F < 128"
  shows "hasFeature (set_levels fs) F \<longleftrightarrow> hasFeature fs F \<or>
    hasFeature fs FEATURE_LM \<and> hasFeature fs FEATURE_SSE2 \<and>
     (F = FEATURE_X86_64_BASELINE \<or>
      hasFeature fs FEATURE_CMPXCHG16B \<and> hasFeature fs FEATURE_POPCNT \<and> hasFeature fs FEATURE_LAHF_LM \<and>
      hasFeature fs FEATURE_SSE4_2 \<and>
      (F = FEATURE_X86_64_V2 \<or>
       hasFeature fs FEATURE_AVX2 \<and> hasFeature fs FEATURE_BMI \<and> hasFeature fs FEATURE_BMI2 \<and>
       hasFeature fs FEATURE_F16C \<and> hasFeature fs FEATURE_FMA \<and> hasFeature fs FEATURE_LZCNT \<and>
       hasFeature fs FEATURE_MOVBE \<and>
       (F = FEATURE_X86_64_V3 \<or>
        hasFeature fs FEATURE_AVX512BW \<and> hasFeature fs FEATURE_AVX512CD \<and> hasFeature fs FEATURE_AVX512DQ \<and>
        hasFeature fs FEATURE_AVX512VL \<and> F = FEATURE_X86_64_V4)))"
  using assms by (simp add: set_levels_def Let_def hasFeature_setFeature feature_number cong: if_cong) blast

lemma hasFeature_zero [simp]: "F < 128 \<Longrightarrow> \<not> hasFeature [0, 0, 0, 0] F"
proof -
  assume "F < 128"
  then have "F div 32 < 4" by simp
  then have "F div 32 = 0 \<or> F div 32 = 1 \<or> F div 32 = 2 \<or> F div 32 = 3" by arith
  then show ?thesis by (elim disjE) (simp_all add: hasFeature_def flag_bit)
qed

lemma length_scan [simp]: "length (further_features C (basic_features C m r fs)) = length fs"
  by (simp add: further_features_def basic_features_def Let_def split: prod.splits)

lemma available_rows:
  assumes "F < 128" "F \<notin> {FEATURE_X86_64_BASELINE, FEATURE_X86_64_V2, FEATURE_X86_64_V3, FEATURE_X86_64_V4}"
  shows "hasFeature (getAvailableFeatures C ECX0 EDX0 m [0, 0, 0, 0]) F \<longleftrightarrow>
    hasFeature (further_features C (basic_features C m \<lparr>EAX = 0, EBX = 0, ECX = ECX0, EDX = EDX0\<rparr> [0, 0, 0, 0])) F"
  using assms by (simp add: getAvailableFeatures_def hasFeature_set_levels)

section \<open>Vector state\<close>

lemma available_iff:
  assumes "F < 128" "F \<notin> {FEATURE_X86_64_BASELINE, FEATURE_X86_64_V2, FEATURE_X86_64_V3, FEATURE_X86_64_V4}"
  obtains R H where "ECX (R 0) = ECX0" "read_leaf (H 3) (R 3) = leaf7_1 C m" "read_leaf (H 5) (R 5) = leaf1E C"
      "read_leaf (H 6) (R 6) = leaf24 C" "read_leaf (H 7) (R 7) = ext1 C"
    and "H 6 \<longrightarrow> cpuid_count C 0x24 0 = Some (R 6)"
    and "\<forall>x. 7 \<le> m \<and> cpuid_count C 7 0 = Some x \<longrightarrow> H 2 \<and> R 2 = x \<and> (\<forall>y. 1 \<le> EAX x \<and> cpuid_count C 7 1 = Some y \<longrightarrow> H 3)"
    and "\<forall>x y. cpuid C 0 = Some x \<and> 0x24 \<le> EAX x \<and> cpuid_count C 0x24 0 = Some y \<longrightarrow> H 6 \<and> R 6 = y"
    and "hasFeature (getAvailableFeatures C ECX0 EDX0 m [0, 0, 0, 0]) F \<longleftrightarrow>
      (True, F) \<in> set (deciding_rows (fst (context_saves C \<lparr>EAX = 0, EBX = 0, ECX = ECX0, EDX = EDX0\<rparr>)) R H)"
proof -
  let ?r = "\<lparr>EAX = 0, EBX = 0, ECX = ECX0, EDX = EDX0\<rparr>"
  obtain R H where R: "H 6 \<longrightarrow> cpuid_count C 0x24 0 = Some (R 6)"
    "\<forall>x. 7 \<le> m \<and> cpuid_count C 7 0 = Some x \<longrightarrow> H 2 \<and> R 2 = x \<and> (\<forall>y. 1 \<le> EAX x \<and> cpuid_count C 7 1 = Some y \<longrightarrow> H 3)"
    "\<forall>x y. cpuid C 0 = Some x \<and> 0x24 \<le> EAX x \<and> cpuid_count C 0x24 0 = Some y \<longrightarrow> H 6 \<and> R 6 = y"
    and l: "R 0 = ?r" "read_leaf (H 3) (R 3) = leaf7_1 C m" "read_leaf (H 5) (R 5) = leaf1E C" "read_leaf (H 6) (R 6) = leaf24 C"
      "read_leaf (H 7) (R 7) = ext1 C"
    and b: "\<forall>fs F. length fs = 4 \<longrightarrow> F < 128 \<longrightarrow>
      (hasFeature (further_features C (basic_features C m ?r fs)) F \<longleftrightarrow>
        hasFeature fs F \<or> (True, F) \<in> set (deciding_rows (fst (context_saves C ?r)) R H))"
    using scan_decides [of ?r C m] by blast
  have "hasFeature (getAvailableFeatures C ECX0 EDX0 m [0, 0, 0, 0]) F \<longleftrightarrow>
      (True, F) \<in> set (deciding_rows (fst (context_saves C ?r)) R H)"
    using b [rule_format, of "[0, 0, 0, 0]" F] assms by (simp add: available_rows)
  with l R show thesis by (intro that [of R H]) (simp only: regs.simps)+
qed

lemma available_by_leaf7:
  assumes "cpuid_count C 7 0 = Some r" "7 \<le> m" "F < 128"
    and "F \<notin> {FEATURE_X86_64_BASELINE, FEATURE_X86_64_V2, FEATURE_X86_64_V3, FEATURE_X86_64_V4}"
    and "(True, F) \<in> set (leaf7_ebx_rows True (fst (context_saves C \<lparr>EAX = 0, EBX = 0, ECX = ECX0, EDX = EDX0\<rparr>)) r)"
  shows "hasFeature (getAvailableFeatures C ECX0 EDX0 m [0, 0, 0, 0]) F"
  by (rule available_iff [OF assms(3,4), where C = C and m = m and ?ECX0.0 = ECX0 and ?EDX0.0 = EDX0]) (use assms in \<open>simp add: deciding_rows_def\<close>)

lemma available_by_leaf24:
  assumes "cpuid C 0 = Some x" "0x24 \<le> EAX x" "cpuid_count C 0x24 0 = Some y" "bit (EDX y) 19" "1 \<le> EBX y AND 0xFF"
    and "cpuid_count C 7 0 = Some z" "7 \<le> m" "1 \<le> EAX z" "cpuid_count C 7 1 = Some w"
  shows "hasFeature (getAvailableFeatures C ECX0 EDX0 m [0, 0, 0, 0]) FEATURE_AVX10_1"
  by (rule available_iff [where F = FEATURE_AVX10_1 and C = C and m = m and ?ECX0.0 = ECX0 and ?EDX0.0 = EDX0])
    (use assms in \<open>simp_all add: deciding_rows_def leaf24_rows_def flag_bit feature_number\<close>)

lemma available_row:
  assumes "F < 128" "F \<notin> {FEATURE_X86_64_BASELINE, FEATURE_X86_64_V2, FEATURE_X86_64_V3, FEATURE_X86_64_V4}"
    and "hasFeature (getAvailableFeatures C ECX0 EDX0 m [0, 0, 0, 0]) F"
  obtains R H where "H 6 \<longrightarrow> cpuid_count C 0x24 0 = Some (R 6)"
    and "(True, F) \<in> set (deciding_rows (fst (context_saves C \<lparr>EAX = 0, EBX = 0, ECX = ECX0, EDX = EDX0\<rparr>)) R H)"
proof -
  show thesis by (rule available_iff [OF assms(1,2), where C = C and m = m and ?ECX0.0 = ECX0 and ?EDX0.0 = EDX0]) (use assms(3) that in blast)
qed

lemma available_avx:
  assumes "F \<in> set avx_features" "hasFeature (getAvailableFeatures C ECX0 EDX0 m [0, 0, 0, 0]) F"
  shows "\<exists>a d. xgetbv C = Some (a, d) \<and> bit ECX0 27 \<and> bit ECX0 28 \<and> bit a 1 \<and> bit a 2"
proof -
  have F: "F < 128" "F \<notin> {FEATURE_X86_64_BASELINE, FEATURE_X86_64_V2, FEATURE_X86_64_V3, FEATURE_X86_64_V4}"
    using assms(1) by (auto simp: avx_features_def feature_number)
  obtain R H where "(True, F) \<in> set (deciding_rows (fst (context_saves C \<lparr>EAX = 0, EBX = 0, ECX = ECX0, EDX = EDX0\<rparr>)) R H)"
    using available_row [OF F assms(2)] by blast
  then show ?thesis using rows_need_avx assms(1) saves_avx by fastforce
qed

lemma available_avx512:
  assumes "F \<in> set avx512_features" "hasFeature (getAvailableFeatures C ECX0 EDX0 m [0, 0, 0, 0]) F"
  shows "\<exists>a d. xgetbv C = Some (a, d) \<and> bit ECX0 27 \<and> bit ECX0 28 \<and> bit a 1 \<and> bit a 2 \<and> bit a 5 \<and> bit a 6 \<and> bit a 7"
proof -
  have F: "F < 128" "F \<notin> {FEATURE_X86_64_BASELINE, FEATURE_X86_64_V2, FEATURE_X86_64_V3, FEATURE_X86_64_V4}"
    using assms(1) by (auto simp: avx512_features_def feature_number)
  obtain R H where "(True, F) \<in> set (deciding_rows (fst (context_saves C \<lparr>EAX = 0, EBX = 0, ECX = ECX0, EDX = EDX0\<rparr>)) R H)"
    using available_row [OF F assms(2)] by blast
  then have "HasAVX512Save (fst (context_saves C \<lparr>EAX = 0, EBX = 0, ECX = ECX0, EDX = EDX0\<rparr>))"
    using rows_need_avx512 assms(1) by fastforce
  from saves_avx512 [OF this] show ?thesis using saves_avx by fastforce
qed

lemma available_amx:
  assumes "F \<in> set amx_features" "hasFeature (getAvailableFeatures C ECX0 EDX0 m [0, 0, 0, 0]) F"
  shows "\<exists>a d. xgetbv C = Some (a, d) \<and> bit ECX0 27 \<and> bit a 17 \<and> bit a 18"
proof -
  have F: "F < 128" "F \<notin> {FEATURE_X86_64_BASELINE, FEATURE_X86_64_V2, FEATURE_X86_64_V3, FEATURE_X86_64_V4}"
    using assms(1) by (auto simp: amx_features_def feature_number)
  obtain R H where "(True, F) \<in> set (deciding_rows (fst (context_saves C \<lparr>EAX = 0, EBX = 0, ECX = ECX0, EDX = EDX0\<rparr>)) R H)"
    using available_row [OF F assms(2)] by blast
  then show ?thesis using rows_need_amx assms(1) saves_amx by fastforce
qed

lemma available_apx:
  assumes "hasFeature (getAvailableFeatures C ECX0 EDX0 m [0, 0, 0, 0]) FEATURE_APXF"
  shows "\<exists>a d. xgetbv C = Some (a, d) \<and> bit ECX0 27 \<and> bit a 19"
proof -
  have F: "FEATURE_APXF < 128" "FEATURE_APXF \<notin> {FEATURE_X86_64_BASELINE, FEATURE_X86_64_V2, FEATURE_X86_64_V3, FEATURE_X86_64_V4}"
    by (auto simp: feature_number)
  obtain R H where "(True, FEATURE_APXF) \<in> set (deciding_rows (fst (context_saves C \<lparr>EAX = 0, EBX = 0, ECX = ECX0, EDX = EDX0\<rparr>)) R H)"
    using available_row [OF F assms] by blast
  then show ?thesis using rows_need_apx saves_apx by fastforce
qed

text \<open>The unchecked features depend on the leaves alone.\<close>

lemma available_unchecked:
  assumes "F \<in> set unchecked_features"
  shows "hasFeature (getAvailableFeatures C ECX0 EDX0 m [0, 0, 0, 0]) F \<longleftrightarrow>
    (True, F) \<in> set (announced ECX0 (leaf7_1 C m) (leaf1E C) (leaf24 C) (ext1 C))"
proof -
  have F: "F < 128" "F \<notin> {FEATURE_X86_64_BASELINE, FEATURE_X86_64_V2, FEATURE_X86_64_V3, FEATURE_X86_64_V4}"
    using assms by (auto simp: unchecked_features_def feature_number)
  show ?thesis
  proof (rule available_iff [OF F, where C = C and m = m and ?ECX0.0 = ECX0 and ?EDX0.0 = EDX0])
    fix R H
    assume leaves: "ECX (R 0) = ECX0" "read_leaf (H 3) (R 3) = leaf7_1 C m" "read_leaf (H 5) (R 5) = leaf1E C"
        "read_leaf (H 6) (R 6) = leaf24 C" "read_leaf (H 7) (R 7) = ext1 C"
      and rows: "hasFeature (getAvailableFeatures C ECX0 EDX0 m [0, 0, 0, 0]) F \<longleftrightarrow>
        (True, F) \<in> set (deciding_rows (fst (context_saves C \<lparr>EAX = 0, EBX = 0, ECX = ECX0, EDX = EDX0\<rparr>)) R H)"
    show ?thesis
      using rows unchecked_rows [unfolded list_all_iff, rule_format, OF assms, of _ R H] unfolding leaves by blast
  qed
qed

lemma announced_without_osxsave:
  "(True, F) \<in> set (announced (ECX0 AND NOT 0x18000000) a b c d) \<longleftrightarrow> (True, F) \<in> set (announced ECX0 a b c d)"
  by (simp add: announced_def flag_bit bit_simps Let_def)

lemma available_classified:
  assumes "hasFeature (getAvailableFeatures C ECX0 EDX0 m [0, 0, 0, 0]) F" "F < 128"
  shows "F \<in> set (avx_features @ avx512_features @ amx_features @ FEATURE_APXF # unchecked_features @ general_features) \<or>
    F \<in> {FEATURE_X86_64_BASELINE, FEATURE_X86_64_V2, FEATURE_X86_64_V3, FEATURE_X86_64_V4}"
proof (cases "F \<in> {FEATURE_X86_64_BASELINE, FEATURE_X86_64_V2, FEATURE_X86_64_V3, FEATURE_X86_64_V4}")
  case False
  obtain R H where r: "(True, F) \<in> set (deciding_rows (fst (context_saves C \<lparr>EAX = 0, EBX = 0, ECX = ECX0, EDX = EDX0\<rparr>)) R H)"
    by (rule available_row [OF assms(2) False assms(1)])
  show ?thesis using bspec [OF rows_classified r] by blast
qed blast

lemma available_levels:
  assumes "hasFeature (getAvailableFeatures C ECX0 EDX0 m [0, 0, 0, 0]) F"
  shows "F = FEATURE_X86_64_V3 \<or> F = FEATURE_X86_64_V4 \<Longrightarrow>
      hasFeature (getAvailableFeatures C ECX0 EDX0 m [0, 0, 0, 0]) FEATURE_AVX2"
    and "F = FEATURE_X86_64_V4 \<Longrightarrow> hasFeature (getAvailableFeatures C ECX0 EDX0 m [0, 0, 0, 0]) FEATURE_AVX512BW"
proof -
  let ?fs = "further_features C (basic_features C m \<lparr>EAX = 0, EBX = 0, ECX = ECX0, EDX = EDX0\<rparr> [0, 0, 0, 0])"
  let ?r = "\<lparr>EAX = 0, EBX = 0, ECX = ECX0, EDX = EDX0\<rparr>"
  have "(True, G) \<notin> set (deciding_rows sv R H)" if "G = FEATURE_X86_64_V3 \<or> G = FEATURE_X86_64_V4" for G sv R H
    using rows_no_level that by fastforce
  then have none: "\<not> hasFeature ?fs FEATURE_X86_64_V3" "\<not> hasFeature ?fs FEATURE_X86_64_V4"
    using scan_decides [of ?r C m] by (auto simp: feature_number)
  have length: "length ?fs = 4" by simp
  have found: "hasFeature (set_levels ?fs) F" using assms by (simp add: getAvailableFeatures_def)
  have keep: "hasFeature (getAvailableFeatures C ECX0 EDX0 m [0, 0, 0, 0]) G" if "hasFeature ?fs G" "G < 128" for G
    using that hasFeature_set_levels [OF length that(2)] by (simp add: getAvailableFeatures_def)
  have lt: "FEATURE_X86_64_V3 < 128" "FEATURE_X86_64_V4 < 128" "FEATURE_AVX2 < 128" "FEATURE_AVX512BW < 128"
    and ne: "FEATURE_X86_64_V3 \<noteq> FEATURE_X86_64_BASELINE" "FEATURE_X86_64_V3 \<noteq> FEATURE_X86_64_V2"
      "FEATURE_X86_64_V4 \<noteq> FEATURE_X86_64_BASELINE" "FEATURE_X86_64_V4 \<noteq> FEATURE_X86_64_V2" "FEATURE_X86_64_V4 \<noteq> FEATURE_X86_64_V3"
    by (simp_all add: feature_number)
  show "hasFeature (getAvailableFeatures C ECX0 EDX0 m [0, 0, 0, 0]) FEATURE_AVX2" if "F = FEATURE_X86_64_V3 \<or> F = FEATURE_X86_64_V4"
    using that found none ne hasFeature_set_levels [OF length lt(1)] hasFeature_set_levels [OF length lt(2)] keep [OF _ lt(3)] by blast
  show "hasFeature (getAvailableFeatures C ECX0 EDX0 m [0, 0, 0, 0]) FEATURE_AVX512BW" if "F = FEATURE_X86_64_V4"
    using that found none ne hasFeature_set_levels [OF length lt(2)] keep [OF _ lt(4)] by blast
qed

lemma vector_lists: "FEATURE_AVX2 \<in> set avx_features" "FEATURE_AVX512BW \<in> set avx512_features"
  by (simp_all add: avx_features_def avx512_features_def)

text \<open>C18: which reported features the operating system supports.  A reported AVX feature of the checked list, or the level v3 or
  v4, implies that cpuid announces OSXSAVE and AVX and that XCR0 has the SSE and AVX states enabled; a reported AVX-512
  feature, or v4, that the opmask and both ZMM states are enabled as well; a reported AMX feature of the checked list
  that the tile configuration and data are; and APX that its extended registers are, whatever the other leaves of cpuid return.  The
  code does not test the state for FMA, F16C, XOP, FMA4, SHA512, SM3, SM4, AVX10 and the AMX features of leaf \<open>0x1E\<close>:
  one that is reported is reported by the same processor whatever XCR0 holds and with OSXSAVE and AVX unannounced.  The
  lists, the levels and the features of general and SSE instructions are all the code reports.\<close>
theorem vector_features_need_os_support:
  assumes "hasFeature (getAvailableFeatures C ECX0 EDX0 MaxLeaf [0, 0, 0, 0]) F"
  shows "(F \<in> set avx_features \<or> F = FEATURE_X86_64_V3 \<or> F = FEATURE_X86_64_V4 \<longrightarrow>
            (\<exists>a d. xgetbv C = Some (a, d) \<and> bit ECX0 27 \<and> bit ECX0 28 \<and> bit a 1 \<and> bit a 2)) \<and>
         (F \<in> set avx512_features \<or> F = FEATURE_X86_64_V4 \<longrightarrow>
            (\<exists>a d. xgetbv C = Some (a, d) \<and> bit ECX0 27 \<and> bit ECX0 28 \<and> bit a 1 \<and> bit a 2 \<and> bit a 5 \<and> bit a 6 \<and> bit a 7)) \<and>
         (F \<in> set amx_features \<longrightarrow> (\<exists>a d. xgetbv C = Some (a, d) \<and> bit ECX0 27 \<and> bit a 17 \<and> bit a 18)) \<and>
         (F = FEATURE_APXF \<longrightarrow> (\<exists>a d. xgetbv C = Some (a, d) \<and> bit ECX0 27 \<and> bit a 19)) \<and>
         (F \<in> set unchecked_features \<longrightarrow> (\<forall>x. hasFeature
            (getAvailableFeatures (C\<lparr>xgetbv := x\<rparr>) (ECX0 AND NOT 0x18000000) EDX0 MaxLeaf [0, 0, 0, 0]) F)) \<and>
         (F < 128 \<longrightarrow>
            F \<in> set (avx_features @ avx512_features @ amx_features @ FEATURE_APXF # unchecked_features @ general_features) \<or>
            F \<in> {FEATURE_X86_64_BASELINE, FEATURE_X86_64_V2, FEATURE_X86_64_V3, FEATURE_X86_64_V4})"
proof (intro conjI impI allI)
  assume "F \<in> set avx_features \<or> F = FEATURE_X86_64_V3 \<or> F = FEATURE_X86_64_V4"
  then show "\<exists>a d. xgetbv C = Some (a, d) \<and> bit ECX0 27 \<and> bit ECX0 28 \<and> bit a 1 \<and> bit a 2"
    using available_avx assms available_levels(1) [OF assms] vector_lists(1) by metis
next
  assume "F \<in> set avx512_features \<or> F = FEATURE_X86_64_V4"
  then show "\<exists>a d. xgetbv C = Some (a, d) \<and> bit ECX0 27 \<and> bit ECX0 28 \<and> bit a 1 \<and> bit a 2 \<and> bit a 5 \<and> bit a 6 \<and> bit a 7"
    using available_avx512 assms available_levels(2) [OF assms] vector_lists(2) by metis
next
  assume "F \<in> set amx_features"
  then show "\<exists>a d. xgetbv C = Some (a, d) \<and> bit ECX0 27 \<and> bit a 17 \<and> bit a 18" using available_amx assms by blast
next
  assume "F = FEATURE_APXF"
  then show "\<exists>a d. xgetbv C = Some (a, d) \<and> bit ECX0 27 \<and> bit a 19" using available_apx assms by blast
next
  fix x
  assume u: "F \<in> set unchecked_features"
  then have "(True, F) \<in> set (announced ECX0 (leaf7_1 C MaxLeaf) (leaf1E C) (leaf24 C) (ext1 C))"
    using available_unchecked assms by blast
  then show "hasFeature (getAvailableFeatures (C\<lparr>xgetbv := x\<rparr>) (ECX0 AND NOT 0x18000000) EDX0 MaxLeaf [0, 0, 0, 0]) F"
    using u by (simp only: available_unchecked leaf_without_xgetbv announced_without_osxsave)
next
  assume "F < 128"
  then show "F \<in> set (avx_features @ avx512_features @ amx_features @ FEATURE_APXF # unchecked_features @ general_features) \<or>
      F \<in> {FEATURE_X86_64_BASELINE, FEATURE_X86_64_V2, FEATURE_X86_64_V3, FEATURE_X86_64_V4}"
    using available_classified assms by blast
qed

text \<open>A processor with all AVX-512 features of leaf 7, whose system saves the states up to AVX-512.\<close>

definition sample_cpu :: cpu where
  "sample_cpu =
     \<lparr>cpuid = (\<lambda>leaf. if leaf = 0 then Some \<lparr>EAX = 7, EBX = SIG_INTEL, ECX = 0, EDX = 0\<rparr>
               else if leaf = 1 then Some \<lparr>EAX = 0x00050654, EBX = 0, ECX = 0x18000000, EDX = 0x06000000\<rparr> else None),
      cpuid_count = (\<lambda>leaf subleaf. if leaf = 7 \<and> subleaf = 0
               then Some \<lparr>EAX = 0, EBX = 0xFFFFFFFF, ECX = 0x800, EDX = 0\<rparr> else None),
      xgetbv = Some (0xE7, 0)\<rparr>"

text \<open>The same processor with FMA (bit 12 of \<open>ECX\<close>), of which the system saves nothing.\<close>

lemma vector_features_need_os_support_witness:
  "(\<exists>a d. xgetbv sample_cpu = Some (a, d) \<and> bit a 5 \<and> bit a 6 \<and> bit a 7) \<and>
   hasFeature (getAvailableFeatures (sample_cpu\<lparr>xgetbv := None\<rparr>) 0x1000 0x06000000 7 [0, 0, 0, 0]) FEATURE_FMA"
proof -
  have "hasFeature (getAvailableFeatures sample_cpu 0x18001000 0x06000000 7 [0, 0, 0, 0]) FEATURE_AVX512F"
    by (rule available_by_leaf7 [of _ "\<lparr>EAX = 0, EBX = 0xFFFFFFFF, ECX = 0x800, EDX = 0\<rparr>"])
      (simp_all add: sample_cpu_def leaf7_ebx_rows_def flag_bit feature_number
        context_saves_def guarded_def getX86XCR0_def Let_def bit_simps)
  moreover have "hasFeature (getAvailableFeatures sample_cpu 0x18001000 0x06000000 7 [0, 0, 0, 0]) FEATURE_FMA"
    by (subst available_unchecked) (simp_all add: unchecked_features_def announced_def flag_bit bit_simps Let_def)
  ultimately have saved: "\<exists>a d. xgetbv sample_cpu = Some (a, d) \<and> bit (0x18001000 :: 32 word) 27 \<and> bit (0x18001000 :: 32 word) 28 \<and>
        bit a 1 \<and> bit a 2 \<and> bit a 5 \<and> bit a 6 \<and> bit a 7"
    and fma: "hasFeature (getAvailableFeatures (sample_cpu\<lparr>xgetbv := None\<rparr>) (0x18001000 AND NOT 0x18000000) 0x06000000 7 [0, 0, 0, 0]) FEATURE_FMA"
    using vector_features_need_os_support [of sample_cpu "0x18001000" "0x06000000" 7 FEATURE_AVX512F,
        THEN conjunct2, THEN conjunct1, rule_format]
      vector_features_need_os_support [of sample_cpu "0x18001000" "0x06000000" 7 FEATURE_FMA,
        THEN conjunct2, THEN conjunct2, THEN conjunct2, THEN conjunct2, THEN conjunct1, rule_format, of None]
    by (simp_all only: avx512_features_def unchecked_features_def list.set insert_iff simp_thms)
  have "(0x18001000 AND NOT 0x18000000 :: 32 word) = 0x1000" by simp
  then show ?thesis using saved fma by auto
qed

text \<open>The x86-64 levels: with the other features as reported, the baseline is LM and SSE2, each further level is
  the one below it together with its own features, and so the levels are ordered.\<close>
theorem x86_64_levels:
  "let fs = getAvailableFeatures C ECX0 EDX0 MaxLeaf [0, 0, 0, 0] in
   (hasFeature fs FEATURE_X86_64_BASELINE \<longleftrightarrow> hasFeature fs FEATURE_LM \<and> hasFeature fs FEATURE_SSE2) \<and>
   (hasFeature fs FEATURE_X86_64_V2 \<longleftrightarrow> hasFeature fs FEATURE_X86_64_BASELINE \<and> hasFeature fs FEATURE_CMPXCHG16B \<and>
      hasFeature fs FEATURE_POPCNT \<and> hasFeature fs FEATURE_LAHF_LM \<and> hasFeature fs FEATURE_SSE4_2) \<and>
   (hasFeature fs FEATURE_X86_64_V3 \<longleftrightarrow> hasFeature fs FEATURE_X86_64_V2 \<and> hasFeature fs FEATURE_AVX2 \<and>
      hasFeature fs FEATURE_BMI \<and> hasFeature fs FEATURE_BMI2 \<and> hasFeature fs FEATURE_F16C \<and> hasFeature fs FEATURE_FMA \<and>
      hasFeature fs FEATURE_LZCNT \<and> hasFeature fs FEATURE_MOVBE) \<and>
   (hasFeature fs FEATURE_X86_64_V4 \<longleftrightarrow> hasFeature fs FEATURE_X86_64_V3 \<and> hasFeature fs FEATURE_AVX512BW \<and>
      hasFeature fs FEATURE_AVX512CD \<and> hasFeature fs FEATURE_AVX512DQ \<and> hasFeature fs FEATURE_AVX512VL)"
proof -
  let ?r = "\<lparr>EAX = 0, EBX = 0, ECX = ECX0, EDX = EDX0\<rparr>"
  let ?fs = "further_features C (basic_features C MaxLeaf ?r [0, 0, 0, 0])"
  have "\<not> hasFeature ?fs F" if "F \<in> {FEATURE_X86_64_BASELINE, FEATURE_X86_64_V2, FEATURE_X86_64_V3, FEATURE_X86_64_V4}" for F
  proof -
    have "F < 128" using that by (auto simp: feature_number)
    moreover have "(True, F) \<notin> set (deciding_rows sv R H)" for sv R H using rows_no_level that by fastforce
    ultimately show ?thesis using scan_decides [of ?r C MaxLeaf] by auto
  qed
  then have none: "\<not> hasFeature ?fs FEATURE_X86_64_BASELINE" "\<not> hasFeature ?fs FEATURE_X86_64_V2"
    "\<not> hasFeature ?fs FEATURE_X86_64_V3" "\<not> hasFeature ?fs FEATURE_X86_64_V4" by simp_all
  have lt: "FEATURE_X86_64_BASELINE < 128" "FEATURE_X86_64_V2 < 128" "FEATURE_X86_64_V3 < 128" "FEATURE_X86_64_V4 < 128"
    "FEATURE_LM < 128" "FEATURE_SSE2 < 128" "FEATURE_CMPXCHG16B < 128" "FEATURE_POPCNT < 128" "FEATURE_LAHF_LM < 128"
    "FEATURE_SSE4_2 < 128" "FEATURE_AVX2 < 128" "FEATURE_BMI < 128" "FEATURE_BMI2 < 128" "FEATURE_F16C < 128"
    "FEATURE_FMA < 128" "FEATURE_LZCNT < 128" "FEATURE_MOVBE < 128" "FEATURE_AVX512BW < 128" "FEATURE_AVX512CD < 128"
    "FEATURE_AVX512DQ < 128" "FEATURE_AVX512VL < 128"
    by (simp_all add: feature_number)
  have length: "length ?fs = 4" by simp
  have ne: "FEATURE_X86_64_BASELINE \<noteq> FEATURE_X86_64_V2" "FEATURE_X86_64_BASELINE \<noteq> FEATURE_X86_64_V3"
    "FEATURE_X86_64_BASELINE \<noteq> FEATURE_X86_64_V4" "FEATURE_X86_64_V2 \<noteq> FEATURE_X86_64_V3" 
    "FEATURE_X86_64_V2 \<noteq> FEATURE_X86_64_V4" "FEATURE_X86_64_V3 \<noteq> FEATURE_X86_64_V4"
    by (simp_all add: feature_number)
  have level_ne: "F \<notin> {FEATURE_X86_64_BASELINE, FEATURE_X86_64_V2, FEATURE_X86_64_V3, FEATURE_X86_64_V4} \<Longrightarrow> F < 128 \<Longrightarrow>
      hasFeature (set_levels ?fs) F \<longleftrightarrow> hasFeature ?fs F" for F
    using length by (auto simp: hasFeature_set_levels)
  have others: "\<forall>F\<in>{FEATURE_LM, FEATURE_SSE2, FEATURE_CMPXCHG16B, FEATURE_POPCNT, FEATURE_LAHF_LM, FEATURE_SSE4_2, FEATURE_AVX2,
      FEATURE_BMI, FEATURE_BMI2, FEATURE_F16C, FEATURE_FMA, FEATURE_LZCNT, FEATURE_MOVBE, FEATURE_AVX512BW, FEATURE_AVX512CD,
      FEATURE_AVX512DQ, FEATURE_AVX512VL}. F \<notin> {FEATURE_X86_64_BASELINE, FEATURE_X86_64_V2, FEATURE_X86_64_V3, FEATURE_X86_64_V4}"
    by (simp add: feature_number)
  show ?thesis
    unfolding getAvailableFeatures_def Let_def
    using others none lt
    by (simp add: level_ne hasFeature_set_levels [OF length] ne ne [symmetric])
qed

text \<open>The AVX10 versions are gated by a bit of the wrong leaf: they are reported only when bit 19 of EDX of leaf
  0x24 itself is set, because the EDX of leaf 7 that enumerates AVX10 has been overwritten when it is tested.\<close>
theorem avx10_gated_by_leaf24:
  assumes "hasFeature (getAvailableFeatures C ECX0 EDX0 MaxLeaf [0, 0, 0, 0]) F"
    and "F = FEATURE_AVX10_1 \<or> F = FEATURE_AVX10_2"
  shows "\<exists>r. cpuid_count C 0x24 0 = Some r \<and> bit (EDX r) 19"
proof -
  have F: "F < 128" "F \<notin> {FEATURE_X86_64_BASELINE, FEATURE_X86_64_V2, FEATURE_X86_64_V3, FEATURE_X86_64_V4}"
    using assms(2) by (auto simp: feature_number)
  obtain R H where "H 6 \<longrightarrow> cpuid_count C 0x24 0 = Some (R 6)"
    "(True, F) \<in> set (deciding_rows (fst (context_saves C \<lparr>EAX = 0, EBX = 0, ECX = ECX0, EDX = EDX0\<rparr>)) R H)"
    using available_row [OF F assms(1)] by blast
  then show ?thesis using rows_gate_avx10 assms(2) by (fastforce simp: flag_bit)
qed

text \<open>A processor that sets that bit in every leaf.\<close>

definition avx10_cpu :: cpu where
  "avx10_cpu =
     \<lparr>cpuid = (\<lambda>leaf. Some \<lparr>EAX = 0x24, EBX = 0, ECX = 0, EDX = 0\<rparr>),
      cpuid_count = (\<lambda>leaf subleaf. Some \<lparr>EAX = 1, EBX = 1, ECX = 0, EDX = 0x80000\<rparr>), xgetbv = None\<rparr>"

lemma avx10_gated_by_leaf24_witness:
  "\<exists>r. cpuid_count avx10_cpu 0x24 0 = Some r \<and> bit (EDX r) 19"
proof -
  have "hasFeature (getAvailableFeatures avx10_cpu 0 0 7 [0, 0, 0, 0]) FEATURE_AVX10_1"
    by (rule available_by_leaf24
        [of _ "\<lparr>EAX = 0x24, EBX = 0, ECX = 0, EDX = 0\<rparr>" "\<lparr>EAX = 1, EBX = 1, ECX = 0, EDX = 0x80000\<rparr>"
          "\<lparr>EAX = 1, EBX = 1, ECX = 0, EDX = 0x80000\<rparr>"]) (simp_all add: avx10_cpu_def bit_simps)
  from avx10_gated_by_leaf24 [OF this] show ?thesis by blast
qed

section \<open>Decoding a signature\<close>

text \<open>Decoding a processor signature: family and model are the base fields of the signature, the extended
  family is added for base family 15 only, the extended model supplies the high digit of the model for base
  families 6 and 15 only, and the results fit into 270 families of 256 models.\<close>
theorem signature_decoding:
  "let (Family, Model) = detectX86FamilyModel s;
       base = unat s div 2 ^ 8 mod 16 in
   unat Family = base + (if base = 15 then unat s div 2 ^ 20 mod 256 else 0) \<and>
   unat Model = unat s div 2 ^ 4 mod 16 + (if base \<in> {6, 15} then 16 * (unat s div 2 ^ 16 mod 16) else 0) \<and>
   unat Family < 271 \<and> unat Model < 256"
proof -
  have "unat (take_bit k (drop_bit n s)) = unat s div 2 ^ n mod 2 ^ k" for k n
  proof -
    have "unat (take_bit k (drop_bit n s)) = take_bit k (unat (drop_bit n s))" by (rule unsigned_take_bit_eq)
    also have "unat (drop_bit n s) = unat s div 2 ^ n" by (rule unat_drop_bit_eq [THEN trans]) (rule drop_bit_eq_div)
    finally show ?thesis by (simp only: take_bit_eq_mod)
  qed
  from this [of 4] this [of 8] have field: "unat (drop_bit n s AND 0xF) = unat s div 2 ^ n mod 16"
    "unat (drop_bit n s AND 0xFF) = unat s div 2 ^ n mod 256" for n
    by (simp_all add: take_bit_eq_mask mask_eq_exp_minus_1)
  have base: "drop_bit 8 s AND 0xF = w \<longleftrightarrow> unat s div 2 ^ 8 mod 16 = unat w" for w
    unfolding field [symmetric] by (simp add: word_unat_eq_iff)
  have f: "unat ((drop_bit 8 s AND 0xF) + (drop_bit 20 s AND 0xFF)) = unat s div 2 ^ 8 mod 16 + unat s div 2 ^ 20 mod 256"
    by (simp add: unat_word_ariths field)
  have "unat (push_bit 4 (drop_bit 16 s AND 0xF)) = 16 * (unat s div 2 ^ 16 mod 16)"
    by (simp add: push_bit_eq_mult unat_word_ariths field)
  then have m: "unat ((drop_bit 4 s AND 0xF) + push_bit 4 (drop_bit 16 s AND 0xF)) =
      unat s div 2 ^ 4 mod 16 + 16 * (unat s div 2 ^ 16 mod 16)"
    by (simp only: unat_word_ariths field) simp
  have b: "unat s div 2 ^ n mod 16 < 16" "unat s div 2 ^ n mod 256 < 256" for n by simp_all
  show ?thesis
    using b(1) [of 8] b(2) [of 20] b(1) [of 4] b(1) [of 16]
    by (simp only: detectX86FamilyModel_def Let_def base split: if_split) (auto simp: f m [simplified] field)
qed

section \<open>Type and subtype\<close>

text \<open>The processor type that a subtype belongs to, by the prefix of its name.\<close>

definition subtype_type :: "ProcessorSubtypes \<Rightarrow> ProcessorTypes" where
  "subtype_type st =
     (if st \<in> {AMDFAM10H_BARCELONA, AMDFAM10H_SHANGHAI, AMDFAM10H_ISTANBUL} then AMDFAM10H
      else if st \<in> {AMDFAM15H_BDVER1, AMDFAM15H_BDVER2, AMDFAM15H_BDVER3, AMDFAM15H_BDVER4} then AMDFAM15H
      else if st \<in> {AMDFAM17H_ZNVER1, AMDFAM17H_ZNVER2} then AMDFAM17H
      else if st \<in> {AMDFAM19H_ZNVER3, AMDFAM19H_ZNVER4} then AMDFAM19H
      else if st = AMDFAM1AH_ZNVER5 then AMDFAM1AH
      else if st = ZHAOXIN_FAM7H_LUJIAZUI then ZHAOXIN_FAM7H
      else if st = CPU_SUBTYPE_MAX then CPU_TYPE_MAX
      else INTEL_COREI7)"

definition consistent :: "decoded \<Rightarrow> bool" where
  "consistent d \<longleftrightarrow> snd (snd d) = CPU_SUBTYPE_MAX \<or> fst (snd d) = subtype_type (snd (snd d))"

lemma consistent_if: "consistent a \<Longrightarrow> consistent b \<Longrightarrow> consistent (if c then a else b)"
  by simp

lemma consistent_tuple [simp]: "consistent (n, t, st) \<longleftrightarrow> st = CPU_SUBTYPE_MAX \<or> t = subtype_type st"
  by (simp add: consistent_def)

lemma consistent_core: "consistent other \<Longrightarrow> consistent (intel_core_models Model other)"
  unfolding intel_core_models_def by (intro consistent_if) (simp_all add: subtype_type_def)

lemma consistent_lake: "consistent other \<Longrightarrow> consistent (intel_lake_models Features Model other)"
  unfolding intel_lake_models_def by (intro consistent_if) (simp_all add: subtype_type_def)

lemma consistent_server: "consistent other \<Longrightarrow> consistent (intel_server_models Model other)"
  unfolding intel_server_models_def by (intro consistent_if) (simp_all add: subtype_type_def)

lemma consistent_atom: "consistent other \<Longrightarrow> consistent (intel_atom_models Model other)"
  unfolding intel_atom_models_def by (intro consistent_if) (simp_all add: subtype_type_def)

lemma consistent_intel: "consistent (intel_models Family Model Features)"
  unfolding intel_models_def Let_def
  by (intro consistent_if consistent_core consistent_lake consistent_server consistent_atom) (simp_all add: subtype_type_def)

lemma consistent_amd:
  "consistent (amd_old_models Family Model Features (amd_zen_models Family Model (None, CPU_TYPE_MAX, CPU_SUBTYPE_MAX)))"
  unfolding amd_old_models_def amd_zen_models_def
  by (intro consistent_if) (simp_all add: subtype_type_def)

section \<open>The result of the constructor\<close>

lemma type_code_less: "t \<noteq> CPU_TYPE_MAX \<Longrightarrow> 0 < type_code t \<and> type_code t < type_code CPU_TYPE_MAX"
  by (cases t) simp_all

lemma subtype_code_less: "t \<noteq> CPU_SUBTYPE_MAX \<Longrightarrow> 0 < subtype_code t \<and> subtype_code t < subtype_code CPU_SUBTYPE_MAX"
  by (cases t) simp_all

text \<open>What holds of the model once the constructor has run.\<close>

definition model_ok :: "processor_model \<Rightarrow> bool" where
  "model_ok M \<longleftrightarrow> cpu_type M < type_code CPU_TYPE_MAX \<and> cpu_subtype M < subtype_code CPU_SUBTYPE_MAX \<and>
     (cpu_subtype M = 0 \<or>
      (\<exists>st. cpu_subtype M = subtype_code st \<and> cpu_type M = type_code (subtype_type st)))"

lemma subtype_type_none: "subtype_type st = CPU_TYPE_MAX \<Longrightarrow> st = CPU_SUBTYPE_MAX"
  by (simp add: subtype_type_def split: if_splits)

lemma store_ok:
  assumes "cpu_type M = 0" "cpu_subtype M = 0" "consistent d"
  shows "model_ok (snd (store_decoded d M)) \<and> cpu_features (snd (store_decoded d M)) = cpu_features M"
proof -
  obtain n t st where d: "d = (n, t, st)" by (cases d)
  show ?thesis
    using assms(1,2) assms(3) [unfolded d] type_code_less [of t] subtype_code_less [of st] subtype_type_none [of st]
    by (cases "t = CPU_TYPE_MAX"; cases "st = CPU_SUBTYPE_MAX")
      (auto simp: d store_decoded_def model_ok_def Let_def)
qed

lemma decode_vendor_ok:
  assumes "cpu_type M = 0" "cpu_subtype M = 0"
  shows "model_ok (decode_vendor V f m Fs M) \<and> cpu_features (decode_vendor V f m Fs M) = cpu_features M \<and>
    cpu_vendor (decode_vendor V f m Fs M) = (if V = SIG_INTEL then VENDOR_INTEL else if V = SIG_AMD then VENDOR_AMD else VENDOR_OTHER)"
  using store_ok [OF assms consistent_intel [of f m Fs]] store_ok [OF assms consistent_amd [of f m Fs]] assms
  by (auto simp: decode_vendor_def getIntelProcessorTypeAndSubtype_def getAMDProcessorTypeAndSubtype_def model_ok_def)

definition init_post :: "cpu \<Rightarrow> int \<Rightarrow> cpu_globals \<Rightarrow> bool" where
  "init_post C res g \<longleftrightarrow>
     (case cpuid C 0 of
        None \<Rightarrow> res = - 1 \<and> cpu_vendor (cpu_model g) = VENDOR_OTHER \<and> cpu_features2 g = [0, 0, 0]
      | Some r \<Rightarrow>
          if EAX r < 1 then res = - 1 \<and> cpu_vendor (cpu_model g) = VENDOR_OTHER \<and> cpu_features2 g = [0, 0, 0]
          else res = 0 \<and>
            cpu_vendor (cpu_model g) =
              (if EBX r = SIG_INTEL then VENDOR_INTEL else if EBX r = SIG_AMD then VENDOR_AMD else VENDOR_OTHER) \<and>
            (let q = (case cpuid C 1 of None \<Rightarrow> r | Some q \<Rightarrow> q) in
             cpu_features (cpu_model g) # cpu_features2 g = getAvailableFeatures C (ECX q) (EDX q) (EAX r) [0, 0, 0, 0]))"

lemma length_available: "length fs = 4 \<Longrightarrow> length (getAvailableFeatures C c d m fs) = 4"
  by (simp add: getAvailableFeatures_def set_levels_def Let_def)

lemma four_words: "length fs = 4 \<Longrightarrow> [fs ! 0, fs ! 1, fs ! 2, fs ! 3] = fs"
  by (simp add: list_eq_iff_nth_eq less_Suc_eq numeral_eq_Suc nth_Cons')

lemma init_runs:
  "\<exists>res g. cpu_indicator_init C initial_globals = Some (res, g) \<and> model_ok (cpu_model g) \<and> init_post C res g"
proof (cases "\<exists>r. cpuid C 0 = Some r \<and> \<not> EAX r < 1")
  case True
  then obtain r where r: "cpuid C 0 = Some r" "\<not> EAX r < 1" by blast
  then have nz: "EAX r \<noteq> 0" by auto
  obtain ok q where q: "getX86CpuIDAndInfo C 1 (r\<lparr>EAX := 0, EBX := 0\<rparr>) = (ok, q)" by fastforce
  obtain f m where f: "detectX86FamilyModel (EAX q) = (f, m)" by fastforce
  define Fs where "Fs = getAvailableFeatures C (ECX q) (EDX q) (EAX r) [0, 0, 0, 0]"
  let ?M = "(cpu_model initial_globals)\<lparr>cpu_features := Fs ! 0\<rparr>"
  let ?g = "\<lparr>cpu_model = decode_vendor (EBX r) f m Fs ?M, cpu_features2 = [Fs ! 1, Fs ! 2, Fs ! 3]\<rparr>"
  have ok: "model_ok (cpu_model ?g)" "cpu_features (cpu_model ?g) = Fs ! 0"
    "cpu_vendor (cpu_model ?g) = (if EBX r = SIG_INTEL then VENDOR_INTEL else if EBX r = SIG_AMD then VENDOR_AMD else VENDOR_OTHER)"
    using decode_vendor_ok [of ?M "EBX r" f m Fs] by (simp_all add: initial_globals_def)
  have "init_assertions ?g"
    using ok by (auto simp: init_assertions_def model_ok_def VENDOR_INTEL_def VENDOR_AMD_def VENDOR_OTHER_def VENDOR_MAX_def)
  then have "cpu_indicator_init C initial_globals = Some (0, ?g)"
    by (simp add: cpu_indicator_init_def getX86CpuIDAndInfo_def [of C 0] r q f nz Fs_def initial_globals_def Let_def)
  moreover have "[Fs ! 0, Fs ! 1, Fs ! 2, Fs ! 3] = Fs" by (rule four_words) (simp add: Fs_def length_available)
  then have "init_post C 0 ?g"
    using ok(2,3) q by (auto simp: init_post_def r nz Fs_def getX86CpuIDAndInfo_def split: option.splits)
  ultimately show ?thesis using ok(1) by blast
next
  case False
  then show ?thesis
    by (auto simp: cpu_indicator_init_def getX86CpuIDAndInfo_def initial_globals_def init_post_def model_ok_def split: option.split)
qed

text \<open>C31: The constructor: from the zero globals it never fails one of its assertions; it returns -1 with vendor OTHER
  exactly when cpuid is missing or has no leaf 1, otherwise 0 with the vendor of the signature string and the
  feature words of the scan; a stored subtype always belongs to the stored type; and running it again
  returns 0 and changes nothing.\<close>
theorem cpu_indicator_init_once:
  "\<exists>res g. cpu_indicator_init C initial_globals = Some (res, g) \<and> model_ok (cpu_model g) \<and> init_post C res g \<and>
     cpu_indicator_init C' g = Some (0, g)"
proof -
  obtain res g where g: "cpu_indicator_init C initial_globals = Some (res, g)" "model_ok (cpu_model g)" "init_post C res g"
    using init_runs by blast
  then have "cpu_vendor (cpu_model g) \<noteq> 0"
    by (auto simp: init_post_def VENDOR_INTEL_def VENDOR_AMD_def VENDOR_OTHER_def split: option.splits if_splits)
  then have "cpu_indicator_init C' g = Some (0, g)" by (simp add: cpu_indicator_init_def)
  with g show ?thesis by blast
qed

end
