(* ===== verification/EmutlsHeap.thy ===== *)
theory EmutlsHeap
  imports Prelude
begin

text \<open>
  The C heap as \<^verbatim>\<open>emutls.c\<close> uses it, and its aligned allocator.  malloc and realloc are parameters; what
  the code relies on is \<open>malloc_ok\<close>: a result is null or a block apart from all live ones.  Freeing
  an address that is no live block is undefined and has no result.  The two
  implementations of \<open>emutls_memalign_alloc\<close> and \<open>emutls_memalign_free\<close> that the build chooses from satisfy one
  interface, the locale \<open>aligned_allocator\<close>.
\<close>

unbundle bit_operations_syntax

section \<open>The heap\<close>

record heap =
  live :: "uptr \<rightharpoonup> uptr"
  bytes :: "uptr \<Rightarrow> byte"

type_synonym malloc = "heap \<Rightarrow> uptr \<Rightarrow> uptr"

definition region :: "uptr \<Rightarrow> uptr \<Rightarrow> nat set" where
  "region p n = {unat p..<unat p + unat n}"

definition fresh :: "heap \<Rightarrow> uptr \<Rightarrow> uptr \<Rightarrow> bool" where
  "fresh h p n \<longleftrightarrow> p \<noteq> 0 \<and> unat p + unat n < 2 ^ 64 \<and> live h p = None \<and>
     (\<forall>q k. live h q = Some k \<longrightarrow> region p n \<inter> region q k = {})"

definition malloc_ok :: "malloc \<Rightarrow> bool" where
  "malloc_ok m \<longleftrightarrow> (\<forall>h n. m h n = 0 \<or> fresh h (m h n) n)"

definition heap_ok :: "heap \<Rightarrow> bool" where
  "heap_ok h \<longleftrightarrow>
     (\<forall>p n. live h p = Some n \<longrightarrow> p \<noteq> 0 \<and> unat p + unat n < 2 ^ 64) \<and>
     (\<forall>p n q k. live h p = Some n \<longrightarrow> live h q = Some k \<longrightarrow> p \<noteq> q \<longrightarrow> region p n \<inter> region q k = {})"

definition allocated :: "uptr \<Rightarrow> uptr \<Rightarrow> heap \<Rightarrow> heap" where
  "allocated p n h = h\<lparr>live := (live h)(p \<mapsto> n)\<rparr>"

definition c_free :: "uptr \<Rightarrow> heap \<Rightarrow> heap option" where
  "c_free p h =
     (if p = 0 then Some h else if live h p = None then None else Some (h\<lparr>live := (live h)(p := None)\<rparr>))"

text \<open>A word in memory, little endian, and memset or memcpy as a fill.\<close>

definition put_word :: "uptr \<Rightarrow> uptr \<Rightarrow> (uptr \<Rightarrow> byte) \<Rightarrow> uptr \<Rightarrow> byte" where
  "put_word a w m = (\<lambda>x. if x - a < 8 then ucast (drop_bit (8 * unat (x - a)) w) else m x)"

definition get_word :: "uptr \<Rightarrow> (uptr \<Rightarrow> byte) \<Rightarrow> uptr" where
  "get_word a m = word_rcat (rev (map (\<lambda>i. m (a + of_nat i)) [0..<8]))"

definition fill :: "uptr \<Rightarrow> uptr \<Rightarrow> (nat \<Rightarrow> byte) \<Rightarrow> (uptr \<Rightarrow> byte) \<Rightarrow> uptr \<Rightarrow> byte" where
  "fill p n f m = (\<lambda>x. if x - p < n then f (unat (x - p)) else m x)"

section \<open>The aligned allocator\<close>

definition EXTRA_ALIGN_PTR_BYTES :: "uptr \<Rightarrow> uptr" where
  "EXTRA_ALIGN_PTR_BYTES align = align - 1 + 8"

definition emutls_memalign_alloc :: "malloc \<Rightarrow> uptr \<Rightarrow> uptr \<Rightarrow> heap \<Rightarrow> (uptr \<times> heap) option" where
  "emutls_memalign_alloc malloc align sz h =
     (let n = EXTRA_ALIGN_PTR_BYTES align + sz;
          obj = malloc h n in
      if obj = 0 then None
      else
        let h = allocated obj n h;
            base = (obj + EXTRA_ALIGN_PTR_BYTES align) AND NOT (align - 1)
        in Some (base, h\<lparr>bytes := put_word (base - 8) obj (bytes h)\<rparr>))"

definition emutls_memalign_free :: "uptr \<Rightarrow> heap \<Rightarrow> heap option" where
  "emutls_memalign_free base h = c_free (get_word (base - 8) (bytes h)) h"

text \<open>
  With \<open>EMUTLS_USE_POSIX_MEMALIGN\<close>: posix_memalign returns a block that is aligned as asked,
  which is the additional condition \<open>memalign_ok\<close> on the parameter.
\<close>

definition posix_memalign_alloc :: "(uptr \<Rightarrow> malloc) \<Rightarrow> uptr \<Rightarrow> uptr \<Rightarrow> heap \<Rightarrow> (uptr \<times> heap) option" where
  "posix_memalign_alloc memalign align sz h =
     (let base = memalign align h sz in if base = 0 then None else Some (base, allocated base sz h))"

definition posix_memalign_free :: "uptr \<Rightarrow> heap \<Rightarrow> heap option" where
  "posix_memalign_free base h = c_free base h"

section \<open>Words in memory\<close>

lemma offset_unat: "i < 8 \<Longrightarrow> unat (of_nat i :: uptr) = i"
  by (simp add: unat_of_nat)

lemma get_put_word [simp]: "get_word a (put_word a w m) = w"
proof (rule bit_word_eqI)
  fix n assume "n < LENGTH(64)"
  then have "n div 8 < 8" by simp
  moreover have "(8::nat) * (n div 8) + n mod 8 = n" by simp
  ultimately show "bit (get_word a (put_word a w m)) n = bit w n"
    using \<open>n < LENGTH(64)\<close>
    by (simp add: get_word_def word_rcat_def bit_word_of_int_iff bit_horner_sum_uint_exp_iff [where 'a = 8, simplified]
        put_word_def word_less_nat_alt offset_unat bit_simps del: upt_Suc)
qed

lemma get_word_cong: "(\<And>i. i < 8 \<Longrightarrow> m (a + of_nat i) = m' (a + of_nat i)) \<Longrightarrow> get_word a m = get_word a m'"
  unfolding get_word_def by (intro arg_cong [where f = "\<lambda>xs. word_rcat (rev xs)"] map_cong) auto

section \<open>Allocating and freeing\<close>

lemma heap_ok_allocated: "heap_ok h \<Longrightarrow> fresh h p n \<Longrightarrow> heap_ok (allocated p n h)"
  unfolding heap_ok_def fresh_def allocated_def by (simp split: if_splits) blast

lemma heap_ok_bytes [simp]: "heap_ok (h\<lparr>bytes := m\<rparr>) = heap_ok h"
  by (simp add: heap_ok_def)

lemma heap_ok_free: "heap_ok h \<Longrightarrow> heap_ok (h\<lparr>live := (live h)(p := None)\<rparr>)"
  by (simp add: heap_ok_def)

lemma unat_two_power: "k < 64 \<Longrightarrow> unat (2 ^ k :: uptr) = 2 ^ k"
proof -
  assume "k < 64"
  then have k: "(2::nat) ^ k < 2 ^ 64" by (intro power_strict_increasing) simp_all
  have "(2 ^ k :: uptr) = of_nat (2 ^ k)" by simp
  with k show ?thesis by (simp only: unat_of_nat) simp
qed

text \<open>The test \<open>(align & (align - 1)) != 0\<close> refuses what is not a power of two.\<close>

lemma odd_part: "0 < (n::nat) \<Longrightarrow> \<exists>k q. n = 2 ^ k * (2 * q + 1)"
proof (induction n rule: less_induct)
  case (less n)
  show ?case
  proof (cases "even n")
    case True
    then obtain m where m: "n = 2 * m" by (rule evenE)
    then obtain k q where "m = 2 ^ k * (2 * q + 1)" using less.IH [of m] less.prems by auto
    then show ?thesis using m by (intro exI [of _ "Suc k"] exI [of _ q]) simp
  next
    case False
    then obtain q where "n = 2 * q + 1" by (rule oddE)
    then show ?thesis by (intro exI [of _ 0] exI [of _ q]) simp
  qed
qed

lemma power_of_two_test:
  fixes w :: uptr
  assumes "w AND (w - 1) = 0" "w \<noteq> 0"
  shows "\<exists>k<64. w = push_bit k 1"
proof -
  obtain k q where w: "unat w = 2 ^ k * (2 * q + 1)" using odd_part [of "unat w"] assms(2) by (auto simp: unat_gt_0)
  have "unat (w - 1) = unat w - 1" using assms(2) by (simp add: unat_minus_one)
  moreover have "(2 ^ k * (2 * q + 1) - 1) div 2 ^ k = 2 * q"
  proof -
    obtain j where j: "(2::nat) ^ k = Suc j" by (metis not0_implies_Suc power_not_zero zero_neq_numeral)
    have "Suc j * (2 * q + 1) - 1 = j + 2 * q * Suc j" by (simp add: algebra_simps)
    then show ?thesis unfolding j by (simp only: div_mult_self1) simp
  qed
  ultimately have "drop_bit k (unat (w - 1)) = 2 * q" "drop_bit k (unat w) = 2 * q + 1"
    by (simp_all add: drop_bit_eq_div w)
  moreover have "drop_bit k (unat w AND unat (w - 1)) = 0"
    by (simp only: unsigned_and_eq [symmetric] assms(1)) simp
  ultimately have "(2 * q + 1) AND (2 * q) = 0" by (simp add: drop_bit_and)
  moreover have "(2 * q + 1) AND (2 * q) = 2 * q"
  proof (rule bit_eqI)
    show "bit ((2 * q + 1) AND (2 * q)) n = bit (2 * q) n" for n
      unfolding bit_and_iff by (cases n) (simp_all add: bit_0 bit_Suc)
  qed
  ultimately have "q = 0" by simp
  then have u: "unat w = 2 ^ k" using w by simp
  have "k < 64" using unsigned_less [of w, where 'a = nat] unfolding u by (simp only: power_strict_increasing_iff one_less_numeral_iff semiring_norm) simp
  then show ?thesis using u by (intro exI [of _ k]) (simp add: push_bit_of_1 word_unat_eq_iff unat_two_power)
qed

text \<open>An object at \<open>p\<close> of \<open>n\<close> bytes, with \<open>k\<close> bytes before it, inside the live block at \<open>b\<close>.\<close>

definition inside :: "nat \<Rightarrow> uptr \<Rightarrow> uptr \<Rightarrow> uptr \<Rightarrow> heap \<Rightarrow> bool" where
  "inside k p n b h \<longleftrightarrow>
     p \<noteq> 0 \<and> (\<exists>j. live h b = Some j \<and> unat b + k \<le> unat p \<and> unat p + unat n \<le> unat b + unat j)"

text \<open>
  What the callers of the allocator rely on: \<open>block p h\<close> is the block an object lives in, \<open>hdr\<close> the size
  of what the allocator stores before the object, \<open>ok\<close> the assumption on the library's allocator.
\<close>

locale aligned_allocator =
  fixes alloc :: "'m \<Rightarrow> uptr \<Rightarrow> uptr \<Rightarrow> heap \<Rightarrow> (uptr \<times> heap) option"
    and release :: "uptr \<Rightarrow> heap \<Rightarrow> heap option"
    and block :: "uptr \<Rightarrow> heap \<Rightarrow> uptr"
    and hdr :: nat
    and ok :: "'m \<Rightarrow> bool"
  assumes alloc: "ok m \<Longrightarrow> heap_ok h \<Longrightarrow> 3 \<le> k \<Longrightarrow> k < 64 \<Longrightarrow> 2 ^ k + unat n + 8 \<le> 2 ^ 64 \<Longrightarrow>
      alloc m (push_bit k 1) n h = Some (p, h') \<Longrightarrow>
      heap_ok h' \<and> inside hdr p n (block p h') h' \<and> unat p mod 2 ^ k = 0 \<and> live h (block p h') = None \<and>
      (\<exists>j. live h' = (live h)(block p h' \<mapsto> j) \<and> (\<forall>x. unat x \<notin> region (block p h') j \<longrightarrow> bytes h' x = bytes h x))"
    and block_local: "unat (block p h) + hdr \<le> unat p \<Longrightarrow>
      (\<And>x. unat (block p h) \<le> unat x \<Longrightarrow> unat x < unat p \<Longrightarrow> bytes h' x = bytes h x) \<Longrightarrow> block p h' = block p h"
    and release: "release p h = c_free (block p h) h"
begin

lemma release_live:
  "inside hdr p n (block p h) h \<Longrightarrow> heap_ok h \<Longrightarrow> release p h = Some (h\<lparr>live := (live h)(block p h := None)\<rparr>)"
  by (auto simp: release c_free_def inside_def heap_ok_def)

end

section \<open>Both allocators\<close>

lemma region_disjoint: "region p n \<inter> region q k = {} \<Longrightarrow> unat x \<in> region p n \<Longrightarrow> unat x \<notin> region q k"
  by blast

lemma unat_align_down:
  fixes x :: uptr
  assumes "k < 64"
  shows "unat (x AND NOT (push_bit k 1 - 1)) = unat x - unat x mod 2 ^ k"
proof -
  have "x AND NOT (push_bit k 1 - 1) = push_bit k (drop_bit k x)"
    by (rule bit_word_eqI) (auto simp: mask_eq_exp_minus_1 [symmetric] push_bit_of_1 bit_simps)
  moreover have "unat x div 2 ^ k * 2 ^ k < 2 ^ 64" 
    using le_less_trans [OF div_times_less_eq_dividend unsigned_less [of x, where 'a = nat]] by simp
  ultimately have "unat (x AND NOT (push_bit k 1 - 1)) = unat x div 2 ^ k * 2 ^ k"
    using assms le_less_trans [OF div_le_dividend unsigned_less [of x, where 'a = nat], of "2 ^ k"]
    by (simp add: push_bit_eq_mult unat_word_ariths drop_bit_eq_div unat_div unat_two_power)
  then show ?thesis by (simp add: minus_mod_eq_div_mult)
qed

lemma alloc_geometry:
  fixes obj align n :: uptr
  assumes a: "align = push_bit k 1" "3 \<le> k" "k < 64" and n: "unat align + unat n + 8 \<le> 2 ^ 64"
    and f: "unat obj + unat (EXTRA_ALIGN_PTR_BYTES align + n) < 2 ^ 64" "obj \<noteq> 0"
  defines "base \<equiv> (obj + EXTRA_ALIGN_PTR_BYTES align) AND NOT (align - 1)"
  shows "unat base mod 2 ^ k = 0 \<and> unat obj + 8 \<le> unat base \<and>
    unat base + unat n \<le> unat obj + unat (EXTRA_ALIGN_PTR_BYTES align + n) \<and> base \<noteq> 0"
proof -
  have k: "(2::nat) ^ k < 2 ^ 64" using a by (intro power_strict_increasing) simp_all
  have ua: "unat align = 2 ^ k" using a by (simp add: push_bit_of_1 unat_two_power)
  have e: "unat (EXTRA_ALIGN_PTR_BYTES align) = 2 ^ k + 7"
  proof -
    have "unat (align - 1) = 2 ^ k - 1" using ua by (simp add: unat_sub_if_size word_le_nat_alt)
    moreover have "(2::nat) ^ k \<le> 2 ^ 63" using a by (intro power_increasing) simp_all
    ultimately show ?thesis using ua by (simp add: EXTRA_ALIGN_PTR_BYTES_def unat_word_ariths)
  qed
  have en: "unat (EXTRA_ALIGN_PTR_BYTES align + n) = 2 ^ k + 7 + unat n"
    using n by (simp add: unat_word_ariths e ua)
  have t: "unat (obj + EXTRA_ALIGN_PTR_BYTES align) = unat obj + 2 ^ k + 7"
    using f(1) unfolding en by (simp add: unat_word_ariths e)
  have b: "unat base = unat obj + 2 ^ k + 7 - (unat obj + 2 ^ k + 7) mod 2 ^ k"
    unfolding base_def a(1) using unat_align_down [OF a(3)] t by (simp add: a(1))
  have "(unat obj + 2 ^ k + 7) mod 2 ^ k < 2 ^ k" by simp
  moreover have "unat base mod 2 ^ k = 0" unfolding b by (simp add: minus_mod_eq_mult_div)
  moreover have "unat obj + 8 \<le> unat base" using calculation b by linarith
  ultimately show ?thesis using b en by (auto simp: unat_gt_0)
qed

lemma below_diff: "unat (a :: uptr) \<le> unat p \<Longrightarrow> unat (p - a) = unat p - unat a"
  by (simp add: unat_sub_if_size)

lemma window:
  fixes a x n :: uptr
  assumes "unat a + unat n \<le> 2 ^ 64"
  shows "x - a < n \<longleftrightarrow> unat a \<le> unat x \<and> unat x < unat a + unat n"
  using assms unsigned_less [of a, where 'a = nat]
  by (auto simp: word_less_nat_alt unat_sub_if_size word_le_nat_alt wsst_TYs)

lemma header_offset:
  fixes p x :: uptr
  assumes "8 \<le> unat p"
  shows "x - (p - 8) < 8 \<longleftrightarrow> unat p - 8 \<le> unat x \<and> unat x < unat p"
proof -
  have "unat (p - 8) = unat p - 8" using below_diff [of 8 p] assms by simp
  then show ?thesis using window [of "p - 8" 8 x] assms unsigned_less [of p, where 'a = nat] by auto
qed

interpretation memalign: aligned_allocator emutls_memalign_alloc emutls_memalign_free
  "\<lambda>p h. get_word (p - 8) (bytes h)" 8 malloc_ok
proof unfold_locales
  fix m :: malloc and h h' :: heap and k :: nat and n p :: uptr
  assume a: "malloc_ok m" "heap_ok h" "3 \<le> k" "k < 64" "2 ^ k + unat n + 8 \<le> 2 ^ 64"
    "emutls_memalign_alloc m (push_bit k 1) n h = Some (p, h')"
  let ?n = "EXTRA_ALIGN_PTR_BYTES (push_bit k 1) + n"
  let ?o = "m h ?n"
  have o: "?o \<noteq> 0" using a(6) by (auto simp: emutls_memalign_alloc_def Let_def)
  then have f: "fresh h ?o ?n" using a(1) by (auto simp: malloc_ok_def)
  have p: "p = (?o + EXTRA_ALIGN_PTR_BYTES (push_bit k 1)) AND NOT (push_bit k 1 - 1)"
    and h': "h' = (allocated ?o ?n h)\<lparr>bytes := put_word (p - 8) ?o (bytes h)\<rparr>"
    using a(6) o by (auto simp: emutls_memalign_alloc_def Let_def allocated_def)
  have g: "unat p mod 2 ^ k = 0 \<and> unat ?o + 8 \<le> unat p \<and> unat p + unat n \<le> unat ?o + unat ?n \<and> p \<noteq> 0"
    unfolding p using alloc_geometry [OF refl a(3,4), of n ?o] a(4,5) f by (simp add: fresh_def unat_two_power push_bit_of_1)
  have b: "get_word (p - 8) (bytes h') = ?o" by (simp add: h')
  have frame: "bytes h' x = bytes h x" if "unat x \<notin> region ?o ?n" for x
    using that g header_offset [of p x] by (auto simp: h' put_word_def region_def)
  show "heap_ok h' \<and> inside 8 p n (get_word (p - 8) (bytes h')) h' \<and> unat p mod 2 ^ k = 0 \<and>
      live h (get_word (p - 8) (bytes h')) = None \<and>
      (\<exists>j. live h' = (live h)(get_word (p - 8) (bytes h') \<mapsto> j) \<and>
        (\<forall>x. unat x \<notin> region (get_word (p - 8) (bytes h')) j \<longrightarrow> bytes h' x = bytes h x))"
    unfolding b
  proof (intro conjI exI [of _ ?n] allI impI)
    show "heap_ok h'" using heap_ok_allocated [OF a(2) f] by (simp add: h' allocated_def heap_ok_def)
    show "inside 8 p n ?o h'" using g by (auto simp: inside_def h' allocated_def)
  qed (use g f frame in \<open>auto simp: fresh_def h' allocated_def\<close>)
next
  fix p :: uptr and h h' :: heap
  assume l: "unat (get_word (p - 8) (bytes h)) + 8 \<le> unat p"
    and same: "\<And>x. unat (get_word (p - 8) (bytes h)) \<le> unat x \<Longrightarrow> unat x < unat p \<Longrightarrow> bytes h' x = bytes h x"
  show "get_word (p - 8) (bytes h') = get_word (p - 8) (bytes h)"
  proof (rule get_word_cong)
    fix i :: nat assume "i < 8"
    moreover have "unat (p - 8) = unat p - 8" using below_diff [of 8 p] l by simp
    ultimately have "unat (p - 8 + of_nat i) = unat p - 8 + i"
      using l unsigned_less [of p, where 'a = nat] by (simp add: unat_word_ariths unat_of_nat)
    then show "bytes h' (p - 8 + word_of_nat i) = bytes h (p - 8 + word_of_nat i)" using l \<open>i < 8\<close> by (intro same) simp_all
  qed
next
  show "emutls_memalign_free p h = c_free (get_word (p - 8) (bytes h)) h" for p h
    by (simp add: emutls_memalign_free_def)
qed

definition memalign_ok :: "(uptr \<Rightarrow> malloc) \<Rightarrow> bool" where
  "memalign_ok m \<longleftrightarrow> (\<forall>a h n. m a h n = 0 \<or> fresh h (m a h n) n \<and> unat (m a h n) mod unat a = 0)"

interpretation posix: aligned_allocator posix_memalign_alloc posix_memalign_free "\<lambda>p h. p" 0 memalign_ok
proof unfold_locales
  fix m :: "uptr \<Rightarrow> malloc" and h h' :: heap and k :: nat and n p :: uptr
  assume a: "memalign_ok m" "heap_ok h" "3 \<le> k" "k < 64" "2 ^ k + unat n + 8 \<le> 2 ^ 64"
    "posix_memalign_alloc m (push_bit k 1) n h = Some (p, h')"
  then have p: "p \<noteq> 0" "p = m (push_bit k 1) h n" "h' = allocated p n h"
    by (auto simp: posix_memalign_alloc_def Let_def split: if_splits)
  then have f: "fresh h p n" "unat p mod 2 ^ k = 0"
    using a(1,4) unfolding memalign_ok_def by (metis push_bit_of_1 unat_two_power)+
  show "heap_ok h' \<and> inside 0 p n p h' \<and> unat p mod 2 ^ k = 0 \<and> live h p = None \<and>
      (\<exists>j. live h' = (live h)(p \<mapsto> j) \<and> (\<forall>x. unat x \<notin> region p j \<longrightarrow> bytes h' x = bytes h x))"
    using f p heap_ok_allocated [OF a(2) f(1)] by (auto simp: inside_def allocated_def fresh_def)
qed (simp_all add: posix_memalign_free_def)

end
