(* ===== verification/Emutls.thy ===== *)
theory Emutls
  imports EmutlsHeap
begin

text \<open>
  The operations of \<^verbatim>\<open>emutls.c\<close> on one thread: the array of object addresses a thread owns, the
  allocation of an object, and the destructor of the key.  The array is a record with the block that
  holds it; an access outside it, a bad free and abort are the faults of the result.  The functions
  take the two allocator functions of the platform as arguments.
\<close>

unbundle bit_operations_syntax

section \<open>Data\<close>

record emutls_array =
  array_block :: uptr
  skip_destructor_rounds :: uptr
  array_size :: uptr
  data :: "uptr list"

text \<open>A control variable without its index, which the threads share and change.\<close>

record control =
  obj_size :: uptr
  obj_align :: uptr
  obj_value :: "(nat \<Rightarrow> byte) option"

datatype emutls_fault = Abort | Out_of_bounds | Bad_free

type_synonym realloc = "heap \<Rightarrow> uptr \<Rightarrow> uptr \<Rightarrow> uptr"

definition realloc_ok :: "realloc \<Rightarrow> bool" where
  "realloc_ok re \<longleftrightarrow> (\<forall>h p n. re h p n = 0 \<or> fresh (h\<lparr>live := (live h)(p := None)\<rparr>) (re h p n) n)"

datatype emutls_target = Bionic | Openkal | Other_target

definition EMUTLS_SKIP_DESTRUCTOR_ROUNDS :: "uptr \<Rightarrow> emutls_target \<Rightarrow> uptr" where
  "EMUTLS_SKIP_DESTRUCTOR_ROUNDS PTHREAD_DESTRUCTOR_ITERATIONS target =
     (case target of Bionic \<Rightarrow> 1 | Openkal \<Rightarrow> PTHREAD_DESTRUCTOR_ITERATIONS - 1 | Other_target \<Rightarrow> 0)"

section \<open>Objects\<close>

definition emutls_allocate_object ::
    "(uptr \<Rightarrow> uptr \<Rightarrow> heap \<Rightarrow> (uptr \<times> heap) option) \<Rightarrow> control \<Rightarrow> heap \<Rightarrow> emutls_fault + uptr \<times> heap" where
  "emutls_allocate_object alloc c h =
     (let sz = obj_size c;
          align = (if obj_align c < 8 then 8 else obj_align c)
      in if align AND (align - 1) \<noteq> 0 then Inl Abort
      else case alloc align sz h of
          None \<Rightarrow> Inl Abort
        | Some (base, h) \<Rightarrow>
            Inr (base, h\<lparr>bytes := fill base sz (case obj_value c of Some img \<Rightarrow> img | None \<Rightarrow> (\<lambda>i. 0)) (bytes h)\<rparr>))"

section \<open>The array of a thread\<close>

definition emutls_new_data_array_size :: "uptr \<Rightarrow> uptr" where
  "emutls_new_data_array_size index =
     (let header_words = 2 in ((index + header_words + 15) AND NOT 15) - header_words)"

definition emutls_asize :: "uptr \<Rightarrow> uptr" where
  "emutls_asize n = n * 8 + 16"

definition emutls_get_address_array ::
    "malloc \<Rightarrow> realloc \<Rightarrow> uptr \<Rightarrow> uptr \<Rightarrow> emutls_array option \<Rightarrow> heap \<Rightarrow> emutls_fault + emutls_array \<times> heap" where
  "emutls_get_address_array malloc re skip index slot h =
     (case slot of
        None \<Rightarrow>
          let new_size = emutls_new_data_array_size index;
              p = malloc h (emutls_asize new_size)
          in if p = 0 then Inl Abort
             else Inr (\<lparr>array_block = p, skip_destructor_rounds = skip, array_size = new_size,
                        data = replicate (unat new_size) 0\<rparr>, allocated p (emutls_asize new_size) h)
      | Some array \<Rightarrow>
          if index > array_size array then
            let orig_size = array_size array;
                new_size = emutls_new_data_array_size index;
                p = re h (array_block array) (emutls_asize new_size)
            in if p = 0 then Inl Abort
               else Inr (array\<lparr>array_block := p, array_size := new_size,
                               data := take (unat orig_size) (data array) @ replicate (unat (new_size - orig_size)) 0\<rparr>,
                         allocated p (emutls_asize new_size) (h\<lparr>live := (live h)(array_block array := None)\<rparr>))
          else Inr (array, h))"

text \<open>The end of \<open>__emutls_get_address\<close>, once index and array are known.\<close>

definition emutls_get_object ::
    "(uptr \<Rightarrow> uptr \<Rightarrow> heap \<Rightarrow> (uptr \<times> heap) option) \<Rightarrow> control \<Rightarrow> uptr \<Rightarrow> emutls_array \<Rightarrow> heap \<Rightarrow>
     emutls_fault + uptr \<times> emutls_array \<times> heap" where
  "emutls_get_object alloc c index array h =
     (let i = unat (index - 1) in
      if length (data array) \<le> i then Inl Out_of_bounds
      else if data array ! i = 0 then
        (case emutls_allocate_object alloc c h of
           Inl e \<Rightarrow> Inl e
         | Inr (p, h) \<Rightarrow> Inr (p, array\<lparr>data := (data array)[i := p]\<rparr>, h))
      else Inr (data array ! i, array, h))"

section \<open>Releasing a thread's objects\<close>

fun shutdown_loop :: "(uptr \<Rightarrow> heap \<Rightarrow> heap option) \<Rightarrow> uptr list \<Rightarrow> heap \<Rightarrow> emutls_fault + heap" where
  "shutdown_loop release [] h = Inr h"
| "shutdown_loop release (p # ps) h =
     (if p \<noteq> 0 then (case release p h of None \<Rightarrow> Inl Bad_free | Some h \<Rightarrow> shutdown_loop release ps h)
      else shutdown_loop release ps h)"

definition emutls_shutdown :: "(uptr \<Rightarrow> heap \<Rightarrow> heap option) \<Rightarrow> emutls_array \<Rightarrow> heap \<Rightarrow> emutls_fault + heap" where
  "emutls_shutdown release array h =
     (if length (data array) < unat (array_size array) then Inl Out_of_bounds
      else shutdown_loop release (take (unat (array_size array)) (data array)) h)"

text \<open>The new value of the key, null when the array is gone.\<close>

definition emutls_key_destructor ::
    "(uptr \<Rightarrow> heap \<Rightarrow> heap option) \<Rightarrow> emutls_array \<Rightarrow> heap \<Rightarrow> emutls_fault + emutls_array option \<times> heap" where
  "emutls_key_destructor release array h =
     (if skip_destructor_rounds array > 0 then
        Inr (Some (array\<lparr>skip_destructor_rounds := skip_destructor_rounds array - 1\<rparr>), h)
      else case emutls_shutdown release array h of
          Inl e \<Rightarrow> Inl e
        | Inr h \<Rightarrow> (case c_free (array_block array) h of None \<Rightarrow> Inl Bad_free | Some h \<Rightarrow> Inr (None, h)))"

section \<open>Sizes\<close>

text \<open>The size chosen for a thread's array: it holds the given index with less than 16 slots to spare, and
  array and header together fill whole groups of 16 words.\<close>
theorem new_array_size:
  assumes "unat index < 2 ^ 64 - 17"
  shows "unat index \<le> unat (emutls_new_data_array_size index) \<and>
    unat (emutls_new_data_array_size index) < unat index + 16 \<and>
    (unat (emutls_new_data_array_size index) + 2) mod 16 = 0"
proof -
  have s: "unat (index + 2 + 15) = unat index + 17"
    using assms by (simp add: unat_word_ariths)
  have m: "unat ((index + 2 + 15) AND NOT 15) = unat index + 17 - (unat index + 17) mod 16"
    using unat_align_down [of 4 "index + 2 + 15"] s by (simp add: push_bit_of_1)
  have "(unat index + 17) mod 16 < 16" by simp
  then have e: "unat (emutls_new_data_array_size index) + 2 = unat index + 17 - (unat index + 17) mod 16"
    using m by (simp add: emutls_new_data_array_size_def below_diff)
  have "(unat (emutls_new_data_array_size index) + 2) mod 16 = 0" unfolding e by (simp add: minus_mod_eq_mult_div)
  then show ?thesis using e \<open>(unat index + 17) mod 16 < 16\<close> by linarith
qed

lemma new_array_size_witness: "unat (emutls_new_data_array_size 15) = 30"
  using new_array_size [of 15] by simp presburger

section \<open>What the operations do to the heap\<close>

definition alignment :: "control \<Rightarrow> uptr" where
  "alignment c = (if obj_align c < 8 then 8 else obj_align c)"

text \<open>A control variable whose allocation size does not overflow.\<close>

definition control_fine :: "control \<Rightarrow> bool" where
  "control_fine c \<longleftrightarrow> unat (alignment c) + unat (obj_size c) + 8 \<le> 2 ^ 64"

definition object_ok :: "nat \<Rightarrow> control \<Rightarrow> uptr \<Rightarrow> uptr \<Rightarrow> heap \<Rightarrow> bool" where
  "object_ok hdr c p b h \<longleftrightarrow> inside hdr p (obj_size c) b h \<and> unat p mod unat (alignment c) = 0"

definition initial_image :: "control \<Rightarrow> nat \<Rightarrow> byte" where
  "initial_image c = (case obj_value c of Some img \<Rightarrow> img | None \<Rightarrow> (\<lambda>i. 0))"

definition array_ok :: "emutls_array \<Rightarrow> bool" where
  "array_ok a \<longleftrightarrow> length (data a) = unat (array_size a) \<and> unat (array_size a) < 2 ^ 59 + 16"

text \<open>One more block, one block less, all other memory untouched.\<close>

definition grown :: "heap \<Rightarrow> heap \<Rightarrow> uptr \<Rightarrow> bool" where
  "grown h h' b \<longleftrightarrow> live h b = None \<and>
     (\<exists>j. live h' = (live h)(b \<mapsto> j) \<and> (\<forall>x. unat x \<notin> region b j \<longrightarrow> bytes h' x = bytes h x))"

lemma fill_outside:
  "unat p + unat n \<le> 2 ^ 64 \<Longrightarrow> unat x \<notin> region p n \<Longrightarrow> fill p n f m x = m x"
  by (auto simp: fill_def window region_def)

lemma fill_inside:
  assumes "unat p + unat n \<le> 2 ^ 64" "i < unat n"
  shows "fill p n f m (p + of_nat i) = f i"
proof -
  have "unat (of_nat i :: uptr) = i" using assms(2) unsigned_less [of n, where 'a = nat] by (simp add: unat_of_nat)
  then show ?thesis using assms(2) by (simp add: fill_def word_less_nat_alt)
qed

definition without :: "emutls_array option \<Rightarrow> heap \<Rightarrow> heap" where
  "without slot h = (case slot of None \<Rightarrow> h | Some a \<Rightarrow> h\<lparr>live := (live h)(array_block a := None)\<rparr>)"

lemma heap_ok_without: "heap_ok h \<Longrightarrow> heap_ok (without slot h)"
  by (simp add: without_def heap_ok_free split: option.split)

lemma asize_unat: "unat n < 2 ^ 59 + 16 \<Longrightarrow> unat (emutls_asize n) = unat n * 8 + 16"
  by (simp add: emutls_asize_def unat_word_ariths)

text \<open>
  Getting the array keeps what it held, makes room for the index, and exchanges at most the
  block of the array.
\<close>

lemma get_address_array:
  assumes "malloc_ok m" "realloc_ok re" "heap_ok h" "unat index < 2 ^ 59"
    and slot: "\<And>a0. slot = Some a0 \<Longrightarrow> array_ok a0 \<and> live h (array_block a0) \<noteq> None"
    and "emutls_get_address_array m re skip index slot h = Inr (a, h')"
  shows "heap_ok h' \<and> bytes h' = bytes h \<and> array_ok a \<and> unat index \<le> length (data a) \<and>
    data a = (case slot of None \<Rightarrow> [] | Some a0 \<Rightarrow> data a0) @
      replicate (length (data a) - (case slot of None \<Rightarrow> 0 | Some a0 \<Rightarrow> length (data a0))) 0 \<and>
    skip_destructor_rounds a = (case slot of None \<Rightarrow> skip | Some a0 \<Rightarrow> skip_destructor_rounds a0) \<and>
    (\<exists>k. live h' = (live (without slot h))(array_block a \<mapsto> k) \<and> live (without slot h) (array_block a) = None)"
proof -
  let ?n = "emutls_new_data_array_size index"
  have n: "unat index \<le> unat ?n" "unat ?n < 2 ^ 59 + 16" using new_array_size [of index] assms(4) by simp_all
  have grow: "heap_ok h' \<and> bytes h' = bytes h \<and> array_ok a \<and> unat index \<le> length (data a) \<and>
      (\<exists>k. live h' = (live (without slot h))(array_block a \<mapsto> k) \<and> live (without slot h) (array_block a) = None)"
    if a: "h' = allocated p (emutls_asize ?n) (without slot h)" "array_block a = p" "array_size a = ?n" "length (data a) = unat ?n"
      "fresh (without slot h) p (emutls_asize ?n)" for p
    using heap_ok_allocated [OF heap_ok_without [OF assms(3)] a(5)] a n
    by (auto simp: array_ok_def fresh_def allocated_def without_def split: option.split)
  show ?thesis
  proof (cases slot)
    case None
    let ?p = "m h (emutls_asize ?n)"
    have p: "?p \<noteq> 0" using assms(6) by (auto simp: emutls_get_address_array_def None Let_def)
    then have f: "fresh (without slot h) ?p (emutls_asize ?n)" using assms(1) by (auto simp: malloc_ok_def without_def None)
    have a: "a = \<lparr>array_block = ?p, skip_destructor_rounds = skip, array_size = ?n, data = replicate (unat ?n) 0\<rparr>"
      "h' = allocated ?p (emutls_asize ?n) (without slot h)"
      using assms(6) p by (auto simp: emutls_get_address_array_def None Let_def without_def)
    show ?thesis using grow [OF a(2) _ _ _ f] a(1) by (simp add: None)
  next
    case (Some a0)
    note s = slot [OF Some]
    show ?thesis
    proof (cases "index > array_size a0")
      case True
      let ?p = "re h (array_block a0) (emutls_asize ?n)"
      have p: "?p \<noteq> 0" using assms(6) True by (auto simp: emutls_get_address_array_def Some Let_def)
      then have f: "fresh (without slot h) ?p (emutls_asize ?n)"
        using assms(2) by (auto simp: realloc_ok_def without_def Some)
      have le: "unat (array_size a0) \<le> unat ?n" using True n(1) by (simp add: word_less_nat_alt)
      then have d: "unat (?n - array_size a0) = unat ?n - unat (array_size a0)" by (rule below_diff)
      have l: "length (data a0) = unat (array_size a0)" using s by (simp add: array_ok_def)
      have a: "a = a0\<lparr>array_block := ?p, array_size := ?n, data := data a0 @ replicate (unat ?n - length (data a0)) 0\<rparr>"
        "h' = allocated ?p (emutls_asize ?n) (without slot h)"
        using assms(6) p True l d by (auto simp: emutls_get_address_array_def Some Let_def without_def)
      show ?thesis using grow [OF a(2) _ _ _ f] a(1) le l by (simp add: Some)
    next
      case False
      then have "a = a0" "h' = h" using assms(6) by (simp_all add: emutls_get_address_array_def Some)
      moreover obtain k where "live h (array_block a0) = Some k" using s by blast
      moreover have "\<exists>k. live h = (live h)(array_block a0 \<mapsto> k)"
        using calculation(3) by (intro exI [of _ k]) (simp add: fun_eq_iff)
      ultimately show ?thesis
        using s False assms(3) by (auto simp: Some array_ok_def without_def word_less_nat_alt not_less)
    qed
  qed
qed

context aligned_allocator
begin

lemma allocate_object:
  assumes "ok m" "heap_ok h" "control_fine c" "emutls_allocate_object (alloc m) c h = Inr (p, h')"
  shows "heap_ok h' \<and> object_ok hdr c p (block p h') h' \<and> grown h h' (block p h') \<and>
    (\<forall>i<unat (obj_size c). bytes h' (p + of_nat i) = initial_image c i)"
proof -
  let ?a = "alignment c"
  have "?a AND (?a - 1) = 0"
    using assms(4) by (auto simp: emutls_allocate_object_def alignment_def Let_def split: if_splits)
  moreover have a8: "8 \<le> ?a" by (simp add: alignment_def not_less)
  ultimately obtain k where k: "k < 64" "?a = push_bit k 1" using power_of_two_test [of ?a] by fastforce
  have ua: "unat ?a = 2 ^ k" using k by (simp add: push_bit_of_1 unat_two_power)
  have "(8::nat) \<le> 2 ^ k" using a8 by (simp add: word_le_nat_alt ua)
  then have "(2::nat) ^ 3 \<le> 2 ^ k" by simp
  then have k3: "3 \<le> k" by (simp only: power_increasing_iff one_less_numeral_iff semiring_norm)
  obtain h1 where h1: "alloc m ?a (obj_size c) h = Some (p, h1)"
    and h': "h' = h1\<lparr>bytes := fill p (obj_size c) (initial_image c) (bytes h1)\<rparr>"
    using assms(4) by (auto simp: emutls_allocate_object_def alignment_def initial_image_def Let_def split: if_splits option.splits)
  have A: "heap_ok h1 \<and> inside hdr p (obj_size c) (block p h1) h1 \<and> unat p mod 2 ^ k = 0 \<and> live h (block p h1) = None \<and>
      (\<exists>j. live h1 = (live h)(block p h1 \<mapsto> j) \<and> (\<forall>x. unat x \<notin> region (block p h1) j \<longrightarrow> bytes h1 x = bytes h x))"
    using alloc [OF assms(1,2) k3 k(1)] h1 k(2) assms(3) ua by (simp add: control_fine_def)
  then obtain j where j: "live h1 = (live h)(block p h1 \<mapsto> j)" "\<forall>x. unat x \<notin> region (block p h1) j \<longrightarrow> bytes h1 x = bytes h x"
    by blast
  have w: "unat p + unat (obj_size c) \<le> unat (block p h1) + unat j" "unat (block p h1) + hdr \<le> unat p" "p \<noteq> 0"
    using A j(1) by (auto simp: inside_def)
  moreover have "unat (block p h1) + unat j < 2 ^ 64" using A j(1) unfolding heap_ok_def by (metis fun_upd_same)
  ultimately have w64: "unat p + unat (obj_size c) \<le> 2 ^ 64" by simp
  have out: "bytes h' x = bytes h1 x" if "unat x \<notin> region p (obj_size c)" for x
    using fill_outside [OF w64 that] by (simp add: h')
  have b: "block p h' = block p h1"
    using w(2) out by (intro block_local) (auto simp: region_def)
  have "grown h h' (block p h1)"
    unfolding grown_def using A j w out by (intro conjI exI [of _ j]) (auto simp: h' region_def)
  then show ?thesis
    using A fill_inside [OF w64] ua unfolding b by (simp add: h' object_ok_def inside_def)
qed

lemma object_stable:
  assumes "object_ok hdr c p (block p h) h"
    and "\<And>x. unat (block p h) \<le> unat x \<Longrightarrow> unat x < unat p \<Longrightarrow> bytes h' x = bytes h x"
  shows "block p h' = block p h"
  using assms by (intro block_local) (auto simp: object_ok_def inside_def)

lemma shutdown_loop_frees:
  assumes "heap_ok h" "\<forall>d\<in>set ds. d \<noteq> 0 \<longrightarrow> (\<exists>n. inside hdr d n (block d h) h)"
    and "distinct (map (\<lambda>d. block d h) (filter (\<lambda>d. d \<noteq> 0) ds))"
  shows "\<exists>h'. shutdown_loop release ds h = Inr h' \<and> bytes h' = bytes h \<and> heap_ok h' \<and>
    live h' = (live h) |` (- {block d h | d. d \<in> set ds \<and> d \<noteq> 0})"
  using assms
proof (induction ds arbitrary: h)
  case Nil
  then show ?case by simp
next
  case (Cons d ds)
  show ?case
  proof (cases "d = 0")
    case True
    then have "{block e h | e. e \<in> set (d # ds) \<and> e \<noteq> 0} = {block e h | e. e \<in> set ds \<and> e \<noteq> 0}" by auto
    then show ?thesis using True Cons by simp
  next
    case False
    let ?h = "h\<lparr>live := (live h)(block d h := None)\<rparr>"
    obtain n where n: "inside hdr d n (block d h) h" using Cons.prems(2) False by auto
    have r: "release d h = Some ?h" using release_live [OF n Cons.prems(1)] .
    have same: "block e ?h = block e h" if "e \<in> set ds" "e \<noteq> 0" for e
      using Cons.prems(2) that by (intro block_local) (auto simp: inside_def)
    have "block d h \<notin> (\<lambda>x. block x h) ` {x \<in> set ds. x \<noteq> 0}" using Cons.prems(3) False by simp
    then have ne: "block e h \<noteq> block d h" if "e \<in> set ds" "e \<noteq> 0" for e
      using that imageI [of e "{x \<in> set ds. x \<noteq> 0}" "\<lambda>x. block x h"] by (metis (mono_tags, lifting) mem_Collect_eq)
    have in1: "\<forall>e\<in>set ds. e \<noteq> 0 \<longrightarrow> (\<exists>n. inside hdr e n (block e ?h) ?h)"
      using Cons.prems(2) same ne by (fastforce simp: inside_def)
    have m: "map (\<lambda>d. block d ?h) (filter (\<lambda>d. d \<noteq> 0) ds) = map (\<lambda>d. block d h) (filter (\<lambda>d. d \<noteq> 0) ds)"
      using same by simp
    have dist: "distinct (map (\<lambda>d. block d ?h) (filter (\<lambda>d. d \<noteq> 0) ds))"
      unfolding m using Cons.prems(3) False by simp
    obtain h' where h': "shutdown_loop release ds ?h = Inr h'" "bytes h' = bytes ?h" "heap_ok h'"
      "live h' = (live ?h) |` (- {block d ?h | d. d \<in> set ds \<and> d \<noteq> 0})"
      using Cons.IH [OF heap_ok_free [OF Cons.prems(1)] in1 dist] by blast
    have "{block d ?h | d. d \<in> set ds \<and> d \<noteq> 0} = {block d h | d. d \<in> set ds \<and> d \<noteq> 0}"
      using same by force
    then have "live h' = (live h) |` (- {block e h | e. e \<in> set (d # ds) \<and> e \<noteq> 0})"
      unfolding h'(4) using False by (auto simp: restrict_map_def fun_eq_iff)
    then show ?thesis using h' r False by simp
  qed
qed

end

end
