(* ===== verification/EmutlsThreads.thy ===== *)
theory EmutlsThreads
  imports Emutls
begin

text \<open>
  \<open>__emutls_get_address\<close> of \<^verbatim>\<open>emutls.c\<close> called by any number of threads.  A step is one access to what the
  threads share (the index of a control variable, the lock, the counter, the heap); between calls a
  thread writes to thread-local objects and, at its exit, runs the destructor of the key in rounds.  The
  invariant of the reachable states says which blocks belong to which thread and control variable.
\<close>

unbundle bit_operations_syntax

section \<open>States and steps\<close>

datatype pc =
    Idle
  | Load nat
  | Init_once nat
  | Lock nat
  | Recheck nat
  | Increment nat
  | Publish nat uptr
  | Unlock nat
  | Get_array nat uptr
  | Get_object nat uptr

record tls =
  emutls_num_object :: uptr
  index_of :: "nat \<Rightarrow> uptr"
  emutls_mutex :: "nat option"
  emutls_key_created :: bool
  pcs :: "nat \<Rightarrow> pc"
  specific :: "nat \<Rightarrow> emutls_array option"
  rounds_left :: "nat \<Rightarrow> nat"
  hp :: heap

record 'm platform =
  memalign :: "'m \<Rightarrow> uptr \<Rightarrow> uptr \<Rightarrow> heap \<Rightarrow> (uptr \<times> heap) option"
  memalign_free :: "uptr \<Rightarrow> heap \<Rightarrow> heap option"
  memalign_fine :: "'m \<Rightarrow> bool"
  skip_rounds :: uptr
  controls :: "control list"

datatype event = Tau | Return nat nat uptr | Write nat nat nat byte | Destructor nat

text \<open>The object of a control variable in a thread, if it has been allocated.\<close>

definition object :: "tls \<Rightarrow> nat \<Rightarrow> nat \<Rightarrow> uptr option" where
  "object s t c =
     (case specific s t of
        None \<Rightarrow> None
      | Some a \<Rightarrow>
          if 0 < unat (index_of s c) \<and> unat (index_of s c) \<le> length (data a) \<and> data a ! (unat (index_of s c) - 1) \<noteq> 0
          then Some (data a ! (unat (index_of s c) - 1)) else None)"

inductive tls_step :: "'m platform \<Rightarrow> tls \<Rightarrow> event \<Rightarrow> tls \<Rightarrow> bool" for P where
  call: "pcs s t = Idle \<Longrightarrow> c < length (controls P) \<Longrightarrow> tls_step P s Tau (s\<lparr>pcs := (pcs s)(t := Load c)\<rparr>)"
| load: "pcs s t = Load c \<Longrightarrow>
    tls_step P s Tau
      (s\<lparr>pcs := (pcs s)(t := if index_of s c = 0 then Init_once c else Get_array c (index_of s c))\<rparr>)"
| init_once: "pcs s t = Init_once c \<Longrightarrow>
    tls_step P s Tau (s\<lparr>emutls_key_created := True, pcs := (pcs s)(t := Lock c)\<rparr>)"
| lock: "pcs s t = Lock c \<Longrightarrow> emutls_mutex s = None \<Longrightarrow>
    tls_step P s Tau (s\<lparr>emutls_mutex := Some t, pcs := (pcs s)(t := Recheck c)\<rparr>)"
| recheck: "pcs s t = Recheck c \<Longrightarrow>
    tls_step P s Tau (s\<lparr>pcs := (pcs s)(t := if index_of s c = 0 then Increment c else Unlock c)\<rparr>)"
| increment: "pcs s t = Increment c \<Longrightarrow>
    tls_step P s Tau
      (s\<lparr>emutls_num_object := emutls_num_object s + 1, pcs := (pcs s)(t := Publish c (emutls_num_object s + 1))\<rparr>)"
| publish: "pcs s t = Publish c i \<Longrightarrow>
    tls_step P s Tau (s\<lparr>index_of := (index_of s)(c := i), pcs := (pcs s)(t := Unlock c)\<rparr>)"
| unlock: "pcs s t = Unlock c \<Longrightarrow>
    tls_step P s Tau (s\<lparr>emutls_mutex := None, pcs := (pcs s)(t := Get_array c (index_of s c))\<rparr>)"
| get_array: "pcs s t = Get_array c i \<Longrightarrow> malloc_ok m \<Longrightarrow> realloc_ok re \<Longrightarrow>
    emutls_get_address_array m re (skip_rounds P) i (specific s t) (hp s) = Inr (a, h) \<Longrightarrow>
    tls_step P s Tau
      (s\<lparr>specific := (specific s)(t \<mapsto> a), hp := h, pcs := (pcs s)(t := Get_object c i)\<rparr>)"
| get_object: "pcs s t = Get_object c i \<Longrightarrow> memalign_fine P m \<Longrightarrow> specific s t = Some a \<Longrightarrow>
    emutls_get_object (memalign P m) (controls P ! c) i a (hp s) = Inr (p, a', h) \<Longrightarrow>
    tls_step P s (Return t c p)
      (s\<lparr>specific := (specific s)(t \<mapsto> a'), hp := h, pcs := (pcs s)(t := Idle)\<rparr>)"
| user_write: "object s t c = Some p \<Longrightarrow> c < length (controls P) \<Longrightarrow> i < unat (obj_size (controls P ! c)) \<Longrightarrow>
    tls_step P s (Write t c i b) (s\<lparr>hp := (hp s)\<lparr>bytes := (bytes (hp s))(p + of_nat i := b)\<rparr>\<rparr>)"
| destructor: "pcs s t = Idle \<Longrightarrow> specific s t = Some a \<Longrightarrow> 0 < rounds_left s t \<Longrightarrow>
    emutls_key_destructor (memalign_free P) a (hp s) = Inr (slot, h) \<Longrightarrow>
    tls_step P s (Destructor t)
      (s\<lparr>specific := (specific s)(t := slot), hp := h, rounds_left := (rounds_left s)(t := rounds_left s t - 1)\<rparr>)"

text \<open>Before the first call: no index given, the lock free, no array, any heap.\<close>

definition tls_init :: "nat \<Rightarrow> heap \<Rightarrow> tls" where
  "tls_init iterations h =
     \<lparr>emutls_num_object = 0, index_of = (\<lambda>c. 0), emutls_mutex = None, emutls_key_created = False,
      pcs = (\<lambda>t. Idle), specific = (\<lambda>t. None), rounds_left = (\<lambda>t. iterations), hp = h\<rparr>"

inductive tls_reachable :: "'m platform \<Rightarrow> nat \<Rightarrow> tls \<Rightarrow> bool" for P iterations where
  start: "heap_ok h \<Longrightarrow> tls_reachable P iterations (tls_init iterations h)"
| step: "tls_reachable P iterations s \<Longrightarrow> tls_step P s e s' \<Longrightarrow> tls_reachable P iterations s'"

inductive_cases tls_stepE: "tls_step P s e s'"

section \<open>Indices\<close>

text \<open>The positions of a thread that holds the lock, and the control variable it is about.\<close>

primrec in_lock :: "pc \<Rightarrow> bool" where
  "in_lock Idle = False"
| "in_lock (Load c) = False"
| "in_lock (Init_once c) = False"
| "in_lock (Lock c) = False"
| "in_lock (Recheck c) = True"
| "in_lock (Increment c) = True"
| "in_lock (Publish c i) = True"
| "in_lock (Unlock c) = True"
| "in_lock (Get_array c i) = False"
| "in_lock (Get_object c i) = False"

primrec control_of :: "pc \<Rightarrow> nat option" where
  "control_of Idle = None"
| "control_of (Load c) = Some c"
| "control_of (Init_once c) = Some c"
| "control_of (Lock c) = Some c"
| "control_of (Recheck c) = Some c"
| "control_of (Increment c) = Some c"
| "control_of (Publish c i) = Some c"
| "control_of (Unlock c) = Some c"
| "control_of (Get_array c i) = Some c"
| "control_of (Get_object c i) = Some c"

text \<open>The number of control variables with an index, and one more while a new index is not yet published.\<close>

definition indexed :: "'m platform \<Rightarrow> tls \<Rightarrow> nat set" where
  "indexed P s = {c. c < length (controls P) \<and> index_of s c \<noteq> 0}"

definition publishing :: "(nat \<Rightarrow> pc) \<Rightarrow> bool" where
  "publishing q \<longleftrightarrow> (\<exists>t c i. q t = Publish c i)"

definition lock_inv :: "'m platform \<Rightarrow> tls \<Rightarrow> bool" where
  "lock_inv P s \<longleftrightarrow>
     (\<forall>t. in_lock (pcs s t) \<longleftrightarrow> emutls_mutex s = Some t) \<and>
     (\<forall>t c. control_of (pcs s t) = Some c \<longrightarrow> c < length (controls P))"

definition index_inv :: "'m platform \<Rightarrow> tls \<Rightarrow> bool" where
  "index_inv P s \<longleftrightarrow>
     (\<forall>c. index_of s c \<noteq> 0 \<longrightarrow> c < length (controls P) \<and> index_of s c \<le> emutls_num_object s) \<and>
     (\<forall>c d. index_of s c = index_of s d \<longrightarrow> index_of s c \<noteq> 0 \<longrightarrow> c = d) \<and>
     (\<forall>t c. pcs s t = Increment c \<longrightarrow> index_of s c = 0) \<and>
     (\<forall>t c. pcs s t = Unlock c \<longrightarrow> index_of s c \<noteq> 0) \<and>
     (\<forall>t c i. pcs s t = Publish c i \<longrightarrow> index_of s c = 0 \<and> i = emutls_num_object s \<and> i \<noteq> 0 \<and> (\<forall>d. index_of s d \<noteq> i)) \<and>
     (\<forall>t c i. pcs s t = Get_array c i \<or> pcs s t = Get_object c i \<longrightarrow> i = index_of s c \<and> i \<noteq> 0)"

definition count_inv :: "'m platform \<Rightarrow> tls \<Rightarrow> bool" where
  "count_inv P s \<longleftrightarrow> unat (emutls_num_object s) = card (indexed P s) + (if publishing (pcs s) then 1 else 0)"

lemma publishing_update:
  "(\<And>c i. q t \<noteq> Publish c i) \<Longrightarrow> (\<And>c i. v \<noteq> Publish c i) \<Longrightarrow> publishing (q(t := v)) = publishing q"
  unfolding publishing_def by (metis fun_upd_apply)

lemma lock_inv_step: "tls_step P s e s' \<Longrightarrow> lock_inv P s \<Longrightarrow> lock_inv P s'"
  by (erule tls_stepE; clarsimp simp: lock_inv_def split: if_splits)
    (metis in_lock.simps control_of.simps option.inject option.distinct(1))+

lemma lock_excl: "lock_inv P s \<Longrightarrow> in_lock (pcs s t) \<Longrightarrow> in_lock (pcs s t') \<Longrightarrow> t = t'"
  by (auto simp: lock_inv_def)

lemma alone_in_lock: "lock_inv P s \<Longrightarrow> in_lock (pcs s t) \<Longrightarrow> \<forall>u c i. pcs s u = Publish c i \<longrightarrow> u = t"
  by (metis in_lock.simps(7) lock_excl)

lemma not_publishing: "lock_inv P s \<Longrightarrow> pcs s t = Increment c \<Longrightarrow> \<not> publishing (pcs s)"
proof
  assume l: "lock_inv P s" "pcs s t = Increment c" "publishing (pcs s)"
  then obtain u d i where u: "pcs s u = Publish d i" by (auto simp: publishing_def)
  then have "u = t" using alone_in_lock [OF l(1), of t] l(2) by simp
  then show False using u l(2) by simp
qed

lemma indexed_bound: "card (indexed P s) \<le> length (controls P)"
  using card_mono [of "{..<length (controls P)}" "indexed P s"] by (auto simp: indexed_def)

lemma index_inv_pc:
  assumes "index_inv P s" "index_of s' = index_of s" "emutls_num_object s' = emutls_num_object s" "pcs s' = (pcs s)(t := q)"
    and "\<And>c. q = Increment c \<Longrightarrow> index_of s c = 0" "\<And>c. q = Unlock c \<Longrightarrow> index_of s c \<noteq> 0" "\<And>c i. q \<noteq> Publish c i"
    and "\<And>c i. q = Get_array c i \<or> q = Get_object c i \<Longrightarrow> i = index_of s c \<and> i \<noteq> 0"
  shows "index_inv P s'"
  unfolding index_inv_def assms(2,3,4)
  using assms(1) [unfolded index_inv_def] assms(5-8) unfolding fun_upd_apply
  by (intro conjI; elim conjE) (meson | metis)+

lemma index_inv_at:
  assumes "index_inv P s"
  shows "pcs s t = Unlock c \<Longrightarrow> index_of s c \<noteq> 0"
    and "pcs s t = Get_array c i \<Longrightarrow> i = index_of s c \<and> i \<noteq> 0"
    and "pcs s t = Get_object c i \<Longrightarrow> i = index_of s c \<and> i \<noteq> 0"
    and "pcs s t = Publish c i \<Longrightarrow> index_of s c = 0 \<and> i = emutls_num_object s \<and> i \<noteq> 0 \<and> (\<forall>d. index_of s d \<noteq> i)"
  using assms by (simp_all add: index_inv_def)

lemma index_inv_increment:
  assumes s: "s' = s\<lparr>emutls_num_object := emutls_num_object s + 1, pcs := (pcs s)(t := Publish c (emutls_num_object s + 1))\<rparr>"
    "pcs s t = Increment c" "lock_inv P s" "index_inv P s" "count_inv P s" "length (controls P) < 2 ^ 59"
  shows "index_inv P s'"
proof -
  have np: "\<not> publishing (pcs s)" using not_publishing [OF s(3,2)] .
  then have "unat (emutls_num_object s) < 2 ^ 59" using np s(5,6) indexed_bound [of P s] by (simp add: count_inv_def)
  then have n: "unat (emutls_num_object s + 1) = unat (emutls_num_object s) + 1" by (simp add: unat_word_ariths)
  then have z: "emutls_num_object s + 1 \<noteq> 0" by (metis add_is_0 one_neq_zero unat_0)
  have I: "\<forall>c. index_of s c \<noteq> 0 \<longrightarrow> c < length (controls P) \<and> index_of s c \<le> emutls_num_object s"
    "\<forall>c d. index_of s c = index_of s d \<longrightarrow> index_of s c \<noteq> 0 \<longrightarrow> c = d"
    "\<forall>t c. pcs s t = Increment c \<longrightarrow> index_of s c = 0" "\<forall>t c. pcs s t = Unlock c \<longrightarrow> index_of s c \<noteq> 0"
    "\<forall>t c i. pcs s t = Get_array c i \<or> pcs s t = Get_object c i \<longrightarrow> i = index_of s c \<and> i \<noteq> 0"
    using s(4) by (simp_all add: index_inv_def)
  have le: "w \<le> emutls_num_object s \<Longrightarrow> w \<le> emutls_num_object s + 1 \<and> w \<noteq> emutls_num_object s + 1" for w
    using n by (auto simp: word_le_nat_alt)
  have new: "\<forall>d. index_of s d \<noteq> emutls_num_object s + 1" using I(1) le z by metis
  have np': "\<forall>u d i. pcs s u \<noteq> Publish d i" using np by (simp add: publishing_def)
  show "index_inv P s'"
    unfolding index_inv_def s(1)
    apply (intro conjI)
    subgoal using I(1) le by simp
    subgoal using I(2) by simp
    subgoal using I(3) by simp
    subgoal using I(4) by simp
    subgoal using np' new z s(2) I(3) by auto
    subgoal using I(5) by simp
    done
qed

lemma index_inv_publish:
  assumes s: "s' = s\<lparr>index_of := (index_of s)(c := i), pcs := (pcs s)(t := Unlock c)\<rparr>"
    "pcs s t = Publish c i" "lock_inv P s" "index_inv P s"
  shows "index_inv P s'"
proof -
  have ex: "pcs s u \<noteq> Publish d j \<and> pcs s u \<noteq> Increment d" if "u \<noteq> t" for u d j
    using lock_excl [OF s(3), of u t] s(2) that by (metis in_lock.simps(6,7))
  have c: "c < length (controls P)" using s(2,3) by (metis control_of.simps(7) lock_inv_def)
  have i: "index_of s c = 0" "i = emutls_num_object s" "i \<noteq> 0" "\<forall>d. index_of s d \<noteq> i"
    using s(4,2) by (auto simp: index_inv_def)
  have I: "\<forall>c. index_of s c \<noteq> 0 \<longrightarrow> c < length (controls P) \<and> index_of s c \<le> emutls_num_object s"
    "\<forall>c d. index_of s c = index_of s d \<longrightarrow> index_of s c \<noteq> 0 \<longrightarrow> c = d"
    "\<forall>t c. pcs s t = Unlock c \<longrightarrow> index_of s c \<noteq> 0"
    "\<forall>t c i. pcs s t = Get_array c i \<or> pcs s t = Get_object c i \<longrightarrow> i = index_of s c \<and> i \<noteq> 0"
    using s(4) by (simp_all add: index_inv_def)
  show "index_inv P s'"
    unfolding index_inv_def s(1)
    apply (intro conjI)
    subgoal using I(1) c i by simp
    subgoal using I(2) i by simp metis
    subgoal using ex by simp
    subgoal using I(3) i by simp
    subgoal using ex by simp
    subgoal using I(4) i by simp metis
    done
qed

lemma index_inv_step: "tls_step P s e s' \<Longrightarrow> lock_inv P s \<Longrightarrow> count_inv P s \<Longrightarrow> length (controls P) < 2 ^ 59 \<Longrightarrow>
  index_inv P s \<Longrightarrow> index_inv P s'"
proof (erule tls_stepE)
  show "index_inv P s'" if "s' = s\<lparr>emutls_num_object := emutls_num_object s + 1, pcs := (pcs s)(t := Publish c (emutls_num_object s + 1))\<rparr>"
    "pcs s t = Increment c" "lock_inv P s" "index_inv P s" "count_inv P s" "length (controls P) < 2 ^ 59" for t c
    using index_inv_increment that .
  show "index_inv P s'" if "s' = s\<lparr>index_of := (index_of s)(c := i), pcs := (pcs s)(t := Unlock c)\<rparr>"
    "pcs s t = Publish c i" "lock_inv P s" "index_inv P s" for t c i
    using index_inv_publish that .
next
  fix t c a m re i h
  assume "s' = s\<lparr>specific := (specific s)(t \<mapsto> a), hp := h, pcs := (pcs s)(t := Get_object c i)\<rparr>" "pcs s t = Get_array c i" "index_inv P s"
  then show "index_inv P s'" using index_inv_at(2) [of P s t c i] by (intro index_inv_pc [of P s s' t]) auto
next
  fix t c assume "s' = s\<lparr>emutls_mutex := None, pcs := (pcs s)(t := Get_array c (index_of s c))\<rparr>" "pcs s t = Unlock c" "index_inv P s"
  then show "index_inv P s'" using index_inv_at(1) [of P s t c] by (intro index_inv_pc [of P s s' t]) auto
qed ((rule index_inv_pc, assumption, simp, simp, simp); simp split: if_splits;fail | simp add: index_inv_def;fail)+

lemma count_inv_step: "tls_step P s e s' \<Longrightarrow> lock_inv P s \<Longrightarrow> index_inv P s \<Longrightarrow> length (controls P) < 2 ^ 59 \<Longrightarrow>
  count_inv P s \<Longrightarrow> count_inv P s'"
proof (erule tls_stepE)
  fix t c assume s: "s' = s\<lparr>emutls_num_object := emutls_num_object s + 1, pcs := (pcs s)(t := Publish c (emutls_num_object s + 1))\<rparr>"
    "pcs s t = Increment c" "lock_inv P s" "index_inv P s" "count_inv P s" "length (controls P) < 2 ^ 59"
  have np: "\<not> publishing (pcs s)" using not_publishing [OF s(3,2)] .
  then have "unat (emutls_num_object s) < 2 ^ 59" using s(5,6) indexed_bound [of P s] by (simp add: count_inv_def)
  then have "unat (emutls_num_object s + 1) = unat (emutls_num_object s) + 1" by (simp add: unat_word_ariths)
  moreover have "publishing (pcs s')" unfolding publishing_def s(1) by auto
  ultimately show "count_inv P s'" using s(5) np by (simp add: count_inv_def s(1) indexed_def)
next
  fix t c i assume s: "s' = s\<lparr>index_of := (index_of s)(c := i), pcs := (pcs s)(t := Unlock c)\<rparr>"
    "pcs s t = Publish c i" "lock_inv P s" "index_inv P s" "count_inv P s"
  have c: "c < length (controls P)" using s(2,3) by (metis control_of.simps(7) lock_inv_def)
  have i: "index_of s c = 0" "i \<noteq> 0" using s(4,2) by (auto simp: index_inv_def)
  have "publishing (pcs s)" unfolding publishing_def using s(2) by blast
  moreover have "\<not> publishing (pcs s')" using alone_in_lock [OF s(3), of t] s(2) by (auto simp: publishing_def s(1))
  moreover have "indexed P s' = insert c (indexed P s)" "c \<notin> indexed P s" "finite (indexed P s)"
    using c i by (auto simp: indexed_def s(1))
  ultimately show "count_inv P s'" using s(5) by (simp add: count_inv_def s(1))
qed (auto simp: count_inv_def indexed_def publishing_update)

section \<open>Blocks\<close>

text \<open>Thread \<open>t\<close> holds block \<open>b\<close> for its array, number 0, or for the object in slot \<open>x - 1\<close>.\<close>

definition holds :: "(uptr \<Rightarrow> heap \<Rightarrow> uptr) \<Rightarrow> tls \<Rightarrow> nat \<Rightarrow> nat \<Rightarrow> uptr \<Rightarrow> bool" where
  "holds block s t x b \<longleftrightarrow> (\<exists>a. specific s t = Some a \<and>
     (x = 0 \<and> b = array_block a \<or>
      0 < x \<and> x \<le> length (data a) \<and> data a ! (x - 1) \<noteq> 0 \<and> b = block (data a ! (x - 1)) (hp s)))"

text \<open>Slot \<open>i\<close> holds the object of the control variable with that index.\<close>

definition slot_ok :: "(uptr \<Rightarrow> heap \<Rightarrow> uptr) \<Rightarrow> nat \<Rightarrow> control list \<Rightarrow> (nat \<Rightarrow> uptr) \<Rightarrow> uptr list \<Rightarrow> nat \<Rightarrow> heap \<Rightarrow> bool" where
  "slot_ok block hdr cs idx d i h \<longleftrightarrow> d ! i \<noteq> 0 \<longrightarrow>
     (\<exists>c<length cs. unat (idx c) = Suc i \<and> object_ok hdr (cs ! c) (d ! i) (block (d ! i) h) h)"

definition block_inv :: "(uptr \<Rightarrow> heap \<Rightarrow> uptr) \<Rightarrow> nat \<Rightarrow> 'm platform \<Rightarrow> tls \<Rightarrow> bool" where
  "block_inv block hdr P s \<longleftrightarrow>
     heap_ok (hp s) \<and>
     (\<forall>t a. specific s t = Some a \<longrightarrow> array_ok a \<and>
        (\<forall>i<length (data a). slot_ok block hdr (controls P) (index_of s) (data a) i (hp s))) \<and>
     (\<forall>t x b. holds block s t x b \<longrightarrow> live (hp s) b \<noteq> None) \<and>
     (\<forall>t x b u y. holds block s t x b \<longrightarrow> holds block s u y b \<longrightarrow> t = u \<and> x = y) \<and>
     (\<forall>t c i. pcs s t = Get_object c i \<longrightarrow> (\<exists>a. specific s t = Some a \<and> unat i \<le> length (data a)))"

lemma block_invD:
  assumes "block_inv block hdr P s"
  shows "heap_ok (hp s)" "specific s t = Some a \<Longrightarrow> array_ok a"
    "specific s t = Some a \<Longrightarrow> i < length (data a) \<Longrightarrow> slot_ok block hdr (controls P) (index_of s) (data a) i (hp s)"
    "holds block s t x b \<Longrightarrow> live (hp s) b \<noteq> None"
    "holds block s t x b \<Longrightarrow> holds block s u y b \<Longrightarrow> t = u \<and> x = y"
    "pcs s t = Get_object c v \<Longrightarrow> \<exists>a. specific s t = Some a \<and> unat v \<le> length (data a)"
  using assms unfolding block_inv_def by blast+

lemma block_inv_pc:
  assumes "block_inv block hdr P s" "specific s' = specific s" "hp s' = hp s" "pcs s' = (pcs s)(t := q)"
    and "\<And>c. index_of s c \<noteq> 0 \<Longrightarrow> index_of s' c = index_of s c" "\<And>c i. q \<noteq> Get_object c i"
  shows "block_inv block hdr P s'"
proof -
  have h: "holds block s' = holds block s" using assms(2,3) by (intro ext) (simp add: holds_def)
  have sl: "slot_ok block hdr cs (index_of s) d i h \<Longrightarrow> slot_ok block hdr cs (index_of s') d i h" for cs d i h
    using assms(5) unfolding slot_ok_def by (metis Zero_not_Suc unat_0)
  show ?thesis
    unfolding block_inv_def h assms(2,3,4)
    using block_invD [OF assms(1)] sl assms(6) by (auto split: if_splits)
qed

lemma slot_ok_frame:
  assumes "slot_ok block hdr cs idx d i h" "block (d ! i) h' = block (d ! i) h"
    and "d ! i \<noteq> 0 \<Longrightarrow> live h' (block (d ! i) h) = live h (block (d ! i) h)"
  shows "slot_ok block hdr cs idx d i h'"
  using assms unfolding slot_ok_def object_ok_def inside_def by auto

text \<open>A step of thread \<open>t\<close> that changes its own array and the heap.\<close>

lemma block_inv_change:
  assumes inv: "block_inv block hdr P s" and heap: "heap_ok (hp s')"
    and same: "index_of s' = index_of s" "pcs s' = (pcs s)(t := q)" "\<And>u. u \<noteq> t \<Longrightarrow> specific s' u = specific s u"
    and mine: "\<And>a. specific s' t = Some a \<Longrightarrow> array_ok a"
      "\<And>a i. specific s' t = Some a \<Longrightarrow> i < length (data a) \<Longrightarrow> slot_ok block hdr (controls P) (index_of s) (data a) i (hp s')"
      "\<And>c i. q = Get_object c i \<Longrightarrow> \<exists>a. specific s' t = Some a \<and> unat i \<le> length (data a)"
      "\<And>x b. holds block s' t x b \<Longrightarrow> live (hp s') b \<noteq> None \<and> (holds block s t x b \<or> live (hp s) b = None)"
      "\<And>x y b. holds block s' t x b \<Longrightarrow> holds block s' t y b \<Longrightarrow> x = y"
    and frame: "\<And>u a i. u \<noteq> t \<Longrightarrow> specific s u = Some a \<Longrightarrow> i < length (data a) \<Longrightarrow> data a ! i \<noteq> 0 \<Longrightarrow>
        block (data a ! i) (hp s') = block (data a ! i) (hp s)"
      "\<And>u x b. u \<noteq> t \<Longrightarrow> holds block s u x b \<Longrightarrow> live (hp s') b = live (hp s) b"
  shows "block_inv block hdr P s'"
proof -
  note D = block_invD [OF inv]
  have theirs: "holds block s' u x b \<longleftrightarrow> holds block s u x b" if "u \<noteq> t" for u x b
    unfolding holds_def same(3) [OF that]
    by (cases "specific s u") (use frame(1) [OF that, of _ "x - 1"] in auto)
  have slots: "slot_ok block hdr (controls P) (index_of s) (data a) i (hp s')"
    if "specific s' u = Some a" "i < length (data a)" for u a i
  proof (cases "u = t")
    case False
    then have u: "specific s u = Some a" using same(3) that(1) by simp
    show ?thesis
    proof (cases "data a ! i = 0")
      case False
      have "holds block s u (Suc i) (block (data a ! i) (hp s))"
        unfolding holds_def using u that(2) False by auto
      from frame(2) [OF \<open>u \<noteq> t\<close> this] show ?thesis
        using slot_ok_frame [OF D(3) [OF u that(2)] frame(1) [OF \<open>u \<noteq> t\<close> u that(2) False]] by simp
    qed (simp add: slot_ok_def)
  qed (use mine(2) that in simp)
  have lives: "live (hp s') b \<noteq> None" if "holds block s' u x b" for u x b
    using that mine(4) theirs frame(2) D(4) by (metis (no_types, lifting))
  have inj: "u = v \<and> x = y" if h: "holds block s' u x b" "holds block s' v y b" for u v x y b
  proof -
    consider "u = t" "v = t" | "u = t" "v \<noteq> t" | "u \<noteq> t" "v = t" | "u \<noteq> t" "v \<noteq> t" by blast
    then show ?thesis
    proof cases
      case 1 then show ?thesis using mine(5) h by blast
    next
      case 2 then show ?thesis using h mine(4) theirs D(4,5) by metis
    next
      case 3 then show ?thesis using h mine(4) theirs D(4,5) by metis
    next
      case 4 then show ?thesis using h theirs D(5) by blast
    qed
  qed
  have arr: "array_ok a" if "specific s' u = Some a" for u a
    using that mine(1) same(3) D(2) by metis
  have pc: "\<exists>a. specific s' u = Some a \<and> unat i \<le> length (data a)" if "pcs s' u = Get_object c i" for u c i
    using that mine(3) same(2,3) D(6) by (metis fun_upd_apply)
  show ?thesis
    unfolding block_inv_def same(1)
    apply (intro conjI allI impI)
    subgoal by (rule heap)
    subgoal by (rule arr)
    subgoal by (rule slots)
    subgoal by (rule lives)
    subgoal for u x b v y using inj [of u x b v y] by blast
    subgoal for u x b v y using inj [of u x b v y] by blast
    subgoal by (rule pc)
    done
qed

lemma distinct_map_filter_nth:
  "(\<And>i j. i < length xs \<Longrightarrow> j < length xs \<Longrightarrow> Q (xs ! i) \<Longrightarrow> Q (xs ! j) \<Longrightarrow> f (xs ! i) = f (xs ! j) \<Longrightarrow> i = j) \<Longrightarrow>
   distinct (map f (filter Q xs))"
proof (induction xs)
  case (Cons x xs)
  have "distinct (map f (filter Q xs))"
    using Cons.prems [of "Suc _" "Suc _"] by (intro Cons.IH) fastforce
  moreover have "f x \<noteq> f y" if "y \<in> set xs" "Q x" "Q y" for y
    using Cons.prems [of 0 "Suc _"] that by (fastforce simp: in_set_conv_nth)
  ultimately show ?case by auto
qed simp

context aligned_allocator
begin

lemma get_array_block_inv:
  assumes s': "s' = s\<lparr>specific := (specific s)(t \<mapsto> a), hp := h, pcs := (pcs s)(t := Get_object c i)\<rparr>"
    and inv: "block_inv block hdr P s" "malloc_ok m" "realloc_ok re" "unat i < 2 ^ 59"
    and get: "emutls_get_address_array m re skip i (specific s t) (hp s) = Inr (a, h)"
  shows "block_inv block hdr P s'"
proof -
  note D = block_invD [OF inv(1)]
  have slot: "array_ok a0 \<and> live (hp s) (array_block a0) \<noteq> None" if "specific s t = Some a0" for a0
    using D(2) [OF that] D(4) [of t 0 "array_block a0"] that by (auto simp: holds_def)
  note G = get_address_array [OF inv(2,3) D(1) inv(4) slot get]
  have bl: "block p h = block p (hp s)" if "unat (block p (hp s)) + hdr \<le> unat p" for p
    using that G by (intro block_local) simp_all
  have old: "\<exists>a0. specific s t = Some a0 \<and> j < length (data a0) \<and> data a ! j = data a0 ! j"
    if "j < length (data a)" "data a ! j \<noteq> 0" for j
  proof (cases "specific s t")
    case None
    then have "data a = replicate (length (data a)) 0" using G by simp
    then have "data a ! j = 0" using that(1) by (metis nth_replicate)
    then show ?thesis using that(2) by simp
  next
    case (Some a0)
    then have d: "data a = data a0 @ replicate (length (data a) - length (data a0)) 0" using G by simp
    have "j < length (data a0)"
    proof (rule ccontr)
      assume "\<not> j < length (data a0)"
      then have "data a ! j = 0" using that(1) d by (metis (no_types, lifting) diff_less_mono leI nth_append nth_replicate)
      then show False using that(2) by simp
    qed
    then show ?thesis using Some d by (metis nth_append)
  qed
  have ok: "\<exists>c<length (controls P). object_ok hdr (controls P ! c) p (block p (hp s)) (hp s) \<and> unat (index_of s c) = Suc j"
    if "specific s u = Some a0" "j < length (data a0)" "p = data a0 ! j" "p \<noteq> 0" for u a0 j p
    using D(3) [OF that(1,2)] that(3,4) by (auto simp: slot_ok_def)
  have bl': "block (data a0 ! j) h = block (data a0 ! j) (hp s)"
    if "specific s u = Some a0" "j < length (data a0)" "data a0 ! j \<noteq> 0" for u a0 j
    using ok [OF that(1,2) refl that(3)] by (intro bl) (auto simp: object_ok_def inside_def)
  obtain k where k: "live h = (live (without (specific s t) (hp s)))(array_block a \<mapsto> k)"
    "live (without (specific s t) (hp s)) (array_block a) = None" using G by blast
  have wo: "live (without (specific s t) (hp s)) b = live (hp s) b" if "holds block s u x b" "u \<noteq> t \<or> x \<noteq> 0" for u x b
    proof (cases "specific s t")
      case (Some a0)
      then have "holds block s t 0 (array_block a0)" by (simp add: holds_def)
      then have "b \<noteq> array_block a0" using D(5) [OF that(1)] that(2) by blast
      then show ?thesis by (simp add: without_def Some)
    qed (simp add: without_def)
  have keep: "live h b = live (hp s) b" if "holds block s u x b" "u \<noteq> t \<or> x \<noteq> 0" for u x b
    using wo [OF that] D(4) [OF that(1)] k by auto
  have mine: "holds block s t (Suc j) b" if "holds block s' t (Suc j) b" for j b
    using that old bl' unfolding holds_def s' by (fastforce simp: Suc_le_eq)
  have arr: "b = array_block a" if "holds block s' t 0 b" for b using that by (simp add: holds_def s')
  have ne: "\<not> holds block s t (Suc j) (array_block a)" for j
    using wo [of t "Suc j" "array_block a"] D(4) [of t "Suc j" "array_block a"] k(2) by auto
  show ?thesis
  proof (rule block_inv_change [OF inv(1), where t = t and q = "Get_object c i"])
    show "live (hp s') b \<noteq> None \<and> (holds block s t x b \<or> live (hp s) b = None)" if "holds block s' t x b" for x b
    proof (cases x)
      case 0
      then have "b = array_block a" using that arr by simp
      then show ?thesis using k 0 by (auto simp: s' without_def holds_def split: option.splits if_splits)
    next
      case (Suc j)
      then have "holds block s t x b" using mine that by simp
      then show ?thesis using keep [of t x b] D(4) [of t x b] Suc by (simp add: s')
    qed
    show "x = y" if "holds block s' t x b" "holds block s' t y b" for x y b
      using that mine ne arr D(5) by (metis not0_implies_Suc)
    show "slot_ok block hdr (controls P) (index_of s) (data a') j (hp s')" if "specific s' t = Some a'" "j < length (data a')" for a' j
    proof (cases "data a' ! j = 0")
      case False
      have a': "a' = a" and jl: "j < length (data a')" using that by (simp_all add: s')
      then obtain a0 where a0: "specific s t = Some a0" "j < length (data a0)" "data a' ! j = data a0 ! j"
        using old [of j] jl False by blast
      have "holds block s t (Suc j) (block (data a0 ! j) (hp s))" using a0 False by (auto simp: holds_def)
      then have "live h (block (data a0 ! j) (hp s)) = live (hp s) (block (data a0 ! j) (hp s))" by (rule keep) simp
      then show ?thesis
        using slot_ok_frame [OF D(3) [OF a0(1,2)] bl' [OF a0(1,2)]] False a0(3) by (simp add: s' slot_ok_def)
    qed (simp add: slot_ok_def)
  qed (use G in \<open>auto simp: s' bl' keep\<close>)
qed

lemma slot_block_same:
  assumes inv: "block_inv block hdr P s" and sp: "specific s u = Some a" "i < length (data a)" "data a ! i \<noteq> 0"
    and same: "\<And>x k. live (hp s) (block (data a ! i) (hp s)) = Some k \<Longrightarrow> unat x \<in> region (block (data a ! i) (hp s)) k \<Longrightarrow>
      unat x < unat (data a ! i) \<Longrightarrow> bytes h x = bytes (hp s) x"
  shows "block (data a ! i) h = block (data a ! i) (hp s)"
proof -
  obtain k where "live (hp s) (block (data a ! i) (hp s)) = Some k"
    and "unat (block (data a ! i) (hp s)) + hdr \<le> unat (data a ! i)" "unat (data a ! i) \<le> unat (block (data a ! i) (hp s)) + unat k"
    using block_invD(3) [OF inv sp(1,2)] sp(3) by (auto simp: slot_ok_def object_ok_def inside_def)
  then show ?thesis by (intro block_local same) (auto simp: region_def)
qed

lemma get_object_block_inv:
  assumes s': "s' = s\<lparr>specific := (specific s)(t \<mapsto> a'), hp := h, pcs := (pcs s)(t := Idle)\<rparr>"
    and inv: "block_inv block hdr P s" and a: "specific s t = Some a" and m: "ok m" "control_fine (controls P ! c)"
    and idx: "i = index_of s c" "i \<noteq> 0" "c < length (controls P)"
    and get: "emutls_get_object (alloc m) (controls P ! c) i a (hp s) = Inr (p, a', h)"
  shows "block_inv block hdr P s' \<and> data a' ! (unat i - 1) = p \<and> p \<noteq> 0 \<and> unat i \<le> length (data a') \<and>
    (if data a ! (unat i - 1) = 0
     then grown (hp s) h (block p h) \<and> a' = a\<lparr>data := (data a)[unat i - 1 := p]\<rparr> \<and>
       (\<forall>j<unat (obj_size (controls P ! c)). bytes h (p + of_nat j) = initial_image (controls P ! c) j)
     else a' = a \<and> h = hp s)"
proof -
  note D = block_invD [OF inv]
  let ?j = "unat i - 1"
  have i: "unat (i - 1) = ?j" "0 < unat i" using idx(2) by (simp_all add: unat_minus_one unat_gt_0)
  have lt: "?j < length (data a)"
    using get i by (auto simp: emutls_get_object_def Let_def split: if_splits)
  show ?thesis
  proof (cases "data a ! ?j = 0")
    case False
    then have e: "p = data a ! ?j" "a' = a" "h = hp s" using get i lt by (auto simp: emutls_get_object_def Let_def split: if_splits)
    have "block_inv block hdr P s'"
      by (rule block_inv_pc [OF inv, where t = t and q = Idle]) (use a e in \<open>auto simp: s'\<close>)
    then show ?thesis using e False lt i by auto
  next
    case True
    then have e: "emutls_allocate_object (alloc m) (controls P ! c) (hp s) = Inr (p, h)" "a' = a\<lparr>data := (data a)[?j := p]\<rparr>"
      using get i lt by (auto simp: emutls_get_object_def Let_def split: if_splits sum.splits)
    note A = allocate_object [OF m(1) D(1) m(2) e(1)]
    have p: "p \<noteq> 0" using A by (auto simp: object_ok_def inside_def)
    obtain k where k: "live (hp s) (block p h) = None" "live h = (live (hp s))(block p h \<mapsto> k)"
      "\<And>x. unat x \<notin> region (block p h) k \<Longrightarrow> bytes h x = bytes (hp s) x"
      using A by (auto simp: grown_def)
    have keep: "live h b = live (hp s) b" if "holds block s u x b" for u x b
      using D(4) [OF that] k(1,2) by auto
    have bl: "block (data a0 ! j) h = block (data a0 ! j) (hp s)"
      if sp: "specific s u = Some a0" "j < length (data a0)" "data a0 ! j \<noteq> 0" for u a0 j
    proof (rule slot_block_same [OF inv sp])
      fix x :: uptr and n assume n: "live (hp s) (block (data a0 ! j) (hp s)) = Some n" "unat x \<in> region (block (data a0 ! j) (hp s)) n"
      then have "block (data a0 ! j) (hp s) \<noteq> block p h" using k(1) by auto
      moreover have "live h (block (data a0 ! j) (hp s)) = Some n" using n k(1,2) by auto
      ultimately have "region (block (data a0 ! j) (hp s)) n \<inter> region (block p h) k = {}"
        using A k(2) unfolding heap_ok_def by (metis fun_upd_same)
      then show "bytes h x = bytes (hp s) x" using k(3) n(2) by blast
    qed
    have mine: "if x = Suc ?j then b = block p h else holds block s t x b" if "holds block s' t x b" for x b
      using that a lt bl [OF a] unfolding holds_def by (auto simp: s' e(2) nth_list_update split: if_splits)
    have "block_inv block hdr P s'"
    proof (rule block_inv_change [OF inv, where t = t and q = Idle])
      show "live (hp s') b \<noteq> None \<and> (holds block s t x b \<or> live (hp s) b = None)" if "holds block s' t x b" for x b
        using mine [OF that] k keep [of t x b] D(4) [of t x b] by (auto simp: s' split: if_splits)
      show "x = y" if "holds block s' t x b" "holds block s' t y b" for x y b
        using mine [OF that(1)] mine [OF that(2)] k(1) D(4,5) by (metis (full_types))
      show "slot_ok block hdr (controls P) (index_of s) (data b) j (hp s')" if "specific s' t = Some b" "j < length (data b)" for b j
      proof (cases "j = ?j")
        case True
        then show ?thesis
          using that A idx i lt by (auto simp: s' e(2) slot_ok_def)
      next
        case False
        have j: "j < length (data a)" "data b ! j = data a ! j" using that False by (auto simp: s' e(2))
        show ?thesis
        proof (cases "data a ! j = 0")
          case False
          then have "holds block s t (Suc j) (block (data a ! j) (hp s))" using a j by (auto simp: holds_def)
          then show ?thesis
            using slot_ok_frame [OF D(3) [OF a j(1)] bl [OF a j(1) False]] keep j(2) by (simp add: s' slot_ok_def)
        qed (use j in \<open>simp add: slot_ok_def\<close>)
      qed
    qed (use A D(2) [OF a] bl keep in \<open>auto simp: s' e(2) array_ok_def\<close>)
    then show ?thesis using True A e(2) p lt i by auto
  qed
qed

text \<open>Where the object of a thread and control variable is stored.\<close>

lemma object_slot:
  "object s t c = Some p \<longleftrightarrow> (\<exists>a. specific s t = Some a \<and> 0 < unat (index_of s c) \<and>
     unat (index_of s c) - 1 < length (data a) \<and> data a ! (unat (index_of s c) - 1) = p \<and> p \<noteq> 0)"
  unfolding object_def by (auto split: option.splits if_splits)

lemma object_okD:
  assumes "block_inv block hdr P s" "index_inv P s" "object s t c = Some p"
  shows "c < length (controls P)" "object_ok hdr (controls P ! c) p (block p (hp s)) (hp s)"
    "holds block s t (unat (index_of s c)) (block p (hp s))"
proof -
  obtain a where a: "specific s t = Some a" "0 < unat (index_of s c)" "unat (index_of s c) - 1 < length (data a)"
    "data a ! (unat (index_of s c) - 1) = p" "p \<noteq> 0" using assms(3) by (auto simp: object_slot)
  obtain d where d: "d < length (controls P)" "unat (index_of s d) = unat (index_of s c)"
    "object_ok hdr (controls P ! d) p (block p (hp s)) (hp s)"
    using block_invD(3) [OF assms(1) a(1,3)] a by (auto simp: slot_ok_def)
  then have "index_of s d = index_of s c" by (simp add: word_unat_eq_iff)
  moreover have "index_of s c \<noteq> 0" using a(2) by auto
  ultimately have "d = c" using assms(2) unfolding index_inv_def by metis
  then show "c < length (controls P)" "object_ok hdr (controls P ! c) p (block p (hp s)) (hp s)" using d by auto
  show "holds block s t (unat (index_of s c)) (block p (hp s))" using a by (auto simp: holds_def)
qed

lemma objects_apart:
  assumes inv: "block_inv block hdr P s" "index_inv P s"
    and o: "object s t c = Some p" "object s u d = Some q" "(t, c) \<noteq> (u, d)"
  shows "block p (hp s) \<noteq> block q (hp s) \<and>
    (\<forall>k l. live (hp s) (block p (hp s)) = Some k \<longrightarrow> live (hp s) (block q (hp s)) = Some l \<longrightarrow>
       region (block p (hp s)) k \<inter> region (block q (hp s)) l = {}) \<and>
    region p (obj_size (controls P ! c)) \<inter> region q (obj_size (controls P ! d)) = {}"
proof -
  note P = object_okD [OF inv o(1)] and Q = object_okD [OF inv o(2)]
  have nz: "index_of s c \<noteq> 0" "index_of s d \<noteq> 0" using o by (auto simp: object_slot)
  have ne: "block p (hp s) \<noteq> block q (hp s)"
  proof
    assume "block p (hp s) = block q (hp s)"
    then have "t = u" "unat (index_of s c) = unat (index_of s d)" using block_invD(5) [OF inv(1) P(3)] Q(3) by auto
    then have "index_of s c = index_of s d" by (simp add: word_unat_eq_iff)
    then have "c = d" using inv(2) nz unfolding index_inv_def by metis
    then show False using o(3) \<open>t = u\<close> by simp
  qed
  have dis: "region (block p (hp s)) k \<inter> region (block q (hp s)) l = {}"
    if "live (hp s) (block p (hp s)) = Some k" "live (hp s) (block q (hp s)) = Some l" for k l
    using block_invD(1) [OF inv(1)] that ne unfolding heap_ok_def by blast
  obtain k where k: "live (hp s) (block p (hp s)) = Some k" "region p (obj_size (controls P ! c)) \<subseteq> region (block p (hp s)) k"
    using P(2) unfolding object_ok_def inside_def region_def by fastforce
  obtain l where l: "live (hp s) (block q (hp s)) = Some l" "region q (obj_size (controls P ! d)) \<subseteq> region (block q (hp s)) l"
    using Q(2) unfolding object_ok_def inside_def region_def by fastforce
  show ?thesis using ne dis dis [OF k(1) l(1)] k(2) l(2) by blast
qed

lemma offset_in_object:
  assumes "object_ok hdr c p (block p h) h" "heap_ok h" "i < unat (obj_size c)"
  shows "unat (p + of_nat i) = unat p + i"
proof -
  obtain k where "live h (block p h) = Some k" "unat p + unat (obj_size c) \<le> unat (block p h) + unat k"
    using assms(1) by (auto simp: object_ok_def inside_def)
  moreover have "unat (block p h) + unat k < 2 ^ 64" using assms(2) calculation(1) by (auto simp: heap_ok_def)
  ultimately show ?thesis using assms(3) by (simp add: unat_word_ariths unat_of_nat)
qed

lemma user_write_block_inv:
  assumes inv: "block_inv block hdr P s" "index_inv P s" and o: "object s t c = Some p"
    and i: "i < unat (obj_size (controls P ! c))"
    and s': "s' = s\<lparr>hp := (hp s)\<lparr>bytes := (bytes (hp s))(p + of_nat i := v)\<rparr>\<rparr>"
  shows "block_inv block hdr P s'"
proof -
  note D = block_invD [OF inv(1)]
  note O = object_okD [OF inv o]
  have pi: "unat (p + of_nat i) = unat p + i" by (rule offset_in_object [OF O(2) D(1) i])
  let ?h = "(hp s)\<lparr>bytes := (bytes (hp s))(p + of_nat i := v)\<rparr>"
  have bl: "block (data a ! j) ?h = block (data a ! j) (hp s)"
    if sp: "specific s u = Some a" "j < length (data a)" "data a ! j \<noteq> 0" for u a j
  proof (rule slot_block_same [OF inv(1) sp])
    fix x :: uptr and k assume x: "live (hp s) (block (data a ! j) (hp s)) = Some k" "unat x \<in> region (block (data a ! j) (hp s)) k"
      "unat x < unat (data a ! j)"
    obtain d where d: "unat (index_of s d) = Suc j" using D(3) [OF sp(1,2)] sp(3) by (auto simp: slot_ok_def)
    then have od: "object s u d = Some (data a ! j)" using sp by (simp add: object_slot)
    show "bytes ?h x = bytes (hp s) x"
    proof (cases "(u, d) = (t, c)")
      case True
      then have "x \<noteq> p + of_nat i" using od o x(3) pi by auto
      then show ?thesis by simp
    next
      case False
      obtain l where l: "live (hp s) (block p (hp s)) = Some l" "unat (p + of_nat i) \<in> region (block p (hp s)) l"
        using O(2) i pi by (auto simp: object_ok_def inside_def region_def)
      then have "x \<noteq> p + of_nat i" using objects_apart [OF inv od o False] x(1,2) by blast
      then show ?thesis by simp
    qed
  qed
  have hl: "holds block s' u x b \<longleftrightarrow> holds block s u x b" for u x b
    unfolding holds_def s' by (cases "specific s u") (use bl [of u _ "x - 1"] in auto)
  have "slot_ok block hdr (controls P) (index_of s) (data a) j ?h" if "specific s u = Some a" "j < length (data a)" for u a j
    using slot_ok_frame [OF D(3) [OF that], of ?h] bl [OF that] by (cases "data a ! j = 0") (auto simp: slot_ok_def)
  then show ?thesis
    unfolding block_inv_def hl using D by (auto simp: s')
qed

lemma destructor_block_inv:
  assumes inv: "block_inv block hdr P s" and a: "specific s t = Some a" and q: "pcs s t = Idle"
    and d: "emutls_key_destructor release a (hp s) = r"
    and s': "s' = s\<lparr>specific := (specific s)(t := slot), hp := h, rounds_left := f\<rparr>"
  shows "\<exists>slot h. r = Inr (slot, h) \<and> bytes h = bytes (hp s) \<and>
    (if 0 < skip_destructor_rounds a
     then slot = Some (a\<lparr>skip_destructor_rounds := skip_destructor_rounds a - 1\<rparr>) \<and> h = hp s
     else slot = None \<and> live h = live (hp s) |` (- {b. \<exists>x. holds block s t x b})) \<and> heap_ok h"
proof (cases "0 < skip_destructor_rounds a")
  case True
  then show ?thesis using d block_invD(1) [OF inv] by (auto simp: emutls_key_destructor_def)
next
  case False
  note D = block_invD [OF inv]
  have l: "length (data a) = unat (array_size a)" using D(2) [OF a] by (simp add: array_ok_def)
  have slot: "\<exists>n. inside hdr (data a ! i) n (block (data a ! i) (hp s)) (hp s)" if "i < length (data a)" "data a ! i \<noteq> 0" for i
    using D(3) [OF a that(1)] that(2) by (auto simp: slot_ok_def object_ok_def)
  have held: "holds block s t (Suc i) (block (data a ! i) (hp s))" if "i < length (data a)" "data a ! i \<noteq> 0" for i
    using that a by (auto simp: holds_def)
  have ins: "\<forall>p\<in>set (data a). p \<noteq> 0 \<longrightarrow> (\<exists>n. inside hdr p n (block p (hp s)) (hp s))"
    using slot by (metis in_set_conv_nth)
  have dist: "distinct (map (\<lambda>p. block p (hp s)) (filter (\<lambda>p. p \<noteq> 0) (data a)))"
    using held D(5) by (intro distinct_map_filter_nth) (metis Suc_inject)
  obtain h where h: "shutdown_loop release (data a) (hp s) = Inr h" "bytes h = bytes (hp s)" "heap_ok h"
    "live h = live (hp s) |` (- {block p (hp s) | p. p \<in> set (data a) \<and> p \<noteq> 0})"
    using shutdown_loop_frees [OF D(1) ins dist] by blast
  have h0: "holds block s t 0 (array_block a)" using a by (simp add: holds_def)
  have all: "{b. \<exists>x. holds block s t x b} = insert (array_block a) {block p (hp s) | p. p \<in> set (data a) \<and> p \<noteq> 0}"
  proof (intro equalityI subsetI)
    fix b assume "b \<in> {b. \<exists>x. holds block s t x b}"
    then obtain x where "x = 0 \<and> b = array_block a \<or>
        0 < x \<and> x \<le> length (data a) \<and> data a ! (x - 1) \<noteq> 0 \<and> b = block (data a ! (x - 1)) (hp s)"
      using a by (auto simp: holds_def)
    then show "b \<in> insert (array_block a) {block p (hp s) | p. p \<in> set (data a) \<and> p \<noteq> 0}"
      using nth_mem [of "x - 1" "data a"] by auto
  next
    fix b assume "b \<in> insert (array_block a) {block p (hp s) | p. p \<in> set (data a) \<and> p \<noteq> 0}"
    then show "b \<in> {b. \<exists>x. holds block s t x b}" using h0 held by (auto simp: in_set_conv_nth)
  qed
  have "array_block a \<notin> {block p (hp s) | p. p \<in> set (data a) \<and> p \<noteq> 0}"
    using D(5) [OF h0] held by (auto simp: in_set_conv_nth) (metis Zero_not_Suc)
  then have al: "live h (array_block a) \<noteq> None" "array_block a \<noteq> 0"
    using D(4) [OF h0] D(1) by (auto simp: h(4) restrict_map_def heap_ok_def)
  have r: "r = Inr (None, h\<lparr>live := (live h)(array_block a := None)\<rparr>)"
    using d False h(1) al l by (auto simp: emutls_key_destructor_def emutls_shutdown_def c_free_def)
  have e: "(live h)(array_block a := None) = live (hp s) |` (- {b. \<exists>x. holds block s t x b})"
    unfolding all h(4) by (auto simp: restrict_map_def fun_eq_iff)
  have "heap_ok (h\<lparr>live := live (hp s) |` (- {b. \<exists>x. holds block s t x b})\<rparr>)"
    using heap_ok_free [OF h(3), of "array_block a"] unfolding e .
  then show ?thesis using False h(2) unfolding r e by simp
qed

lemma destructor_step_block_inv:
  assumes inv: "block_inv block hdr P s" and a: "specific s t = Some a" and q: "pcs s t = Idle"
    and d: "emutls_key_destructor release a (hp s) = Inr (slot, h)"
    and s': "s' = s\<lparr>specific := (specific s)(t := slot), hp := h, rounds_left := f\<rparr>"
  shows "block_inv block hdr P s'"
proof -
    from destructor_block_inv [OF inv a q d]
    have b: "bytes h = bytes (hp s)" "heap_ok h"
      and D: "if 0 < skip_destructor_rounds a
        then slot = Some (a\<lparr>skip_destructor_rounds := skip_destructor_rounds a - 1\<rparr>) \<and> h = hp s
        else slot = None \<and> live h = live (hp s) |` (- {b. \<exists>x. holds block s t x b})" by auto
    show ?thesis
    proof (cases "0 < skip_destructor_rounds a")
      case True
      then have h: "h = hp s" "slot = Some (a\<lparr>skip_destructor_rounds := skip_destructor_rounds a - 1\<rparr>)" using D by auto
      have hl: "holds block s' u x b \<longleftrightarrow> holds block s u x b" for u x b
        using a by (auto simp: holds_def s' h)
      have sp: "\<exists>a'. specific s u = Some a' \<and> data b = data a' \<and> array_size b = array_size a'" if "specific s' u = Some b" for u b
        using that a by (cases "u = t") (auto simp: s' h)
      note I = block_invD [OF inv]
      show ?thesis
        unfolding block_inv_def hl
        apply (intro conjI allI impI)
        subgoal using b(2) by (simp add: s')
        subgoal for u b using sp [of u b] I(2) by (auto simp: array_ok_def)
        subgoal for u b i using sp [of u b] I(3) by (auto simp: s' h(1))
        subgoal for u x b using I(4) by (simp add: s' h(1))
        subgoal for u x b v y using I(5) [of u x b v y] by blast
        subgoal for u x b v y using I(5) [of u x b v y] by blast
        subgoal for u c i using I(6) [of u c i] q by (auto simp: s')
        done
    next
      case False
      then have h: "slot = None" "live h = live (hp s) |` (- {b. \<exists>x. holds block s t x b})" using D by auto
      have keep: "live h b = live (hp s) b" if "u \<noteq> t" "holds block s u x b" for u x b
      proof -
        have "\<not> holds block s t y b" for y using block_invD(5) [OF inv that(2), of t y] that(1) by blast
        then show ?thesis unfolding h(2) by (simp add: restrict_map_def)
      qed
      have bl: "block (data a ! i) h = block (data a ! i) (hp s)"
        if "specific s u = Some a" "i < length (data a)" "data a ! i \<noteq> 0" for u a i
        by (rule slot_block_same [OF inv that]) (simp add: b(1))
      show ?thesis
      proof (rule block_inv_change [OF inv, where t = t and q = Idle])
        show "block (data a ! i) (hp s') = block (data a ! i) (hp s)"
          if "specific s u = Some a" "i < length (data a)" "data a ! i \<noteq> 0" for u a i
          using bl [OF that] by (simp add: s')
        show "live (hp s') b = live (hp s) b" if "u \<noteq> t" "holds block s u x b" for u x b
          using keep [OF that] by (simp add: s')
      qed (use b(2) h(1) q in \<open>simp_all add: s' holds_def [of block _ t] fun_upd_idem\<close>)
    qed
qed

text \<open>The invariant of the reachable states.\<close>

definition tls_inv :: "'p platform \<Rightarrow> nat \<Rightarrow> tls \<Rightarrow> bool" where
  "tls_inv P iterations s \<longleftrightarrow> lock_inv P s \<and> index_inv P s \<and> count_inv P s \<and> block_inv block hdr P s \<and>
     (\<forall>t. rounds_left s t \<le> iterations) \<and>
     (\<forall>t a. specific s t = Some a \<longrightarrow> unat (skip_rounds P) \<le> unat (skip_destructor_rounds a) + (iterations - rounds_left s t))"

lemma tls_inv_init: "heap_ok h \<Longrightarrow> tls_inv P iterations (tls_init iterations h)"
  by (simp add: tls_inv_def tls_init_def lock_inv_def index_inv_def count_inv_def block_inv_def holds_def indexed_def publishing_def)

lemma index_bound:
  assumes "index_inv P s" "count_inv P s" "length (controls P) < 2 ^ 59 - 1"
  shows "unat (index_of s c) < 2 ^ 59"
proof -
  have "unat (emutls_num_object s) < 2 ^ 59" using assms(2,3) indexed_bound [of P s] by (auto simp: count_inv_def)
  moreover have "index_of s c \<le> emutls_num_object s" using assms(1) by (cases "index_of s c = 0") (auto simp: index_inv_def)
  ultimately show ?thesis by (simp add: word_le_nat_alt)
qed

lemma tls_inv_step:
  assumes step: "tls_step P s e s'" and inv: "tls_inv P iterations s"
    and P: "memalign P = alloc" "memalign_free P = release" "memalign_fine P = ok"
    and n: "length (controls P) < 2 ^ 59 - 1" "\<forall>c\<in>set (controls P). control_fine c"
  shows "tls_inv P iterations s'"
proof -
  have I: "lock_inv P s" "index_inv P s" "count_inv P s" "block_inv block hdr P s" using inv by (simp_all add: tls_inv_def)
  have R: "\<forall>t. rounds_left s t \<le> iterations"
    "\<forall>t a. specific s t = Some a \<longrightarrow> unat (skip_rounds P) \<le> unat (skip_destructor_rounds a) + (iterations - rounds_left s t)"
    using inv unfolding tls_inv_def by blast+
  have L: "lock_inv P s'" "index_inv P s'" "count_inv P s'"
    using lock_inv_step [OF step I(1)] index_inv_step [OF step I(1,3) _ I(2)] count_inv_step [OF step I(1,2) _ I(3)] n(1) by simp_all
  have "block_inv block hdr P s' \<and> (\<forall>t. rounds_left s' t \<le> iterations) \<and>
    (\<forall>t a. specific s' t = Some a \<longrightarrow> unat (skip_rounds P) \<le> unat (skip_destructor_rounds a) + (iterations - rounds_left s' t))"
    using step
  proof cases
    case (publish t c i)
    have "index_of s c = 0" using index_inv_at(4) [OF I(2) publish(3)] by simp
    then have "block_inv block hdr P s'"
      by (intro block_inv_pc [OF I(4), where t = t and q = "Unlock c"]) (auto simp: publish(2))
    then show ?thesis using R unfolding publish(2) by simp
  next
    case (get_array t c i m re a h)
    note G = get_array_block_inv [OF get_array(2) I(4) get_array(4,5) _ get_array(6)]
    have i: "unat i < 2 ^ 59" using index_inv_at(2) [OF I(2) get_array(3)] index_bound [OF I(2,3) n(1)] by metis
    have slot: "array_ok a0 \<and> live (hp s) (array_block a0) \<noteq> None" if "specific s t = Some a0" for a0
      using block_invD(2) [OF I(4) that] block_invD(4) [OF I(4), of t 0 "array_block a0"] that by (simp add: holds_def)
    have sk: "skip_destructor_rounds a = (case specific s t of None \<Rightarrow> skip_rounds P | Some a0 \<Rightarrow> skip_destructor_rounds a0)"
      using get_address_array [OF get_array(4,5) block_invD(1) [OF I(4)] i slot get_array(6),
          THEN conjunct2, THEN conjunct2, THEN conjunct2, THEN conjunct2, THEN conjunct2, THEN conjunct1] .
    have "block_inv block hdr P s'" using G i by simp
    moreover have "unat (skip_rounds P) \<le> unat (skip_destructor_rounds a) + (iterations - rounds_left s t)"
    proof (cases "specific s t")
      case None then show ?thesis using sk by simp
    next
      case (Some a0) then show ?thesis using sk R(2) by (simp only: option.case)
    qed
    ultimately show ?thesis using R unfolding get_array(2) by simp
  next
    case (get_object t c i m a p a' h)
    have c: "c < length (controls P)" using I(1) get_object(3) by (metis control_of.simps(10) lock_inv_def)
    have m: "ok m" "control_fine (controls P ! c)" using get_object(4) P(3) n(2) c by auto
    note i = index_inv_at(3) [OF I(2) get_object(3)]
    note G = get_object_block_inv [OF get_object(2) I(4) get_object(5) m i [THEN conjunct1] i [THEN conjunct2] c get_object(6) [unfolded P(1)]]
    have sk: "skip_destructor_rounds a' = skip_destructor_rounds a" using G i by (auto split: if_splits)
    have "block_inv block hdr P s'" by (rule G [THEN conjunct1])
    then show ?thesis using R get_object(5) sk unfolding get_object(2) by auto
  next
    case (user_write t c p i b)
    then show ?thesis using user_write_block_inv [OF I(4,2) user_write(3,5,2)] R by simp
  next
    case (destructor t a slot h)
    have d: "emutls_key_destructor release a (hp s) = Inr (slot, h)" using destructor(6) P(2) by simp
    have D: "if 0 < skip_destructor_rounds a
        then slot = Some (a\<lparr>skip_destructor_rounds := skip_destructor_rounds a - 1\<rparr>) \<and> h = hp s
        else slot = None \<and> live h = live (hp s) |` (- {b. \<exists>x. holds block s t x b})"
      using destructor_block_inv [OF I(4) destructor(4,3) d] by auto
    have "block_inv block hdr P s'" by (rule destructor_step_block_inv [OF I(4) destructor(4,3) d destructor(2)])
    moreover have "unat (skip_rounds P) \<le> unat (skip_destructor_rounds a') + (iterations - (rounds_left s t - 1))"
      if "slot = Some a'" for a'
    proof -
      have z: "0 < skip_destructor_rounds a" "a' = a\<lparr>skip_destructor_rounds := skip_destructor_rounds a - 1\<rparr>"
        using D that by (auto split: if_splits)
      then have "unat (skip_destructor_rounds a') = unat (skip_destructor_rounds a) - 1"
        by (simp add: unat_minus_one word_gt_0_no)
      moreover have "0 < unat (skip_destructor_rounds a)" using z(1) by (simp add: word_less_nat_alt)
      moreover have "unat (skip_rounds P) \<le> unat (skip_destructor_rounds a) + (iterations - rounds_left s t)"
        using R(2) destructor(4) by blast
      moreover have "rounds_left s t \<le> iterations" using R(1) by blast
      ultimately show ?thesis using destructor(5) by linarith
    qed
    moreover have "rounds_left s t - 1 \<le> iterations" using R(1) by (meson diff_le_self le_trans)
    ultimately show ?thesis using R unfolding destructor(2) by simp
  next
    case (call t c) then show ?thesis using block_inv_pc [OF I(4), of s' t "Load c"] R by simp
  next
    case (load t c)
    then show ?thesis using block_inv_pc [OF I(4), of s' t "if index_of s c = 0 then Init_once c else Get_array c (index_of s c)"] R by simp
  next
    case (init_once t c) then show ?thesis using block_inv_pc [OF I(4), of s' t "Lock c"] R by simp
  next
    case (lock t c) then show ?thesis using block_inv_pc [OF I(4), of s' t "Recheck c"] R by simp
  next
    case (recheck t c)
    then show ?thesis using block_inv_pc [OF I(4), of s' t "if index_of s c = 0 then Increment c else Unlock c"] R by simp
  next
    case (increment t c) then show ?thesis using block_inv_pc [OF I(4), of s' t "Publish c (emutls_num_object s + 1)"] R by simp
  next
    case (unlock t c) then show ?thesis using block_inv_pc [OF I(4), of s' t "Get_array c (index_of s c)"] R by simp
  qed
  then show ?thesis using L unfolding tls_inv_def by blast
qed

lemma tls_inv_reachable:
  assumes "tls_reachable P iterations s"
    and P: "memalign P = alloc" "memalign_free P = release" "memalign_fine P = ok"
    and n: "length (controls P) < 2 ^ 59 - 1" "\<forall>c\<in>set (controls P). control_fine c"
  shows "tls_inv P iterations s"
  using assms(1)
proof induction
  case (start h)
  then show ?case by (rule tls_inv_init)
next
  case (step s e s')
  then show ?case using tls_inv_step [OF step.hyps(2) step.IH P n] by blast
qed

lemma get_array_frame:
  assumes I: "block_inv block hdr P s" "index_inv P s" "count_inv P s" and n: "length (controls P) < 2 ^ 59 - 1"
    and q: "pcs s t = Get_array c i" "malloc_ok m" "realloc_ok re"
    and g: "emutls_get_address_array m re skip i (specific s t) (hp s) = Inr (a, h)"
  shows "bytes h = bytes (hp s) \<and> (\<forall>a0. specific s t = Some a0 \<longrightarrow> (\<exists>z. data a = data a0 @ z))"
proof -
  have i: "unat i < 2 ^ 59" using index_inv_at(2) [OF I(2) q(1)] index_bound [OF I(2,3) n] by metis
  have slot: "array_ok a0 \<and> live (hp s) (array_block a0) \<noteq> None" if "specific s t = Some a0" for a0
    using block_invD(2) [OF I(1) that] block_invD(4) [OF I(1), of t 0 "array_block a0"] that by (simp add: holds_def)
  note G = get_address_array [OF q(2,3) block_invD(1) [OF I(1)] i slot g]
  have "data a = (case specific s t of None \<Rightarrow> [] | Some a0 \<Rightarrow> data a0) @
      replicate (length (data a) - (case specific s t of None \<Rightarrow> 0 | Some a0 \<Rightarrow> length (data a0))) 0"
    by (rule G [THEN conjunct2, THEN conjunct2, THEN conjunct2, THEN conjunct2, THEN conjunct1])
  then show ?thesis using G [THEN conjunct2, THEN conjunct1] by auto
qed

text \<open>An object stays where it is, except for the destructor of its own thread.\<close>

lemma object_kept:
  assumes step: "tls_step P s e s'" and inv: "tls_inv P iterations s"
    and P: "memalign P = alloc" "memalign_free P = release" "memalign_fine P = ok"
    and n: "length (controls P) < 2 ^ 59 - 1" "\<forall>c\<in>set (controls P). control_fine c"
    and o: "object s u d = Some q" "e \<noteq> Destructor u"
  shows "object s' u d = Some q"
proof -
  have I: "lock_inv P s" "index_inv P s" "count_inv P s" "block_inv block hdr P s" using inv unfolding tls_inv_def by blast+
  show ?thesis
    using step
  proof cases
    case (publish t c i)
    then have "index_of s c = 0" using index_inv_at(4) [OF I(2) publish(3)] by simp
    then have "c \<noteq> d" using o by (auto simp: object_slot)
    then show ?thesis using o publish(2) by (auto simp: object_slot)
  next
    case (get_array t c i m re a h)
    show ?thesis
    proof (cases "u = t")
      case True
      obtain a0 where a0: "specific s t = Some a0" "0 < unat (index_of s d)" "unat (index_of s d) - 1 < length (data a0)"
        "data a0 ! (unat (index_of s d) - 1) = q" "q \<noteq> 0" using o(1) True by (auto simp: object_slot)
      then obtain z where "data a = data a0 @ z"
        using get_array_frame [OF I(4,2,3) n(1) get_array(3-6)] by blast
      then show ?thesis using a0 True by (simp add: object_slot get_array(2) nth_append)
    qed (use o get_array(2) in \<open>auto simp: object_slot\<close>)
  next
    case (get_object t c i m a p a' h)
    show ?thesis
    proof (cases "u = t")
      case True
      have c: "c < length (controls P)" using I(1) get_object(3) by (metis control_of.simps(10) lock_inv_def)
      have m: "ok m" "control_fine (controls P ! c)" using get_object(4) P(3) n(2) c by auto
      note i = index_inv_at(3) [OF I(2) get_object(3)]
      have A: "if data a ! (unat i - 1) = 0 then a' = a\<lparr>data := (data a)[unat i - 1 := p]\<rparr> else a' = a"
        using get_object_block_inv [OF get_object(2) I(4) get_object(5) m i [THEN conjunct1] i [THEN conjunct2] c get_object(6) [unfolded P(1)]]
        by (auto split: if_splits)
      have a: "0 < unat (index_of s d)" "unat (index_of s d) - 1 < length (data a)"
        "data a ! (unat (index_of s d) - 1) = q" "q \<noteq> 0" using o(1) True get_object(5) by (auto simp: object_slot)
      then have "data a' ! (unat (index_of s d) - 1) = q" using A
        by (cases "unat (index_of s d) - 1 = unat i - 1") (auto split: if_splits)
      moreover have "length (data a') = length (data a)" using A by (auto split: if_splits)
      ultimately show ?thesis using a True by (simp add: object_slot get_object(2))
    qed (use o get_object(2) in \<open>auto simp: object_slot\<close>)
  next
    case (destructor t a slot h)
    then show ?thesis using o by (auto simp: object_slot)
  qed (use o in \<open>auto simp: object_slot\<close>)
qed

text \<open>Its bytes change only by its own writes.\<close>

lemma object_bytes_kept:
  assumes step: "tls_step P s e s'" and inv: "tls_inv P iterations s"
    and P: "memalign P = alloc" "memalign_free P = release" "memalign_fine P = ok"
    and n: "length (controls P) < 2 ^ 59 - 1" "\<forall>c\<in>set (controls P). control_fine c"
    and o: "object s u d = Some q" and i: "i < unat (obj_size (controls P ! d))" and e: "\<And>w. e \<noteq> Write u d i w"
  shows "bytes (hp s') (q + of_nat i) = bytes (hp s) (q + of_nat i)"
proof -
  have I: "lock_inv P s" "index_inv P s" "count_inv P s" "block_inv block hdr P s" using inv unfolding tls_inv_def by blast+
  note D = block_invD [OF I(4)]
  note O = object_okD [OF I(4,2) o]
  have qi: "unat (q + of_nat i) = unat q + i" by (rule offset_in_object [OF O(2) D(1) i])
  obtain l where l: "live (hp s) (block q (hp s)) = Some l" "unat (q + of_nat i) \<in> region (block q (hp s)) l"
    using O(2) i qi by (auto simp: object_ok_def inside_def region_def)
  show ?thesis
    using step
  proof cases
    case (get_array t c j m re a h)
    then show ?thesis using get_array_frame [OF I(4,2,3) n(1) get_array(3-6)] by simp
  next
    case (get_object t c j m a p a' h)
    have c: "c < length (controls P)" using I(1) get_object(3) by (metis control_of.simps(10) lock_inv_def)
    have m: "ok m" "control_fine (controls P ! c)" using get_object(4) P(3) n(2) c by auto
    note j = index_inv_at(3) [OF I(2) get_object(3)]
    note A = get_object_block_inv [OF get_object(2) I(4) get_object(5) m j [THEN conjunct1] j [THEN conjunct2] c get_object(6) [unfolded P(1)]]
    show ?thesis
    proof (cases "data a ! (unat j - 1) = 0")
      case True
      then obtain k where k: "live (hp s) (block p h) = None" "live h = (live (hp s))(block p h \<mapsto> k)"
        "\<And>x. unat x \<notin> region (block p h) k \<Longrightarrow> bytes h x = bytes (hp s) x"
        using A by (auto simp: grown_def)
      have "heap_ok h" using block_invD(1) [OF A [THEN conjunct1]] by (simp add: get_object(2))
      moreover have "block q (hp s) \<noteq> block p h" using k(1) l(1) by auto
      ultimately have "region (block q (hp s)) l \<inter> region (block p h) k = {}"
        using k(2) l(1) unfolding heap_ok_def by (metis fun_upd_other fun_upd_same)
      then show ?thesis using k(3) l(2) by (auto simp: get_object(2))
    next
      case False
      then show ?thesis using A by (simp add: get_object(2))
    qed
  next
    case (user_write t c p j b)
    note O' = object_okD [OF I(4,2) user_write(3)]
    have pj: "unat (p + of_nat j) = unat p + j" by (rule offset_in_object [OF O'(2) D(1) user_write(5)])
    have "q + of_nat i \<noteq> p + of_nat j"
    proof (cases "(u, d) = (t, c)")
      case True
      then have "p = q" "i \<noteq> j" using o user_write(1,3) e by auto
      then show ?thesis using qi pj by (metis add_left_cancel)
    next
      case False
      have "unat q + i \<in> region q (obj_size (controls P ! d))" "unat p + j \<in> region p (obj_size (controls P ! c))"
        using i user_write(5) by (auto simp: region_def)
      then show ?thesis using objects_apart [OF I(4,2) o user_write(3) False] qi pj by fastforce
    qed
    then show ?thesis by (simp add: user_write(2))
  next
    case (destructor t a slot h)
    have d: "emutls_key_destructor release a (hp s) = Inr (slot, h)" using destructor(6) P(2) by simp
    show ?thesis using destructor_block_inv [OF I(4) destructor(4,3) d] by (simp add: destructor(2))
  qed simp_all
qed

lemma return_object:
  assumes step: "tls_step P s (Return t c p) s'" and inv: "tls_inv P iterations s"
    and P: "memalign P = alloc" "memalign_free P = release" "memalign_fine P = ok"
    and n: "length (controls P) < 2 ^ 59 - 1" "\<forall>c\<in>set (controls P). control_fine c"
  shows "object s' t c = Some p \<and>
    (object s t c = None \<longrightarrow> (\<forall>i<unat (obj_size (controls P ! c)). bytes (hp s') (p + of_nat i) = initial_image (controls P ! c) i)) \<and>
    (\<forall>q. object s t c = Some q \<longrightarrow> q = p)"
proof -
  have I: "lock_inv P s" "index_inv P s" "count_inv P s" "block_inv block hdr P s" using inv unfolding tls_inv_def by blast+
  from step show ?thesis
  proof cases
    case (get_object j m a a' h)
    have c: "c < length (controls P)" using I(1) get_object(2) by (metis control_of.simps(10) lock_inv_def)
    have m: "ok m" "control_fine (controls P ! c)" using get_object(3) P(3) n(2) c by auto
    note j = index_inv_at(3) [OF I(2) get_object(2)]
    note A = get_object_block_inv [OF get_object(1) I(4) get_object(4) m j [THEN conjunct1] j [THEN conjunct2] c get_object(5) [unfolded P(1)]]
    have ij: "index_of s c = j" "0 < unat j" using j by (auto simp: unat_gt_0)
    have "object s' t c = Some p" using A ij by (auto simp: object_slot get_object(1))
    moreover have "object s t c = (if data a ! (unat j - 1) = 0 then None else Some (data a ! (unat j - 1)))"
      using ij get_object(4) A by (auto simp: object_def split: if_splits)
    ultimately show ?thesis using A by (auto simp: get_object(1) split: if_splits)
  qed
qed

end

end
