(* ===== verification/EmutlsSafety.thy ===== *)
theory EmutlsSafety
  imports EmutlsThreads
begin

text \<open>
  What \<^verbatim>\<open>emutls.c\<close> promises its callers, for the allocator over malloc: every thread has its own object of
  every control variable, aligned, initialised and stable until the thread's last destructor
  round, and nothing is freed twice or accessed out of bounds.
\<close>

unbundle bit_operations_syntax

definition default_platform :: "uptr \<Rightarrow> control list \<Rightarrow> malloc platform" where
  "default_platform skip cs =
     \<lparr>memalign = emutls_memalign_alloc, memalign_free = emutls_memalign_free, memalign_fine = malloc_ok,
      skip_rounds = skip, controls = cs\<rparr>"

definition controls_fine :: "control list \<Rightarrow> bool" where
  "controls_fine cs \<longleftrightarrow> length cs < 2 ^ 59 - 1 \<and> (\<forall>c\<in>set cs. control_fine c)"

lemma default_inv:
  assumes "controls_fine cs" "tls_reachable (default_platform skip cs) iterations s"
  shows "memalign.tls_inv (default_platform skip cs) iterations s"
  using memalign.tls_inv_reachable [OF assms(2)] assms(1) by (simp add: default_platform_def controls_fine_def)

abbreviation header_of :: "uptr \<Rightarrow> heap \<Rightarrow> uptr" where
  "header_of p h \<equiv> get_word (p - 8) (bytes h)"

lemma inv_parts:
  "memalign.tls_inv P iterations s \<Longrightarrow> lock_inv P s \<and> index_inv P s \<and> count_inv P s \<and> block_inv header_of 8 P s"
  by (simp add: memalign.tls_inv_def)

lemma object_cong: "specific s' u = specific s u \<Longrightarrow> index_of s' = index_of s \<Longrightarrow> object s' u c = object s u c"
  by (simp only: object_def)

text \<open>C7: Thread-local objects are private: in every reachable state of any number of threads, the object of a
  control variable in a thread is aligned as the variable asks, lies inside one live block of the heap, and shares
  no byte with the object of another thread or another variable.\<close>
theorem emutls_objects_private:
  assumes "controls_fine cs" "tls_reachable (default_platform skip cs) iterations s" "object s t c = Some p"
  shows "c < length cs \<and> unat p mod unat (alignment (cs ! c)) = 0 \<and>
    (\<exists>b n. live (hp s) b = Some n \<and> region p (obj_size (cs ! c)) \<subseteq> region b n) \<and>
    (\<forall>u d q. object s u d = Some q \<longrightarrow> (u, d) \<noteq> (t, c) \<longrightarrow>
       region p (obj_size (cs ! c)) \<inter> region q (obj_size (cs ! d)) = {})"
proof -
  let ?P = "default_platform skip cs"
  have I: "index_inv ?P s" "block_inv header_of 8 ?P s" using inv_parts [OF default_inv [OF assms(1,2)]] by blast+
  note O = memalign.object_okD [OF I(2,1) assms(3)]
  have cs: "controls ?P = cs" by (simp add: default_platform_def)
  have "region p (obj_size (cs ! c)) \<inter> region q (obj_size (cs ! d)) = {}"
    if "object s u d = Some q" "(u, d) \<noteq> (t, c)" for u d q
    using memalign.objects_apart [OF I(2,1) assms(3) that(1)] that(2) cs by auto
  moreover have "\<exists>b n. live (hp s) b = Some n \<and> region p (obj_size (cs ! c)) \<subseteq> region b n"
    using O(2) unfolding object_ok_def inside_def region_def cs by fastforce
  ultimately show ?thesis using O(1,2) by (auto simp: cs object_ok_def)
qed

text \<open>C8: Thread-local objects are stable: a call returns the object of the calling thread and control variable,
  freshly filled with the variable's initial image or with zeros when the thread had none, and otherwise the one it
  had; no step but a destructor round of the same thread takes an object away or moves it, and none but a write
  of the program to that very byte changes one of its bytes.\<close>
theorem emutls_objects_stable:
  assumes "controls_fine cs" "tls_reachable (default_platform skip cs) iterations s"
    and "tls_step (default_platform skip cs) s e s'"
  shows "(\<forall>t c p. e = Return t c p \<longrightarrow> object s' t c = Some p \<and>
      (object s t c = None \<longrightarrow> (\<forall>i<unat (obj_size (cs ! c)). bytes (hp s') (p + of_nat i) = initial_image (cs ! c) i)) \<and>
      (\<forall>q. object s t c = Some q \<longrightarrow> q = p)) \<and>
    (\<forall>u d q. object s u d = Some q \<longrightarrow> (e \<noteq> Destructor u \<longrightarrow> object s' u d = Some q) \<and>
      (\<forall>i<unat (obj_size (cs ! d)). (\<forall>w. e \<noteq> Write u d i w) \<longrightarrow>
         bytes (hp s') (q + of_nat i) = bytes (hp s) (q + of_nat i)))"
proof -
  let ?P = "default_platform skip cs"
  have P: "memalign ?P = emutls_memalign_alloc" "memalign_free ?P = emutls_memalign_free" "memalign_fine ?P = malloc_ok"
    "controls ?P = cs" by (simp_all add: default_platform_def)
  have n: "length (controls ?P) < 2 ^ 59 - 1" "\<forall>c\<in>set (controls ?P). control_fine c"
    using assms(1) P(4) by (simp_all add: controls_fine_def)
  note inv = default_inv [OF assms(1,2)]
  have r: "object s' t c = Some p \<and>
      (object s t c = None \<longrightarrow> (\<forall>i<unat (obj_size (cs ! c)). bytes (hp s') (p + of_nat i) = initial_image (cs ! c) i)) \<and>
      (\<forall>q. object s t c = Some q \<longrightarrow> q = p)" if "e = Return t c p" for t c p
    using memalign.return_object [OF assms(3) [unfolded that] inv P(1-3) n] unfolding P(4) .
  have k: "object s' u d = Some q" if "object s u d = Some q" "e \<noteq> Destructor u" for u d q
    by (rule memalign.object_kept [OF assms(3) inv P(1-3) n that])
  have b: "bytes (hp s') (q + of_nat i) = bytes (hp s) (q + of_nat i)"
    if "object s u d = Some q" "i < unat (obj_size (cs ! d))" "\<And>w. e \<noteq> Write u d i w" for u d q i
    using memalign.object_bytes_kept [OF assms(3) inv P(1-3) n that(1)] that(2,3) unfolding P(4) by blast
  show ?thesis
    apply (intro conjI allI impI)
    subgoal for t c p using r [of t c p] by blast
    subgoal for t c p i using r [of t c p] by blast
    subgoal for t c p q using r [of t c p] by blast
    subgoal for u d q using k by blast
    subgoal for u d q i using b by blast
    done
qed

text \<open>C32: Releasing thread-local objects: on the openkal target a destructor round frees objects only when it is the
  last round the thread library runs; then it frees exactly the blocks of the thread, its array and its objects, and every
  earlier round changes no object of any thread and leaves one skipped round less.  An array never has
  fewer skipped rounds than there are rounds before the last.\<close>
theorem emutls_freed_in_last_round:
  assumes "controls_fine cs" "0 < iterations" "iterations < 2 ^ 64"
    and "tls_reachable (default_platform (EMUTLS_SKIP_DESTRUCTOR_ROUNDS (of_nat iterations) Openkal) cs) iterations s"
    and "tls_step (default_platform (EMUTLS_SKIP_DESTRUCTOR_ROUNDS (of_nat iterations) Openkal) cs) s (Destructor t) s'"
  shows "\<exists>a. specific s t = Some a \<and> rounds_left s t - 1 \<le> unat (skip_destructor_rounds a) \<and>
    rounds_left s' t = rounds_left s t - 1 \<and>
    (if skip_destructor_rounds a \<noteq> 0
     then hp s' = hp s \<and> (\<forall>u c. object s' u c = object s u c) \<and>
       (\<exists>a'. specific s' t = Some a' \<and> unat (skip_destructor_rounds a') = unat (skip_destructor_rounds a) - 1)
     else rounds_left s t = 1 \<and> live (hp s') = live (hp s) |` (- {b. \<exists>x. holds header_of s t x b}) \<and>
       (\<forall>u c. object s' u c = (if u = t then None else object s u c)))"
proof -
  let ?k = "EMUTLS_SKIP_DESTRUCTOR_ROUNDS (of_nat iterations) Openkal"
  let ?P = "default_platform ?k cs"
  note inv = default_inv [OF assms(1,4)]
  have I: "block_inv header_of 8 ?P s" using inv_parts [OF inv] by blast
  have R: "rounds_left s t \<le> iterations"
    "specific s t = Some a \<longrightarrow> unat ?k \<le> unat (skip_destructor_rounds a) + (iterations - rounds_left s t)" for a
    using inv unfolding memalign.tls_inv_def by (simp_all only: default_platform_def platform.simps) blast+
  have "unat (of_nat iterations :: uptr) = iterations" using assms(3) by (simp add: unat_of_nat)
  moreover have "(of_nat iterations :: uptr) \<noteq> 0" using calculation assms(2) by (metis neq0_conv unat_0)
  ultimately have k: "unat ?k = iterations - 1"
    by (simp add: EMUTLS_SKIP_DESTRUCTOR_ROUNDS_def unat_minus_one)
  from assms(5) show ?thesis
  proof cases
    case (destructor a slot h)
    have d: "emutls_key_destructor emutls_memalign_free a (hp s) = Inr (slot, h)"
      using destructor(5) by (simp add: default_platform_def)
    have le: "rounds_left s t - 1 \<le> unat (skip_destructor_rounds a)" using R(1) mp [OF R(2) destructor(3)] k by linarith
    show ?thesis
    proof (cases "skip_destructor_rounds a = 0")
      case True
      then have D: "slot = None" "live h = live (hp s) |` (- {b. \<exists>x. holds header_of s t x b})"
        using memalign.destructor_block_inv [OF I destructor(3,2) d] by auto
      have "rounds_left s t = 1" using le True destructor(4) by simp
      moreover have "object s' u c = (if u = t then None else object s u c)" for u c
      proof (cases "u = t")
        case True then show ?thesis by (simp add: object_def destructor(1) D)
      next
        case False then show ?thesis using object_cong [of s' u s c] by (simp add: destructor(1))
      qed
      ultimately show ?thesis using True D(2) le destructor(3) by (intro exI [of _ a]) (simp add: destructor(1))
    next
      case False
      then have "0 < skip_destructor_rounds a" by (simp add: word_gt_0)
      then have D: "slot = Some (a\<lparr>skip_destructor_rounds := skip_destructor_rounds a - 1\<rparr>)" "h = hp s"
        using d by (auto simp: emutls_key_destructor_def)
      have "object s' u c = object s u c" for u c
      proof (cases "u = t")
        case True
        then show ?thesis using destructor(3) by (simp add: object_def destructor(1) D split: option.split)
      next
        case False then show ?thesis using object_cong [of s' u s c] by (simp add: destructor(1))
      qed
      then show ?thesis
        using False D le destructor(3) by (intro exI [of _ a]) (simp add: destructor(1) unat_minus_one)
    qed
  qed
qed

text \<open>C33: No fault but abort: in every reachable state the slot of a returned object is inside the thread's array, and a
  destructor round always succeeds, so it neither frees a block that is not live nor reads outside the array.\<close>
theorem emutls_no_bad_access:
  assumes "controls_fine cs" "tls_reachable (default_platform skip cs) iterations s" "specific s t = Some a"
  shows "(pcs s t = Get_object c i \<longrightarrow> emutls_get_object alloc (cs ! c) i a (hp s) \<noteq> Inl Out_of_bounds) \<and>
    (pcs s t = Idle \<longrightarrow> (\<exists>r. emutls_key_destructor emutls_memalign_free a (hp s) = Inr r))"
proof -
  let ?P = "default_platform skip cs"
  have I: "index_inv ?P s" "block_inv header_of 8 ?P s" using inv_parts [OF default_inv [OF assms(1,2)]] by blast+
  have "emutls_get_object alloc (cs ! c) i a (hp s) \<noteq> Inl Out_of_bounds" if "pcs s t = Get_object c i"
  proof -
    have "unat i \<le> length (data a)" using block_invD(6) [OF I(2) that] assms(3) by simp
    moreover have "i \<noteq> 0" using index_inv_at(3) [OF I(1) that] by blast
    ultimately have "unat (i - 1) < length (data a)" by (simp add: unat_minus_one) (metis One_nat_def Suc_pred less_eq_Suc_le unat_gt_0)
    then show ?thesis
      by (auto simp: emutls_get_object_def emutls_allocate_object_def Let_def split: sum.splits option.splits if_splits)
  qed
  moreover have "\<exists>r. emutls_key_destructor emutls_memalign_free a (hp s) = Inr r" if "pcs s t = Idle"
    using memalign.destructor_block_inv [OF I(2) assms(3) that refl refl] by auto
  ultimately show ?thesis by blast
qed

section \<open>A run of one thread\<close>

text \<open>
  One control variable of 4 bytes, an allocator that knows two addresses, and a thread that asks
  for its object once.
\<close>

definition sample_malloc :: malloc where
  "sample_malloc h n = (if fresh h 0x1000 n then 0x1000 else if fresh h 0x2000 n then 0x2000 else 0)"

definition sample_controls :: "control list" where
  "sample_controls = [\<lparr>obj_size = 4, obj_align = 4, obj_value = None\<rparr>]"

abbreviation sample_platform :: "malloc platform" where
  "sample_platform \<equiv> default_platform (EMUTLS_SKIP_DESTRUCTOR_ROUNDS (of_nat 4) Openkal) sample_controls"

definition sample_heap :: heap where
  "sample_heap = \<lparr>live = Map.empty, bytes = (\<lambda>x. 0)\<rparr>"

definition sample_array :: emutls_array where
  "sample_array = \<lparr>array_block = 0x1000, skip_destructor_rounds = 3, array_size = 14, data = replicate 14 0\<rparr>"

definition array_state :: tls where
  "array_state =
     (tls_init 4 sample_heap)\<lparr>emutls_num_object := 1, index_of := (\<lambda>c. 0)(0 := 1), emutls_key_created := True,
       specific := (\<lambda>t. None)(0 \<mapsto> sample_array), hp := allocated 0x1000 128 sample_heap,
       pcs := (\<lambda>t. Idle)(0 := Get_object 0 1)\<rparr>"

lemma sample_controls_fine: "controls_fine sample_controls"
  by (simp add: controls_fine_def sample_controls_def control_fine_def alignment_def)

lemma sample_malloc_ok: "malloc_ok sample_malloc"
  by (simp add: malloc_ok_def sample_malloc_def)

lemma sample_array_step:
  "emutls_get_address_array sample_malloc (\<lambda>h p n. 0) 3 1 None sample_heap = Inr (sample_array, allocated 0x1000 128 sample_heap)"
proof -
  have n: "emutls_new_data_array_size 1 = 14" by (simp add: emutls_new_data_array_size_def)
  have "sample_malloc sample_heap 128 = 0x1000" by (simp add: sample_malloc_def fresh_def sample_heap_def)
  then show ?thesis by (simp add: emutls_get_address_array_def n emutls_asize_def sample_array_def)
qed

lemma array_state_reachable: "tls_reachable sample_platform 4 array_state"
proof -
  let ?P = sample_platform and ?s0 = "tls_init 4 sample_heap"
  have c: "0 < length (controls ?P)" by (simp add: default_platform_def sample_controls_def)
  have k: "skip_rounds ?P = 3" by (simp add: default_platform_def EMUTLS_SKIP_DESTRUCTOR_ROUNDS_def)
  let ?s1 = "?s0\<lparr>pcs := (pcs ?s0)(0 := Load 0)\<rparr>"
  let ?s2 = "?s1\<lparr>pcs := (pcs ?s1)(0 := if index_of ?s1 0 = 0 then Init_once 0 else Get_array 0 (index_of ?s1 0))\<rparr>"
  let ?s3 = "?s2\<lparr>emutls_key_created := True, pcs := (pcs ?s2)(0 := Lock 0)\<rparr>"
  let ?s4 = "?s3\<lparr>emutls_mutex := Some 0, pcs := (pcs ?s3)(0 := Recheck 0)\<rparr>"
  let ?s5 = "?s4\<lparr>pcs := (pcs ?s4)(0 := if index_of ?s4 0 = 0 then Increment 0 else Unlock 0)\<rparr>"
  let ?s6 = "?s5\<lparr>emutls_num_object := emutls_num_object ?s5 + 1, pcs := (pcs ?s5)(0 := Publish 0 (emutls_num_object ?s5 + 1))\<rparr>"
  let ?s7 = "?s6\<lparr>index_of := (index_of ?s6)(0 := 1), pcs := (pcs ?s6)(0 := Unlock 0)\<rparr>"
  let ?s8 = "?s7\<lparr>emutls_mutex := None, pcs := (pcs ?s7)(0 := Get_array 0 (index_of ?s7 0))\<rparr>"
  let ?s9 = "?s8\<lparr>specific := (specific ?s8)(0 \<mapsto> sample_array), hp := allocated 0x1000 128 sample_heap, pcs := (pcs ?s8)(0 := Get_object 0 1)\<rparr>"
  have "tls_reachable ?P 4 ?s0" by (rule tls_reachable.start) (simp add: heap_ok_def sample_heap_def)
  then have "tls_reachable ?P 4 ?s1" by (rule tls_reachable.step) (rule tls_step.call [OF _ c], simp add: tls_init_def)
  then have "tls_reachable ?P 4 ?s2" by (rule tls_reachable.step) (rule tls_step.load, simp)
  then have "tls_reachable ?P 4 ?s3" by (rule tls_reachable.step) (rule tls_step.init_once, simp add: tls_init_def)
  then have "tls_reachable ?P 4 ?s4" by (rule tls_reachable.step) (rule tls_step.lock, simp_all add: tls_init_def)
  then have "tls_reachable ?P 4 ?s5" by (rule tls_reachable.step) (rule tls_step.recheck, simp)
  then have "tls_reachable ?P 4 ?s6" by (rule tls_reachable.step) (rule tls_step.increment, simp add: tls_init_def)
  then have "tls_reachable ?P 4 ?s7" by (rule tls_reachable.step) (rule tls_step.publish, simp add: tls_init_def)
  then have "tls_reachable ?P 4 ?s8" by (rule tls_reachable.step) (rule tls_step.unlock, simp)
  moreover have "tls_step ?P ?s8 Tau ?s9"
    by (rule tls_step.get_array [where m = sample_malloc and re = "\<lambda>h p n. 0"])
      (simp_all only: k, simp_all add: tls_init_def sample_malloc_ok realloc_ok_def sample_array_step)
  ultimately have "tls_reachable ?P 4 ?s9" by (rule tls_reachable.step)
  then show ?thesis by (simp add: array_state_def tls_init_def)
qed

text \<open>What the thread gets: an object at \<open>0x2010\<close>, in a block at \<open>0x2000\<close>.\<close>

definition object_heap :: heap where
  "object_heap = snd (projr (emutls_allocate_object (emutls_memalign_alloc sample_malloc) (hd sample_controls) (hp array_state)))"

definition object_state :: tls where
  "object_state = array_state\<lparr>specific := (specific array_state)(0 \<mapsto> sample_array\<lparr>data := (data sample_array)[0 := 0x2008]\<rparr>),
     hp := object_heap, pcs := (pcs array_state)(0 := Idle)\<rparr>"

lemma sample_object: "emutls_allocate_object (emutls_memalign_alloc sample_malloc) (hd sample_controls) (hp array_state) = Inr (0x2008, object_heap)"
proof -
  have "sample_malloc (allocated 0x1000 128 sample_heap) 19 = 0x2000"
    by (auto simp: sample_malloc_def fresh_def sample_heap_def allocated_def region_def)
  then show ?thesis
    by (simp add: object_heap_def emutls_allocate_object_def emutls_memalign_alloc_def array_state_def sample_controls_def
        EXTRA_ALIGN_PTR_BYTES_def Let_def)
qed

lemma object_step: "tls_step sample_platform array_state (Return 0 0 0x2008) object_state"
proof -
  have "emutls_get_object (emutls_memalign_alloc sample_malloc) (hd sample_controls) 1 sample_array (hp array_state) =
      Inr (0x2008, sample_array\<lparr>data := (data sample_array)[0 := 0x2008]\<rparr>, object_heap)"
    using sample_object by (simp add: emutls_get_object_def sample_array_def)
  then show ?thesis
    unfolding object_state_def
    by (intro tls_step.get_object [where i = 1 and m = sample_malloc and a = sample_array])
      (simp_all add: default_platform_def sample_malloc_ok array_state_def sample_controls_def)
qed

lemma object_state_reachable: "tls_reachable sample_platform 4 object_state"
  by (rule tls_reachable.step [OF array_state_reachable object_step])

lemma object_state_object: "object object_state 0 0 = Some 0x2008"
  by (simp add: object_def object_state_def array_state_def sample_array_def)

theorem emutls_objects_private_witness: "unat (0x2008 :: uptr) mod 8 = 0 \<and> (\<exists>b n. live object_heap b = Some n)"
  using emutls_objects_private [OF sample_controls_fine object_state_reachable object_state_object]
  by (auto simp: object_state_def alignment_def sample_controls_def)

theorem emutls_objects_stable_witness: "map (\<lambda>i. bytes object_heap (0x2008 + of_nat i)) [0, 1, 2, 3] = [0, 0, 0, 0]"
proof -
  have n: "object array_state 0 0 = None" by (simp add: object_def array_state_def sample_array_def)
  have "\<forall>i<unat (obj_size (sample_controls ! 0)).
      bytes (hp object_state) (0x2008 + of_nat i) = initial_image (sample_controls ! 0) i"
    using emutls_objects_stable [OF sample_controls_fine array_state_reachable object_step, THEN conjunct1] n by blast
  then have z: "bytes object_heap (0x2008 + of_nat i) = 0" if "i < 4" for i
    using that by (simp add: object_state_def sample_controls_def initial_image_def)
  show ?thesis using z [of 0] z [of 1] z [of 2] z [of 3] by simp
qed

theorem emutls_freed_in_last_round_witness:
  "\<exists>s'. tls_step sample_platform object_state (Destructor 0) s' \<and> object s' 0 0 = Some 0x2008 \<and> rounds_left s' 0 = 3"
proof -
  let ?a = "sample_array\<lparr>data := (data sample_array)[0 := 0x2008]\<rparr>"
  let ?s = "object_state\<lparr>specific := (specific object_state)(0 := Some (?a\<lparr>skip_destructor_rounds := 2\<rparr>)),
    hp := hp object_state, rounds_left := (rounds_left object_state)(0 := rounds_left object_state 0 - 1)\<rparr>"
  have sp: "specific object_state 0 = Some ?a" by (simp add: object_state_def)
  have "emutls_key_destructor f ?a h = Inr (Some (?a\<lparr>skip_destructor_rounds := 2\<rparr>), h)" for f h
    by (simp add: emutls_key_destructor_def sample_array_def)
  then have st: "tls_step sample_platform object_state (Destructor 0) ?s"
    by (intro tls_step.destructor [OF _ sp]) (simp_all add: object_state_def array_state_def tls_init_def)
  have "\<exists>a. specific object_state 0 = Some a \<and> rounds_left object_state 0 - 1 \<le> unat (skip_destructor_rounds a) \<and>
    rounds_left ?s 0 = rounds_left object_state 0 - 1 \<and>
    (if skip_destructor_rounds a \<noteq> 0
     then hp ?s = hp object_state \<and> (\<forall>u c. object ?s u c = object object_state u c) \<and>
       (\<exists>a'. specific ?s 0 = Some a' \<and> unat (skip_destructor_rounds a') = unat (skip_destructor_rounds a) - 1)
     else rounds_left object_state 0 = 1 \<and> live (hp ?s) = live (hp object_state) |` (- {b. \<exists>x. holds header_of object_state 0 x b}) \<and>
       (\<forall>u c. object ?s u c = (if u = 0 then None else object object_state u c)))"
    by (rule emutls_freed_in_last_round [OF sample_controls_fine _ _ object_state_reachable st]) simp_all
  then have "object ?s 0 0 = Some 0x2008" "rounds_left ?s 0 = 3"
    using sp object_state_object by (auto simp: sample_array_def object_state_def array_state_def tls_init_def)
  then show ?thesis using st by blast
qed

theorem emutls_no_bad_access_witness:
  "emutls_get_object (emutls_memalign_alloc sample_malloc) (sample_controls ! 0) 1 sample_array (hp array_state) \<noteq> Inl Out_of_bounds"
  using emutls_no_bad_access [OF sample_controls_fine array_state_reachable, of 0 sample_array 0 1]
  by (simp add: array_state_def)

end
