(* ===== verification/DwarfMemory.thy ===== *)
theory DwarfMemory
  imports GccPersonality
begin

text \<open>
  \<^verbatim>\<open>libunwind/src/AddressSpace.hpp\<close>: how the unwinder reads the tables of a program, on a target with
  pointers of 64 bits.  \<open>LocalAddressSpace\<close> is the memory of the process, a map from addresses to
  bytes; the accessors that move a \<open>pint_t &addr\<close> return the new address with the value.
  \<open>_LIBUNWIND_ABORT\<close>, a failing assertion and what C++ leaves undefined are faults.
\<close>

unbundle bit_operations_syntax

section \<open>Faults\<close>

datatype dwarf_fault =
    Abort string
  | Assertion
  | Undefined_shift
  | Undefined_division
  | Signed_overflow
  | Stack_bounds
  | Uninitialised
  | Null_access

type_synonym 'a fallible = "dwarf_fault + 'a"

definition bind_ok :: "'a fallible \<Rightarrow> ('a \<Rightarrow> 'b fallible) \<Rightarrow> 'b fallible" where
  "bind_ok r f = (case r of Inl e \<Rightarrow> Inl e | Inr x \<Rightarrow> f x)"

lemma bind_ok_simps [simp]:
  "bind_ok (Inl e) f = Inl e"
  "bind_ok (Inr x) f = f x"
  by (simp_all add: bind_ok_def)

lemma bind_ok_Inr: "bind_ok r f = Inr y \<longleftrightarrow> (\<exists>x. r = Inr x \<and> f x = Inr y)"
  by (cases r) auto

lemma bind_ok_cong [fundef_cong]:
  "r = r' \<Longrightarrow> (\<And>x. r' = Inr x \<Longrightarrow> f x = f' x) \<Longrightarrow> bind_ok r f = bind_ok r' f'"
  by (cases r') auto

section \<open>Fixed-size reads\<close>

type_synonym address_space = "uptr \<Rightarrow> byte"

definition get8 :: "address_space \<Rightarrow> uptr \<Rightarrow> byte" where
  "get8 m addr = m addr"

definition get16 :: "address_space \<Rightarrow> uptr \<Rightarrow> 16 word" where
  "get16 m addr = ucast (load m addr 2)"

definition get32 :: "address_space \<Rightarrow> uptr \<Rightarrow> 32 word" where
  "get32 m addr = ucast (load m addr 4)"

definition get64 :: "address_space \<Rightarrow> uptr \<Rightarrow> 64 word" where
  "get64 m addr = load m addr 8"

definition getP :: "address_space \<Rightarrow> uptr \<Rightarrow> uptr" where
  "getP m addr = get64 m addr"

definition as_getRegister :: "address_space \<Rightarrow> uptr \<Rightarrow> 64 word" where
  "as_getRegister m addr = get64 m addr"

section \<open>Variable-length reads\<close>

function uleb_loop :: "address_space \<Rightarrow> uptr \<Rightarrow> uptr \<Rightarrow> uptr \<Rightarrow> nat \<Rightarrow> (uptr \<times> uptr) fallible" where
  "uleb_loop m pend p result shift =
     (if p = pend then Inl (Abort ''truncated uleb128 expression'')
      else
        let b = ucast (m p AND 0x7F) in
        if 64 \<le> shift \<or> drop_bit shift (push_bit shift b) \<noteq> b then Inl (Abort ''malformed uleb128 expression'')
        else
          let result = result OR push_bit shift b; shift = shift + 7 in
          if 0x80 \<le> m p then uleb_loop m pend (p + 1) result shift else Inr (result, p + 1))"
  by pat_completeness auto
termination by (relation "measure (\<lambda>(m, pend, p, result, shift). 64 - shift)") auto

definition getULEB128 :: "address_space \<Rightarrow> uptr \<Rightarrow> uptr \<Rightarrow> (uptr \<times> uptr) fallible" where
  "getULEB128 m addr pend = uleb_loop m pend addr 0 0"

text \<open>The shift of a digit by 64 or more has no guard here: it is undefined.\<close>

function sleb_loop :: "address_space \<Rightarrow> uptr \<Rightarrow> uptr \<Rightarrow> uptr \<Rightarrow> nat \<Rightarrow> (uptr \<times> uptr) fallible" where
  "sleb_loop m pend p result shift =
     (if p = pend then Inl (Abort ''truncated sleb128 expression'')
      else if 64 \<le> shift then Inl Undefined_shift
      else
        let byte = m p;
            result = result OR push_bit shift (ucast (byte AND 0x7F));
            shift = shift + 7 in
        if byte AND 0x80 \<noteq> 0 then sleb_loop m pend (p + 1) result shift
        else if byte AND 0x40 \<noteq> 0 \<and> shift < 64 then Inr (result OR push_bit shift (- 1), p + 1)
        else Inr (result, p + 1))"
  by pat_completeness auto
termination by (relation "measure (\<lambda>(m, pend, p, result, shift). 64 - shift)") auto

definition getSLEB128 :: "address_space \<Rightarrow> uptr \<Rightarrow> uptr \<Rightarrow> (uptr \<times> uptr) fallible" where
  "getSLEB128 m addr pend = sleb_loop m pend addr 0 0"

declare uleb_loop.simps [simp del] sleb_loop.simps [simp del]

section \<open>Encoded pointers\<close>

definition DW_EH_PE_sleb128 :: byte where "DW_EH_PE_sleb128 = 0x09"
definition DW_EH_PE_textrel :: byte where "DW_EH_PE_textrel = 0x20"
definition DW_EH_PE_datarel :: byte where "DW_EH_PE_datarel = 0x30"
definition DW_EH_PE_funcrel :: byte where "DW_EH_PE_funcrel = 0x40"
definition DW_EH_PE_aligned :: byte where "DW_EH_PE_aligned = 0x50"

lemmas pointer_encodings = DW_EH_PE_defs DW_EH_PE_sleb128_def DW_EH_PE_textrel_def DW_EH_PE_datarel_def
  DW_EH_PE_funcrel_def DW_EH_PE_aligned_def

text \<open>The first switch, on the format: the value and the address behind it.\<close>

definition encoded_format :: "address_space \<Rightarrow> uptr \<Rightarrow> uptr \<Rightarrow> byte \<Rightarrow> (uptr \<times> uptr) fallible" where
  "encoded_format m addr pend encoding =
     (let format = encoding AND 0x0F in
      if format = DW_EH_PE_absptr then Inr (getP m addr, addr + 8)
      else if format = DW_EH_PE_uleb128 then getULEB128 m addr pend
      else if format = DW_EH_PE_udata2 then Inr (ucast (get16 m addr), addr + 2)
      else if format = DW_EH_PE_udata4 then Inr (ucast (get32 m addr), addr + 4)
      else if format = DW_EH_PE_udata8 then Inr (get64 m addr, addr + 8)
      else if format = DW_EH_PE_sleb128 then getSLEB128 m addr pend
      else if format = DW_EH_PE_sdata2 then Inr (scast (get16 m addr), addr + 2)
      else if format = DW_EH_PE_sdata4 then Inr (scast (get32 m addr), addr + 4)
      else if format = DW_EH_PE_sdata8 then Inr (get64 m addr, addr + 8)
      else Inl (Abort ''unknown pointer encoding''))"

text \<open>The second switch, on what the value is relative to.\<close>

definition encoded_base :: "uptr \<Rightarrow> uptr \<Rightarrow> byte \<Rightarrow> uptr fallible" where
  "encoded_base startAddr datarelBase encoding =
     (let relative = encoding AND 0x70 in
      if relative = DW_EH_PE_absptr then Inr 0
      else if relative = DW_EH_PE_pcrel then Inr startAddr
      else if relative = DW_EH_PE_textrel then Inl (Abort ''DW_EH_PE_textrel pointer encoding not supported'')
      else if relative = DW_EH_PE_datarel then
        if datarelBase = 0 then Inl (Abort ''DW_EH_PE_datarel is invalid with a datarelBase of 0'')
        else Inr datarelBase
      else if relative = DW_EH_PE_funcrel then Inl (Abort ''DW_EH_PE_funcrel pointer encoding not supported'')
      else if relative = DW_EH_PE_aligned then Inl (Abort ''DW_EH_PE_aligned pointer encoding not supported'')
      else Inl (Abort ''unknown pointer encoding''))"

text \<open>The result, the address behind the encoding, and \<open>*resultAddr\<close>.\<close>

definition getEncodedP ::
    "address_space \<Rightarrow> uptr \<Rightarrow> uptr \<Rightarrow> byte \<Rightarrow> uptr \<Rightarrow> (uptr \<times> uptr \<times> uptr) fallible" where
  "getEncodedP m addr pend encoding datarelBase =
     bind_ok (encoded_format m addr pend encoding) (\<lambda>(result, p).
     bind_ok (encoded_base addr datarelBase encoding) (\<lambda>base.
       let result = result + base in
       if encoding AND DW_EH_PE_indirect \<noteq> 0 then Inr (getP m result, p, result)
       else Inr (result, p, addr)))"

section \<open>What the variable-length readers decode\<close>

text \<open>The digits of an encoding, and the shape of one: a high shift on every byte but the last.\<close>

fun leb_value :: "byte list \<Rightarrow> nat" where
  "leb_value [] = 0"
| "leb_value (b # bs) = unat (b AND 0x7F) + 128 * leb_value bs"

fun leb_encoding :: "byte list \<Rightarrow> bool" where
  "leb_encoding [] \<longleftrightarrow> False"
| "leb_encoding [b] \<longleftrightarrow> b < 0x80"
| "leb_encoding (b # bs) \<longleftrightarrow> 0x80 \<le> b \<and> leb_encoding bs"

definition sleb_value :: "byte list \<Rightarrow> int" where
  "sleb_value bs = int (leb_value bs) - (if last bs AND 0x40 \<noteq> 0 then 128 ^ length bs else 0)"

lemma leb_encoding_Cons: "leb_encoding (b # bs) \<longleftrightarrow> (if bs = [] then b < 0x80 else 0x80 \<le> b \<and> leb_encoding bs)"
  by (cases bs) auto

lemma digit_less: "unat (b AND 0x7F) < 128" for b :: byte
proof -
  have "unat (b AND 0x7F) \<le> unat (0x7F :: byte)" by (rule word_le_nat_alt [THEN iffD1, OF word_and_le1])
  then show ?thesis by simp
qed

lemma or_digit:
  assumes "r < 2 ^ shift"
  shows "(of_nat r :: uptr) OR push_bit shift (of_nat b) = of_nat (r + b * 2 ^ shift)"
proof -
  have "\<not> bit r i" if "shift \<le> i" for i
    using assms that by (metis bit_iff_odd div_less even_zero order_less_le_trans power_increasing one_le_numeral)
  then have "\<not> bit (of_nat r :: uptr) i \<or> \<not> bit (push_bit shift (of_nat b) :: uptr) i" for i
    by (cases "i < shift") (auto simp: bit_word_of_nat bit_push_bit_iff)
  then show ?thesis by (simp add: disjunctive_add [symmetric] push_bit_eq_mult)
qed

lemma digit_fits:
  "b < 128 \<Longrightarrow> shift < 64 \<Longrightarrow> drop_bit shift (push_bit shift (of_nat b :: uptr)) = of_nat b \<longleftrightarrow> b * 2 ^ shift < 2 ^ 64"
proof -
  assume a: "b < 128" "shift < 64"
  have "unat (drop_bit shift (push_bit shift (of_nat b :: uptr))) = (b * 2 ^ shift) mod 2 ^ 64 div 2 ^ shift"
  proof -
    have "push_bit shift (of_nat b) = (of_nat (b * 2 ^ shift) :: uptr)" by (simp add: push_bit_eq_mult)
    then show ?thesis
      by (simp only: unat_drop_bit_eq unat_of_nat drop_bit_eq_div [where 'a = nat] mod_div_trivial) simp
  qed
  moreover have "unat (of_nat b :: uptr) = b" using a by (simp add: unat_of_nat)
  moreover have "(b * 2 ^ shift) mod 2 ^ 64 div 2 ^ shift = b \<longleftrightarrow> b * 2 ^ shift < 2 ^ 64"
  proof
    assume e: "(b * 2 ^ shift) mod 2 ^ 64 div 2 ^ shift = b"
    have "b * 2 ^ shift = (b * 2 ^ shift) mod 2 ^ 64 div 2 ^ shift * 2 ^ shift" using e by simp
    also have "\<dots> \<le> (b * 2 ^ shift) mod 2 ^ 64" by (rule div_times_less_eq_dividend)
    also have "\<dots> < 2 ^ 64" by simp
    finally show "b * 2 ^ shift < 2 ^ 64" .
  qed simp
  ultimately show ?thesis by (simp add: word_unat_eq_iff)
qed

lemma ucast_digit64: "(ucast (b AND 0x7F) :: uptr) = of_nat (unat (b AND 0x7F))" for b :: byte
  by simp

lemma bytes_at_nth: "bytes_at m p bs \<Longrightarrow> i < length bs \<Longrightarrow> m (p + of_nat i) = bs ! i"
  by (simp add: bytes_at_def)

lemma window_step:
  "n < unat (pend - p) \<Longrightarrow> p \<noteq> pend \<and> n \<le> unat (pend - (p + 1))" for p :: uptr
proof -
  assume a: "n < unat (pend - p)"
  then have "pend - p \<noteq> 0" by auto
  then have "unat (pend - p - 1) = unat (pend - p) - 1" by (rule unat_minus_one)
  then show ?thesis using a by (auto simp: diff_diff_eq)
qed

lemma leb_value_bound: "leb_value bs < 128 ^ length bs"
proof (induction bs)
  case (Cons b bs)
  then show ?case using digit_less [of b] by simp
qed simp

text \<open>The loop of the unsigned reader, entered with the digits below \<open>shift\<close> read.\<close>

lemma uleb_loop_decodes:
  assumes "bytes_at m p bs" "leb_encoding bs" "length bs \<le> unat (pend - p)" "r < 2 ^ shift"
  shows "uleb_loop m pend p (of_nat r) shift =
    (if shift + 7 * (length bs - 1) < 64 \<and> r + leb_value bs * 2 ^ shift < 2 ^ 64
     then Inr (of_nat (r + leb_value bs * 2 ^ shift), p + of_nat (length bs))
     else Inl (Abort ''malformed uleb128 expression''))"
  using assms
proof (induction bs arbitrary: p r shift)
  case (Cons b bs)
  define d where "d = unat (b AND 0x7F)"
  have d: "d < 128" "ucast (b AND 0x7F) = (of_nat d :: uptr)" by (simp_all add: d_def digit_less)
  have mp: "m p = b" "bytes_at m (p + 1) bs" using Cons.prems(1) by simp_all
  have p: "p \<noteq> pend" "length bs \<le> unat (pend - (p + 1))"
    using window_step [of "length bs" pend p] Cons.prems(3) by auto
  note step = uleb_loop.simps [of m pend p "of_nat r" shift, unfolded mp(1) d(2) Let_def]
  show ?case
  proof (cases "shift < 64 \<and> d * 2 ^ shift < 2 ^ 64")
    case False
    then have "64 \<le> shift \<or> drop_bit shift (push_bit shift (of_nat d)) \<noteq> (of_nat d :: uptr)"
      using digit_fits [OF d(1), of shift] by auto
    moreover have "d * 2 ^ shift \<le> r + leb_value (b # bs) * 2 ^ shift"
      by (simp add: d_def [symmetric] distrib_right)
    ultimately show ?thesis using False p(1) step by auto
  next
    case True
    have ok: "\<not> (64 \<le> shift \<or> drop_bit shift (push_bit shift (of_nat d)) \<noteq> (of_nat d :: uptr))"
      using True digit_fits [OF d(1), of shift] by auto
    have r: "r + d * 2 ^ shift < 2 ^ (shift + 7)"
    proof -
      have "d * 2 ^ shift \<le> 127 * 2 ^ shift" using d(1) by (intro mult_le_mono1) simp
      then have "r + d * 2 ^ shift < 128 * 2 ^ shift" using Cons.prems(4) by linarith
      then show ?thesis by (simp add: power_add mult.commute)
    qed
    have split: "r + leb_value (b # bs) * 2 ^ shift = r + d * 2 ^ shift + leb_value bs * 2 ^ (shift + 7)"
      by (simp add: d_def distrib_right power_add)
    show ?thesis
    proof (cases "bs = []")
      case True
      have "r + d * 2 ^ shift < 2 ^ 64"
      proof -
        have "(2::nat) ^ 64 = 2 ^ (64 - shift) * 2 ^ shift" using \<open>shift < 64 \<and> _\<close> by (simp flip: power_add)
        then have "d < 2 ^ (64 - shift)" using \<open>shift < 64 \<and> _\<close> by (metis mult_less_cancel2)
        then have "Suc d * 2 ^ shift \<le> 2 ^ (64 - shift) * 2 ^ shift" by (intro mult_le_mono1) simp
        then show ?thesis using Cons.prems(4) \<open>2 ^ 64 = _\<close> by simp
      qed
      moreover have "\<not> 0x80 \<le> b" using Cons.prems(2) True by simp
      ultimately show ?thesis
        using step ok p(1) True Cons.prems(4) \<open>shift < 64 \<and> _\<close> or_digit [of r shift d]
        by (simp add: d_def [symmetric])
    next
      case False
      then have b: "0x80 \<le> b" "leb_encoding bs" using Cons.prems(2) by (auto simp: leb_encoding_Cons)
      have "uleb_loop m pend p (of_nat r) shift = uleb_loop m pend (p + 1) (of_nat (r + d * 2 ^ shift)) (shift + 7)"
        using step ok p(1) b(1) or_digit [OF Cons.prems(4), of d] by simp
      also have "\<dots> = (if shift + 7 + 7 * (length bs - 1) < 64 \<and> r + leb_value (b # bs) * 2 ^ shift < 2 ^ 64
         then Inr (of_nat (r + leb_value (b # bs) * 2 ^ shift), p + 1 + of_nat (length bs))
         else Inl (Abort ''malformed uleb128 expression''))"
        unfolding split using Cons.IH [OF mp(2) b(2) p(2) r] .
      also have "shift + 7 + 7 * (length bs - 1) = shift + 7 * (length (b # bs) - 1)"
        using False by (cases bs) simp_all
      finally show ?thesis by (simp add: add.assoc)
    qed
  qed
qed simp

text \<open>The signed reader: the same digits, and the sign of the last one.\<close>

lemma sleb_value_Cons:
  "bs \<noteq> [] \<Longrightarrow> sleb_value (b # bs) = int (unat (b AND 0x7F)) + 128 * sleb_value bs"
  by (simp add: sleb_value_def algebra_simps)

lemma or_sign:
  assumes "r < 2 ^ n" "n < 64"
  shows "(of_nat r :: uptr) OR push_bit n (- 1) = word_of_int (int r - 2 ^ n)"
proof -
  have "\<not> bit r i" if "n \<le> i" for i
    using assms(1) that by (metis bit_iff_odd div_less even_zero order_less_le_trans power_increasing one_le_numeral)
  then have "\<not> bit (of_nat r :: uptr) i \<or> \<not> bit (push_bit n (- 1) :: uptr) i" for i
    by (cases "i < n") (auto simp: bit_word_of_nat bit_simps)
  then have "(of_nat r :: uptr) OR push_bit n (- 1) = of_nat r + push_bit n (- 1)"
    by (simp add: disjunctive_add)
  then show ?thesis by (simp add: push_bit_eq_mult)
qed

lemma sleb_high: "b AND 0x80 \<noteq> 0 \<longleftrightarrow> 0x80 \<le> b" for b :: byte
  using and_top_bit [where m = 7 and b = b] unsigned_less [of b] by (simp add: word_le_nat_alt)

lemma or_digit_wrap:
  "(r :: uptr) OR push_bit shift (of_nat b) = of_nat (unat r + b * 2 ^ shift)" if "unat r < 2 ^ shift"
  using or_digit [OF that, of b] by simp

lemma sleb_loop_decodes:
  assumes "bytes_at m p bs" "leb_encoding bs" "length bs \<le> unat (pend - p)" "r < 2 ^ shift"
  shows "sleb_loop m pend p (of_nat r) shift =
    (if shift + 7 * (length bs - 1) < 64
     then Inr (word_of_int (int r + sleb_value bs * 2 ^ shift), p + of_nat (length bs))
     else Inl Undefined_shift)"
  using assms
proof (induction bs arbitrary: p r shift)
  case (Cons b bs)
  define d where "d = unat (b AND 0x7F)"
  have d: "d < 128" "ucast (b AND 0x7F) = (of_nat d :: uptr)" by (simp_all add: d_def digit_less)
  have mp: "m p = b" "bytes_at m (p + 1) bs" using Cons.prems(1) by simp_all
  have p: "p \<noteq> pend" "length bs \<le> unat (pend - (p + 1))"
    using window_step [of "length bs" pend p] Cons.prems(3) by auto
  note step = sleb_loop.simps [of m pend p "of_nat r" shift, unfolded mp(1) d(2) Let_def sleb_high]
  show ?case
  proof (cases "shift < 64")
    case False
    then show ?thesis using step p(1) by simp
  next
    case True
    have r: "r + d * 2 ^ shift < 2 ^ (shift + 7)"
    proof -
      have "d * 2 ^ shift \<le> 127 * 2 ^ shift" using d(1) by (intro mult_le_mono1) simp
      then have "r + d * 2 ^ shift < 128 * 2 ^ shift" using Cons.prems(4) by linarith
      then show ?thesis by (simp add: power_add mult.commute)
    qed
    show ?thesis
    proof (cases "bs = []")
      case True
      let ?s = "b AND 0x40 \<noteq> 0"
      have v: "int r + sleb_value [b] * 2 ^ shift = int (r + d * 2 ^ shift) - (if ?s then 2 ^ (shift + 7) else 0)"
        by (simp add: sleb_value_def d_def power_add algebra_simps)
      have "word_of_int (2 ^ (shift + 7)) = (0 :: uptr)" if "64 \<le> shift + 7"
        using that by (simp add: exp_eq_zero_iff)
      then have "(if ?s \<and> shift + 7 < 64 then of_nat (r + d * 2 ^ shift) OR push_bit (shift + 7) (- 1)
          else of_nat (r + d * 2 ^ shift)) = (word_of_int (int r + sleb_value [b] * 2 ^ shift) :: uptr)"
        unfolding v using or_sign [OF r] by (simp add: not_less)
      then show ?thesis
        using step p(1) True Cons.prems(2) \<open>shift < 64\<close> or_digit [OF Cons.prems(4), of d]
        by (auto simp: not_le)
    next
      case False
      then have b: "0x80 \<le> b" "leb_encoding bs" using Cons.prems(2) by (auto simp: leb_encoding_Cons)
      have split: "int r + sleb_value (b # bs) * 2 ^ shift = int (r + d * 2 ^ shift) + sleb_value bs * 2 ^ (shift + 7)"
        using sleb_value_Cons [OF False, of b] by (simp add: d_def power_add algebra_simps)
      have "sleb_loop m pend p (of_nat r) shift = sleb_loop m pend (p + 1) (of_nat (r + d * 2 ^ shift)) (shift + 7)"
        using step p(1) b(1) \<open>shift < 64\<close> or_digit [OF Cons.prems(4), of d] by simp
      also have "\<dots> = (if shift + 7 + 7 * (length bs - 1) < 64
         then Inr (word_of_int (int r + sleb_value (b # bs) * 2 ^ shift), p + 1 + of_nat (length bs))
         else Inl Undefined_shift)"
        unfolding split using Cons.IH [OF mp(2) b(2) p(2) r] .
      also have "shift + 7 + 7 * (length bs - 1) = shift + 7 * (length (b # bs) - 1)"
        using False by (cases bs) simp_all
      finally show ?thesis by (simp add: add.assoc)
    qed
  qed
qed simp

text \<open>An encoding that reaches the end of the table.\<close>

lemma uleb_loop_truncated:
  assumes "\<forall>i<unat (pend - p). 0x80 \<le> m (p + of_nat i)" "shift + 7 * unat (pend - p) < 64"
  shows "uleb_loop m pend p result shift = Inl (Abort ''truncated uleb128 expression'')"
  using assms
proof (induction m pend p result shift rule: uleb_loop.induct)
  case (1 m pend p result shift)
  show ?case
  proof (cases "p = pend")
    case True
    then show ?thesis by (simp add: uleb_loop.simps)
  next
    case False
    then have n: "unat (pend - p) = Suc (unat (pend - (p + 1)))"
      using unat_minus_one [of "pend - p"] by (simp add: diff_diff_eq unat_gt_0)
    note all = 1(2) [unfolded n, rule_format]
    have b: "0x80 \<le> m p" using all [of 0] by simp
    have rest: "\<forall>i<unat (pend - (p + 1)). 0x80 \<le> m (p + 1 + of_nat i)"
    proof (intro allI impI)
      fix i assume "i < unat (pend - (p + 1))"
      then show "0x80 \<le> m (p + 1 + of_nat i)" using all [of "Suc i"] by (simp add: add.assoc)
    qed
    have "unat (m p AND 0x7F) * 2 ^ shift < 2 ^ (shift + 7)" using digit_less [of "m p"] by (simp add: power_add)
    also have "(2::nat) ^ (shift + 7) \<le> 2 ^ 64" using 1(3) n by (intro power_increasing) auto
    finally have "drop_bit shift (push_bit shift (of_nat (unat (m p AND 0x7F)) :: uptr)) = of_nat (unat (m p AND 0x7F))"
      using digit_fits [OF digit_less [of "m p"], of shift] 1(3) n by simp
    then have ok: "\<not> (64 \<le> shift \<or> drop_bit shift (push_bit shift (ucast (m p AND 0x7F) :: uptr)) \<noteq> ucast (m p AND 0x7F))"
      using 1(3) n by simp
    show ?thesis
      using 1(1) [OF False refl ok refl refl b rest] 1(3) n False ok b
      by (subst uleb_loop.simps) simp
  qed
qed

lemma sleb_loop_truncated:
  assumes "\<forall>i<unat (pend - p). 0x80 \<le> m (p + of_nat i)" "shift + 7 * unat (pend - p) < 71"
  shows "sleb_loop m pend p result shift = Inl (Abort ''truncated sleb128 expression'')"
  using assms
proof (induction m pend p result shift rule: sleb_loop.induct)
  case (1 m pend p result shift)
  show ?case
  proof (cases "p = pend")
    case True
    then show ?thesis by (simp add: sleb_loop.simps)
  next
    case False
    then have n: "unat (pend - p) = Suc (unat (pend - (p + 1)))"
      using unat_minus_one [of "pend - p"] by (simp add: diff_diff_eq unat_gt_0)
    note all = 1(2) [unfolded n, rule_format]
    have b: "0x80 \<le> m p" using all [of 0] by simp
    have rest: "\<forall>i<unat (pend - (p + 1)). 0x80 \<le> m (p + 1 + of_nat i)"
    proof (intro allI impI)
      fix i assume "i < unat (pend - (p + 1))"
      then show "0x80 \<le> m (p + 1 + of_nat i)" using all [of "Suc i"] by (simp add: add.assoc)
    qed
    show ?thesis
      using 1(1) [OF False _ refl refl refl _ rest] 1(3) n False b
      by (subst sleb_loop.simps) (simp add: sleb_high Let_def)
  qed
qed

text \<open>C29: what the readers of variable-length numbers do with an encoding that lies before the end of its table: the
  unsigned one returns the number and the address behind it when the encoding has at most ten bytes and the number fits
  64 bits, and aborts otherwise; the signed one returns the number modulo 2 to the 64 when there are at most ten bytes,
  and shifts by 64 or more, which is undefined, when there are more.  A table that ends within an encoding is
  an abort.\<close>
theorem leb128_decoding:
  "(bytes_at m p bs \<and> leb_encoding bs \<and> length bs \<le> unat (pend - p) \<longrightarrow>
     getULEB128 m p pend =
       (if length bs \<le> 10 \<and> leb_value bs < 2 ^ 64 then Inr (of_nat (leb_value bs), p + of_nat (length bs))
        else Inl (Abort ''malformed uleb128 expression'')) \<and>
     getSLEB128 m p pend =
       (if length bs \<le> 10 then Inr (word_of_int (sleb_value bs), p + of_nat (length bs)) else Inl Undefined_shift)) \<and>
   ((\<forall>i<unat (pend - p). 0x80 \<le> m (p + of_nat i)) \<and> unat (pend - p) < 10 \<longrightarrow>
     getULEB128 m p pend = Inl (Abort ''truncated uleb128 expression'') \<and>
     getSLEB128 m p pend = Inl (Abort ''truncated sleb128 expression''))"
proof (intro conjI impI)
  assume a: "bytes_at m p bs \<and> leb_encoding bs \<and> length bs \<le> unat (pend - p)"
  then have "0 < length bs" by (cases bs) auto
  then have n: "7 * (length bs - 1) < 64 \<longleftrightarrow> length bs \<le> 10" by arith
  show "getULEB128 m p pend =
       (if length bs \<le> 10 \<and> leb_value bs < 2 ^ 64 then Inr (of_nat (leb_value bs), p + of_nat (length bs))
        else Inl (Abort ''malformed uleb128 expression''))"
    using uleb_loop_decodes [of m p bs pend 0 0] a n by (simp add: getULEB128_def)
  show "getSLEB128 m p pend =
       (if length bs \<le> 10 then Inr (word_of_int (sleb_value bs), p + of_nat (length bs)) else Inl Undefined_shift)"
    using sleb_loop_decodes [of m p bs pend 0 0] a n by (simp add: getSLEB128_def)
next
  assume "(\<forall>i<unat (pend - p). 0x80 \<le> m (p + of_nat i)) \<and> unat (pend - p) < 10"
  then show "getULEB128 m p pend = Inl (Abort ''truncated uleb128 expression'')"
    and "getSLEB128 m p pend = Inl (Abort ''truncated sleb128 expression'')"
    using uleb_loop_truncated [of pend p m 0 0] sleb_loop_truncated [of pend p m 0 0]
    by (simp_all add: getULEB128_def getSLEB128_def)
qed

theorem leb128_decoding_witness:
  "getULEB128 ((\<lambda>a. 0)(8 := 0xE5, 9 := 0x8E, 10 := 0x26)) 8 16 = Inr (624485, 11) \<and>
   getSLEB128 ((\<lambda>a. 0)(8 := 0x80, 9 := 0x7F)) 8 16 = Inr (- 128, 10) \<and>
   getULEB128 (\<lambda>a. 0x80) 8 9 = Inl (Abort ''truncated uleb128 expression'')"
  using leb128_decoding [of "(\<lambda>a. 0)(8 := 0xE5, 9 := 0x8E, 10 := 0x26)" 8 "[0xE5, 0x8E, 0x26]" 16]
    leb128_decoding [of "(\<lambda>a. 0)(8 := 0x80, 9 := 0x7F)" 8 "[0x80, 0x7F]" 16]
    leb128_decoding [of "\<lambda>a. 0x80" 8 "[]" 9]
  by (simp add: sleb_value_def)

section \<open>What the reader of encoded pointers decodes\<close>

text \<open>The encoders the readers invert: of unsigned numbers (\<open>uleb128\<close>), of signed ones, of fixed-size ones.\<close>

function sleb128 :: "int \<Rightarrow> byte list" where
  "sleb128 i =
     (if - 64 \<le> i \<and> i < 64 then [word_of_int (i mod 128)] else word_of_int (i mod 128 + 128) # sleb128 (i div 128))"
  by pat_completeness auto
termination by (relation "measure (\<lambda>i. nat \<bar>i\<bar>)") (auto simp: abs_if)

declare sleb128.simps [simp del]

fun le_bytes :: "nat \<Rightarrow> uptr \<Rightarrow> byte list" where
  "le_bytes 0 v = []"
| "le_bytes (Suc n) v = ucast v # le_bytes n (drop_bit 8 v)"

lemma le_bytes_unfold:
  "le_bytes 2 v = [ucast v, ucast (drop_bit 8 v)]"
  "le_bytes 4 v = [ucast v, ucast (drop_bit 8 v), ucast (drop_bit 16 v), ucast (drop_bit 24 v)]"
  by (simp_all add: numeral_eq_Suc)

lemma length_le_bytes [simp]: "length (le_bytes n v) = n"
  by (induction n arbitrary: v) simp_all

lemma load_le_bytes: "bytes_at m p (le_bytes n v) \<Longrightarrow> load m p n = take_bit (8 * n) v"
proof (induction n arbitrary: p v)
  case (Suc n)
  then have "m p = ucast v" "load m (p + 1) n = take_bit (8 * n) (drop_bit 8 v)" by simp_all
  then show ?case
    by (simp, intro bit_word_eqI) (auto simp: bit_simps not_less)
qed simp

definition encode_value :: "byte \<Rightarrow> uptr \<Rightarrow> byte list option" where
  "encode_value format v =
     (if format = 0x0 \<or> format = 0x4 \<or> format = 0xC then Some (le_bytes 8 v)
      else if format = 0x1 then Some (uleb128 (unat v))
      else if format = 0x9 then Some (sleb128 (sint v))
      else if format = 0x2 \<and> unat v < 2 ^ 16 then Some (le_bytes 2 v)
      else if format = 0x3 \<and> unat v < 2 ^ 32 then Some (le_bytes 4 v)
      else if format = 0xA \<and> - (2 ^ 15) \<le> sint v \<and> sint v < 2 ^ 15 then Some (le_bytes 2 v)
      else if format = 0xB \<and> - (2 ^ 31) \<le> sint v \<and> sint v < 2 ^ 31 then Some (le_bytes 4 v)
      else None)"

text \<open>What a relative value is relative to, by the three bits of the encoding: nothing, the place of the value, or a base
  of the data, which has to be given.  The other relations are not supported.\<close>

definition value_base :: "byte \<Rightarrow> uptr \<Rightarrow> uptr \<Rightarrow> uptr option" where
  "value_base encoding p datarelBase =
     (if encoding AND 0x70 = 0 then Some 0
      else if encoding AND 0x70 = 0x10 then Some p
      else if encoding AND 0x70 = 0x30 \<and> datarelBase \<noteq> 0 then Some datarelBase
      else None)"

lemma leb_value_uleb128 [simp]: "leb_value (uleb128 n) = n"
proof (induction n rule: uleb128.induct)
  case (1 n)
  show ?case
  proof (cases "n < 128")
    case True
    then show ?thesis by (simp add: uleb128.simps [of n] uleb_low7 unat_of_nat)
  next
    case False
    have "(of_nat (n mod 128 + 128) :: byte) AND 0x7F = of_nat (n mod 128)"
      using uleb_low7 [of "n mod 128 + 128"] by simp
    then show ?thesis using 1 False by (simp add: uleb128.simps [of n] unat_of_nat del: of_nat_add)
  qed
qed

lemma leb_encoding_uleb128 [simp]: "leb_encoding (uleb128 n)"
proof (induction n rule: uleb128.induct)
  case (1 n)
  have "uleb128 k \<noteq> []" for k by (simp add: uleb128.simps)
  then show ?case
    using 1 by (auto simp: uleb128.simps [of n] leb_encoding_Cons word_less_nat_alt word_le_nat_alt unat_of_nat simp del: of_nat_add)
qed

lemma length_uleb128: "n < 128 ^ Suc k \<Longrightarrow> length (uleb128 n) \<le> Suc k"
proof (induction k arbitrary: n)
  case (Suc k)
  then show ?case by (cases "n < 128") (simp_all add: uleb128.simps [of n] less_mult_imp_div_less)
qed (simp add: uleb128.simps)

lemma getULEB128_uleb128:
  assumes "bytes_at m p (uleb128 n)" "n < 2 ^ 64" "length (uleb128 n) \<le> unat (pend - p)"
  shows "getULEB128 m p pend = Inr (of_nat n, p + of_nat (length (uleb128 n)))"
proof -
  have "n < 128 ^ Suc 9" using assms(2) by (rule less_trans) simp
  then have "length (uleb128 n) \<le> 10" using length_uleb128 [of n 9] by simp
  then show ?thesis using uleb_loop_decodes [OF assms(1) leb_encoding_uleb128 assms(3), of 0 0] assms(2)
    by (simp add: getULEB128_def)
qed

lemma word_digit: "0 \<le> d \<Longrightarrow> d < 256 \<Longrightarrow> (word_of_int d :: byte) = of_nat (nat d)"
  by simp

lemma sleb128_nonempty [simp]: "sleb128 i \<noteq> []"
  by (simp add: sleb128.simps)

lemma leb_encoding_sleb128 [simp]: "leb_encoding (sleb128 i)"
proof (induction i rule: sleb128.induct)
  case (1 i)
  have "(word_of_int (i mod 128) :: byte) < 0x80"
    using pos_mod_bound [of 128 i] pos_mod_sign [of 128 i] by (simp add: word_less_alt uint_word_of_int)
  moreover have "(0x80 :: byte) \<le> word_of_int (i mod 128 + 128)"
    using pos_mod_bound [of 128 i] pos_mod_sign [of 128 i] by (simp add: word_le_def uint_word_of_int del: of_int_add)
  ultimately show ?case using 1 by (auto simp: sleb128.simps [of i] leb_encoding_Cons simp del: of_int_add)
qed

lemma sleb_value_sleb128 [simp]: "sleb_value (sleb128 i) = i"
proof (induction i rule: sleb128.induct)
  case (1 i)
  obtain d where d: "i mod 128 = int d" "d < 128"
    using pos_mod_bound [of 128 i] pos_mod_sign [of 128 i] zero_le_imp_eq_int by fastforce
  show ?case
  proof (cases "- 64 \<le> i \<and> i < 64")
    case True
    have "unat ((of_nat d :: byte) AND 0x7F) = d" using d(2) by (simp only: uleb_low7) (simp add: unat_of_nat)
    then have "uint ((of_nat d :: byte) AND 0x7F) = int d" by (simp only: uint_nat)
    moreover have "(of_nat d :: byte) AND 0x40 \<noteq> 0 \<longleftrightarrow> 64 \<le> d"
      using and_top_bit [where m = 6 and b = "of_nat d :: byte"] d(2) by (simp add: unat_of_nat)
    ultimately have "sleb_value [of_nat d] = int d - (if 64 \<le> d then 128 else 0)" by (simp add: sleb_value_def)
    moreover have "int d = (if i < 0 then i + 128 else i)"
      using True unfolding d(1) [symmetric] by presburger
    ultimately have "sleb_value [of_nat d] = i" using True by (auto split: if_splits)
    then show ?thesis
      using True unfolding sleb128.simps [of i] d(1) by (simp only: of_int_of_nat_eq) simp
  next
    case False
    have w: "(word_of_int (int d + 128) :: byte) = of_nat (d + 128)" by simp
    have "unat ((of_nat (d + 128) :: byte) AND 0x7F) = d"
      using d(2) by (simp only: uleb_low7) (simp add: unat_of_nat)
    then have "sleb_value (sleb128 i) = int d + 128 * (i div 128)"
      using 1 [OF False] unfolding sleb128.simps [of i] if_not_P [OF False] d(1) w
      by (simp add: sleb_value_Cons del: of_nat_add)
    then show ?thesis using d(1) mod_mult_div_eq [of i 128] by simp
  qed
qed

lemma length_sleb128: "- 64 * 128 ^ k \<le> i \<Longrightarrow> i < 64 * 128 ^ k \<Longrightarrow> length (sleb128 i) \<le> Suc k"
proof (induction k arbitrary: i)
  case (Suc k)
  have "- 64 * 128 ^ k \<le> i div 128" "i div 128 < 64 * 128 ^ k" using Suc.prems by auto
  then show ?case using Suc.IH by (cases "- 64 \<le> i \<and> i < 64") (simp_all add: sleb128.simps [of i])
qed (simp add: sleb128.simps)

lemma getSLEB128_sleb128:
  assumes "bytes_at m p (sleb128 i)" "- (2 ^ 63) \<le> i" "i < 2 ^ 63" "length (sleb128 i) \<le> unat (pend - p)"
  shows "getSLEB128 m p pend = Inr (word_of_int i, p + of_nat (length (sleb128 i)))"
proof -
  have "- 64 * 128 ^ 9 \<le> i" "i < 64 * 128 ^ 9" using assms(2,3) by simp_all
  then have "length (sleb128 i) \<le> 10" using length_sleb128 [of 9 i] by simp
  then show ?thesis using sleb_loop_decodes [OF assms(1) leb_encoding_sleb128 assms(4), of 0 0]
    by (simp add: getSLEB128_def)
qed

lemma sint_ucast: "sint (ucast v :: 'a::len word) = signed_take_bit (LENGTH('a) - 1) (sint v)"
  if "LENGTH('a) < 64" for v :: uptr
  by (rule bit_eqI) (use that in \<open>auto simp: bit_simps bit_sint_iff min_def\<close>)

lemma get16_le: "bytes_at m p (le_bytes 2 v) \<Longrightarrow> get16 m p = ucast v"
  unfolding get16_def by (drule load_le_bytes) (auto simp: bit_simps intro: bit_word_eqI)

lemma get32_le: "bytes_at m p (le_bytes 4 v) \<Longrightarrow> get32 m p = ucast v"
  unfolding get32_def by (drule load_le_bytes) (auto simp: bit_simps intro: bit_word_eqI)

lemma get64_le: "bytes_at m p (le_bytes 8 v) \<Longrightarrow> get64 m p = v"
  unfolding get64_def by (drule load_le_bytes) (auto simp: bit_simps intro: bit_word_eqI)

lemma scast_ucast:
  "LENGTH('a) < 64 \<Longrightarrow> - (2 ^ (LENGTH('a) - 1)) \<le> sint v \<Longrightarrow> sint v < 2 ^ (LENGTH('a) - 1) \<Longrightarrow>
    scast (ucast v :: 'a::len word) = v" for v :: uptr
  by (simp add: scast_eq sint_ucast signed_take_bit_int_eq_self)

lemma ucast_ucast_low:
  "unat v < 2 ^ LENGTH('a) \<Longrightarrow> LENGTH('a) \<le> 64 \<Longrightarrow> ucast (ucast v :: 'a::len word) = v" for v :: uptr
  by (simp add: word_unat_eq_iff unsigned_ucast_eq unsigned_take_bit_eq take_bit_eq_mod [where 'a = nat])

lemma encoded_format_encode:
  assumes "encode_value (encoding AND 0x0F) v = Some bs" "bytes_at m p bs" "length bs \<le> unat (pend - p)"
  shows "encoded_format m p pend encoding = Inr (v, p + of_nat (length bs))"
  using assms getULEB128_uleb128 [of m p "unat v" pend] getSLEB128_sleb128 [of m p "sint v" pend]
    sint_range_size [of v] unsigned_less [of v]
  by (auto simp: encode_value_def encoded_format_def Let_def getP_def get16_le get32_le get64_le
      scast_ucast ucast_ucast_low pointer_encodings size_word_def word_of_int_uint split: if_splits)

lemma encoded_base_named:
  "case value_base encoding p datarelBase of
     None \<Rightarrow> \<exists>message. encoded_base p datarelBase encoding = Inl (Abort message)
   | Some base \<Rightarrow> encoded_base p datarelBase encoding = Inr base"
  by (simp add: value_base_def encoded_base_def pointer_encodings Let_def)

text \<open>C30: the reader of encoded pointers inverts every encoding it supports.  A value is stored in a format that holds it, before
  the end of the table; the encoding makes it relative to nothing, to its own place or to the base of the data that
  the caller gives.  Then the sum of the value and that base is read, or for an indirect encoding the word stored there, with
  the address behind the value.  An encoding that names another base, or the base of the data where none is given, aborts.\<close>
theorem encoded_pointer_roundtrip:
  assumes "encode_value (encoding AND 0x0F) v = Some bs" "bytes_at m p bs" "length bs \<le> unat (pend - p)"
  shows "case value_base encoding p datarelBase of
      None \<Rightarrow> \<exists>message. getEncodedP m p pend encoding datarelBase = Inl (Abort message)
    | Some base \<Rightarrow> \<forall>target. v = target - base \<longrightarrow> getEncodedP m p pend encoding datarelBase =
        Inr (if encoding AND 0x80 \<noteq> 0 then (getP m target, p + of_nat (length bs), target)
             else (target, p + of_nat (length bs), p))"
  using encoded_format_encode [OF assms] encoded_base_named [where encoding = encoding and p = p and datarelBase = datarelBase]
  by (auto simp: getEncodedP_def Let_def DW_EH_PE_indirect_def split: option.splits)

text \<open>A difference of minus 16 in four bytes: from its place, from a base of the data, and from no base.\<close>

theorem encoded_pointer_roundtrip_witness:
  "let m = (\<lambda>a. 0)(0x1000 := 0xF0, 0x1001 := 0xFF, 0x1002 := 0xFF, 0x1003 := 0xFF, 0x2FF0 := 0x34, 0x2FF1 := 0x12) in
   getEncodedP m 0x1000 0x1010 0x1B 0 = Inr (0xFF0, 0x1004, 0x1000) \<and>
   getEncodedP m 0x1000 0x1010 0x3B 0x3000 = Inr (0x2FF0, 0x1004, 0x1000) \<and>
   getEncodedP m 0x1000 0x1010 0xBB 0x3000 = Inr (0x1234, 0x1004, 0x2FF0) \<and>
   (\<exists>message. getEncodedP m 0x1000 0x1010 0x3B 0 = Inl (Abort message))"
proof -
  let ?m = "(\<lambda>a. 0)(0x1000 := 0xF0, 0x1001 := 0xFF, 0x1002 := 0xFF, 0x1003 := 0xFF, 0x2FF0 := 0x34, 0x2FF1 := 0x12) :: address_space"
  have v: "encode_value 0xB (- 0x10) = Some [0xF0, 0xFF, 0xFF, 0xFF]"
    by (simp add: encode_value_def le_bytes_unfold)
  have at: "bytes_at ?m 0x1000 [0xF0, 0xFF, 0xFF, 0xFF]" "length [0xF0, 0xFF, 0xFF, 0xFF :: byte] \<le> unat (0x1010 - 0x1000 :: uptr)"
    by simp_all
  have "getP ?m 0x2FF0 = 0x1234" by code_simp
  then show ?thesis
    using encoded_pointer_roundtrip [OF _ at, where encoding = "0x1B" and v = "- 0x10" and datarelBase = 0]
      encoded_pointer_roundtrip [OF _ at, where encoding = "0x3B" and v = "- 0x10" and datarelBase = "0x3000"]
      encoded_pointer_roundtrip [OF _ at, where encoding = "0xBB" and v = "- 0x10" and datarelBase = "0x3000"]
      encoded_pointer_roundtrip [OF _ at, where encoding = "0x3B" and v = "- 0x10" and datarelBase = 0] v
    by (simp add: value_base_def)
qed

end
