(* ===== verification/DwarfExpr.thy ===== *)
theory DwarfExpr
  imports DwarfMemory "HOL-Library.Signed_Division"
begin

text \<open>
  \<open>DwarfInstructions::evaluateExpression\<close> of \<^verbatim>\<open>libunwind/src/DwarfInstructions.hpp\<close>, the machine that computes
  addresses and values described by DWARF expressions, with the opcodes of \<^verbatim>\<open>dwarf2.h\<close>.  The stack is
  the array of 100 cells and the pointer \<open>sp\<close> of the code, the pointer an index that may leave the array:
  an access outside it and the read of a cell never written are faults.  The switch is split into one
  definition per group of opcodes.  The registers are the function \<open>getRegister\<close>.
\<close>

unbundle bit_operations_syntax

section \<open>The stack\<close>

record machine =
  pos :: uptr
  cells :: "uptr option list"
  top :: int

text \<open>\<open>sp[d]\<close>, read and written.\<close>

definition peek :: "int \<Rightarrow> machine \<Rightarrow> uptr fallible" where
  "peek d s =
     (let k = top s + d in
      if 0 \<le> k \<and> k < 100 then (case cells s ! nat k of None \<Rightarrow> Inl Uninitialised | Some v \<Rightarrow> Inr v)
      else Inl Stack_bounds)"

definition poke :: "int \<Rightarrow> uptr \<Rightarrow> machine \<Rightarrow> machine fallible" where
  "poke d v s =
     (let k = top s + d in
      if 0 \<le> k \<and> k < 100 then Inr (s\<lparr>cells := (cells s)[nat k := Some v]\<rparr>) else Inl Stack_bounds)"

text \<open>\<open>*(++sp) = v\<close> and \<open>*sp--\<close>.\<close>

definition push :: "uptr \<Rightarrow> machine \<Rightarrow> machine fallible" where
  "push v s = poke 0 v (s\<lparr>top := top s + 1\<rparr>)"

definition pop :: "machine \<Rightarrow> (uptr \<times> machine) fallible" where
  "pop s = bind_ok (peek 0 s) (\<lambda>v. Inr (v, s\<lparr>top := top s - 1\<rparr>))"

definition advance :: "uptr \<Rightarrow> machine \<Rightarrow> machine" where
  "advance n s = s\<lparr>pos := pos s + n\<rparr>"

text \<open>The result of signed arithmetic, which C++ defines only within the range of \<open>sint_t\<close>.\<close>

definition signed_result :: "int \<Rightarrow> uptr fallible" where
  "signed_result r = (if - (2 ^ 63) \<le> r \<and> r < 2 ^ 63 then Inr (word_of_int r) else Inl Signed_overflow)"

section \<open>Opcodes\<close>

definition DW_OP_addr :: byte where "DW_OP_addr = 0x03"
definition DW_OP_deref :: byte where "DW_OP_deref = 0x06"
definition DW_OP_const1u :: byte where "DW_OP_const1u = 0x08"
definition DW_OP_const1s :: byte where "DW_OP_const1s = 0x09"
definition DW_OP_const2u :: byte where "DW_OP_const2u = 0x0A"
definition DW_OP_const2s :: byte where "DW_OP_const2s = 0x0B"
definition DW_OP_const4u :: byte where "DW_OP_const4u = 0x0C"
definition DW_OP_const4s :: byte where "DW_OP_const4s = 0x0D"
definition DW_OP_const8u :: byte where "DW_OP_const8u = 0x0E"
definition DW_OP_const8s :: byte where "DW_OP_const8s = 0x0F"
definition DW_OP_constu :: byte where "DW_OP_constu = 0x10"
definition DW_OP_consts :: byte where "DW_OP_consts = 0x11"
definition DW_OP_dup :: byte where "DW_OP_dup = 0x12"
definition DW_OP_drop :: byte where "DW_OP_drop = 0x13"
definition DW_OP_over :: byte where "DW_OP_over = 0x14"
definition DW_OP_pick :: byte where "DW_OP_pick = 0x15"
definition DW_OP_swap :: byte where "DW_OP_swap = 0x16"
definition DW_OP_rot :: byte where "DW_OP_rot = 0x17"
definition DW_OP_xderef :: byte where "DW_OP_xderef = 0x18"
definition DW_OP_abs :: byte where "DW_OP_abs = 0x19"
definition DW_OP_and :: byte where "DW_OP_and = 0x1A"
definition DW_OP_div :: byte where "DW_OP_div = 0x1B"
definition DW_OP_minus :: byte where "DW_OP_minus = 0x1C"
definition DW_OP_mod :: byte where "DW_OP_mod = 0x1D"
definition DW_OP_mul :: byte where "DW_OP_mul = 0x1E"
definition DW_OP_neg :: byte where "DW_OP_neg = 0x1F"
definition DW_OP_not :: byte where "DW_OP_not = 0x20"
definition DW_OP_or :: byte where "DW_OP_or = 0x21"
definition DW_OP_plus :: byte where "DW_OP_plus = 0x22"
definition DW_OP_plus_uconst :: byte where "DW_OP_plus_uconst = 0x23"
definition DW_OP_shl :: byte where "DW_OP_shl = 0x24"
definition DW_OP_shr :: byte where "DW_OP_shr = 0x25"
definition DW_OP_shra :: byte where "DW_OP_shra = 0x26"
definition DW_OP_xor :: byte where "DW_OP_xor = 0x27"
definition DW_OP_skip :: byte where "DW_OP_skip = 0x2F"
definition DW_OP_bra :: byte where "DW_OP_bra = 0x28"
definition DW_OP_eq :: byte where "DW_OP_eq = 0x29"
definition DW_OP_ge :: byte where "DW_OP_ge = 0x2A"
definition DW_OP_gt :: byte where "DW_OP_gt = 0x2B"
definition DW_OP_le :: byte where "DW_OP_le = 0x2C"
definition DW_OP_lt :: byte where "DW_OP_lt = 0x2D"
definition DW_OP_ne :: byte where "DW_OP_ne = 0x2E"
definition DW_OP_lit0 :: byte where "DW_OP_lit0 = 0x30"
definition DW_OP_reg0 :: byte where "DW_OP_reg0 = 0x50"
definition DW_OP_breg0 :: byte where "DW_OP_breg0 = 0x70"
definition DW_OP_regx :: byte where "DW_OP_regx = 0x90"
definition DW_OP_fbreg :: byte where "DW_OP_fbreg = 0x91"
definition DW_OP_bregx :: byte where "DW_OP_bregx = 0x92"
definition DW_OP_piece :: byte where "DW_OP_piece = 0x93"
definition DW_OP_deref_size :: byte where "DW_OP_deref_size = 0x94"

lemmas opcodes =
  DW_OP_addr_def DW_OP_deref_def DW_OP_const1u_def DW_OP_const1s_def DW_OP_const2u_def DW_OP_const2s_def
  DW_OP_const4u_def DW_OP_const4s_def DW_OP_const8u_def DW_OP_const8s_def DW_OP_constu_def DW_OP_consts_def
  DW_OP_dup_def DW_OP_drop_def DW_OP_over_def DW_OP_pick_def DW_OP_swap_def DW_OP_rot_def DW_OP_xderef_def
  DW_OP_abs_def DW_OP_and_def DW_OP_div_def DW_OP_minus_def DW_OP_mod_def DW_OP_mul_def DW_OP_neg_def
  DW_OP_not_def DW_OP_or_def DW_OP_plus_def DW_OP_plus_uconst_def DW_OP_shl_def DW_OP_shr_def DW_OP_shra_def
  DW_OP_xor_def DW_OP_skip_def DW_OP_bra_def DW_OP_eq_def DW_OP_ge_def DW_OP_gt_def DW_OP_le_def DW_OP_lt_def
  DW_OP_ne_def DW_OP_lit0_def DW_OP_reg0_def DW_OP_breg0_def DW_OP_regx_def DW_OP_fbreg_def DW_OP_bregx_def
  DW_OP_piece_def DW_OP_deref_size_def

section \<open>The switch\<close>

text \<open>Addresses and constants.\<close>

definition op_constant :: "address_space \<Rightarrow> uptr \<Rightarrow> byte \<Rightarrow> machine \<Rightarrow> machine fallible" where
  "op_constant m expressionEnd opcode s =
     (let p = pos s in
      if opcode = DW_OP_addr then push (getP m p) (advance 8 s)
      else if opcode = DW_OP_deref then bind_ok (pop s) (\<lambda>(value, s). push (getP m value) s)
      else if opcode = DW_OP_const1u then push (ucast (get8 m p)) (advance 1 s)
      else if opcode = DW_OP_const1s then push (scast (get8 m p)) (advance 1 s)
      else if opcode = DW_OP_const2u then push (ucast (get16 m p)) (advance 2 s)
      else if opcode = DW_OP_const2s then push (scast (get16 m p)) (advance 2 s)
      else if opcode = DW_OP_const4u then push (ucast (get32 m p)) (advance 4 s)
      else if opcode = DW_OP_const4s then push (scast (get32 m p)) (advance 4 s)
      else if opcode = DW_OP_const8u then push (get64 m p) (advance 8 s)
      else if opcode = DW_OP_const8s then push (get64 m p) (advance 8 s)
      else if opcode = DW_OP_constu then bind_ok (getULEB128 m p expressionEnd) (\<lambda>(value, p). push value (s\<lparr>pos := p\<rparr>))
      else if opcode = DW_OP_consts then bind_ok (getSLEB128 m p expressionEnd) (\<lambda>(value, p). push value (s\<lparr>pos := p\<rparr>))
      else Inl (Abort ''DWARF opcode not implemented''))"

text \<open>Movements on the stack.\<close>

definition op_stack :: "address_space \<Rightarrow> byte \<Rightarrow> machine \<Rightarrow> machine fallible" where
  "op_stack m opcode s =
     (if opcode = DW_OP_dup then bind_ok (peek 0 s) (\<lambda>value. push value s)
      else if opcode = DW_OP_drop then Inr (s\<lparr>top := top s - 1\<rparr>)
      else if opcode = DW_OP_over then bind_ok (peek (- 1) s) (\<lambda>value. push value s)
      else if opcode = DW_OP_pick then
        (let reg = get8 m (pos s); s = advance 1 s in
         bind_ok (peek (- int (unat reg)) s) (\<lambda>value. push value s))
      else if opcode = DW_OP_swap then
        bind_ok (peek 0 s) (\<lambda>value. bind_ok (peek (- 1) s) (\<lambda>second.
        bind_ok (poke 0 second s) (poke (- 1) value)))
      else if opcode = DW_OP_rot then
        bind_ok (peek 0 s) (\<lambda>value. bind_ok (peek (- 1) s) (\<lambda>second. bind_ok (peek (- 2) s) (\<lambda>third.
        bind_ok (poke 0 second s) (\<lambda>s. bind_ok (poke (- 1) third s) (poke (- 2) value)))))
      else if opcode = DW_OP_xderef then
        bind_ok (pop s) (\<lambda>(value, s). poke 0 (getP m value) s)
      else Inl (Abort ''DWARF opcode not implemented''))"

text \<open>The operators on two operands, \<open>value\<close> the one popped and \<open>second\<close> the one below it.\<close>

definition binary_operator :: "byte \<Rightarrow> uptr \<Rightarrow> uptr \<Rightarrow> uptr fallible" where
  "binary_operator opcode second value =
     (if opcode = DW_OP_and then Inr (second AND value)
      else if opcode = DW_OP_div then
        (if value = 0 then Inl Undefined_division else signed_result (sint second sdiv sint value))
      else if opcode = DW_OP_minus then Inr (second - value)
      else if opcode = DW_OP_mod then
        (if value = 0 then Inl Undefined_division
         else if sint value = - 1 \<and> sint second = - (2 ^ 63) then Inl Signed_overflow
         else Inr (word_of_int (sint second smod sint value)))
      else if opcode = DW_OP_mul then signed_result (sint second * sint value)
      else if opcode = DW_OP_or then Inr (second OR value)
      else if opcode = DW_OP_plus then Inr (second + value)
      else if opcode = DW_OP_shl then if value < 64 then Inr (push_bit (unat value) second) else Inl Undefined_shift
      else if opcode = DW_OP_shr then if value < 64 then Inr (drop_bit (unat value) second) else Inl Undefined_shift
      else if opcode = DW_OP_shra then
        if value < 64 then Inr (signed_drop_bit (unat value) second) else Inl Undefined_shift
      else if opcode = DW_OP_xor then Inr (second XOR value)
      else Inl (Abort ''DWARF opcode not implemented''))"

definition op_arithmetic :: "address_space \<Rightarrow> uptr \<Rightarrow> byte \<Rightarrow> machine \<Rightarrow> machine fallible" where
  "op_arithmetic m expressionEnd opcode s =
     (if opcode = DW_OP_abs then
        bind_ok (peek 0 s) (\<lambda>value.
          if sint value < 0 then bind_ok (signed_result (- sint value)) (\<lambda>value. poke 0 value s) else Inr s)
      else if opcode = DW_OP_neg then bind_ok (peek 0 s) (\<lambda>value. poke 0 (0 - value) s)
      else if opcode = DW_OP_not then bind_ok (peek 0 s) (\<lambda>value. poke 0 (NOT value) s)
      else if opcode = DW_OP_plus_uconst then
        bind_ok (peek 0 s) (\<lambda>value. bind_ok (getULEB128 m (pos s) expressionEnd) (\<lambda>(addend, p).
        poke 0 (value + addend) (s\<lparr>pos := p\<rparr>)))
      else
        bind_ok (pop s) (\<lambda>(value, s). bind_ok (peek 0 s) (\<lambda>second.
        bind_ok (binary_operator opcode second value) (\<lambda>result. poke 0 result s))))"

text \<open>Jumps and comparisons.\<close>

definition jump :: "machine \<Rightarrow> 16 word \<Rightarrow> machine fallible" where
  "jump s svalue = bind_ok (signed_result (sint (pos s) + sint svalue)) (\<lambda>p. Inr (s\<lparr>pos := p\<rparr>))"

definition comparison :: "byte \<Rightarrow> uptr \<Rightarrow> uptr \<Rightarrow> bool" where
  "comparison opcode second value =
     (if opcode = DW_OP_eq then second = value
      else if opcode = DW_OP_ge then second \<ge> value
      else if opcode = DW_OP_gt then second > value
      else if opcode = DW_OP_le then second \<le> value
      else if opcode = DW_OP_lt then second < value
      else second \<noteq> value)"

definition op_control :: "address_space \<Rightarrow> byte \<Rightarrow> machine \<Rightarrow> machine fallible" where
  "op_control m opcode s =
     (if opcode = DW_OP_skip then (let svalue = get16 m (pos s) in jump (advance 2 s) svalue)
      else if opcode = DW_OP_bra then
        (let svalue = get16 m (pos s) in
         bind_ok (pop (advance 2 s)) (\<lambda>(value, s). if value \<noteq> 0 then jump s svalue else Inr s))
      else
        bind_ok (pop s) (\<lambda>(value, s). bind_ok (peek 0 s) (\<lambda>second.
        poke 0 (of_bool (comparison opcode second value)) s)))"

text \<open>Literals and registers.\<close>

definition op_register ::
    "address_space \<Rightarrow> (int \<Rightarrow> uptr fallible) \<Rightarrow> uptr \<Rightarrow> byte \<Rightarrow> machine \<Rightarrow> machine fallible" where
  "op_register m getRegister expressionEnd opcode s =
     (if opcode < DW_OP_reg0 then push (ucast (opcode - DW_OP_lit0)) s
      else if opcode < DW_OP_breg0 then
        bind_ok (getRegister (uint (opcode - DW_OP_reg0))) (\<lambda>value. push value s)
      else if opcode = DW_OP_regx then
        bind_ok (getULEB128 m (pos s) expressionEnd) (\<lambda>(reg, p).
        bind_ok (getRegister (sint (ucast reg :: 32 word))) (\<lambda>value. push value (s\<lparr>pos := p\<rparr>)))
      else if opcode < DW_OP_regx then
        bind_ok (getSLEB128 m (pos s) expressionEnd) (\<lambda>(offset, p).
        bind_ok (getRegister (uint (opcode - DW_OP_breg0))) (\<lambda>value.
        bind_ok (signed_result (sint offset + sint value)) (\<lambda>result. push result (s\<lparr>pos := p\<rparr>))))
      else if opcode = DW_OP_bregx then
        bind_ok (getULEB128 m (pos s) expressionEnd) (\<lambda>(reg, p).
        bind_ok (getSLEB128 m p expressionEnd) (\<lambda>(offset, p).
        bind_ok (getRegister (sint (ucast reg :: 32 word))) (\<lambda>value.
        bind_ok (signed_result (sint offset + sint value)) (\<lambda>result. push result (s\<lparr>pos := p\<rparr>)))))
      else if opcode = DW_OP_fbreg then Inl (Abort ''DW_OP_fbreg not implemented'')
      else Inl (Abort ''DW_OP_piece not implemented''))"

definition op_deref_size :: "address_space \<Rightarrow> machine \<Rightarrow> machine fallible" where
  "op_deref_size m s =
     bind_ok (pop s) (\<lambda>(value, s).
       let size = get8 m (pos s); s = advance 1 s in
       if size = 1 then push (ucast (get8 m value)) s
       else if size = 2 then push (ucast (get16 m value)) s
       else if size = 4 then push (ucast (get32 m value)) s
       else if size = 8 then push (get64 m value) s
       else Inl (Abort ''DW_OP_deref_size with bad size''))"

text \<open>One turn of the loop: the opcodes of one group are contiguous.\<close>

definition expr_step :: "address_space \<Rightarrow> (int \<Rightarrow> uptr fallible) \<Rightarrow> uptr \<Rightarrow> machine \<Rightarrow> machine fallible" where
  "expr_step m getRegister expressionEnd s =
     (let opcode = get8 m (pos s); s = advance 1 s in
      if opcode < DW_OP_dup then op_constant m expressionEnd opcode s
      else if opcode < DW_OP_abs then op_stack m opcode s
      else if opcode < DW_OP_bra then op_arithmetic m expressionEnd opcode s
      else if opcode < DW_OP_lit0 then op_control m opcode s
      else if opcode < DW_OP_deref_size then op_register m getRegister expressionEnd opcode s
      else if opcode = DW_OP_deref_size then op_deref_size m s
      else Inl (Abort ''DWARF opcode not implemented''))"

partial_function (option) expr_loop ::
    "address_space \<Rightarrow> (int \<Rightarrow> uptr fallible) \<Rightarrow> uptr \<Rightarrow> machine \<Rightarrow> uptr fallible option" where
  "expr_loop m getRegister expressionEnd s =
     (if pos s < expressionEnd then
        (case expr_step m getRegister expressionEnd s of
           Inl e \<Rightarrow> Some (Inl e)
         | Inr s' \<Rightarrow> expr_loop m getRegister expressionEnd s')
      else Some (peek 0 s))"

definition initial_machine :: "uptr \<Rightarrow> machine" where
  "initial_machine p = \<lparr>pos = p, cells = replicate 100 None, top = 0\<rparr>"

definition evaluateExpression ::
    "address_space \<Rightarrow> (int \<Rightarrow> uptr fallible) \<Rightarrow> uptr \<Rightarrow> uptr \<Rightarrow> uptr fallible option" where
  "evaluateExpression m getRegister expression initialStackValue =
     (case getULEB128 m expression (expression + 20) of
        Inl e \<Rightarrow> Some (Inl e)
      | Inr (len, p) \<Rightarrow>
          (case push initialStackValue (initial_machine p) of
             Inl e \<Rightarrow> Some (Inl e)
           | Inr s \<Rightarrow> expr_loop m getRegister (p + len) s))"

end
