(* ===== verification/DwarfExprSpec.thy ===== *)
theory DwarfExprSpec
  imports DwarfExpr
begin

text \<open>
  What \<open>evaluateExpression\<close> computes.  A DWARF expression without jumps is a list of instructions; its meaning is
  given on a stack that is a list, and its encoding is the bytes an assembler emits.  The machine on
  bytes and cells refines that meaning as long as the stack stays within the 99 cells the code has for it.  Below: when
  evaluation ends, and what the missing bounds checks allow.
\<close>

unbundle bit_operations_syntax

section \<open>Instructions and their meaning\<close>

datatype instr =
    Addr uptr
  | Const1u byte | Const1s byte | Const2u "16 word" | Const2s "16 word"
  | Const4u "32 word" | Const4s "32 word" | Const8u uptr | Const8s uptr | Constu uptr | Consts uptr
  | Lit nat
  | Reg nat | Regx nat | Breg nat uptr | Bregx nat uptr
  | Deref | Xderef | Deref_size byte
  | Dup | Drop | Over | Pick byte | Swap | Rot
  | Abs_value | Negate | Complement | Plus_uconst uptr
  | Binary byte
  | Compare byte

definition binary_opcodes :: "byte set" where
  "binary_opcodes = {DW_OP_and, DW_OP_div, DW_OP_minus, DW_OP_mod, DW_OP_mul, DW_OP_or, DW_OP_plus, DW_OP_shl,
     DW_OP_shr, DW_OP_shra, DW_OP_xor}"

definition comparison_opcodes :: "byte set" where
  "comparison_opcodes = {DW_OP_eq, DW_OP_ge, DW_OP_gt, DW_OP_le, DW_OP_lt, DW_OP_ne}"

fun well_formed :: "instr \<Rightarrow> bool" where
  "well_formed (Lit n) \<longleftrightarrow> n < 32"
| "well_formed (Reg n) \<longleftrightarrow> n < 32"
| "well_formed (Breg n _) \<longleftrightarrow> n < 32"
| "well_formed (Regx n) \<longleftrightarrow> n < 2 ^ 31"
| "well_formed (Bregx n _) \<longleftrightarrow> n < 2 ^ 31"
| "well_formed (Deref_size n) \<longleftrightarrow> n = 1 \<or> n = 2 \<or> n = 4 \<or> n = 8"
| "well_formed (Binary opcode) \<longleftrightarrow> opcode \<in> binary_opcodes"
| "well_formed (Compare opcode) \<longleftrightarrow> opcode \<in> comparison_opcodes"
| "well_formed _ \<longleftrightarrow> True"

text \<open>The value an instruction that only pushes pushes.\<close>

definition based :: "(int \<Rightarrow> uptr fallible) \<Rightarrow> nat \<Rightarrow> uptr \<Rightarrow> uptr fallible" where
  "based getRegister n offset =
     bind_ok (getRegister (int n)) (\<lambda>value. signed_result (sint offset + sint value))"

definition sized_load :: "address_space \<Rightarrow> byte \<Rightarrow> uptr \<Rightarrow> uptr" where
  "sized_load m n a =
     (if n = 1 then ucast (get8 m a) else if n = 2 then ucast (get16 m a)
      else if n = 4 then ucast (get32 m a) else get64 m a)"

text \<open>The meaning, on a stack whose head is the top; an operand that is missing is a fault.\<close>

fun exec :: "address_space \<Rightarrow> (int \<Rightarrow> uptr fallible) \<Rightarrow> instr \<Rightarrow> uptr list \<Rightarrow> uptr list fallible" where
  "exec m getReg (Addr v) xs = Inr (v # xs)"
| "exec m getReg (Const1u v) xs = Inr (ucast v # xs)"
| "exec m getReg (Const1s v) xs = Inr (scast v # xs)"
| "exec m getReg (Const2u v) xs = Inr (ucast v # xs)"
| "exec m getReg (Const2s v) xs = Inr (scast v # xs)"
| "exec m getReg (Const4u v) xs = Inr (ucast v # xs)"
| "exec m getReg (Const4s v) xs = Inr (scast v # xs)"
| "exec m getReg (Const8u v) xs = Inr (v # xs)"
| "exec m getReg (Const8s v) xs = Inr (v # xs)"
| "exec m getReg (Constu v) xs = Inr (v # xs)"
| "exec m getReg (Consts v) xs = Inr (v # xs)"
| "exec m getReg (Lit n) xs = Inr (of_nat n # xs)"
| "exec m getReg (Reg n) xs = bind_ok (getReg (int n)) (\<lambda>v. Inr (v # xs))"
| "exec m getReg (Regx n) xs = bind_ok (getReg (int n)) (\<lambda>v. Inr (v # xs))"
| "exec m getReg (Breg n offset) xs = bind_ok (based getReg n offset) (\<lambda>v. Inr (v # xs))"
| "exec m getReg (Bregx n offset) xs = bind_ok (based getReg n offset) (\<lambda>v. Inr (v # xs))"
| "exec m getReg Deref (x # xs) = Inr (getP m x # xs)"
| "exec m getReg Xderef (x # y # xs) = Inr (getP m x # xs)"
| "exec m getReg (Deref_size n) (x # xs) = Inr (sized_load m n x # xs)"
| "exec m getReg Dup (x # xs) = Inr (x # x # xs)"
| "exec m getReg Drop (x # xs) = Inr xs"
| "exec m getReg Over (x # y # xs) = Inr (y # x # y # xs)"
| "exec m getReg (Pick n) xs = (if unat n < length xs then Inr (xs ! unat n # xs) else Inl Stack_bounds)"
| "exec m getReg Swap (x # y # xs) = Inr (y # x # xs)"
| "exec m getReg Rot (x # y # z # xs) = Inr (y # z # x # xs)"
| "exec m getReg Abs_value (x # xs) =
     (if sint x < 0 then bind_ok (signed_result (- sint x)) (\<lambda>v. Inr (v # xs)) else Inr (x # xs))"
| "exec m getReg Negate (x # xs) = Inr ((- x) # xs)"
| "exec m getReg Complement (x # xs) = Inr ((NOT x) # xs)"
| "exec m getReg (Plus_uconst v) (x # xs) = Inr ((x + v) # xs)"
| "exec m getReg (Binary opcode) (x # y # xs) = bind_ok (binary_operator opcode y x) (\<lambda>v. Inr (v # xs))"
| "exec m getReg (Compare opcode) (x # y # xs) = Inr (of_bool (comparison opcode y x) # xs)"
| "exec m getReg _ xs = Inl Stack_bounds"

text \<open>A program, within a stack of 99 values.\<close>

fun run_code :: "address_space \<Rightarrow> (int \<Rightarrow> uptr fallible) \<Rightarrow> instr list \<Rightarrow> uptr list \<Rightarrow> uptr list fallible" where
  "run_code m getReg [] xs = Inr xs"
| "run_code m getReg (i # is) xs =
     bind_ok (exec m getReg i xs) (\<lambda>ys. if length ys < 100 then run_code m getReg is ys else Inl Stack_bounds)"

text \<open>The assembler.\<close>

fun instr_bytes :: "instr \<Rightarrow> byte list" where
  "instr_bytes (Addr v) = DW_OP_addr # le_bytes 8 v"
| "instr_bytes (Const1u v) = [DW_OP_const1u, v]"
| "instr_bytes (Const1s v) = [DW_OP_const1s, v]"
| "instr_bytes (Const2u v) = DW_OP_const2u # le_bytes 2 (ucast v)"
| "instr_bytes (Const2s v) = DW_OP_const2s # le_bytes 2 (ucast v)"
| "instr_bytes (Const4u v) = DW_OP_const4u # le_bytes 4 (ucast v)"
| "instr_bytes (Const4s v) = DW_OP_const4s # le_bytes 4 (ucast v)"
| "instr_bytes (Const8u v) = DW_OP_const8u # le_bytes 8 v"
| "instr_bytes (Const8s v) = DW_OP_const8s # le_bytes 8 v"
| "instr_bytes (Constu v) = DW_OP_constu # uleb128 (unat v)"
| "instr_bytes (Consts v) = DW_OP_consts # sleb128 (sint v)"
| "instr_bytes (Lit n) = [DW_OP_lit0 + of_nat n]"
| "instr_bytes (Reg n) = [DW_OP_reg0 + of_nat n]"
| "instr_bytes (Regx n) = DW_OP_regx # uleb128 n"
| "instr_bytes (Breg n offset) = (DW_OP_breg0 + of_nat n) # sleb128 (sint offset)"
| "instr_bytes (Bregx n offset) = DW_OP_bregx # uleb128 n @ sleb128 (sint offset)"
| "instr_bytes Deref = [DW_OP_deref]"
| "instr_bytes Xderef = [DW_OP_xderef]"
| "instr_bytes (Deref_size n) = [DW_OP_deref_size, n]"
| "instr_bytes Dup = [DW_OP_dup]"
| "instr_bytes Drop = [DW_OP_drop]"
| "instr_bytes Over = [DW_OP_over]"
| "instr_bytes (Pick n) = [DW_OP_pick, n]"
| "instr_bytes Swap = [DW_OP_swap]"
| "instr_bytes Rot = [DW_OP_rot]"
| "instr_bytes Abs_value = [DW_OP_abs]"
| "instr_bytes Negate = [DW_OP_neg]"
| "instr_bytes Complement = [DW_OP_not]"
| "instr_bytes (Plus_uconst v) = DW_OP_plus_uconst # uleb128 (unat v)"
| "instr_bytes (Binary opcode) = [opcode]"
| "instr_bytes (Compare opcode) = [opcode]"

definition code_bytes :: "instr list \<Rightarrow> byte list" where
  "code_bytes is = concat (map instr_bytes is)"

section \<open>The array holds the list\<close>

definition holds_stack :: "machine \<Rightarrow> uptr list \<Rightarrow> bool" where
  "holds_stack s xs \<longleftrightarrow> length (cells s) = 100 \<and> length xs < 100 \<and> top s = int (length xs) \<and>
     (\<forall>i<length xs. cells s ! (length xs - i) = Some (xs ! i))"

lemma peek_holds:
  "holds_stack s xs \<Longrightarrow> n < length xs \<Longrightarrow> d = - int n \<Longrightarrow> peek d s = Inr (xs ! n)"
  by (auto simp: holds_stack_def peek_def Let_def nat_diff_distrib of_nat_diff [symmetric] simp del: of_nat_diff)

lemma holds_advance [simp]: "holds_stack (advance n s) xs \<longleftrightarrow> holds_stack s xs"
  by (simp add: holds_stack_def advance_def)

lemma holds_pos [simp]: "holds_stack (s\<lparr>pos := p\<rparr>) xs \<longleftrightarrow> holds_stack s xs"
  by (simp add: holds_stack_def)

lemma pos_advance [simp]: "pos (advance n s) = pos s + n"
  by (simp add: advance_def)

lemma push_holds:
  "holds_stack s xs \<Longrightarrow> length xs < 99 \<Longrightarrow> \<exists>s'. push v s = Inr s' \<and> pos s' = pos s \<and> holds_stack s' (v # xs)"
  by (auto simp: holds_stack_def push_def poke_def Let_def nth_Cons nth_list_update nat_add_distrib split: nat.split)

lemma drop_holds: "holds_stack s (x # xs) \<Longrightarrow> holds_stack (s\<lparr>top := top s - 1\<rparr>) xs"
  unfolding holds_stack_def by (auto simp del: nth_Cons_Suc)

lemma pop_holds:
  "holds_stack s (x # xs) \<Longrightarrow> \<exists>s'. pop s = Inr (x, s') \<and> pos s' = pos s \<and> holds_stack s' xs"
  using peek_holds [of s "x # xs" 0 0] drop_holds [of s x xs] by (auto simp: pop_def)

lemma poke_holds:
  "holds_stack s xs \<Longrightarrow> n < length xs \<Longrightarrow> d = - int n \<Longrightarrow>
     \<exists>s'. poke d v s = Inr s' \<and> pos s' = pos s \<and> holds_stack s' (xs[n := v])"
  by (auto simp: holds_stack_def poke_def Let_def nth_list_update of_nat_diff [symmetric] simp del: of_nat_diff)

section \<open>The machine refines the meaning\<close>

text \<open>A result of the machine against one of the meaning: the same fault, unless the stack is the reason; otherwise the
  position \<open>p\<close> and the same stack, if it fits.\<close>

definition simulates :: "machine fallible \<Rightarrow> uptr \<Rightarrow> uptr list fallible \<Rightarrow> bool" where
  "simulates r p res \<longleftrightarrow>
     (case res of
        Inl e \<Rightarrow> e = Stack_bounds \<or> r = Inl e
      | Inr ys \<Rightarrow> length ys < 100 \<longrightarrow> (\<exists>s'. r = Inr s' \<and> pos s' = p \<and> holds_stack s' ys))"

named_theorems sim

lemma sim_missing [simp]: "simulates r p (Inl Stack_bounds)"
  by (simp add: simulates_def)

lemma sim_fault [simp]: "simulates (Inl e) p (Inl e)"
  by (simp add: simulates_def)

lemma sim_done [sim]: "holds_stack s xs \<Longrightarrow> pos s = p \<Longrightarrow> simulates (Inr s) p (Inr xs)"
  by (simp add: simulates_def)

lemma sim_push [sim]: "holds_stack s xs \<Longrightarrow> pos s = p \<Longrightarrow> simulates (push v s) p (Inr (v # xs))"
  using push_holds [of s xs v] by (auto simp: simulates_def)

lemma sim_bind [sim]: "(\<And>x. r = Inr x \<Longrightarrow> simulates (f x) p (g x)) \<Longrightarrow> simulates (bind_ok r f) p (bind_ok r g)"
  by (cases r) auto

lemma sim_pop [sim]:
  "holds_stack s (x # xs) \<Longrightarrow> (\<And>s'. pos s' = pos s \<Longrightarrow> holds_stack s' xs \<Longrightarrow> simulates (f (x, s')) p res) \<Longrightarrow>
     simulates (bind_ok (pop s) f) p res"
  using pop_holds [of s x xs] by auto

lemma peek_bind:
  "holds_stack s xs \<Longrightarrow> n < length xs \<Longrightarrow> d = - int n \<Longrightarrow> bind_ok (peek d s) f = f (xs ! n)"
  using peek_holds [of s xs n d] by simp

lemma sim_poke:
  "holds_stack s xs \<Longrightarrow> n < length xs \<Longrightarrow> d = - int n \<Longrightarrow> pos s = p \<Longrightarrow> ys = xs[n := v] \<Longrightarrow>
     simulates (poke d v s) p (Inr ys)"
  using poke_holds [of s xs n d v] by (auto simp: simulates_def)

lemma sim_poke_bind:
  "holds_stack s xs \<Longrightarrow> n < length xs \<Longrightarrow> d = - int n \<Longrightarrow>
     (\<And>s'. pos s' = pos s \<Longrightarrow> holds_stack s' (xs[n := v]) \<Longrightarrow> simulates (f s') p res) \<Longrightarrow>
     simulates (bind_ok (poke d v s) f) p res"
  using poke_holds [of s xs n d v] by auto

lemma sim_poke_top [sim]:
  "holds_stack s (x # xs) \<Longrightarrow> pos s = p \<Longrightarrow> simulates (poke 0 v s) p (Inr (v # xs))"
  by (rule sim_poke [where n = 0 and xs = "x # xs"]) simp_all

text \<open>The opcodes of the ranges.\<close>

lemma opcode_range:
  fixes b :: byte
  assumes "n < 32" "unat b + 32 \<le> 256"
  shows "unat (b + of_nat n) = unat b + n" "b + of_nat n - b = of_nat n"
  using assms by (simp_all add: unat_word_ariths unat_of_nat)

lemma uint_small: "n < 32 \<Longrightarrow> uint (of_nat n :: byte) = int n"
  by (simp add: uint_nat unat_of_nat)

lemma ucast_small: "n < 32 \<Longrightarrow> ucast (of_nat n :: byte) = (of_nat n :: uptr)"
  by (simp add: word_unat_eq_iff unsigned_ucast_eq unat_of_nat take_bit_eq_mod [where 'a = nat])

lemma regno: "n < 2 ^ 31 \<Longrightarrow> sint (ucast (of_nat n :: uptr) :: 32 word) = int n"
  by (simp add: sint_ucast signed_of_nat signed_take_bit_int_eq_self)

text \<open>One instruction, in the groups of the code.\<close>

definition step_refines :: "address_space \<Rightarrow> (int \<Rightarrow> uptr fallible) \<Rightarrow> uptr \<Rightarrow> instr \<Rightarrow> machine \<Rightarrow> uptr list \<Rightarrow> bool" where
  "step_refines m getReg pend i s xs \<longleftrightarrow>
     simulates (expr_step m getReg pend s) (pos s + of_nat (length (instr_bytes i))) (exec m getReg i xs)"

lemmas dispatch_defs = step_refines_def expr_step_def op_constant_def op_stack_def op_arithmetic_def op_control_def
  op_register_def op_deref_size_def opcodes get8_def Let_def

text \<open>Operands of variable length, behind an opcode or another operand.\<close>

lemma bytes_at_append [simp]:
  "bytes_at m p (bs @ cs) \<longleftrightarrow> bytes_at m p bs \<and> bytes_at m (p + of_nat (length bs)) cs"
  by (induction bs arbitrary: p) (simp_all add: add.assoc)

lemma window_skip:
  "k + n \<le> unat (pend - p) \<Longrightarrow> n \<le> unat (pend - (p + of_nat k))" for p :: uptr
proof -
  assume a: "k + n \<le> unat (pend - p)"
  then have "k < 2 ^ 64" using unat_less [of "pend - p"] by simp
  then have k: "unat (of_nat k :: uptr) = k" by (simp add: unat_of_nat)
  then have "(of_nat k :: uptr) \<le> pend - p" using a by (simp add: word_le_nat_alt)
  then have "unat (pend - p - of_nat k) = unat (pend - p) - k" by (simp add: unat_sub k)
  then show ?thesis using a by (simp add: diff_diff_eq)
qed

lemma read_uleb:
  assumes "bytes_at m (p + 1) (uleb128 (unat v))" "Suc (length (uleb128 (unat v))) \<le> unat (pend - p)"
  shows "getULEB128 m (p + 1) pend = Inr (v, p + 1 + of_nat (length (uleb128 (unat v))))"
  using getULEB128_uleb128 [OF assms(1) _ window_skip [of 1, simplified]] assms(2) unsigned_less [of v] by simp

lemma read_sleb:
  fixes v :: uptr
  assumes "bytes_at m (p + 1) (sleb128 (sint v))" "Suc (length (sleb128 (sint v))) \<le> unat (pend - p)"
  shows "getSLEB128 m (p + 1) pend = Inr (v, p + 1 + of_nat (length (sleb128 (sint v))))"
  using getSLEB128_sleb128 [OF assms(1) _ _ window_skip [of 1, simplified]] assms(2) sint_range_size [of v]
  by (simp add: size_word_def)

lemma read_regno:
  assumes "bytes_at m (p + 1) (uleb128 n)" "n < 2 ^ 31" "Suc (length (uleb128 n)) \<le> unat (pend - p)"
  shows "getULEB128 m (p + 1) pend = Inr (of_nat n, p + 1 + of_nat (length (uleb128 n)))"
  using getULEB128_uleb128 [OF assms(1) _ window_skip [of 1, simplified]] assms(2,3) by simp

lemma read_regno_sleb:
  fixes v :: uptr
  assumes "bytes_at m (p + 1) (uleb128 n)" "n < 2 ^ 31"
    and "Suc (length (uleb128 n) + length (sleb128 (sint v))) \<le> unat (pend - p)"
    and "bytes_at m (p + 1 + of_nat (length (uleb128 n))) (sleb128 (sint v))"
  shows "getULEB128 m (p + 1) pend = Inr (of_nat n, p + 1 + of_nat (length (uleb128 n)))"
    "getSLEB128 m (p + 1 + of_nat (length (uleb128 n))) pend =
       Inr (v, p + 1 + of_nat (length (uleb128 n)) + of_nat (length (sleb128 (sint v))))"
  using read_regno [OF assms(1,2), of pend] assms(3) getSLEB128_sleb128 [OF assms(4), of pend] sint_range_size [of v]
    window_skip [of "Suc (length (uleb128 n))" "length (sleb128 (sint v))" pend p]
  by (simp_all add: size_word_def add.assoc)

lemma narrow_widen:
  "(ucast (ucast b :: uptr) :: 16 word) = b" "(ucast (ucast c :: uptr) :: 32 word) = c"
  by (simp_all add: ucast_up_ucast_id is_up)

lemmas operand_reads = getP_def get16_le get32_le get64_le narrow_widen read_uleb read_sleb read_regno read_regno_sleb

lemma constant_refines:
  assumes "holds_stack s xs" "bytes_at m (pos s) (instr_bytes i)" "length (instr_bytes i) \<le> unat (pend - pos s)"
  shows "i = Addr v \<Longrightarrow> step_refines m getReg pend i s xs"
    and "i = Const1u a \<Longrightarrow> step_refines m getReg pend i s xs"
    and "i = Const1s a \<Longrightarrow> step_refines m getReg pend i s xs"
    and "i = Const2u b \<Longrightarrow> step_refines m getReg pend i s xs"
    and "i = Const2s b \<Longrightarrow> step_refines m getReg pend i s xs"
    and "i = Const4u c \<Longrightarrow> step_refines m getReg pend i s xs"
    and "i = Const4s c \<Longrightarrow> step_refines m getReg pend i s xs"
    and "i = Const8u v \<Longrightarrow> step_refines m getReg pend i s xs"
    and "i = Const8s v \<Longrightarrow> step_refines m getReg pend i s xs"
    and "i = Constu v \<Longrightarrow> step_refines m getReg pend i s xs"
    and "i = Consts v \<Longrightarrow> step_refines m getReg pend i s xs"
  using assms by (auto simp: dispatch_defs operand_reads sim)

lemma bind_ok_assoc: "bind_ok (bind_ok r f) g = bind_ok r (\<lambda>x. bind_ok (f x) g)"
  by (cases r) simp_all

lemma dispatch_register:
  assumes "m (pos s) = b" "48 \<le> unat b" "unat b < 148"
  shows "expr_step m getReg pend s = op_register m getReg pend b (advance 1 s)"
  using assms by (simp add: expr_step_def opcodes get8_def word_less_nat_alt)

lemma register_refines:
  assumes "holds_stack s xs" "bytes_at m (pos s) (instr_bytes i)" "length (instr_bytes i) \<le> unat (pend - pos s)"
    "well_formed i"
  shows "i = Regx n \<Longrightarrow> step_refines m getReg pend i s xs"
    and "i = Bregx n v \<Longrightarrow> step_refines m getReg pend i s xs"
    and "i = Lit n \<Longrightarrow> step_refines m getReg pend i s xs"
    and "i = Reg n \<Longrightarrow> step_refines m getReg pend i s xs"
    and "i = Breg n v \<Longrightarrow> step_refines m getReg pend i s xs"
proof -
  show "step_refines m getReg pend i s xs" if "i = Regx n"
    using assms that by (auto simp: dispatch_defs operand_reads regno intro!: sim)
  show "step_refines m getReg pend i s xs" if i: "i = Bregx n v"
  proof -
    have n: "n < 2 ^ 31" "m (pos s) = 0x92" and b: "bytes_at m (pos s + 1) (uleb128 n)"
      "bytes_at m (pos s + 1 + of_nat (length (uleb128 n))) (sleb128 (sint v))"
      "Suc (length (uleb128 n) + length (sleb128 (sint v))) \<le> unat (pend - pos s)"
      using assms i by (simp_all add: opcodes)
    show ?thesis
      using assms(1) n(2) regno [OF n(1)] read_regno_sleb [OF b(1) n(1) b(3,2)]
      by (auto simp: i dispatch_defs based_def bind_ok_assoc intro!: sim)
  qed
  show "step_refines m getReg pend i s xs" if i: "i = Lit n"
  proof -
    have n: "n < 32" "m (pos s) = 0x30 + of_nat n" using assms i by (simp_all add: opcodes)
    have "unat (0x30 + of_nat n :: byte) = 48 + n" using opcode_range [OF n(1), of "0x30"] by simp
    then show ?thesis
      using n(1) opcode_range [OF n(1), of "0x30"] dispatch_register [where m = m and s = s, OF n(2)] assms(1)
      by (simp add: i step_refines_def op_register_def opcodes word_less_nat_alt ucast_small uint_small sim)
  qed
  show "step_refines m getReg pend i s xs" if i: "i = Reg n"
  proof -
    have n: "n < 32" "m (pos s) = 0x50 + of_nat n" using assms i by (simp_all add: opcodes)
    have "unat (0x50 + of_nat n :: byte) = 80 + n" using opcode_range [OF n(1), of "0x50"] by simp
    then show ?thesis
      using n(1) opcode_range [OF n(1), of "0x50"] dispatch_register [where m = m and s = s, OF n(2)] assms(1)
      by (auto simp: i step_refines_def op_register_def opcodes word_less_nat_alt uint_small intro!: sim)
  qed
  show "step_refines m getReg pend i s xs" if i: "i = Breg n v"
  proof -
    have n: "n < 32" "m (pos s) = 0x70 + of_nat n" using assms i by (simp_all add: opcodes)
    have r: "getSLEB128 m (pos s + 1) pend = Inr (v, pos s + 1 + of_nat (length (sleb128 (sint v))))"
      using assms(2,3) by (intro read_sleb) (simp_all add: i)
    have u: "unat (0x70 + of_nat n :: byte) = 112 + n" using opcode_range [OF n(1), of "0x70"] by simp
    then have "(0x70 + of_nat n :: byte) \<noteq> 0x90" using n(1) by (auto dest: arg_cong [where f = unat])
    then show ?thesis
      using n(1) u opcode_range [OF n(1), of "0x70"] dispatch_register [where m = m and s = s, OF n(2)] assms(1) r
      by (auto simp: i step_refines_def op_register_def opcodes word_less_nat_alt uint_small based_def bind_ok_assoc add.assoc intro!: sim)
  qed
qed

lemma stack_cases:
  obtains "xs = []" | x where "xs = [x]" | x y where "xs = [x, y]" | x y z zs where "xs = x # y # z # zs"
  by (metis list.exhaust)

lemma memory_refines:
  assumes "holds_stack s xs" "bytes_at m (pos s) (instr_bytes i)" "well_formed i"
  shows "i = Deref \<Longrightarrow> step_refines m getReg pend i s xs"
    and "i = Xderef \<Longrightarrow> step_refines m getReg pend i s xs"
    and "i = Deref_size a \<Longrightarrow> step_refines m getReg pend i s xs"
  using assms by (cases xs rule: stack_cases; auto simp: dispatch_defs sized_load_def intro!: sim_pop sim)+

lemma peek_at:
  "holds_stack s (x # xs) \<Longrightarrow> peek 0 s = Inr x"
  "holds_stack s (x # y # xs) \<Longrightarrow> peek (- 1) s = Inr y"
  "holds_stack s (x # y # z # xs) \<Longrightarrow> peek (- 2) s = Inr z"
  using peek_holds [of s "x # xs" 0 0] peek_holds [of s "x # y # xs" 1 "- 1"] peek_holds [of s "x # y # z # xs" 2 "- 2"]
  by simp_all

lemma peek_nth: "holds_stack s xs \<Longrightarrow> unat a < length xs \<Longrightarrow> peek (- int (unat a)) s = Inr (xs ! unat a)" for a :: byte
  by (rule peek_holds) auto

lemma sim_swap:
  "holds_stack s (x # y # xs) \<Longrightarrow> pos s = p \<Longrightarrow>
    simulates (bind_ok (poke 0 y s) (poke (- 1) x)) p (Inr (y # x # xs))"
  by (rule sim_poke_bind [where n = 0 and xs = "x # y # xs"], simp_all,
      rule sim_poke [where n = 1 and xs = "y # y # xs"], simp_all)

lemma sim_rot:
  "holds_stack s (x # y # z # xs) \<Longrightarrow> pos s = p \<Longrightarrow>
    simulates (bind_ok (poke 0 y s) (\<lambda>s. bind_ok (poke (- 1) z s) (poke (- 2) x))) p (Inr (y # z # x # xs))"
  by (rule sim_poke_bind [where n = 0 and xs = "x # y # z # xs"], simp_all,
      rule sim_poke_bind [where n = 1 and xs = "y # y # z # xs"], simp_all,
      rule sim_poke [where n = 2 and xs = "y # z # z # xs"], simp_all)

lemma stack_refines:
  assumes "holds_stack s xs" "bytes_at m (pos s) (instr_bytes i)"
  shows "i = Dup \<Longrightarrow> step_refines m getReg pend i s xs"
    and "i = Drop \<Longrightarrow> step_refines m getReg pend i s xs"
    and "i = Over \<Longrightarrow> step_refines m getReg pend i s xs"
    and "i = Swap \<Longrightarrow> step_refines m getReg pend i s xs"
    and "i = Rot \<Longrightarrow> step_refines m getReg pend i s xs"
    and "i = Pick a \<Longrightarrow> step_refines m getReg pend i s xs"
proof -
  have drop: "holds_stack (s\<lparr>pos := p, top := top s - 1\<rparr>) xs" if "holds_stack s (x # xs)" for x xs p
    using drop_holds [of "s\<lparr>pos := p\<rparr>" x xs] that by simp
  show "i = Dup \<Longrightarrow> step_refines m getReg pend i s xs"
    and "i = Drop \<Longrightarrow> step_refines m getReg pend i s xs"
    and "i = Over \<Longrightarrow> step_refines m getReg pend i s xs"
    and "i = Swap \<Longrightarrow> step_refines m getReg pend i s xs"
    and "i = Rot \<Longrightarrow> step_refines m getReg pend i s xs"
    using assms
    by (cases xs rule: stack_cases; auto simp: dispatch_defs peek_at advance_def intro!: sim sim_swap sim_rot drop)+
  show "step_refines m getReg pend i s xs" if "i = Pick a"
    using assms that peek_nth [of "advance 1 (advance 1 s)" xs a]
    by (auto simp: dispatch_defs simp del: of_nat_unat intro!: sim)
qed

lemma value_refines:
  assumes "holds_stack s xs" "bytes_at m (pos s) (instr_bytes i)" "length (instr_bytes i) \<le> unat (pend - pos s)"
  shows "i = Abs_value \<Longrightarrow> step_refines m getReg pend i s xs"
    and "i = Negate \<Longrightarrow> step_refines m getReg pend i s xs"
    and "i = Complement \<Longrightarrow> step_refines m getReg pend i s xs"
    and "i = Plus_uconst v \<Longrightarrow> step_refines m getReg pend i s xs"
  using assms
  by (cases xs; auto simp: dispatch_defs peek_at operand_reads intro!: sim)+

lemma dispatch_binary:
  "m (pos s) = b \<Longrightarrow> b \<in> binary_opcodes \<Longrightarrow>
   expr_step m getReg pend s =
     bind_ok (pop (advance 1 s)) (\<lambda>(value, s). bind_ok (peek 0 s) (\<lambda>second.
     bind_ok (binary_operator b second value) (\<lambda>result. poke 0 result s)))"
  unfolding binary_opcodes_def by (elim insertE emptyE) (simp_all add: dispatch_defs)

lemma dispatch_comparison:
  "m (pos s) = b \<Longrightarrow> b \<in> comparison_opcodes \<Longrightarrow>
   expr_step m getReg pend s =
     bind_ok (pop (advance 1 s)) (\<lambda>(value, s). bind_ok (peek 0 s) (\<lambda>second.
     poke 0 (of_bool (comparison b second value)) s))"
  unfolding comparison_opcodes_def by (elim insertE emptyE) (simp_all add: dispatch_defs)

lemma operator_refines:
  assumes "holds_stack s xs" "bytes_at m (pos s) (instr_bytes i)" "well_formed i"
  shows "i = Binary b \<Longrightarrow> step_refines m getReg pend i s xs"
    and "i = Compare b \<Longrightarrow> step_refines m getReg pend i s xs"
  using assms dispatch_binary [of m s b] dispatch_comparison [of m s b]
  by (cases xs rule: stack_cases; auto simp: step_refines_def peek_at intro!: sim)+

lemma instruction_refines:
  assumes "holds_stack s xs" "bytes_at m (pos s) (instr_bytes i)" "length (instr_bytes i) \<le> unat (pend - pos s)"
    "well_formed i"
  shows "step_refines m getReg pend i s xs"
  using constant_refines [OF assms(1-3)] register_refines [OF assms] memory_refines [OF assms(1,2,4)]
    stack_refines [OF assms(1,2)] value_refines [OF assms(1-3)] operator_refines [OF assms(1,2,4)]
  by (cases i) blast+

text \<open>A program, in the loop.\<close>

lemma program_refines:
  assumes "holds_stack s xs" "bytes_at m (pos s) (code_bytes is)" "list_all well_formed is"
    and "unat (pos s) + length (code_bytes is) = unat pend"
  shows "case run_code m getReg is xs of
      Inl e \<Rightarrow> e = Stack_bounds \<or> expr_loop m getReg pend s = Some (Inl e)
    | Inr ys \<Rightarrow> \<exists>s'. expr_loop m getReg pend s = Some (peek 0 s') \<and> holds_stack s' ys"
  using assms
proof (induction "is" arbitrary: s xs)
  case Nil
  then have "pos s = pend" by (simp add: code_bytes_def word_unat_eq_iff)
  then show ?case using Nil(1) by (auto simp: expr_loop.simps)
next
  case (Cons i "is")
  have code: "bytes_at m (pos s) (instr_bytes i)"
    "bytes_at m (pos s + of_nat (length (instr_bytes i))) (code_bytes is)"
    "length (code_bytes (i # is)) = length (instr_bytes i) + length (code_bytes is)"
    using Cons.prems(2) by (simp_all add: code_bytes_def)
  have wf: "well_formed i" "list_all well_formed is" using Cons.prems(3) by simp_all
  have "0 < length (instr_bytes i)" by (cases i) simp_all
  then have "unat (pos s) < unat pend" using Cons.prems(4) code(3) by linarith
  then have lt: "pos s < pend" by (simp add: word_less_nat_alt)
  then have "unat (pend - pos s) = unat pend - unat (pos s)" by (simp add: unat_sub)
  then have "length (instr_bytes i) \<le> unat (pend - pos s)" using Cons.prems(4) code(3) by simp
  then have step: "simulates (expr_step m getReg pend s) (pos s + of_nat (length (instr_bytes i))) (exec m getReg i xs)"
    using instruction_refines [OF Cons.prems(1) code(1) _ wf(1)] by (simp add: step_refines_def)
  show ?case
  proof (cases "exec m getReg i xs")
    case (Inl e)
    then show ?thesis using step lt by (auto simp: simulates_def expr_loop.simps [of m getReg pend s])
  next
    case (Inr ys)
    show ?thesis
    proof (cases "length ys < 100")
      case True
      then obtain s' where s': "expr_step m getReg pend s = Inr s'" "holds_stack s' ys"
        "pos s' = pos s + of_nat (length (instr_bytes i))"
        using step Inr by (auto simp: simulates_def)
      have "unat (pos s) + length (instr_bytes i) < 2 ^ 64"
        using Cons.prems(4) code(3) unat_less [of pend] by simp
      then have "unat (pos s') = unat (pos s) + length (instr_bytes i)"
        unfolding s'(3) by (simp add: unat_word_ariths unat_of_nat)
      then have "unat (pos s') + length (code_bytes is) = unat pend" using Cons.prems(4) code(3) by simp
      moreover have "bytes_at m (pos s') (code_bytes is)" using code(2) s'(3) by simp
      moreover have r: "run_code m getReg (i # is) xs = run_code m getReg is ys" using Inr True by simp
      moreover have l: "expr_loop m getReg pend s = expr_loop m getReg pend s'"
        using s'(1) lt by (subst expr_loop.simps) simp
      ultimately show ?thesis unfolding r l by (intro Cons.IH [OF s'(2) _ wf(2)])
    next
      case False
      then show ?thesis using Inr by simp
    qed
  qed
qed

text \<open>An expression in memory: its length, then its code.\<close>

definition expression_at :: "address_space \<Rightarrow> uptr \<Rightarrow> instr list \<Rightarrow> bool" where
  "expression_at m a is \<longleftrightarrow>
     (let len = length (code_bytes is) in
      bytes_at m a (uleb128 len @ code_bytes is) \<and> unat a + length (uleb128 len) + len < 2 ^ 64)"

text \<open>C6: the evaluator computes the meaning of an expression.  For the encoding of a list of instructions without jumps,
  anywhere in memory, evaluation returns the value that the meaning leaves on top of the stack, started with the
  initial value, as long as the meaning stays within 99 stacked values and finds its operands; and if
  the meaning faults for another reason (a register without a value, a division by zero, a shift out of range, a signed
  overflow), evaluation ends in that fault.\<close>
theorem evaluateExpression_refines:
  assumes "expression_at m a is" "list_all well_formed is"
  shows "case run_code m getReg is [v] of
      Inl e \<Rightarrow> e = Stack_bounds \<or> evaluateExpression m getReg a v = Some (Inl e)
    | Inr ys \<Rightarrow> ys \<noteq> [] \<longrightarrow> evaluateExpression m getReg a v = Some (Inr (hd ys))"
proof -
  let ?len = "length (code_bytes is)"
  let ?p = "a + of_nat (length (uleb128 ?len))"
  have code: "bytes_at m a (uleb128 ?len)" "bytes_at m ?p (code_bytes is)" "?len < 2 ^ 64"
    and fits: "unat a + length (uleb128 ?len) + ?len < 2 ^ 64"
    using assms(1) by (simp_all add: expression_at_def Let_def)
  have "?len < 128 ^ Suc 9" using code(3) by (rule less_trans) simp
  then have "length (uleb128 ?len) \<le> unat (a + 20 - a)" using length_uleb128 [of ?len 9] by simp
  then have read: "getULEB128 m a (a + 20) = Inr (of_nat ?len, ?p)"
    by (rule getULEB128_uleb128 [OF code(1,3)])
  have "holds_stack (initial_machine ?p) []" by (simp add: holds_stack_def initial_machine_def)
  then obtain s where s: "push v (initial_machine ?p) = Inr s" "pos s = ?p" "holds_stack s [v]"
    using push_holds [of "initial_machine ?p" "[]" v] by (auto simp: initial_machine_def)
  have p: "unat ?p = unat a + length (uleb128 ?len)" using fits by (simp add: unat_word_ariths unat_of_nat)
  have "unat (?p + of_nat ?len) = unat ?p + ?len"
    using fits p by (simp only: unat_word_ariths unat_of_nat) simp
  then have "unat (pos s) + ?len = unat (?p + of_nat ?len)" using s(2) by simp
  note r = program_refines [OF s(3) _ assms(2) this, of m getReg]
  have "evaluateExpression m getReg a v = expr_loop m getReg (?p + of_nat ?len) s"
    using read s(1) by (simp add: evaluateExpression_def)
  then show ?thesis
    using r code(2) s(2) peek_at(1) by (cases "run_code m getReg is [v]") (auto simp: neq_Nil_conv)
qed

text \<open>The expression of the frame address in a procedure linkage table: eight above the stack pointer, and
  eight more behind the eleventh byte of an entry.\<close>

definition plt_expression :: "instr list" where
  "plt_expression = [Breg 7 8, Breg 16 0, Lit 15, Binary DW_OP_and, Lit 11, Compare DW_OP_ge, Lit 3, Binary DW_OP_shl,
     Binary DW_OP_plus]"

definition plt_memory :: address_space where
  "plt_memory = (\<lambda>a. 0)(0 := 11, 1 := 0x77, 2 := 8, 3 := 0x80, 4 := 0, 5 := 0x3F, 6 := 0x1A, 7 := 0x3B, 8 := 0x2A, 9 := 0x33,
     10 := 0x24, 11 := 0x22)"

lemma plt_expression_at: "expression_at plt_memory 0 plt_expression"
  by (simp add: expression_at_def Let_def code_bytes_def plt_expression_def plt_memory_def opcodes uleb128.simps
      sleb128.simps)

theorem evaluateExpression_refines_witness:
  "evaluateExpression plt_memory (\<lambda>n. Inr (if n = 7 then 0x7000 else 0x123C)) 0 0 = Some (Inr 0x7010)"
proof -
  let ?g = "\<lambda>n. Inr (if n = 7 then 0x7000 else 0x123C)"
  have wf: "list_all well_formed plt_expression"
    by (simp add: plt_expression_def binary_opcodes_def comparison_opcodes_def)
  have "run_code plt_memory ?g plt_expression [0] = Inr [0x7010, 0]"
    by (simp add: plt_expression_def based_def signed_result_def binary_operator_def comparison_def opcodes)
  then show ?thesis
    using evaluateExpression_refines [OF plt_expression_at wf, of ?g 0] by simp
qed

text \<open>The comparisons read their operands without sign.\<close>

lemma comparison_without_sign:
  assumes "expression_at m a [Const1s (- 1), Lit 1, Compare DW_OP_lt]"
  shows "evaluateExpression m getReg a v = Some (Inr 0)"
  using evaluateExpression_refines [OF assms, of getReg v]
  by (simp add: comparison_opcodes_def comparison_def opcodes)

end
