(* ===== verification/DwarfExprEnds.thy ===== *)
theory DwarfExprEnds
  imports DwarfExprSpec
begin

text \<open>
  When the evaluation of a DWARF expression ends, and what it does with expressions no assembler of
  sensible ones emits: jumps backwards, and stacks that leave the array.
\<close>

unbundle bit_operations_syntax

section \<open>Every step moves on\<close>

lemma distance_add:
  "a - b \<le> of_nat j \<Longrightarrow> c - a \<le> of_nat k \<Longrightarrow> j + k < 2 ^ 64 \<Longrightarrow> c - b \<le> of_nat (j + k)" for a b c :: uptr
proof -
  assume a: "a - b \<le> of_nat j" "c - a \<le> of_nat k" "j + k < 2 ^ 64"
  then have jk: "unat (of_nat j :: uptr) = j" "unat (of_nat k :: uptr) = k" "unat (of_nat (j + k) :: uptr) = j + k"
    by (simp_all add: unat_of_nat del: of_nat_add)
  have "unat (a - b) + unat (c - a) \<le> j + k" using a(1,2) jk by (simp add: word_le_nat_alt)
  moreover have "unat (a - b + (c - a)) = unat (a - b) + unat (c - a)"
    using calculation a(3) by (simp only: unat_word_ariths) simp
  ultimately show ?thesis unfolding word_le_nat_alt jk(3) by simp
qed

lemma uleb_loop_moves:
  "uleb_loop m pend p r shift = Inr (v, p') \<Longrightarrow> \<exists>k\<le>(70 - shift) div 7. p' = p + of_nat k"
proof (induction m pend p r shift rule: uleb_loop.induct)
  case (1 m pend p r shift)
  let ?b = "ucast (m p AND 0x7F) :: uptr"
  have ok: "p \<noteq> pend" "\<not> (64 \<le> shift \<or> drop_bit shift (push_bit shift ?b) \<noteq> ?b)"
    using 1(2) by (auto simp: uleb_loop.simps [of m pend p r shift] Let_def split: if_splits)
  show ?case
  proof (cases "0x80 \<le> m p")
    case True
    then have "uleb_loop m pend (p + 1) (r OR push_bit shift ?b) (shift + 7) = Inr (v, p')"
      using 1(2) ok by (subst (asm) uleb_loop.simps) (simp add: Let_def)
    then obtain k where "k \<le> (70 - (shift + 7)) div 7" "p' = p + 1 + of_nat k"
      using 1(1) [OF ok(1) refl ok(2) refl refl True] by auto
    then show ?thesis using ok(2) by (intro exI [of _ "Suc k"]) (auto simp: add.assoc)
  next
    case False
    then show ?thesis using 1(2) ok by (intro exI [of _ 1]) (auto simp: uleb_loop.simps [of m pend p r shift] Let_def)
  qed
qed

lemma sleb_loop_moves:
  "sleb_loop m pend p r shift = Inr (v, p') \<Longrightarrow> \<exists>k\<le>(70 - shift) div 7. p' = p + of_nat k"
proof (induction m pend p r shift rule: sleb_loop.induct)
  case (1 m pend p r shift)
  let ?r = "r OR push_bit shift (ucast (m p AND 0x7F))"
  have ok: "p \<noteq> pend" "\<not> 64 \<le> shift"
    using 1(2) by (auto simp: sleb_loop.simps [of m pend p r shift] Let_def split: if_splits)
  show ?case
  proof (cases "m p AND 0x80 \<noteq> 0")
    case True
    then have "sleb_loop m pend (p + 1) ?r (shift + 7) = Inr (v, p')"
      using 1(2) ok by (subst (asm) sleb_loop.simps) (simp add: Let_def)
    then obtain k where "k \<le> (70 - (shift + 7)) div 7" "p' = p + 1 + of_nat k"
      using 1(1) [OF ok refl refl refl True] by auto
    then show ?thesis using ok(2) by (intro exI [of _ "Suc k"]) (auto simp: add.assoc)
  next
    case False
    then show ?thesis
      using 1(2) ok by (intro exI [of _ 1]) (auto simp: sleb_loop.simps [of m pend p r shift] Let_def split: if_splits)
  qed
qed

lemma leb_moves:
  "getULEB128 m p pend = Inr (v, p') \<Longrightarrow> p' - p \<le> 10"
  "getSLEB128 m p pend = Inr (v, p') \<Longrightarrow> p' - p \<le> 10"
  using uleb_loop_moves [of m pend p 0 0 v p'] sleb_loop_moves [of m pend p 0 0 v p']
  by (auto simp: getULEB128_def getSLEB128_def word_le_nat_alt unat_of_nat)

lemma pos_push [dest]: "push v s = Inr s' \<Longrightarrow> pos s' = pos s"
  by (auto simp: push_def poke_def Let_def split: if_splits)

lemma pos_poke [dest]: "poke d v s = Inr s' \<Longrightarrow> pos s' = pos s"
  by (auto simp: poke_def Let_def split: if_splits)

lemma pos_pop [dest]: "pop s = Inr (v, s') \<Longrightarrow> pos s' = pos s"
  by (auto simp: pop_def bind_ok_Inr)

lemma constant_moves: "op_constant m pend opcode s = Inr s' \<Longrightarrow> pos s' - pos s \<le> 20"
  by (auto simp: op_constant_def Let_def bind_ok_Inr split: if_splits dest!: leb_moves pos_push pos_pop intro: order_trans)

lemma stack_moves: "op_stack m opcode s = Inr s' \<Longrightarrow> pos s' - pos s \<le> 20"
  by (auto simp: op_stack_def Let_def bind_ok_Inr split: if_splits dest!: pos_push pos_pop pos_poke)

lemma arithmetic_moves: "op_arithmetic m pend opcode s = Inr s' \<Longrightarrow> pos s' - pos s \<le> 20"
  by (auto simp: op_arithmetic_def Let_def bind_ok_Inr split: if_splits
      dest!: leb_moves pos_push pos_pop pos_poke intro: order_trans)

lemma register_moves: "op_register m getReg pend opcode s = Inr s' \<Longrightarrow> pos s' - pos s \<le> 20"
proof -
  have two: "c - p \<le> 20" if "getULEB128 m p pend = Inr (a, b)" "getSLEB128 m b pend = Inr (d, c)" for a b c d p
    using distance_add [of b p 10 c 10] leb_moves(1) [OF that(1)] leb_moves(2) [OF that(2)] by simp
  have one: "getULEB128 m p pend = Inr (a, b) \<Longrightarrow> b - p \<le> 20" "getSLEB128 m p pend = Inr (a, b) \<Longrightarrow> b - p \<le> 20"
    for a b p using leb_moves [of m p pend a b] by (auto intro: order_trans)
  show "op_register m getReg pend opcode s = Inr s' \<Longrightarrow> pos s' - pos s \<le> 20"
    by (auto simp: op_register_def Let_def bind_ok_Inr intro: one two split: if_splits dest!: pos_push)
qed

lemma deref_size_moves: "op_deref_size m s = Inr s' \<Longrightarrow> pos s' - pos s \<le> 20"
  by (auto simp: op_deref_size_def Let_def bind_ok_Inr split: if_splits dest!: pos_push pos_pop)

text \<open>Jumps that go forward move by at most the range of the displacement.\<close>

definition jumps_forward :: "address_space \<Rightarrow> uptr \<Rightarrow> uptr \<Rightarrow> bool" where
  "jumps_forward m first behind \<longleftrightarrow>
     (\<forall>p. first \<le> p \<and> p < behind \<and> (m p = DW_OP_skip \<or> m p = DW_OP_bra) \<longrightarrow> 0 \<le> sint (get16 m (p + 1)))"

lemma jump_moves: "jump s d = Inr s' \<Longrightarrow> 0 \<le> sint d \<Longrightarrow> pos s' - pos s \<le> 0x7FFF"
proof -
  assume a: "jump s d = Inr s'" "0 \<le> sint d"
  have "sint d < 2 ^ 15" using sint_range_size [of d] by (simp add: size_word_def)
  moreover have "pos s' = word_of_int (sint (pos s) + sint d)"
    using a(1) by (auto simp: jump_def bind_ok_Inr signed_result_def split: if_splits)
  then have "pos s' - pos s = word_of_int (sint d)" by simp
  moreover have "uint (word_of_int (sint d) :: uptr) = sint d"
    using a(2) calculation(1) by (subst uint_word_of_int) simp
  ultimately show ?thesis by (simp add: word_le_def)
qed

lemma control_moves:
  assumes "op_control m opcode s = Inr s'"
    and "opcode = DW_OP_skip \<or> opcode = DW_OP_bra \<Longrightarrow> 0 \<le> sint (get16 m (pos s))"
  shows "pos s' - pos s \<le> 0x8001"
proof -
  have j: "c - p \<le> 0x8001" if "c - (p + 2) \<le> 0x7FFF" for c p :: uptr
    using distance_add [of "p + 2" p 2 c "0x7FFF"] that by simp
  show ?thesis
    using assms
    by (auto simp: op_control_def Let_def bind_ok_Inr split: if_splits dest!: pos_pop pos_poke jump_moves intro: j)
qed

lemma expr_step_moves:
  assumes "expr_step m getReg pend s = Inr s'"
    and "m (pos s) = DW_OP_skip \<or> m (pos s) = DW_OP_bra \<Longrightarrow> 0 \<le> sint (get16 m (pos s + 1))"
  shows "pos s' - (pos s + 1) \<le> 0x8001"
proof -
  have short: "x \<le> 20 \<Longrightarrow> x \<le> 0x8001" for x :: uptr by (erule order_trans) simp
  let ?s = "advance 1 s"
  have p: "pos ?s = pos s + 1" by simp
  show ?thesis
    using assms constant_moves [of m pend "m (pos s)" ?s s'] stack_moves [of m "m (pos s)" ?s s']
      arithmetic_moves [of m pend "m (pos s)" ?s s'] register_moves [of m getReg pend "m (pos s)" ?s s']
      deref_size_moves [of m ?s s'] control_moves [of m "m (pos s)" ?s s']
    unfolding p by (auto simp: expr_step_def Let_def get8_def intro!: short split: if_splits)
qed

text \<open>So the loop ends.\<close>

lemma expr_loop_ends:
  assumes "jumps_forward m first pend" "first \<le> pos s" "unat pend + 0x10000 < 2 ^ 64"
  shows "expr_loop m getReg pend s \<noteq> None"
  using assms(2)
proof (induction "unat pend - unat (pos s)" arbitrary: s rule: less_induct)
  case less
  show ?case
  proof (cases "pos s < pend")
    case False
    then show ?thesis by (subst expr_loop.simps) simp
  next
    case True
    show ?thesis
    proof (cases "expr_step m getReg pend s")
      case (Inl e)
      then show ?thesis using True by (subst expr_loop.simps) simp
    next
      case (Inr s')
      have "m (pos s) = DW_OP_skip \<or> m (pos s) = DW_OP_bra \<Longrightarrow> 0 \<le> sint (get16 m (pos s + 1))"
        using assms(1) less.prems True by (auto simp: jumps_forward_def)
      then have d: "unat (pos s' - (pos s + 1)) \<le> 0x8001"
        using expr_step_moves [OF Inr] by (simp add: word_le_nat_alt)
      have lt: "unat (pos s) < unat pend" using True by (simp add: word_less_nat_alt)
      have one: "unat (pos s + 1) = unat (pos s) + 1"
        using lt assms(3) by (simp add: unat_word_ariths)
      have "unat (pos s + 1 + (pos s' - (pos s + 1))) = unat (pos s + 1) + unat (pos s' - (pos s + 1))"
        using d lt assms(3) unfolding unat_word_ariths(1) [of "pos s + 1"] one by simp
      then have "unat (pos s') = unat (pos s) + 1 + unat (pos s' - (pos s + 1))" unfolding one by simp
      then have "expr_loop m getReg pend s' \<noteq> None"
        using lt less.prems by (intro less.hyps) (auto simp: word_le_nat_alt)
      then show ?thesis using True Inr by (subst expr_loop.simps) simp
    qed
  qed
qed

text \<open>A jump of three bytes back lands on itself.\<close>

lemma skip_to_itself:
  assumes "bytes_at m p [0x2F, 0xFD, 0xFF]" "unat p + 3 < 2 ^ 63" "pos s = p"
  shows "expr_step m getReg pend s = Inr s"
proof -
  have "bytes_at m (p + 1) (le_bytes 2 0xFFFD)" using assms(1) by (simp add: le_bytes_unfold)
  then have "get16 m (p + 1) = 0xFFFD" by (simp add: get16_le)
  moreover have small: "uint p + 3 < 2 ^ 63"
  proof -
    have "int (unat p + 3) < int (2 ^ 63)" using assms(2) by (simp only: of_nat_less_iff)
    then show ?thesis by simp
  qed
  moreover have "sint (p + 3) = uint p + 3"
  proof -
    have "sint (word_of_int (uint p + 3) :: uptr) = uint p + 3"
      using small by (subst signed_of_int) (simp add: signed_take_bit_int_eq_self)
    then show ?thesis by simp
  qed
  moreover have "- 9223372036854775808 \<le> uint p" by (rule order_trans [OF _ unsigned_greater_eq]) simp
  ultimately have "signed_result (sint (p + 3) + sint (get16 m (p + 1))) = Inr p"
    by (simp add: signed_result_def)
  then show ?thesis
    using assms(1,3) by (simp add: dispatch_defs jump_def advance_def add.assoc)
qed

lemma loop_never_left:
  assumes "expr_loop m getReg pend s = Some r" "bytes_at m p [0x2F, 0xFD, 0xFF]" "unat p + 3 < 2 ^ 63" "pos s = p"
    "p < pend"
  shows False
  using assms
proof (induction rule: expr_loop.raw_induct [rotated 1, consumes 1])
  case (1 loop m getReg pend s r)
  show ?case
    using 1 skip_to_itself [OF 1(3,4,5), of getReg pend] by simp
qed

lemma goes_on_forever:
  assumes "bytes_at m a [3, 0x2F, 0xFD, 0xFF]" "unat a + 4 < 2 ^ 63"
  shows "evaluateExpression m getReg a v = None"
proof -
  have "bytes_at m a (uleb128 3)" using assms(1) by (simp add: uleb128.simps)
  then have len: "getULEB128 m a (a + 20) = Inr (3, a + 1)"
    using getULEB128_uleb128 [of m a 3 "a + 20"] by (simp add: uleb128.simps)
  have "holds_stack (initial_machine (a + 1)) []" by (simp add: holds_stack_def initial_machine_def)
  then obtain s where s: "push v (initial_machine (a + 1)) = Inr s" "pos s = a + 1"
    using push_holds [of "initial_machine (a + 1)" "[]" v] by (auto simp: initial_machine_def)
  have p: "unat (a + 1) = unat a + 1" using assms(2) by (simp add: unat_word_ariths)
  have lt: "a + 1 < a + 1 + 3" using assms(2) by (simp add: word_less_nat_alt unat_word_ariths)
  have "bytes_at m (a + 1) [0x2F, 0xFD, 0xFF]" using assms(1) by simp
  then have "expr_loop m getReg (a + 1 + 3) s \<noteq> Some r" for r
    using loop_never_left [OF _ _ _ s(2) lt] p assms(2) by fastforce
  then have "expr_loop m getReg (a + 1 + 3) s = None" by (metis option.exhaust)
  then show ?thesis using len s(1) by (simp add: evaluateExpression_def)
qed

text \<open>C27: evaluation ends.  An expression whose jumps all go forward, and that lies below the last 64 KiB of
  the address space, is evaluated to a value or a fault, whatever its bytes, the registers and the memory.  Nothing
  bounds the loop otherwise: an expression that jumps back to itself is never left.\<close>
theorem expression_evaluation_ends:
  "((\<forall>len p. getULEB128 m a (a + 20) = Inr (len, p) \<longrightarrow>
       jumps_forward m p (p + len) \<and> unat (p + len) + 0x10000 < 2 ^ 64) \<longrightarrow>
     evaluateExpression m getReg a v \<noteq> None) \<and>
   (bytes_at m a [3, 0x2F, 0xFD, 0xFF] \<and> unat a + 4 < 2 ^ 63 \<longrightarrow> evaluateExpression m getReg a v = None)"
proof (intro conjI impI)
  assume f: "\<forall>len p. getULEB128 m a (a + 20) = Inr (len, p) \<longrightarrow>
       jumps_forward m p (p + len) \<and> unat (p + len) + 0x10000 < 2 ^ 64"
  show "evaluateExpression m getReg a v \<noteq> None"
  proof (cases "getULEB128 m a (a + 20)")
    case (Inr r)
    obtain len p where r: "r = (len, p)" by (cases r)
    have "holds_stack (initial_machine p) []" by (simp add: holds_stack_def initial_machine_def)
    then obtain s where s: "push v (initial_machine p) = Inr s" "pos s = p"
      using push_holds [of "initial_machine p" "[]" v] by (auto simp: initial_machine_def)
    have "expr_loop m getReg (p + len) s \<noteq> None"
      using expr_loop_ends [of m p "p + len" s getReg] f Inr r s(2) by simp
    then show ?thesis using Inr r s(1) by (simp add: evaluateExpression_def)
  qed (simp add: evaluateExpression_def)
next
  assume "bytes_at m a [3, 0x2F, 0xFD, 0xFF] \<and> unat a + 4 < 2 ^ 63"
  then show "evaluateExpression m getReg a v = None" using goes_on_forever by blast
qed

theorem expression_evaluation_ends_witness:
  "evaluateExpression ((\<lambda>a. 0)(0 := 3, 1 := 0x2F, 2 := 0xFD, 3 := 0xFF)) (\<lambda>n. Inr 0) 0 7 = None \<and>
   evaluateExpression ((\<lambda>a. 0)(0 := 1, 1 := 0x32)) (\<lambda>n. Inr 0) 0 7 \<noteq> None"
proof -
  let ?m = "(\<lambda>a. 0)(0 := 1, 1 := 0x32) :: address_space"
  have "getULEB128 ?m 0 20 = Inr (1, 1)"
    using getULEB128_uleb128 [of ?m 0 1 20] by (simp add: uleb128.simps)
  moreover have "jumps_forward ?m 1 2"
    by (auto simp: jumps_forward_def opcodes)
  ultimately show ?thesis
    using expression_evaluation_ends [of "(\<lambda>a. 0)(0 := 3, 1 := 0x2F, 2 := 0xFD, 3 := 0xFF)" 0 "\<lambda>n. Inr 0" 7]
      expression_evaluation_ends [of ?m 0 "\<lambda>n. Inr 0" 7] by simp
qed

section \<open>The stack is not guarded\<close>

lemma literals_overrun:
  assumes "holds_stack s xs" "bytes_at m (pos s) (replicate n 0x30)" "unat (pos s) + n = unat pend"
    and "100 \<le> n + length xs"
  shows "expr_loop m getReg pend s = Some (Inl Stack_bounds)"
  using assms
proof (induction n arbitrary: s xs)
  case 0
  then show ?case by (simp add: holds_stack_def)
next
  case (Suc n)
  have "unat (pos s) < unat pend" using Suc.prems(3) by simp
  then have lt: "pos s < pend" by (simp add: word_less_nat_alt)
  have p: "unat (pos s + 1) = unat (pos s) + 1" using Suc.prems(3) unat_less [of pend] by (simp add: unat_word_ariths)
  have op: "expr_step m getReg pend s = push 0 (advance 1 s)"
    using Suc.prems(2) by (simp add: dispatch_defs)
  show ?case
  proof (cases "length xs < 99")
    case True
    then obtain s' where "push 0 (advance 1 s) = Inr s'" "pos s' = pos s + 1" "holds_stack s' (0 # xs)"
      using push_holds [of "advance 1 s" xs 0] Suc.prems(1) by auto
    then show ?thesis
      using Suc.IH [of s' "0 # xs"] Suc.prems(2-4) op lt p by (subst expr_loop.simps) simp
  next
    case False
    then have "push 0 (advance 1 s) = Inl Stack_bounds"
      using Suc.prems(1) by (simp add: holds_stack_def push_def poke_def advance_def)
    then show ?thesis using op lt by (subst expr_loop.simps) simp
  qed
qed

lemma run_literals:
  "length xs + n < 100 \<Longrightarrow> run_code m getReg (replicate n (Lit 0)) xs = Inr (replicate n 0 @ xs)"
proof (induction n arbitrary: xs)
  case (Suc n)
  then show ?case using Suc.IH [of "0 # xs"] by (simp add: replicate_app_Cons_same)
qed simp

lemma code_bytes_literals: "code_bytes (replicate n (Lit 0)) = replicate n 0x30"
  by (induction n) (simp_all add: code_bytes_def opcodes)

text \<open>C28: the limits of the stack of 100 cells.  An expression of literals is evaluated as long as there are at most 98
  of them above the initial value; with one more the code writes behind the array, since no push is
  checked.  An expression that drops the initial value returns a cell that was never written.\<close>
theorem expression_stack_limits:
  "(expression_at m a (replicate n (Lit 0)) \<longrightarrow>
     evaluateExpression m getReg a v =
       Some (if n < 99 then Inr (if n = 0 then v else 0) else Inl Stack_bounds)) \<and>
   (bytes_at m a [1, 0x13] \<and> unat a + 2 < 2 ^ 64 \<longrightarrow> evaluateExpression m getReg a v = Some (Inl Uninitialised))"
proof (intro conjI impI)
  let ?m = m
  assume e: "expression_at m a (replicate n (Lit 0))"
  show "evaluateExpression m getReg a v = Some (if n < 99 then Inr (if n = 0 then v else 0) else Inl Stack_bounds)"
  proof (cases "n < 99")
    case True
    then show ?thesis
      using evaluateExpression_refines [OF e, of getReg v] run_literals [of "[v]" n m getReg]
      by (cases n) (simp_all add: list_all_iff)
  next
    case False
    let ?p = "a + of_nat (length (uleb128 n))"
    have code: "bytes_at m a (uleb128 n)" "bytes_at m ?p (replicate n 0x30)" "n < 2 ^ 64"
      and fits: "unat a + length (uleb128 n) + n < 2 ^ 64"
      using e by (simp_all add: expression_at_def Let_def code_bytes_literals)
    have "length (uleb128 n) \<le> unat (a + 20 - a)" using length_uleb128 [of n 9] less_trans [OF code(3), of "128 ^ Suc 9"] by simp
    then have read: "getULEB128 m a (a + 20) = Inr (of_nat n, ?p)" by (rule getULEB128_uleb128 [OF code(1,3)])
    have "holds_stack (initial_machine ?p) []" by (simp add: holds_stack_def initial_machine_def)
    then obtain s where s: "push v (initial_machine ?p) = Inr s" "pos s = ?p" "holds_stack s [v]"
      using push_holds [of "initial_machine ?p" "[]" v] by (auto simp: initial_machine_def)
    have p: "unat ?p = unat a + length (uleb128 n)" using fits by (simp add: unat_word_ariths unat_of_nat)
    have "unat (?p + of_nat n) = unat ?p + n"
      using fits p by (simp only: unat_word_ariths unat_of_nat) simp
    then have "expr_loop m getReg (?p + of_nat n) s = Some (Inl Stack_bounds)"
      using literals_overrun [OF s(3), of m n "?p + of_nat n"] code(2) s(2) False by simp
    then show ?thesis using read s(1) False by (simp add: evaluateExpression_def)
  qed
next
  assume b: "bytes_at m a [1, 0x13] \<and> unat a + 2 < 2 ^ 64"
  then have len: "getULEB128 m a (a + 20) = Inr (1, a + 1)"
    using getULEB128_uleb128 [of m a 1 "a + 20"] by (simp add: uleb128.simps)
  define s where "s = \<lparr>pos = a + 1, cells = (replicate 100 None)[1 := Some v], top = 1\<rparr>"
  have push: "push v (initial_machine (a + 1)) = Inr s"
    by (simp add: push_def poke_def initial_machine_def s_def)
  have p: "unat (a + 1) = unat a + 1" using b by (simp add: unat_word_ariths)
  have lt: "pos s < a + 1 + 1" using b p by (simp add: s_def word_less_nat_alt unat_word_ariths)
  have "expr_step m getReg (a + 1 + 1) s = Inr (s\<lparr>pos := a + 1 + 1, top := 0\<rparr>)"
    using b by (simp add: dispatch_defs s_def advance_def)
  then have "expr_loop m getReg (a + 1 + 1) s = expr_loop m getReg (a + 1 + 1) (s\<lparr>pos := a + 1 + 1, top := 0\<rparr>)"
    using lt by (subst expr_loop.simps) simp
  also have "\<dots> = Some (Inl Uninitialised)" by (subst expr_loop.simps) (simp add: peek_def s_def)
  finally show "evaluateExpression m getReg a v = Some (Inl Uninitialised)"
    using len push by (simp add: evaluateExpression_def)
qed

theorem expression_stack_limits_witness:
  "evaluateExpression ((\<lambda>a. 0)(0 := 2, 1 := 0x30, 2 := 0x30)) (\<lambda>n. Inr 0) 0 7 = Some (Inr 0) \<and>
   evaluateExpression ((\<lambda>a. 0)(0 := 1, 1 := 0x13)) (\<lambda>n. Inr 0) 0 7 = Some (Inl Uninitialised)"
proof -
  let ?m = "(\<lambda>a. 0)(0 := 2, 1 := 0x30, 2 := 0x30) :: address_space"
  have "replicate 2 (0x30 :: byte) = [0x30, 0x30]" by (simp add: numeral_2_eq_2)
  then have "expression_at ?m 0 (replicate 2 (Lit 0))"
    unfolding expression_at_def code_bytes_literals by (simp add: uleb128.simps)
  then show ?thesis
    using expression_stack_limits [of ?m 0 2 "\<lambda>n. Inr 0" 7]
      expression_stack_limits [of "(\<lambda>a. 0)(0 := 1, 1 := 0x13)" 0 2 "\<lambda>n. Inr 0" 7] by simp
qed

end
