(* ===== verification/DwarfCFI.thy ===== *)
theory DwarfCFI
  imports DwarfMemory
begin

text \<open>
  The records of an \<^verbatim>\<open>.eh_frame\<close> section, as \<open>CFI_Parser\<close> of \<^verbatim>\<open>libunwind/src/DwarfParser.hpp\<close> reads them: the common
  information entry (\<open>parseCIE\<close>), the frame description entry (\<open>decodeFDE\<close>) and the scan of a section for the
  entry that covers a program counter (\<open>findFDE\<close>).  The structures the functions fill are passed in and
  returned: a field the code does not assign keeps its old value.  An error message is \<open>Some\<close> of it, success is
  \<open>None\<close>.  The loops over strings and entries need not end; a call that does not return is \<open>None\<close>.
\<close>

unbundle bit_operations_syntax

section \<open>Structures\<close>

record cie_info =
  cieStart :: uptr
  cieLength :: uptr
  cieInstructions :: uptr
  pointerEncoding :: byte
  lsdaEncoding :: byte
  personalityEncoding :: byte
  personalityOffsetInCIE :: byte
  personality :: uptr
  codeAlignFactor :: "32 word"
  dataAlignFactor :: "32 word"
  isSignalFrame :: bool
  fdesHaveAugmentationData :: bool
  returnAddressRegister :: byte

record fde_info =
  fdeStart :: uptr
  fdeLength :: uptr
  fdeInstructions :: uptr
  pcStart :: uptr
  pcEnd :: uptr
  lsda :: uptr

text \<open>A fallible call that may not return, followed by another.\<close>

definition and_then :: "'a fallible option \<Rightarrow> ('a \<Rightarrow> 'b fallible option) \<Rightarrow> 'b fallible option" where
  "and_then r f = (case r of None \<Rightarrow> None | Some (Inl e) \<Rightarrow> Some (Inl e) | Some (Inr x) \<Rightarrow> f x)"

lemma and_then_simps [simp]:
  "and_then None f = None"
  "and_then (Some (Inl e)) f = Some (Inl e)"
  "and_then (Some (Inr x)) f = f x"
  by (simp_all add: and_then_def)

lemma and_then_Inr: "and_then r f = Some (Inr y) \<longleftrightarrow> (\<exists>x. r = Some (Inr x) \<and> f x = Some (Inr y))"
  by (auto simp: and_then_def split: option.split sum.split)

section \<open>The length of an entry\<close>

text \<open>The first word of every entry, and the 64-bit one behind it: the length and the address they lead to.\<close>

definition entry_length :: "address_space \<Rightarrow> uptr \<Rightarrow> uptr \<times> uptr" where
  "entry_length m p =
     (let cfiLength = ucast (get32 m p); p = p + 4 in
      if cfiLength = 0xFFFFFFFF then (get64 m p, p + 8) else (cfiLength, p))"

section \<open>The common information entry\<close>

text \<open>The search for the end of the augmentation string.\<close>

partial_function (option) string_end :: "address_space \<Rightarrow> uptr \<Rightarrow> uptr option" where
  "string_end m p = (if get8 m p \<noteq> 0 then string_end m (p + 1) else Some p)"

text \<open>One letter of it: the new address and structure.\<close>

definition augmentation_letter ::
    "address_space \<Rightarrow> uptr \<Rightarrow> uptr \<Rightarrow> byte \<Rightarrow> uptr \<Rightarrow> cie_info \<Rightarrow> (uptr \<times> cie_info) fallible" where
  "augmentation_letter m cie cieContentEnd c p info =
     (if c = 0x7A then Inr (p, info\<lparr>fdesHaveAugmentationData := True\<rparr>)
      else if c = 0x50 then
        (let encoding = get8 m p; p = p + 1;
             info = info\<lparr>personalityEncoding := encoding, personalityOffsetInCIE := ucast (p - cie)\<rparr> in
         bind_ok (getEncodedP m p cieContentEnd encoding 0) (\<lambda>(routine, p, _).
         Inr (p, info\<lparr>personality := routine\<rparr>)))
      else if c = 0x4C then Inr (p + 1, info\<lparr>lsdaEncoding := get8 m p\<rparr>)
      else if c = 0x52 then Inr (p + 1, info\<lparr>pointerEncoding := get8 m p\<rparr>)
      else if c = 0x53 then Inr (p, info\<lparr>isSignalFrame := True\<rparr>)
      else Inr (p, info))"

partial_function (option) augmentation_loop ::
    "address_space \<Rightarrow> uptr \<Rightarrow> uptr \<Rightarrow> uptr \<Rightarrow> uptr \<Rightarrow> cie_info \<Rightarrow> (uptr \<times> cie_info) fallible option" where
  "augmentation_loop m cie cieContentEnd s p info =
     (if get8 m s = 0 then Some (Inr (p, info))
      else
        (case augmentation_letter m cie cieContentEnd (get8 m s) p info of
           Inl e \<Rightarrow> Some (Inl e)
         | Inr r \<Rightarrow> augmentation_loop m cie cieContentEnd (s + 1) (fst r) (snd r)))"

definition initial_cie :: "uptr \<Rightarrow> cie_info \<Rightarrow> cie_info" where
  "initial_cie cie info =
     info\<lparr>pointerEncoding := 0, lsdaEncoding := DW_EH_PE_omit, personalityEncoding := 0, personalityOffsetInCIE := 0,
       personality := 0, codeAlignFactor := 0, dataAlignFactor := 0, isSignalFrame := False,
       fdesHaveAugmentationData := False, cieStart := cie\<rparr>"

text \<open>The alignment factors and the return address register.\<close>

definition cie_factors ::
    "address_space \<Rightarrow> uptr \<Rightarrow> byte \<Rightarrow> uptr \<Rightarrow> cie_info \<Rightarrow> (uptr \<times> cie_info) fallible" where
  "cie_factors m cieContentEnd version p info =
     bind_ok (getULEB128 m p cieContentEnd) (\<lambda>(codeAlign, p).
     bind_ok (getSLEB128 m p cieContentEnd) (\<lambda>(dataAlign, p).
     bind_ok (if version = 1 then Inr (ucast (get8 m p), p + 1) else getULEB128 m p cieContentEnd) (\<lambda>(raReg, p).
     if \<not> raReg < 255 then Inl Assertion
     else Inr (p, info\<lparr>codeAlignFactor := ucast codeAlign, dataAlignFactor := ucast dataAlign,
                       returnAddressRegister := ucast raReg\<rparr>))))"

definition parseCIE ::
    "address_space \<Rightarrow> uptr \<Rightarrow> cie_info \<Rightarrow> (string option \<times> cie_info) fallible option" where
  "parseCIE m cie info =
     (let info = initial_cie cie info;
          (len, p) = entry_length m cie;
          cieContentEnd = p + len in
      if len = 0 then Some (Inr (None, info))
      else if get32 m p \<noteq> 0 then Some (Inr (Some ''CIE ID is not zero'', info))
      else
        let version = get8 m (p + 4) in
        if version \<noteq> 1 \<and> version \<noteq> 3 then Some (Inr (Some ''CIE version is not 1 or 3'', info))
        else
          let strStart = p + 5 in
          (case string_end m strStart of
             None \<Rightarrow> None
           | Some strEnd \<Rightarrow>
               and_then (Some (cie_factors m cieContentEnd version (strEnd + 1) info)) (\<lambda>(p, info).
               and_then
                 (if get8 m strStart = 0x7A then
                    and_then (Some (getULEB128 m p cieContentEnd)) (\<lambda>(_, p).
                    augmentation_loop m cie cieContentEnd strStart p info)
                  else Some (Inr (p, info)))
                 (\<lambda>(p, info).
                    Some (Inr (None, info\<lparr>cieLength := cieContentEnd - cieStart info, cieInstructions := p\<rparr>))))))"

section \<open>The frame description entry\<close>

text \<open>What follows the range of addresses: the language-specific data, and where the instructions begin.\<close>

definition fde_augmentation :: "address_space \<Rightarrow> uptr \<Rightarrow> uptr \<Rightarrow> cie_info \<Rightarrow> (uptr \<times> uptr) fallible" where
  "fde_augmentation m p nextCFI info =
     (if fdesHaveAugmentationData info then
        bind_ok (getULEB128 m p nextCFI) (\<lambda>(augLen, p).
        let endOfAug = p + augLen in
        if lsdaEncoding info \<noteq> DW_EH_PE_omit then
          bind_ok (getEncodedP m p nextCFI (lsdaEncoding info AND 0x0F) 0) (\<lambda>(peeked, _, _).
          if peeked \<noteq> 0 then
            bind_ok (getEncodedP m p nextCFI (lsdaEncoding info) 0) (\<lambda>(address, _, _). Inr (address, endOfAug))
          else Inr (0, endOfAug))
        else Inr (0, endOfAug))
      else Inr (0, p))"

text \<open>The range of addresses, encoded as the common entry says.\<close>

definition fde_range :: "address_space \<Rightarrow> uptr \<Rightarrow> uptr \<Rightarrow> cie_info \<Rightarrow> (uptr \<times> uptr \<times> uptr) fallible" where
  "fde_range m p nextCFI info =
     bind_ok (getEncodedP m p nextCFI (pointerEncoding info) 0) (\<lambda>(start, p, _).
     bind_ok (getEncodedP m p nextCFI (pointerEncoding info AND 0x0F) 0) (\<lambda>(pcRange, p, _).
     Inr (start, pcRange, p)))"

definition fill_fde :: "uptr \<Rightarrow> uptr \<Rightarrow> uptr \<Rightarrow> uptr \<Rightarrow> uptr \<Rightarrow> uptr \<Rightarrow> fde_info" where
  "fill_fde start nextCFI instructions first pcRange lsda_address =
     \<lparr>fdeStart = start, fdeLength = nextCFI - start, fdeInstructions = instructions, pcStart = first,
      pcEnd = first + pcRange, lsda = lsda_address\<rparr>"

definition decodeFDE ::
    "address_space \<Rightarrow> uptr \<Rightarrow> fde_info \<Rightarrow> cie_info \<Rightarrow> bool \<Rightarrow> (string option \<times> fde_info \<times> cie_info) fallible option" where
  "decodeFDE m start fde cie useCIEInfo =
     (let (cfiLength, p) = entry_length m start in
      if cfiLength = 0 then Some (Inr (Some ''FDE has zero length'', fde, cie))
      else
        let ciePointer = get32 m p in
        if ciePointer = 0 then Some (Inr (Some ''FDE is really a CIE'', fde, cie))
        else
          let nextCFI = p + cfiLength; cie_start = p - ucast ciePointer in
          and_then
            (if useCIEInfo then
               Some (Inr (if cieStart cie \<noteq> cie_start then Some ''CIE start does not match'' else None, cie))
             else parseCIE m cie_start cie)
            (\<lambda>(err, cie).
               if err \<noteq> None then Some (Inr (err, fde, cie))
               else
                 and_then (Some (fde_range m (p + 4) nextCFI cie)) (\<lambda>(first, pcRange, p).
                 and_then (Some (fde_augmentation m p nextCFI cie)) (\<lambda>(lsda_address, instructions).
                 Some (Inr (None, fill_fde start nextCFI instructions first pcRange lsda_address, cie))))))"

section \<open>The scan of a section\<close>

text \<open>One entry: \<open>Inl\<close> when the scan is over, with what it found; otherwise the next entry and the structure the
  parser of the common entry left.\<close>

definition scan_entry ::
    "address_space \<Rightarrow> uptr \<Rightarrow> uptr \<Rightarrow> uptr \<Rightarrow> uptr \<Rightarrow> cie_info \<Rightarrow>
       ((fde_info \<times> cie_info) option + uptr \<times> cie_info) fallible option" where
  "scan_entry m pc ehSectionStart ehSectionEnd currentCFI cie =
     (let (cfiLength, p) = entry_length m currentCFI in
      if cfiLength = 0 then Some (Inr (Inl None))
      else
        let ident = get32 m p; nextCFI = p + cfiLength in
        if ident = 0 then Some (Inr (Inr (nextCFI, cie)))
        else
          let cie_start = p - ucast ident in
          if ehSectionStart \<le> cie_start \<and> cie_start < ehSectionEnd then
            and_then (parseCIE m cie_start cie) (\<lambda>(err, cie).
              if err = None then
                and_then (Some (fde_range m (p + 4) nextCFI cie)) (\<lambda>(first, pcRange, p).
                if first \<le> pc \<and> pc < first + pcRange then
                  and_then (Some (fde_augmentation m p nextCFI cie)) (\<lambda>(lsda_address, instructions).
                  Some (Inr (Inl (Some (fill_fde currentCFI nextCFI instructions first pcRange lsda_address, cie)))))
                else Some (Inr (Inr (nextCFI, cie))))
              else Some (Inr (Inr (nextCFI, cie))))
          else Some (Inr (Inr (nextCFI, cie))))"

partial_function (option) scan_section ::
    "address_space \<Rightarrow> uptr \<Rightarrow> uptr \<Rightarrow> uptr \<Rightarrow> uptr \<Rightarrow> cie_info \<Rightarrow> (fde_info \<times> cie_info) option fallible option" where
  "scan_section m pc ehSectionStart ehSectionEnd p cie =
     (if p < ehSectionEnd then
        (case scan_entry m pc ehSectionStart ehSectionEnd p cie of
           None \<Rightarrow> None
         | Some r \<Rightarrow>
             (case r of
                Inl e \<Rightarrow> Some (Inl e)
              | Inr a \<Rightarrow>
                  (case a of
                     Inl found \<Rightarrow> Some (Inr found)
                   | Inr n \<Rightarrow> scan_section m pc ehSectionStart ehSectionEnd (fst n) (snd n))))
      else Some (Inr None))"

text \<open>\<open>SIZE_MAX\<close> stands for a section of unknown length.\<close>

declare string_end.simps [code] augmentation_loop.simps [code] scan_section.simps [code]

definition findFDE ::
    "address_space \<Rightarrow> uptr \<Rightarrow> uptr \<Rightarrow> uptr \<Rightarrow> uptr \<Rightarrow> cie_info \<Rightarrow> (fde_info \<times> cie_info) option fallible option" where
  "findFDE m pc ehSectionStart sectionLength fdeHint cie =
     scan_section m pc ehSectionStart
       (if sectionLength = - 1 then - 1 else ehSectionStart + sectionLength)
       (if fdeHint \<noteq> 0 then fdeHint else ehSectionStart) cie"

section \<open>What the scan finds\<close>

lemma augmentation_letter_start:
  "augmentation_letter m cie pend c p info = Inr r \<Longrightarrow> cieStart (snd r) = cieStart info"
  by (auto simp: augmentation_letter_def Let_def bind_ok_Inr split: if_splits)

lemma augmentation_loop_start:
  assumes "augmentation_loop m cie pend s p info = Some r" "r = Inr (q, info')"
  shows "cieStart info' = cieStart info"
  using assms
proof (induction arbitrary: q info' rule: augmentation_loop.raw_induct [rotated 1, consumes 1])
  case (1 loop m cie pend s p info r)
  then show ?case
    by (auto split: if_splits sum.splits dest!: augmentation_letter_start)
qed

lemma cie_factors_start:
  assumes "cie_factors m e v p i = Inr (q, i')"
  shows "cieStart i' = cieStart i"
proof -
  obtain a b where 1: "getULEB128 m p e = Inr (a, b)"
    using assms by (cases "getULEB128 m p e") (auto simp: cie_factors_def)
  obtain c d where 2: "getSLEB128 m b e = Inr (c, d)"
    using assms 1 by (cases "getSLEB128 m b e") (auto simp: cie_factors_def)
  show ?thesis
    using assms by (auto simp: cie_factors_def 1 2 bind_ok_Inr split: if_splits)
qed

lemma parseCIE_start:
  assumes "parseCIE m cie info = Some (Inr (err, info'))"
  shows "cieStart info' = cie"
proof -
  obtain len p where e: "entry_length m cie = (len, p)" by (cases "entry_length m cie")
  let ?i = "initial_cie cie info"
  let ?v = "get8 m (p + 4)"
  have i: "cieStart ?i = cie" by (simp add: initial_cie_def)
  show ?thesis
  proof (cases "len = 0 \<or> get32 m p \<noteq> 0 \<or> ?v \<noteq> 1 \<and> ?v \<noteq> 3")
    case True
    then show ?thesis using assms i by (auto simp: parseCIE_def e Let_def split: if_splits)
  next
    case False
    then obtain strEnd where n: "string_end m (p + 5) = Some strEnd"
      using assms by (auto simp: parseCIE_def e Let_def split: option.splits)
    obtain q i1 q' i2 where q: "cie_factors m (p + len) ?v (strEnd + 1) ?i = Inr (q, i1)"
      "(if get8 m (p + 5) = 0x7A
        then and_then (Some (getULEB128 m q (p + len))) (\<lambda>(_, q). augmentation_loop m cie (p + len) (p + 5) q i1)
        else Some (Inr (q, i1))) = Some (Inr (q', i2))"
      "info' = i2\<lparr>cieLength := p + len - cieStart i2, cieInstructions := q'\<rparr>"
      using assms False by (auto simp: parseCIE_def e Let_def n and_then_Inr)
    then show ?thesis
      using cie_factors_start [OF q(1)] i augmentation_loop_start [OF _ refl] by (auto simp: and_then_Inr split: if_splits)
  qed
qed

text \<open>An entry the scan accepts covers the address, and is what \<open>decodeFDE\<close> reads at its address.\<close>

lemma scan_entry_found:
  assumes "scan_entry m pc first behind q cie = Some (Inr (Inl (Some (fde, cie'))))"
  shows "fdeStart fde = q \<and> pcStart fde \<le> pc \<and> pc < pcEnd fde \<and> first \<le> cieStart cie' \<and> cieStart cie' < behind \<and>
    (\<forall>fde0. decodeFDE m q fde0 cie False = Some (Inr (None, fde, cie')))"
proof -
  obtain len p where e: "entry_length m q = (len, p)" by (cases "entry_length m q")
  let ?c = "p - ucast (get32 m p)"
  obtain start pcRange p' a i where s: "len \<noteq> 0" "get32 m p \<noteq> 0" "first \<le> ?c" "?c < behind"
    "parseCIE m ?c cie = Some (Inr (None, cie'))"
    "fde_range m (p + 4) (p + len) cie' = Inr (start, pcRange, p')" "start \<le> pc" "pc < start + pcRange"
    "fde_augmentation m p' (p + len) cie' = Inr (a, i)"
    "fde = fill_fde q (p + len) i start pcRange a"
    using assms by (auto simp: scan_entry_def e Let_def and_then_Inr split: if_splits)
  have "decodeFDE m q fde0 cie False = Some (Inr (None, fde, cie'))" for fde0
    using s by (simp add: decodeFDE_def e Let_def)
  then show ?thesis
    using s parseCIE_start [OF s(5)] by (simp add: fill_fde_def)
qed

lemma scan_section_found:
  assumes "scan_section m pc first behind p cie = Some r" "r = Inr (Some (fde, cie'))"
  shows "fdeStart fde < behind \<and> pcStart fde \<le> pc \<and> pc < pcEnd fde \<and> first \<le> cieStart cie' \<and> cieStart cie' < behind \<and>
    (\<exists>cie. \<forall>fde0. decodeFDE m (fdeStart fde) fde0 cie False = Some (Inr (None, fde, cie')))"
  using assms
proof (induction rule: scan_section.raw_induct [rotated 1, consumes 1])
  case (1 loop m pc first behind p cie r)
  then show ?case
    by (auto split: if_splits sum.splits option.splits dest!: scan_entry_found)
qed

section \<open>A sample section\<close>

text \<open>The entries of a function with a frame pointer, at 0x1000, for instructions at 0x2000: a common entry (\<open>zR\<close>, addresses
  relative to their place) and a frame description entry, and the table of the section at 0x1100.\<close>

definition image :: "uptr \<Rightarrow> byte list \<Rightarrow> address_space \<Rightarrow> address_space" where
  "image base bs m = (\<lambda>a. if unat (a - base) < length bs then bs ! unat (a - base) else m a)"

definition sample_eh_frame :: "byte list" where
  "sample_eh_frame =
     [0x14, 0, 0, 0, 0, 0, 0, 0, 1, 0x7A, 0x52, 0, 1, 0x78, 0x10, 1, 0x1B, 0x0C, 7, 8, 0x90, 1, 0, 0,
      0x1C, 0, 0, 0, 0x1C, 0, 0, 0, 0xE0, 0x0F, 0, 0, 0x40, 0, 0, 0, 0, 0x41, 0x0E, 0x10, 0x86, 2, 0x43, 0x0D, 6,
      0, 0, 0, 0, 0, 0, 0]"

definition sample_eh_frame_hdr :: "byte list" where
  "sample_eh_frame_hdr =
     [1, 0x1B, 3, 0x3B, 0xFC, 0xFE, 0xFF, 0xFF, 1, 0, 0, 0, 0, 0x0F, 0, 0, 0x18, 0xFF, 0xFF, 0xFF]"

definition sample_memory :: address_space where
  "sample_memory = image 0x1000 sample_eh_frame (image 0x1100 sample_eh_frame_hdr (\<lambda>a. 0))"

definition zero_cie :: cie_info where
  "zero_cie = \<lparr>cieStart = 0, cieLength = 0, cieInstructions = 0, pointerEncoding = 0, lsdaEncoding = 0,
     personalityEncoding = 0, personalityOffsetInCIE = 0, personality = 0, codeAlignFactor = 0, dataAlignFactor = 0,
     isSignalFrame = False, fdesHaveAugmentationData = False, returnAddressRegister = 0\<rparr>"

definition zero_fde :: fde_info where
  "zero_fde = \<lparr>fdeStart = 0, fdeLength = 0, fdeInstructions = 0, pcStart = 0, pcEnd = 0, lsda = 0\<rparr>"

definition sample_cie :: cie_info where
  "sample_cie = \<lparr>cieStart = 0x1000, cieLength = 24, cieInstructions = 0x1011, pointerEncoding = 0x1B, lsdaEncoding = 0xFF,
     personalityEncoding = 0, personalityOffsetInCIE = 0, personality = 0, codeAlignFactor = 1, dataAlignFactor = - 8,
     isSignalFrame = False, fdesHaveAugmentationData = True, returnAddressRegister = 16\<rparr>"

definition sample_fde :: fde_info where
  "sample_fde = \<lparr>fdeStart = 0x1018, fdeLength = 32, fdeInstructions = 0x1029, pcStart = 0x2000, pcEnd = 0x2040, lsda = 0\<rparr>"

lemma sample_decodes:
  "decodeFDE sample_memory 0x1018 zero_fde zero_cie False = Some (Inr (None, sample_fde, sample_cie))"
  by code_simp

lemma sample_scan:
  "findFDE sample_memory 0x2010 0x1000 56 0 zero_cie = Some (Inr (Some (sample_fde, sample_cie)))"
  by code_simp

text \<open>C13: the scan of a section finds an entry that covers the program counter.  What it returns has the program counter in
  its range, starts within the section, as its common entry does, and is the pair of structures that
  \<open>decodeFDE\<close> reads at that address; so a scan and a table lead to the same unwinding.\<close>
theorem scan_finds_covering_entry:
  assumes "findFDE m pc ehSectionStart sectionLength fdeHint cie = Some (Inr (Some (fde, cie')))"
    and "sectionLength \<noteq> - 1"
  shows "pcStart fde \<le> pc \<and> pc < pcEnd fde \<and> fdeStart fde < ehSectionStart + sectionLength \<and>
    ehSectionStart \<le> cieStart cie' \<and> cieStart cie' < ehSectionStart + sectionLength \<and>
    (\<exists>cie. \<forall>fde0. decodeFDE m (fdeStart fde) fde0 cie False = Some (Inr (None, fde, cie')))"
  using assms scan_section_found [OF _ refl, of m pc ehSectionStart "ehSectionStart + sectionLength" _ cie fde cie']
  unfolding findFDE_def by auto

theorem scan_finds_covering_entry_witness:
  "pcStart sample_fde \<le> 0x2010 \<and> 0x2010 < pcEnd sample_fde \<and> cieStart sample_cie < 0x1038"
  using scan_finds_covering_entry [OF sample_scan] by simp

end
