(* ===== verification/DwarfProgram.thy ===== *)
theory DwarfProgram
  imports DwarfCFI "HOL-Library.Signed_Division"
begin

text \<open>
  \<open>CFI_Parser::parseFDEInstructions\<close> of \<^verbatim>\<open>libunwind/src/DwarfParser.hpp\<close>: the call frame instructions of the common
  entry and of the frame description entry are run up to a program counter, and leave the rules by which
  the registers of the caller are found.  The initial state of the registers is saved lazily, at the first change
  of each; a register of it never saved is \<open>None\<close>, and its read a fault.  \<open>kmax\<close> is \<open>kMaxRegisterNumber\<close>, \<open>alloc n\<close>
  whether an entry of the stack of remembered states can be allocated when it holds \<open>n\<close>.
\<close>

unbundle bit_operations_syntax

section \<open>Rules\<close>

datatype saved_where =
    kRegisterUnused
  | kRegisterUndefined
  | kRegisterInCFA
  | kRegisterInCFADecrypt
  | kRegisterOffsetFromCFA
  | kRegisterInRegister
  | kRegisterAtExpression
  | kRegisterIsExpression

record register_location =
  location :: saved_where
  initialStateSaved :: bool
  value_of :: "64 word"

record prolog_info =
  cfaRegister :: "32 word"
  cfaRegisterOffset :: "32 word"
  cfaExpression :: "64 word"
  spExtraArgSize :: "32 word"
  savedRegisters :: "register_location list"

definition zero_location :: register_location where
  "zero_location = \<lparr>location = kRegisterUnused, initialStateSaved = False, value_of = 0\<rparr>"

text \<open>The constructor clears the structure.\<close>

definition zero_prolog :: "nat \<Rightarrow> prolog_info" where
  "zero_prolog kmax = \<lparr>cfaRegister = 0, cfaRegisterOffset = 0, cfaExpression = 0, spExtraArgSize = 0,
     savedRegisters = replicate (kmax + 1) zero_location\<rparr>"

record cfi_state =
  cfi_pos :: uptr
  codeOffset :: uptr
  results :: prolog_info
  initialState :: "nat \<Rightarrow> register_location option"
  rememberStack :: "prolog_info list"

definition put_register :: "nat \<Rightarrow> register_location \<Rightarrow> cfi_state \<Rightarrow> cfi_state" where
  "put_register reg l s =
     s\<lparr>results := (results s)\<lparr>savedRegisters := (savedRegisters (results s))[reg := l]\<rparr>\<rparr>"

definition get_register :: "nat \<Rightarrow> cfi_state \<Rightarrow> register_location" where
  "get_register reg s = savedRegisters (results s) ! reg"

definition checkSaveRegister :: "nat \<Rightarrow> cfi_state \<Rightarrow> cfi_state" where
  "checkSaveRegister reg s =
     (let l = get_register reg s in
      if \<not> initialStateSaved l then
        put_register reg (l\<lparr>initialStateSaved := True\<rparr>) (s\<lparr>initialState := (initialState s)(reg := Some l)\<rparr>)
      else s)"

definition setRegister :: "nat \<Rightarrow> saved_where \<Rightarrow> 64 word \<Rightarrow> cfi_state \<Rightarrow> cfi_state" where
  "setRegister reg newLocation newValue s =
     (let s = checkSaveRegister reg s in
      put_register reg ((get_register reg s)\<lparr>location := newLocation, value_of := newValue\<rparr>) s)"

definition setRegisterLocation :: "nat \<Rightarrow> saved_where \<Rightarrow> cfi_state \<Rightarrow> cfi_state" where
  "setRegisterLocation reg newLocation s =
     (let s = checkSaveRegister reg s in
      put_register reg ((get_register reg s)\<lparr>location := newLocation\<rparr>) s)"

definition restoreRegisterToInitialState :: "nat \<Rightarrow> cfi_state \<Rightarrow> cfi_state fallible" where
  "restoreRegisterToInitialState reg s =
     (if initialStateSaved (get_register reg s) then
        (case initialState s reg of
           None \<Rightarrow> Inl Uninitialised
         | Some l \<Rightarrow> Inr (put_register reg l s))
      else Inr s)"

section \<open>Operands\<close>

text \<open>The product of an operand and the data alignment factor, at 64 bits.\<close>

definition signed64 :: "int \<Rightarrow> 64 word fallible" where
  "signed64 r = (if - (2 ^ 63) \<le> r \<and> r < 2 ^ 63 then Inr (word_of_int r) else Inl Signed_overflow)"

definition factored :: "cie_info \<Rightarrow> 64 word \<Rightarrow> 64 word fallible" where
  "factored cie operand = signed64 (sint operand * sint (dataAlignFactor cie))"

text \<open>A step of the location: the product is taken at 32 bits, the sum at the size of an address.\<close>

definition advance_location :: "cie_info \<Rightarrow> 32 word \<Rightarrow> uptr \<Rightarrow> uptr" where
  "advance_location cie delta offset = offset + ucast (delta * codeAlignFactor cie)"

text \<open>Operands move the position behind them; \<open>None\<close> is the result \<open>false\<close>.\<close>

type_synonym cfi_result = "cfi_state option fallible"

definition read_unsigned :: "address_space \<Rightarrow> uptr \<Rightarrow> cfi_state \<Rightarrow> (64 word \<Rightarrow> cfi_state \<Rightarrow> cfi_result) \<Rightarrow> cfi_result" where
  "read_unsigned m pend s f = bind_ok (getULEB128 m (cfi_pos s) pend) (\<lambda>(v, p). f v (s\<lparr>cfi_pos := p\<rparr>))"

definition read_signed :: "address_space \<Rightarrow> uptr \<Rightarrow> cfi_state \<Rightarrow> (64 word \<Rightarrow> cfi_state \<Rightarrow> cfi_result) \<Rightarrow> cfi_result" where
  "read_signed m pend s f = bind_ok (getSLEB128 m (cfi_pos s) pend) (\<lambda>(v, p). f v (s\<lparr>cfi_pos := p\<rparr>))"

definition proceed :: "cfi_state \<Rightarrow> cfi_result" where
  "proceed s = Inr (Some s)"

definition in_table :: "nat \<Rightarrow> 64 word \<Rightarrow> (nat \<Rightarrow> cfi_result) \<Rightarrow> cfi_result" where
  "in_table kmax reg f = (if unat reg > kmax then Inr None else f (unat reg))"

text \<open>A block: its length is read, and it is skipped.\<close>

definition skip_block :: "address_space \<Rightarrow> uptr \<Rightarrow> cfi_state \<Rightarrow> cfi_result" where
  "skip_block m pend s =
     read_unsigned m pend s (\<lambda>len s.
       if len < - 1 then proceed (s\<lparr>cfi_pos := cfi_pos s + len\<rparr>) else Inl Assertion)"

section \<open>The instructions\<close>

definition DW_CFA_nop :: byte where "DW_CFA_nop = 0x0"
definition DW_CFA_set_loc :: byte where "DW_CFA_set_loc = 0x1"
definition DW_CFA_advance_loc1 :: byte where "DW_CFA_advance_loc1 = 0x2"
definition DW_CFA_advance_loc2 :: byte where "DW_CFA_advance_loc2 = 0x3"
definition DW_CFA_advance_loc4 :: byte where "DW_CFA_advance_loc4 = 0x4"
definition DW_CFA_offset_extended :: byte where "DW_CFA_offset_extended = 0x5"
definition DW_CFA_restore_extended :: byte where "DW_CFA_restore_extended = 0x6"
definition DW_CFA_undefined :: byte where "DW_CFA_undefined = 0x7"
definition DW_CFA_same_value :: byte where "DW_CFA_same_value = 0x8"
definition DW_CFA_register :: byte where "DW_CFA_register = 0x9"
definition DW_CFA_remember_state :: byte where "DW_CFA_remember_state = 0xA"
definition DW_CFA_restore_state :: byte where "DW_CFA_restore_state = 0xB"
definition DW_CFA_def_cfa :: byte where "DW_CFA_def_cfa = 0xC"
definition DW_CFA_def_cfa_register :: byte where "DW_CFA_def_cfa_register = 0xD"
definition DW_CFA_def_cfa_offset :: byte where "DW_CFA_def_cfa_offset = 0xE"
definition DW_CFA_def_cfa_expression :: byte where "DW_CFA_def_cfa_expression = 0xF"
definition DW_CFA_expression :: byte where "DW_CFA_expression = 0x10"
definition DW_CFA_offset_extended_sf :: byte where "DW_CFA_offset_extended_sf = 0x11"
definition DW_CFA_def_cfa_sf :: byte where "DW_CFA_def_cfa_sf = 0x12"
definition DW_CFA_def_cfa_offset_sf :: byte where "DW_CFA_def_cfa_offset_sf = 0x13"
definition DW_CFA_val_offset :: byte where "DW_CFA_val_offset = 0x14"
definition DW_CFA_val_offset_sf :: byte where "DW_CFA_val_offset_sf = 0x15"
definition DW_CFA_val_expression :: byte where "DW_CFA_val_expression = 0x16"
definition DW_CFA_GNU_args_size :: byte where "DW_CFA_GNU_args_size = 0x2E"
definition DW_CFA_GNU_negative_offset_extended :: byte where "DW_CFA_GNU_negative_offset_extended = 0x2F"
definition DW_CFA_advance_loc :: byte where "DW_CFA_advance_loc = 0x40"
definition DW_CFA_offset :: byte where "DW_CFA_offset = 0x80"
definition DW_CFA_restore :: byte where "DW_CFA_restore = 0xC0"

lemmas cfa_opcodes = DW_CFA_nop_def DW_CFA_set_loc_def DW_CFA_advance_loc1_def DW_CFA_advance_loc2_def
  DW_CFA_advance_loc4_def DW_CFA_offset_extended_def DW_CFA_restore_extended_def DW_CFA_undefined_def
  DW_CFA_same_value_def DW_CFA_register_def DW_CFA_remember_state_def DW_CFA_restore_state_def DW_CFA_def_cfa_def
  DW_CFA_def_cfa_register_def DW_CFA_def_cfa_offset_def DW_CFA_def_cfa_expression_def DW_CFA_expression_def
  DW_CFA_offset_extended_sf_def DW_CFA_def_cfa_sf_def DW_CFA_def_cfa_offset_sf_def DW_CFA_val_offset_def
  DW_CFA_val_offset_sf_def DW_CFA_val_expression_def DW_CFA_GNU_args_size_def
  DW_CFA_GNU_negative_offset_extended_def DW_CFA_advance_loc_def DW_CFA_offset_def DW_CFA_restore_def

text \<open>The location.\<close>

definition cfa_location :: "address_space \<Rightarrow> uptr \<Rightarrow> cie_info \<Rightarrow> byte \<Rightarrow> cfi_state \<Rightarrow> cfi_result" where
  "cfa_location m pend cie opcode s =
     (let p = cfi_pos s; move = (\<lambda>delta n. proceed (s\<lparr>codeOffset := advance_location cie delta (codeOffset s), cfi_pos := p + n\<rparr>)) in
      if opcode = DW_CFA_nop then proceed s
      else if opcode = DW_CFA_set_loc then
        bind_ok (getEncodedP m p pend (pointerEncoding cie) 0) (\<lambda>(target, p, _).
        proceed (s\<lparr>codeOffset := target, cfi_pos := p\<rparr>))
      else if opcode = DW_CFA_advance_loc1 then move (ucast (get8 m p)) 1
      else if opcode = DW_CFA_advance_loc2 then move (ucast (get16 m p)) 2
      else move (get32 m p) 4)"

text \<open>The rule of a register.\<close>

definition cfa_rule :: "address_space \<Rightarrow> uptr \<Rightarrow> cie_info \<Rightarrow> nat \<Rightarrow> byte \<Rightarrow> cfi_state \<Rightarrow> cfi_result" where
  "cfa_rule m pend cie kmax opcode s =
     read_unsigned m pend s (\<lambda>reg s.
     if opcode = DW_CFA_offset_extended then
       read_unsigned m pend s (\<lambda>v s. bind_ok (factored cie v) (\<lambda>offset.
       in_table kmax reg (\<lambda>r. proceed (setRegister r kRegisterInCFA offset s))))
     else if opcode = DW_CFA_restore_extended then
       in_table kmax reg (\<lambda>r. bind_ok (restoreRegisterToInitialState r s) proceed)
     else if opcode = DW_CFA_undefined then
       in_table kmax reg (\<lambda>r. proceed (setRegisterLocation r kRegisterUndefined s))
     else if opcode = DW_CFA_same_value then
       in_table kmax reg (\<lambda>r. proceed (setRegisterLocation r kRegisterUnused s))
     else
       read_unsigned m pend s (\<lambda>reg2 s.
       in_table kmax reg (\<lambda>r. in_table kmax reg2 (\<lambda>_. proceed (setRegister r kRegisterInRegister reg2 s)))))"

text \<open>The stack of states.\<close>

definition cfa_state :: "(nat \<Rightarrow> bool) \<Rightarrow> byte \<Rightarrow> cfi_state \<Rightarrow> cfi_result" where
  "cfa_state alloc opcode s =
     (if opcode = DW_CFA_remember_state then
        if alloc (length (rememberStack s)) then proceed (s\<lparr>rememberStack := results s # rememberStack s\<rparr>)
        else Inr None
      else
        (case rememberStack s of
           [] \<Rightarrow> Inr None
         | entry # entries \<Rightarrow> proceed (s\<lparr>results := entry, rememberStack := entries\<rparr>)))"

text \<open>The canonical frame address.\<close>

definition put_cfa :: "32 word \<Rightarrow> cfi_state \<Rightarrow> cfi_state" where
  "put_cfa reg s = s\<lparr>results := (results s)\<lparr>cfaRegister := reg\<rparr>\<rparr>"

definition put_cfa_offset :: "32 word \<Rightarrow> cfi_state \<Rightarrow> cfi_state" where
  "put_cfa_offset offset s = s\<lparr>results := (results s)\<lparr>cfaRegisterOffset := offset\<rparr>\<rparr>"

definition cfa_address :: "address_space \<Rightarrow> uptr \<Rightarrow> cie_info \<Rightarrow> nat \<Rightarrow> byte \<Rightarrow> cfi_state \<Rightarrow> cfi_result" where
  "cfa_address m pend cie kmax opcode s =
     (if opcode = DW_CFA_def_cfa then
        read_unsigned m pend s (\<lambda>reg s. read_unsigned m pend s (\<lambda>offset s.
        in_table kmax reg (\<lambda>_. proceed (put_cfa (ucast reg) (put_cfa_offset (ucast offset) s)))))
      else if opcode = DW_CFA_def_cfa_register then
        read_unsigned m pend s (\<lambda>reg s. in_table kmax reg (\<lambda>_. proceed (put_cfa (ucast reg) s)))
      else if opcode = DW_CFA_def_cfa_offset then
        read_unsigned m pend s (\<lambda>offset s. proceed (put_cfa_offset (ucast offset) s))
      else if opcode = DW_CFA_def_cfa_expression then
        skip_block m pend (s\<lparr>results := (results s)\<lparr>cfaRegister := 0, cfaExpression := cfi_pos s\<rparr>\<rparr>)
      else if opcode = DW_CFA_def_cfa_sf then
        read_unsigned m pend s (\<lambda>reg s. read_signed m pend s (\<lambda>v s. bind_ok (factored cie v) (\<lambda>offset.
        in_table kmax reg (\<lambda>_. proceed (put_cfa (ucast reg) (put_cfa_offset (ucast offset) s))))))
      else
        read_signed m pend s (\<lambda>v s. bind_ok (factored cie v) (\<lambda>offset.
        proceed (put_cfa_offset (ucast offset) s))))"

text \<open>The rules whose register is checked before their second operand is read.\<close>

definition cfa_value :: "address_space \<Rightarrow> uptr \<Rightarrow> cie_info \<Rightarrow> nat \<Rightarrow> byte \<Rightarrow> cfi_state \<Rightarrow> cfi_result" where
  "cfa_value m pend cie kmax opcode s =
     read_unsigned m pend s (\<lambda>reg s. in_table kmax reg (\<lambda>r.
     if opcode = DW_CFA_expression then
       skip_block m pend (setRegister r kRegisterAtExpression (cfi_pos s) s)
     else if opcode = DW_CFA_offset_extended_sf then
       read_signed m pend s (\<lambda>v s. bind_ok (factored cie v) (\<lambda>offset. proceed (setRegister r kRegisterInCFA offset s)))
     else if opcode = DW_CFA_val_offset then
       read_unsigned m pend s (\<lambda>v s. bind_ok (factored cie v) (\<lambda>offset.
       proceed (setRegister r kRegisterOffsetFromCFA offset s)))
     else if opcode = DW_CFA_val_offset_sf then
       read_signed m pend s (\<lambda>v s. bind_ok (factored cie v) (\<lambda>offset.
       proceed (setRegister r kRegisterOffsetFromCFA offset s)))
     else if opcode = DW_CFA_val_expression then
       skip_block m pend (setRegister r kRegisterIsExpression (cfi_pos s) s)
     else
       read_unsigned m pend s (\<lambda>v s. bind_ok (factored cie v) (\<lambda>offset.
       bind_ok (signed64 (- sint offset)) (\<lambda>offset. proceed (setRegister r kRegisterInCFA offset s))))))"

text \<open>The instructions with an operand in the opcode.\<close>

definition cfa_packed :: "address_space \<Rightarrow> uptr \<Rightarrow> cie_info \<Rightarrow> nat \<Rightarrow> byte \<Rightarrow> cfi_state \<Rightarrow> cfi_result" where
  "cfa_packed m pend cie kmax opcode s =
     (let operand = opcode AND 0x3F; kind = opcode AND 0xC0 in
      if kind = DW_CFA_offset then
        in_table kmax (ucast operand) (\<lambda>r.
        read_unsigned m pend s (\<lambda>v s. bind_ok (factored cie v) (\<lambda>offset.
        proceed (setRegister r kRegisterInCFA offset s))))
      else if kind = DW_CFA_advance_loc then
        proceed (s\<lparr>codeOffset := advance_location cie (ucast operand) (codeOffset s)\<rparr>)
      else if kind = DW_CFA_restore then
        in_table kmax (ucast operand) (\<lambda>r. bind_ok (restoreRegisterToInitialState r s) proceed)
      else Inr None)"

text \<open>One turn of the loop.\<close>

definition cfa_step ::
    "address_space \<Rightarrow> uptr \<Rightarrow> cie_info \<Rightarrow> nat \<Rightarrow> (nat \<Rightarrow> bool) \<Rightarrow> cfi_state \<Rightarrow> cfi_result" where
  "cfa_step m pend cie kmax alloc s =
     (let opcode = get8 m (cfi_pos s); s = s\<lparr>cfi_pos := cfi_pos s + 1\<rparr> in
      if opcode \<le> DW_CFA_advance_loc4 then cfa_location m pend cie opcode s
      else if opcode \<le> DW_CFA_register then cfa_rule m pend cie kmax opcode s
      else if opcode \<le> DW_CFA_restore_state then cfa_state alloc opcode s
      else if opcode \<le> DW_CFA_def_cfa_expression \<or> opcode = DW_CFA_def_cfa_sf \<or> opcode = DW_CFA_def_cfa_offset_sf then
        cfa_address m pend cie kmax opcode s
      else if opcode \<le> DW_CFA_val_expression \<or> opcode = DW_CFA_GNU_negative_offset_extended then
        cfa_value m pend cie kmax opcode s
      else if opcode = DW_CFA_GNU_args_size then
        read_unsigned m pend s (\<lambda>len s. proceed (s\<lparr>results := (results s)\<lparr>spExtraArgSize := ucast len\<rparr>\<rparr>))
      else cfa_packed m pend cie kmax opcode s)"

partial_function (option) cfa_loop ::
    "address_space \<Rightarrow> uptr \<Rightarrow> cie_info \<Rightarrow> nat \<Rightarrow> (nat \<Rightarrow> bool) \<Rightarrow> uptr \<Rightarrow> cfi_state \<Rightarrow> cfi_result option" where
  "cfa_loop m pend cie kmax alloc pcoffset s =
     (if cfi_pos s < pend \<and> codeOffset s < pcoffset then
        (case cfa_step m pend cie kmax alloc s of
           Inl e \<Rightarrow> Some (Inl e)
         | Inr r \<Rightarrow>
             (case r of
                None \<Rightarrow> Some (Inr None)
              | Some s' \<Rightarrow> cfa_loop m pend cie kmax alloc pcoffset s'))
      else Some (Inr (Some s)))"

declare cfa_loop.simps [code]

text \<open>A program: a fresh initial state, and the location at the start of the function.\<close>

definition cfa_program ::
    "address_space \<Rightarrow> cie_info \<Rightarrow> nat \<Rightarrow> (nat \<Rightarrow> bool) \<Rightarrow> uptr \<times> uptr \<times> uptr \<Rightarrow> prolog_info \<times> prolog_info list \<Rightarrow> cfi_result option" where
  "cfa_program m cie kmax alloc info given =
     (let (instructions, instructionsEnd, pcoffset) = info; (res, remembered) = given in
      cfa_loop m instructionsEnd cie kmax alloc pcoffset
        \<lparr>cfi_pos = instructions, codeOffset = 0, results = res, initialState = (\<lambda>_. None), rememberStack = remembered\<rparr>)"

definition parseFDEInstructions ::
    "address_space \<Rightarrow> fde_info \<Rightarrow> cie_info \<Rightarrow> nat \<Rightarrow> (nat \<Rightarrow> bool) \<Rightarrow> uptr \<Rightarrow> prolog_info \<Rightarrow> prolog_info option fallible option" where
  "parseFDEInstructions m fde cie kmax alloc upToPC res =
     and_then (cfa_program m cie kmax alloc (cieInstructions cie, cieStart cie + cieLength cie, - 1) (res, []))
       (\<lambda>r. case r of
          None \<Rightarrow> Some (Inr None)
        | Some s \<Rightarrow>
            and_then
              (cfa_program m cie kmax alloc (fdeInstructions fde, fdeStart fde + fdeLength fde, upToPC - pcStart fde)
                (results s, rememberStack s))
              (\<lambda>r. Some (Inr (map_option results r))))"

end
