(* ===== verification/DwarfRules.thy ===== *)
theory DwarfRules
  imports DwarfProgram
begin

text \<open>
  What the call frame instructions establish: invariants of the machine of \<open>parseFDEInstructions\<close> over all the states
  a program reaches.  The contract of an invariant is a locale; its interpretations are the shape of
  the table of rules, and what the lazily saved initial state holds.
\<close>

unbundle bit_operations_syntax

section \<open>Reached states\<close>

text \<open>The states between the instructions of a program.\<close>

inductive cfa_reaches ::
    "address_space \<Rightarrow> uptr \<Rightarrow> cie_info \<Rightarrow> nat \<Rightarrow> (nat \<Rightarrow> bool) \<Rightarrow> cfi_state \<Rightarrow> cfi_state \<Rightarrow> bool"
  for m pend cie kmax alloc where
  start: "cfa_reaches m pend cie kmax alloc s s"
| step: "cfa_reaches m pend cie kmax alloc s s' \<Longrightarrow> cfa_step m pend cie kmax alloc s' = Inr (Some s'') \<Longrightarrow>
    cfa_reaches m pend cie kmax alloc s s''"

lemma cfa_reaches_trans:
  "cfa_reaches m pend cie kmax alloc s' s'' \<Longrightarrow> cfa_reaches m pend cie kmax alloc s s' \<Longrightarrow>
    cfa_reaches m pend cie kmax alloc s s''"
  by (induction rule: cfa_reaches.induct) (auto intro: cfa_reaches.step)

lemma cfa_loop_reaches:
  assumes "cfa_loop m pend cie kmax alloc pcoffset s = Some r" "r = Inr (Some s')"
  shows "cfa_reaches m pend cie kmax alloc s s'"
  using assms
proof (induction rule: cfa_loop.raw_induct [rotated 1, consumes 1])
  case (1 loop m pend cie kmax alloc pcoffset s r)
  show ?case
  proof (cases "cfi_pos s < pend \<and> codeOffset s < pcoffset")
    case True
    then obtain s1 where s1: "cfa_step m pend cie kmax alloc s = Inr (Some s1)"
      "loop m pend cie kmax alloc pcoffset s1 = Some r"
      using 1(2,3) by (auto split: sum.splits option.splits)
    then show ?thesis
      using 1(1) [OF s1(2) 1(3)] cfa_reaches_trans [OF _ cfa_reaches.step [OF cfa_reaches.start s1(1)]] by blast
  next
    case False
    then show ?thesis using 1(2,3) by (auto intro: cfa_reaches.start)
  qed
qed

section \<open>Invariants\<close>

definition put_cfa_expression :: "64 word \<Rightarrow> cfi_state \<Rightarrow> cfi_state" where
  "put_cfa_expression e s = s\<lparr>results := (results s)\<lparr>cfaExpression := e\<rparr>\<rparr>"

definition put_args_size :: "32 word \<Rightarrow> cfi_state \<Rightarrow> cfi_state" where
  "put_args_size n s = s\<lparr>results := (results s)\<lparr>spExtraArgSize := n\<rparr>\<rparr>"

locale cfi_invariant =
  fixes kmax :: nat
    and I :: "cfi_state \<Rightarrow> bool"
  assumes moved: "I s \<Longrightarrow> I (s\<lparr>cfi_pos := p\<rparr>)"
    and located: "I s \<Longrightarrow> I (s\<lparr>codeOffset := offset\<rparr>)"
    and ruled: "I s \<Longrightarrow> r \<le> kmax \<Longrightarrow> (l = kRegisterInRegister \<Longrightarrow> unat v \<le> kmax) \<Longrightarrow> l \<noteq> kRegisterInCFADecrypt \<Longrightarrow>
      I (setRegister r l v s)"
    and relocated: "I s \<Longrightarrow> r \<le> kmax \<Longrightarrow> l = kRegisterUndefined \<or> l = kRegisterUnused \<Longrightarrow> I (setRegisterLocation r l s)"
    and restored: "I s \<Longrightarrow> r \<le> kmax \<Longrightarrow> restoreRegisterToInitialState r s = Inr s' \<Longrightarrow> I s'"
    and remembered: "I s \<Longrightarrow> I (s\<lparr>rememberStack := results s # rememberStack s\<rparr>)"
    and recalled: "I s \<Longrightarrow> rememberStack s = e # es \<Longrightarrow> I (s\<lparr>results := e, rememberStack := es\<rparr>)"
    and framed: "I s \<Longrightarrow> unat reg \<le> kmax \<Longrightarrow> I (put_cfa reg s)"
    and offset: "I s \<Longrightarrow> I (put_cfa_offset d s)"
    and expressed: "I s \<Longrightarrow> I (put_cfa_expression x s)"
    and sized: "I s \<Longrightarrow> I (put_args_size n s)"
begin

text \<open>The operand readers hand the invariant on.\<close>

definition keeps :: "cfi_result \<Rightarrow> bool" where
  "keeps r \<longleftrightarrow> (\<forall>s. r = Inr (Some s) \<longrightarrow> I s)"

lemma keeps_operand:
  "I s \<Longrightarrow> (\<And>v s. I s \<Longrightarrow> keeps (f v s)) \<Longrightarrow> keeps (bind_ok r (\<lambda>(v, p). f v (s\<lparr>cfi_pos := p\<rparr>)))"
proof (cases r)
  case (Inr x)
  obtain v p where "x = (v, p)" by (cases x)
  moreover assume "I s" "\<And>v s. I s \<Longrightarrow> keeps (f v s)"
  ultimately show ?thesis using Inr moved [of s p] by simp
qed (simp add: keeps_def)

lemma keeps_unsigned: "I s \<Longrightarrow> (\<And>v s. I s \<Longrightarrow> keeps (f v s)) \<Longrightarrow> keeps (read_unsigned m pend s f)"
  unfolding read_unsigned_def by (rule keeps_operand)

lemma keeps_signed: "I s \<Longrightarrow> (\<And>v s. I s \<Longrightarrow> keeps (f v s)) \<Longrightarrow> keeps (read_signed m pend s f)"
  unfolding read_signed_def by (rule keeps_operand)

lemma keeps_if: "(c \<Longrightarrow> keeps a) \<Longrightarrow> (\<not> c \<Longrightarrow> keeps b) \<Longrightarrow> keeps (if c then a else b)"
  by simp

lemma keeps_table: "(unat reg \<le> kmax \<Longrightarrow> keeps (f (unat reg))) \<Longrightarrow> keeps (in_table kmax reg f)"
  by (simp add: keeps_def in_table_def)

lemma keeps_bind: "(\<And>x. r = Inr x \<Longrightarrow> keeps (f x)) \<Longrightarrow> keeps (bind_ok r f)"
  by (cases r) (auto simp: keeps_def)

lemma keeps_proceed: "I s \<Longrightarrow> keeps (proceed s)"
  by (simp add: keeps_def proceed_def)

lemma keeps_fault: "keeps (Inl e)" "keeps (Inr None)"
  by (simp_all add: keeps_def)

lemma keeps_block: "I s \<Longrightarrow> keeps (skip_block m pend s)"
  unfolding skip_block_def by (intro keeps_unsigned) (auto simp: keeps_def proceed_def moved)

lemmas keeping = keeps_unsigned keeps_signed keeps_table keeps_bind keeps_proceed keeps_fault keeps_block
  moved located ruled relocated remembered framed offset expressed sized

lemma keeps_location: "I s \<Longrightarrow> keeps (cfa_location m pend cie opcode s)"
  by (auto simp: cfa_location_def Let_def split: prod.split intro!: keeping)

lemma keeps_rule: "I s \<Longrightarrow> keeps (cfa_rule m pend cie kmax opcode s)"
  by (auto simp: cfa_rule_def intro!: keeping intro: restored)

lemma keeps_state: "I s \<Longrightarrow> keeps (cfa_state alloc opcode s)"
  unfolding cfa_state_def
  by (intro keeps_if keeps_proceed remembered keeps_fault) (auto intro!: keeps_proceed keeps_fault recalled split: list.split)

lemma narrow_number: "unat (ucast w :: 32 word) \<le> unat (w :: 64 word)"
  by (simp add: unsigned_ucast_eq take_bit_eq_mod [where 'a = nat] unsigned_take_bit_eq)

lemma keeps_address: "I s \<Longrightarrow> keeps (cfa_address m pend cie kmax opcode s)"
proof -
  have narrow: "unat w \<le> kmax \<Longrightarrow> unat (ucast w :: 32 word) \<le> kmax" for w :: "64 word"
    using narrow_number [of w] by simp
  have "s\<lparr>results := (results s)\<lparr>cfaRegister := 0, cfaExpression := e\<rparr>\<rparr> = put_cfa_expression e (put_cfa 0 s)" for s e
    by (simp add: put_cfa_expression_def put_cfa_def)
  then show "I s \<Longrightarrow> keeps (cfa_address m pend cie kmax opcode s)"
    by (auto simp: cfa_address_def narrow intro!: keeping)
qed

lemma keeps_value: "I s \<Longrightarrow> keeps (cfa_value m pend cie kmax opcode s)"
  by (auto simp: cfa_value_def intro!: keeping)

lemma keeps_packed: "I s \<Longrightarrow> keeps (cfa_packed m pend cie kmax opcode s)"
  by (auto simp: cfa_packed_def Let_def intro!: keeping intro: restored)

lemma step_keeps: "cfa_step m pend cie kmax alloc s = Inr (Some s') \<Longrightarrow> I s \<Longrightarrow> I s'"
proof -
  assume a: "cfa_step m pend cie kmax alloc s = Inr (Some s')" "I s"
  have "s\<lparr>results := (results s)\<lparr>spExtraArgSize := n\<rparr>\<rparr> = put_args_size n s" for s n by (simp add: put_args_size_def)
  then have "keeps (cfa_step m pend cie kmax alloc s)"
    unfolding cfa_step_def Let_def
    by (intro keeps_if keeps_location keeps_rule keeps_state keeps_address keeps_value keeps_packed keeps_unsigned
        moved [OF a(2)]) (simp add: keeps_proceed sized)
  then show ?thesis using a(1) by (simp add: keeps_def)
qed

lemma reaches_keeps: "cfa_reaches m pend cie kmax alloc s s' \<Longrightarrow> I s \<Longrightarrow> I s'"
  by (induction rule: cfa_reaches.induct) (auto intro: step_keeps)

end

section \<open>The table of rules\<close>

definition location_typed :: "nat \<Rightarrow> register_location \<Rightarrow> bool" where
  "location_typed kmax l \<longleftrightarrow> location l \<noteq> kRegisterInCFADecrypt \<and> (location l = kRegisterInRegister \<longrightarrow> unat (value_of l) \<le> kmax)"

definition prolog_typed :: "nat \<Rightarrow> prolog_info \<Rightarrow> bool" where
  "prolog_typed kmax p \<longleftrightarrow> length (savedRegisters p) = Suc kmax \<and> unat (cfaRegister p) \<le> kmax \<and>
     list_all (location_typed kmax) (savedRegisters p)"

definition cfi_typed :: "nat \<Rightarrow> cfi_state \<Rightarrow> bool" where
  "cfi_typed kmax s \<longleftrightarrow> prolog_typed kmax (results s) \<and> list_all (prolog_typed kmax) (rememberStack s) \<and>
     (\<forall>r l. initialState s r = Some l \<longrightarrow> location_typed kmax l)"

lemmas prolog_updates = put_register_def put_cfa_def put_cfa_offset_def put_cfa_expression_def put_args_size_def

lemma typed_get: "cfi_typed kmax s \<Longrightarrow> r \<le> kmax \<Longrightarrow> location_typed kmax (get_register r s)"
  by (simp add: cfi_typed_def prolog_typed_def get_register_def list_all_length)

lemma typed_put: "cfi_typed kmax s \<Longrightarrow> location_typed kmax l \<Longrightarrow> cfi_typed kmax (put_register r l s)"
  by (auto simp: cfi_typed_def prolog_typed_def put_register_def list_all_iff dest: set_update_subset_insert [THEN subsetD])

lemma typed_check: "cfi_typed kmax s \<Longrightarrow> r \<le> kmax \<Longrightarrow> cfi_typed kmax (checkSaveRegister r s)"
proof -
  assume a: "cfi_typed kmax s" "r \<le> kmax"
  let ?l = "get_register r s"
  have "cfi_typed kmax (s\<lparr>initialState := (initialState s)(r := Some ?l)\<rparr>)"
    using a(1) typed_get [OF a] by (auto simp: cfi_typed_def)
  moreover have "location_typed kmax (?l\<lparr>initialStateSaved := True\<rparr>)"
    using typed_get [OF a] by (simp add: location_typed_def)
  ultimately show ?thesis using a(1) typed_put by (auto simp: checkSaveRegister_def Let_def)
qed

lemma restore_cases:
  assumes "restoreRegisterToInitialState r s = Inr s'"
  shows "\<not> initialStateSaved (get_register r s) \<and> s' = s \<or>
    (\<exists>l. initialStateSaved (get_register r s) \<and> initialState s r = Some l \<and> s' = put_register r l s)"
proof (cases "initialStateSaved (get_register r s)")
  case True
  then show ?thesis using assms
    by (cases "initialState s r") (simp_all add: restoreRegisterToInitialState_def)
qed (use assms in \<open>simp add: restoreRegisterToInitialState_def\<close>)

interpretation typed: cfi_invariant kmax "cfi_typed kmax" for kmax
proof
  fix s s' :: cfi_state and r l v reg e es
  assume t: "cfi_typed kmax s"
  show "cfi_typed kmax (setRegister r l v s)"
    if "r \<le> kmax" "l = kRegisterInRegister \<Longrightarrow> unat v \<le> kmax" "l \<noteq> kRegisterInCFADecrypt"
    using typed_check [OF t that(1)] that unfolding setRegister_def Let_def
    by (intro typed_put) (auto simp: location_typed_def)
  show "cfi_typed kmax (setRegisterLocation r l s)"
    if "r \<le> kmax" "l = kRegisterUndefined \<or> l = kRegisterUnused"
    using typed_check [OF t that(1)] that unfolding setRegisterLocation_def Let_def
    by (intro typed_put) (auto simp: location_typed_def)
  show "cfi_typed kmax s'" if "r \<le> kmax" "restoreRegisterToInitialState r s = Inr s'"
  proof -
    note f = that(2)
    consider "s' = s" | l where "initialState s r = Some l" "s' = put_register r l s"
      using restore_cases [OF f] by blast
    then show ?thesis
    proof cases
      case 2
      then have "location_typed kmax l" using t by (simp add: cfi_typed_def)
      then show ?thesis using 2(2) typed_put [OF t] by simp
    qed (simp add: t)
  qed
  show "cfi_typed kmax (s\<lparr>results := e, rememberStack := es\<rparr>)" if "rememberStack s = e # es"
    using t that by (simp add: cfi_typed_def)
qed (simp_all add: cfi_typed_def prolog_typed_def prolog_updates)

text \<open>C11: the rules that a run of the call frame instructions leaves are well-formed, whatever the bytes of the two
  programs: the table has one entry for each register up to the highest, no entry is of the kind that only SPARC
  uses, a rule that names a register and the register of the frame address name registers of the table.\<close>
theorem parsed_rules_typed:
  assumes "parseFDEInstructions m fde cie kmax alloc pc (zero_prolog kmax) = Some (Inr (Some res))"
  shows "prolog_typed kmax res"
proof -
  let ?start = "\<lambda>p res rem. \<lparr>cfi_pos = p, codeOffset = 0, results = res, initialState = (\<lambda>_. None), rememberStack = rem\<rparr>"
  have zero: "cfi_typed kmax (?start p (zero_prolog kmax) [])" for p
    by (simp add: cfi_typed_def prolog_typed_def zero_prolog_def location_typed_def zero_location_def list_all_iff)
  obtain s1 s2 where runs: "cfa_program m cie kmax alloc (cieInstructions cie, cieStart cie + cieLength cie, - 1)
        (zero_prolog kmax, []) = Some (Inr (Some s1))"
      "cfa_program m cie kmax alloc (fdeInstructions fde, fdeStart fde + fdeLength fde, pc - pcStart fde)
        (results s1, rememberStack s1) = Some (Inr (Some s2))" "res = results s2"
    using assms by (auto simp: parseFDEInstructions_def and_then_Inr split: option.splits)
  have "cfi_typed kmax s1"
    using typed.reaches_keeps [OF cfa_loop_reaches [OF _ refl] zero] runs(1) by (simp add: cfa_program_def)
  then have "cfi_typed kmax (?start (fdeInstructions fde) (results s1) (rememberStack s1))"
    by (simp add: cfi_typed_def)
  then have "cfi_typed kmax s2"
    using typed.reaches_keeps [OF cfa_loop_reaches [OF _ refl]] runs(2) by (fastforce simp: cfa_program_def)
  then show ?thesis by (simp add: cfi_typed_def runs(3))
qed

definition sample_prolog :: "uptr \<Rightarrow> prolog_info option fallible option" where
  "sample_prolog pc = parseFDEInstructions sample_memory sample_fde sample_cie 32 (\<lambda>_. True) pc (zero_prolog 32)"

definition sample_rules :: prolog_info where
  "sample_rules = \<lparr>cfaRegister = 6, cfaRegisterOffset = 16, cfaExpression = 0, spExtraArgSize = 0,
     savedRegisters = (replicate 33 zero_location)
       [6 := \<lparr>location = kRegisterInCFA, initialStateSaved = True, value_of = - 16\<rparr>,
        16 := \<lparr>location = kRegisterInCFA, initialStateSaved = True, value_of = - 8\<rparr>]\<rparr>"

lemma sample_parse: "sample_prolog 0x2010 = Some (Inr (Some sample_rules))"
  by code_simp

theorem parsed_rules_typed_witness: "length (savedRegisters sample_rules) = 33 \<and> cfaRegister sample_rules = 6"
  using parsed_rules_typed [OF sample_parse [unfolded sample_prolog_def]] by (simp add: prolog_typed_def sample_rules_def)

section \<open>The initial state\<close>

text \<open>A register \<open>r\<close> that starts a program unmarked, with the rule \<open>base\<close>: a table with \<open>r\<close> marked has its rule in the
  saved initial state, one with \<open>r\<close> unmarked still has the rule.\<close>

definition holds_base :: "nat \<Rightarrow> register_location \<Rightarrow> (nat \<Rightarrow> register_location option) \<Rightarrow> prolog_info \<Rightarrow> bool" where
  "holds_base r base init p \<longleftrightarrow> r < length (savedRegisters p) \<and>
     (if initialStateSaved (savedRegisters p ! r) then init r = Some base else savedRegisters p ! r = base)"

definition saved_lazily :: "nat \<Rightarrow> register_location \<Rightarrow> cfi_state \<Rightarrow> bool" where
  "saved_lazily r base s \<longleftrightarrow> \<not> initialStateSaved base \<and> holds_base r base (initialState s) (results s) \<and>
     list_all (holds_base r base (initialState s)) (rememberStack s)"

text \<open>A register that starts a program marked is never saved.\<close>

definition marked :: "nat \<Rightarrow> prolog_info \<Rightarrow> bool" where
  "marked r p \<longleftrightarrow> r < length (savedRegisters p) \<and> initialStateSaved (savedRegisters p ! r)"

definition never_saved :: "nat \<Rightarrow> cfi_state \<Rightarrow> bool" where
  "never_saved r s \<longleftrightarrow> initialState s r = None \<and> marked r (results s) \<and> list_all (marked r) (rememberStack s)"

lemma checkSave_fields [simp]:
  "rememberStack (checkSaveRegister q s) = rememberStack s"
  "savedRegisters (results (checkSaveRegister q s)) =
     (savedRegisters (results s))[q := (get_register q s)\<lparr>initialStateSaved := True\<rparr>]"
  "initialState (checkSaveRegister q s) =
     (if initialStateSaved (get_register q s) then initialState s else (initialState s)(q := Some (get_register q s)))"
proof -
  have mark: "l\<lparr>initialStateSaved := True\<rparr> = l" if "initialStateSaved l" for l :: register_location
    using that by (cases l) simp
  show "savedRegisters (results (checkSaveRegister q s)) =
     (savedRegisters (results s))[q := (get_register q s)\<lparr>initialStateSaved := True\<rparr>]"
    by (auto simp: checkSaveRegister_def Let_def put_register_def mark) (simp add: get_register_def mark)
qed (simp_all add: checkSaveRegister_def Let_def put_register_def)

lemma put_fields [simp]:
  "rememberStack (put_register q l s) = rememberStack s"
  "initialState (put_register q l s) = initialState s"
  "savedRegisters (results (put_register q l s)) = (savedRegisters (results s))[q := l]"
  by (simp_all add: put_register_def)

text \<open>A change of the rule of \<open>q\<close>, by either operation, is one of its location and value behind the check.\<close>

definition ruled_by :: "nat \<Rightarrow> cfi_state \<Rightarrow> cfi_state \<Rightarrow> bool" where
  "ruled_by q s s' \<longleftrightarrow> rememberStack s' = rememberStack s \<and> initialState s' = initialState (checkSaveRegister q s) \<and>
     (\<exists>l. initialStateSaved l \<and> savedRegisters (results s') = (savedRegisters (results s))[q := l])"

lemma ruled_by_set:
  assumes "q < length (savedRegisters (results s))"
  shows "ruled_by q s (setRegister q l v s)" "ruled_by q s (setRegisterLocation q l s)"
proof -
  have "initialStateSaved (get_register q (checkSaveRegister q s))"
    using assms unfolding get_register_def by simp
  then show "ruled_by q s (setRegister q l v s)" "ruled_by q s (setRegisterLocation q l s)"
    unfolding ruled_by_def setRegister_def setRegisterLocation_def Let_def
    by (simp_all add: exI [of _ "(get_register q (checkSaveRegister q s))\<lparr>location := l, value_of := v\<rparr>"]
        exI [of _ "(get_register q (checkSaveRegister q s))\<lparr>location := l\<rparr>"] del: checkSave_fields(3))
qed

lemma lazily_ruled:
  assumes "saved_lazily r base s" "ruled_by q s s'"
  shows "saved_lazily r base s'"
proof -
  obtain l where l: "initialStateSaved l" "savedRegisters (results s') = (savedRegisters (results s))[q := l]"
    and s': "rememberStack s' = rememberStack s" "initialState s' = initialState (checkSaveRegister q s)"
    using assms(2) by (auto simp: ruled_by_def)
  have base: "initialState s' r = Some base" if "q = r"
    using assms(1) that by (auto simp: s' saved_lazily_def holds_base_def get_register_def split: if_splits)
  have same: "initialState s' r = initialState s r" if "q \<noteq> r" using that by (simp add: s')
  have "holds_base r base (initialState s') p" if "holds_base r base (initialState s) p" for p
    using that base same by (cases "q = r") (simp_all add: holds_base_def)
  moreover have "holds_base r base (initialState s') (results s')"
    using assms(1) l base same by (cases "q = r") (auto simp: saved_lazily_def holds_base_def)
  ultimately show ?thesis using assms(1) by (auto simp: saved_lazily_def s'(1) list_all_iff)
qed

lemma never_saved_ruled:
  assumes "never_saved r s" "ruled_by q s s'"
  shows "never_saved r s'"
  using assms by (cases "q = r") (auto simp: never_saved_def marked_def ruled_by_def get_register_def)

lemma base_fields:
  "rememberStack (put_cfa c s) = rememberStack s" "initialState (put_cfa c s) = initialState s"
  "savedRegisters (results (put_cfa c s)) = savedRegisters (results s)"
  "rememberStack (put_cfa_offset d s) = rememberStack s" "initialState (put_cfa_offset d s) = initialState s"
  "savedRegisters (results (put_cfa_offset d s)) = savedRegisters (results s)"
  "rememberStack (put_cfa_expression x s) = rememberStack s" "initialState (put_cfa_expression x s) = initialState s"
  "savedRegisters (results (put_cfa_expression x s)) = savedRegisters (results s)"
  "rememberStack (put_args_size n s) = rememberStack s" "initialState (put_args_size n s) = initialState s"
  "savedRegisters (results (put_args_size n s)) = savedRegisters (results s)"
  by (simp_all add: prolog_updates)

text \<open>The two invariants, of tables of the size of the register file.\<close>

definition sized_tables :: "nat \<Rightarrow> cfi_state \<Rightarrow> bool" where
  "sized_tables kmax s \<longleftrightarrow> length (savedRegisters (results s)) = Suc kmax \<and>
     list_all (\<lambda>p. length (savedRegisters p) = Suc kmax) (rememberStack s)"

lemma sized_ruled: "sized_tables kmax s \<Longrightarrow> ruled_by q s s' \<Longrightarrow> sized_tables kmax s'"
  by (auto simp: sized_tables_def ruled_by_def)

interpretation lazily: cfi_invariant kmax "\<lambda>s. sized_tables kmax s \<and> saved_lazily r base s" for kmax r base
proof
  fix s s' :: cfi_state and q l v reg e es
  assume i: "sized_tables kmax s \<and> saved_lazily r base s"
  show "sized_tables kmax (setRegister q l v s) \<and> saved_lazily r base (setRegister q l v s)" if "q \<le> kmax"
  proof -
    have "ruled_by q s (setRegister q l v s)" using i that by (intro ruled_by_set) (simp add: sized_tables_def)
    then show ?thesis using i sized_ruled lazily_ruled by blast
  qed
  show "sized_tables kmax (setRegisterLocation q l s) \<and> saved_lazily r base (setRegisterLocation q l s)" if "q \<le> kmax"
  proof -
    have "ruled_by q s (setRegisterLocation q l s)" using i that by (intro ruled_by_set) (simp add: sized_tables_def)
    then show ?thesis using i sized_ruled lazily_ruled by blast
  qed
  show "sized_tables kmax s' \<and> saved_lazily r base s'" if "restoreRegisterToInitialState q s = Inr s'"
  proof -
    note f = that
    consider "s' = s" | a where "initialStateSaved (get_register q s)" "initialState s q = Some a" "s' = put_register q a s"
      using restore_cases [OF f] by blast
    then show ?thesis
    proof cases
      case 2
      have "a = base" if "q = r" using i 2(1,2) that
        by (simp add: saved_lazily_def holds_base_def get_register_def)
      then show ?thesis using i 2(3)
        by (cases "q = r") (auto simp: sized_tables_def saved_lazily_def holds_base_def nth_list_update)
    qed (use i in simp)
  qed
  show "sized_tables kmax (s\<lparr>results := e, rememberStack := es\<rparr>) \<and> saved_lazily r base (s\<lparr>results := e, rememberStack := es\<rparr>)"
    if "rememberStack s = e # es"
    using i that by (simp add: sized_tables_def saved_lazily_def)
qed (simp_all add: sized_tables_def saved_lazily_def holds_base_def base_fields)

interpretation unsaved: cfi_invariant kmax "\<lambda>s. sized_tables kmax s \<and> never_saved r s" for kmax r
proof
  fix s s' :: cfi_state and q l v reg e es
  assume i: "sized_tables kmax s \<and> never_saved r s"
  show "sized_tables kmax (setRegister q l v s) \<and> never_saved r (setRegister q l v s)" if "q \<le> kmax"
  proof -
    have "ruled_by q s (setRegister q l v s)" using i that by (intro ruled_by_set) (simp add: sized_tables_def)
    then show ?thesis using i sized_ruled never_saved_ruled by blast
  qed
  show "sized_tables kmax (setRegisterLocation q l s) \<and> never_saved r (setRegisterLocation q l s)" if "q \<le> kmax"
  proof -
    have "ruled_by q s (setRegisterLocation q l s)" using i that by (intro ruled_by_set) (simp add: sized_tables_def)
    then show ?thesis using i sized_ruled never_saved_ruled by blast
  qed
  show "sized_tables kmax s' \<and> never_saved r s'" if "restoreRegisterToInitialState q s = Inr s'"
  proof -
    note f = that
    consider "s' = s" | a where "initialState s q = Some a" "s' = put_register q a s"
      using restore_cases [OF f] by blast
    then show ?thesis
    proof cases
      case 2
      then have "q \<noteq> r" using i by (auto simp: never_saved_def)
      then show ?thesis using i 2(2) by (simp add: sized_tables_def never_saved_def marked_def)
    qed (use i in simp)
  qed
  show "sized_tables kmax (s\<lparr>results := e, rememberStack := es\<rparr>) \<and> never_saved r (s\<lparr>results := e, rememberStack := es\<rparr>)"
    if "rememberStack s = e # es"
    using i that by (simp add: sized_tables_def never_saved_def)
qed (simp_all add: sized_tables_def never_saved_def marked_def base_fields)

section \<open>Restoring a rule\<close>

definition program_start :: "uptr \<Rightarrow> prolog_info \<Rightarrow> prolog_info list \<Rightarrow> cfi_state" where
  "program_start p res remembered =
     \<lparr>cfi_pos = p, codeOffset = 0, results = res, initialState = (\<lambda>_. None), rememberStack = remembered\<rparr>"

lemma restore_lazily:
  "saved_lazily r base s \<Longrightarrow> \<exists>s'. restoreRegisterToInitialState r s = Inr s' \<and> get_register r s' = base"
  by (auto simp: saved_lazily_def holds_base_def restoreRegisterToInitialState_def get_register_def put_register_def
      split: if_splits)

lemma restore_unsaved: "never_saved r s \<Longrightarrow> restoreRegisterToInitialState r s = Inl Uninitialised"
  by (simp add: never_saved_def marked_def restoreRegisterToInitialState_def get_register_def)

text \<open>C12: what \<open>DW_CFA_restore\<close> of a register \<open>r\<close> does at any point that a program reaches.  When the program starts
  with \<open>r\<close> not yet changed (as the program of the common entry does, for every register), the rule at the start is
  put back, whatever was set, remembered and recalled in between.  When it starts with \<open>r\<close> already changed (a
  register the common entry gave a rule, at the program of the frame description entry), the rule is
  taken from the initial state of this program, in which it has never been stored: the read is of an indeterminate value.\<close>
theorem restored_rule:
  assumes tables: "list_all (\<lambda>p. length (savedRegisters p) = Suc kmax \<and> savedRegisters p ! r = base) (res # remembered)"
    and "r \<le> kmax"
    and reached: "cfa_reaches m pend cie kmax alloc (program_start p res remembered) s"
  shows "if initialStateSaved base then restoreRegisterToInitialState r s = Inl Uninitialised
    else \<exists>s'. restoreRegisterToInitialState r s = Inr s' \<and> get_register r s' = base"
proof -
  let ?start = "program_start p res remembered"
  have sized: "sized_tables kmax ?start"
    using tables by (simp add: sized_tables_def program_start_def list_all_iff)
  have "saved_lazily r base ?start" if "\<not> initialStateSaved base"
    using tables that assms(2) by (simp add: saved_lazily_def holds_base_def program_start_def list_all_iff less_Suc_eq_le)
  moreover have "never_saved r ?start" if "initialStateSaved base"
    using tables that assms(2) by (simp add: never_saved_def marked_def program_start_def list_all_iff less_Suc_eq_le)
  ultimately show ?thesis
    using lazily.reaches_keeps [OF reached] unsaved.reaches_keeps [OF reached] sized restore_lazily restore_unsaved
    by simp
qed

definition sample_first :: "prolog_info" where
  "sample_first = \<lparr>cfaRegister = 7, cfaRegisterOffset = 8, cfaExpression = 0, spExtraArgSize = 0,
     savedRegisters = (replicate 33 zero_location)[16 := \<lparr>location = kRegisterInCFA, initialStateSaved = True, value_of = - 8\<rparr>]\<rparr>"

lemma sample_common_rules:
  "map_option (map_sum id (map_option results)) (cfa_program sample_memory sample_cie 32 (\<lambda>_. True)
     (cieInstructions sample_cie, cieStart sample_cie + cieLength sample_cie, - 1) (zero_prolog 32, [])) =
   Some (Inr (Some sample_first))"
  by code_simp

definition sample_row :: "cfi_state option" where
  "sample_row =
     (case cfa_loop sample_memory (fdeStart sample_fde + fdeLength sample_fde) sample_cie 32 (\<lambda>_. True) 0x10
         (program_start (fdeInstructions sample_fde) sample_first []) of
        Some (Inr (Some s)) \<Rightarrow> Some s
      | _ \<Rightarrow> None)"

lemma sample_row_rules: "map_option results sample_row = Some sample_rules"
  by code_simp

lemma sample_row_reached:
  assumes "sample_row = Some s"
  shows "cfa_reaches sample_memory (fdeStart sample_fde + fdeLength sample_fde) sample_cie 32 (\<lambda>_. True)
    (program_start (fdeInstructions sample_fde) sample_first []) s"
  by (rule cfa_loop_reaches [OF _ refl]) (use assms in \<open>simp add: sample_row_def split: option.splits sum.splits\<close>)

text \<open>In the sample frame, register 16 has its rule from the common entry, register 6 its first from the function.\<close>

theorem restored_rule_witness:
  "\<exists>s s'. sample_row = Some s \<and> restoreRegisterToInitialState 16 s = Inl Uninitialised \<and>
     restoreRegisterToInitialState 6 s = Inr s' \<and> get_register 6 s' = zero_location"
proof -
  obtain s where s: "sample_row = Some s" using sample_row_rules by auto
  have size: "length (savedRegisters sample_first) = 33"
    "savedRegisters sample_first ! 16 = \<lparr>location = kRegisterInCFA, initialStateSaved = True, value_of = - 8\<rparr>"
    "savedRegisters sample_first ! 6 = zero_location"
    by (simp_all add: sample_first_def)
  have "restoreRegisterToInitialState 16 s = Inl Uninitialised"
    using restored_rule [OF _ _ sample_row_reached [OF s], of 16 "\<lparr>location = kRegisterInCFA, initialStateSaved = True, value_of = - 8\<rparr>"]
    by (simp add: size)
  moreover have "\<exists>s'. restoreRegisterToInitialState 6 s = Inr s' \<and> get_register 6 s' = zero_location"
    using restored_rule [OF _ _ sample_row_reached [OF s], of 6 zero_location] by (simp add: size zero_location_def)
  ultimately show ?thesis using s by blast
qed

section \<open>The loop\<close>

text \<open>What the loop does from a result on.\<close>

definition and_on :: "cfi_result option \<Rightarrow> (cfi_state \<Rightarrow> cfi_result option) \<Rightarrow> cfi_result option" where
  "and_on r f = (case r of Some (Inr (Some s)) \<Rightarrow> f s | _ \<Rightarrow> r)"

lemma and_on_simps [simp]:
  "and_on None f = None" "and_on (Some (Inl e)) f = Some (Inl e)" "and_on (Some (Inr None)) f = Some (Inr None)"
  "and_on (Some (Inr (Some s))) f = f s"
  by (simp_all add: and_on_def)

lemma loop_stopped: "\<not> (cfi_pos s < pend \<and> codeOffset s < pcoffset) \<Longrightarrow>
    cfa_loop m pend cie kmax alloc pcoffset s = Some (Inr (Some s))"
  by (subst cfa_loop.simps) (simp only: if_False)

lemma loop_onward: "cfi_pos s < pend \<Longrightarrow> codeOffset s < pcoffset \<Longrightarrow>
    cfa_loop m pend cie kmax alloc pcoffset s =
      and_on (Some (cfa_step m pend cie kmax alloc s)) (cfa_loop m pend cie kmax alloc pcoffset)"
  by (subst cfa_loop.simps) (simp add: and_on_def split: sum.split option.split)

text \<open>\<open>DW_CFA_set_loc\<close> gives an address, which is compared with an offset into the function: the run ends there, and
  no rule behind it is applied, although the program counter may lie behind it.\<close>

lemma set_loc_stops:
  assumes "cfi_pos s < pend" "codeOffset s < pcoffset" "get8 m (cfi_pos s) = DW_CFA_set_loc"
    and "getEncodedP m (cfi_pos s + 1) pend (pointerEncoding cie) 0 = Inr (target, p, n)"
    and "pcoffset \<le> target"
  shows "cfa_loop m pend cie kmax alloc pcoffset s = Some (Inr (Some (s\<lparr>cfi_pos := p, codeOffset := target\<rparr>)))"
  using assms by (subst loop_onward) (simp_all add: cfa_step_def cfa_location_def cfa_opcodes loop_stopped proceed_def not_less)

end
