(* ===== verification/DwarfRows.thy ===== *)
theory DwarfRows
  imports DwarfRules DwarfExprSpec
begin

text \<open>
  What \<open>parseFDEInstructions\<close> computes.  A program of call frame instructions is a list of instructions; its meaning is given on the
  rows of the unwind table (a rule for each register and one for the frame address), and its encoding is the bytes an
  assembler emits.  The parser on bytes computes the row of a program counter, fails where the meaning fails
  and faults where it faults.
\<close>

unbundle bit_operations_syntax

section \<open>Instructions and their meaning\<close>

text \<open>The rule of a register.  The code has one kind for a register that keeps its value and for one without a rule.\<close>

datatype rule =
    Unspecified | Undefined_value
  | At_offset int | Offset_itself int
  | In_register nat
  | At_expression uptr | Expression_itself uptr
  | Decrypted int

text \<open>A row; beside the rule of a register, whether an instruction has given it.\<close>

record unwind_row =
  row_register :: nat
  row_offset :: int
  row_expression :: uptr
  row_args :: nat
  row_rules :: "(rule \<times> bool) list"

record config =
  here :: uptr
  loc :: uptr
  row :: unwind_row
  kept :: "unwind_row list"

datatype cfi_instr =
    Nop | Set_loc uptr | Advance nat | Advance1 byte | Advance2 "16 word" | Advance4 "32 word"
  | Offset nat uptr | Offset_extended uptr uptr | Offset_extended_sf uptr uptr | Negative_offset_extended uptr uptr
  | Val_offset uptr uptr | Val_offset_sf uptr uptr
  | Restore nat | Restore_extended uptr | Undefined uptr | Same_value uptr | Register uptr uptr
  | Expression uptr "byte list" | Val_expression uptr "byte list"
  | Remember_state | Restore_state
  | Def_cfa uptr uptr | Def_cfa_sf uptr uptr | Def_cfa_register uptr | Def_cfa_offset uptr | Def_cfa_offset_sf uptr
  | Def_cfa_expression "byte list"
  | Args_size uptr
  | Unknown byte

text \<open>The opcodes that are none; and the operands within an opcode.\<close>

fun well_formed_cfi :: "byte \<Rightarrow> cfi_instr \<Rightarrow> bool" where
  "well_formed_cfi encoding (Set_loc _) \<longleftrightarrow> encoding = 0"
| "well_formed_cfi encoding (Advance n) \<longleftrightarrow> n < 64"
| "well_formed_cfi encoding (Offset n _) \<longleftrightarrow> n < 64"
| "well_formed_cfi encoding (Restore n) \<longleftrightarrow> n < 64"
| "well_formed_cfi encoding (Unknown b) \<longleftrightarrow> 0x17 \<le> b \<and> b < 0x40 \<and> b \<noteq> 0x2E \<and> b \<noteq> 0x2F"
| "well_formed_cfi encoding _ \<longleftrightarrow> True"

definition block_bytes :: "byte list \<Rightarrow> byte list" where
  "block_bytes block = uleb128 (length block) @ block"

text \<open>The assembler.\<close>

fun cfi_bytes :: "cfi_instr \<Rightarrow> byte list" where
  "cfi_bytes Nop = [0x00]"
| "cfi_bytes (Set_loc a) = 0x01 # le_bytes 8 a"
| "cfi_bytes (Advance n) = [0x40 + of_nat n]"
| "cfi_bytes (Advance1 d) = [0x02, d]"
| "cfi_bytes (Advance2 d) = 0x03 # le_bytes 2 (ucast d)"
| "cfi_bytes (Advance4 d) = 0x04 # le_bytes 4 (ucast d)"
| "cfi_bytes (Offset n v) = (0x80 + of_nat n) # uleb128 (unat v)"
| "cfi_bytes (Offset_extended r v) = 0x05 # uleb128 (unat r) @ uleb128 (unat v)"
| "cfi_bytes (Offset_extended_sf r v) = 0x11 # uleb128 (unat r) @ sleb128 (sint v)"
| "cfi_bytes (Negative_offset_extended r v) = 0x2F # uleb128 (unat r) @ uleb128 (unat v)"
| "cfi_bytes (Val_offset r v) = 0x14 # uleb128 (unat r) @ uleb128 (unat v)"
| "cfi_bytes (Val_offset_sf r v) = 0x15 # uleb128 (unat r) @ sleb128 (sint v)"
| "cfi_bytes (Restore n) = [0xC0 + of_nat n]"
| "cfi_bytes (Restore_extended r) = 0x06 # uleb128 (unat r)"
| "cfi_bytes (Undefined r) = 0x07 # uleb128 (unat r)"
| "cfi_bytes (Same_value r) = 0x08 # uleb128 (unat r)"
| "cfi_bytes (Register r q) = 0x09 # uleb128 (unat r) @ uleb128 (unat q)"
| "cfi_bytes (Expression r block) = 0x10 # uleb128 (unat r) @ block_bytes block"
| "cfi_bytes (Val_expression r block) = 0x16 # uleb128 (unat r) @ block_bytes block"
| "cfi_bytes Remember_state = [0x0A]"
| "cfi_bytes Restore_state = [0x0B]"
| "cfi_bytes (Def_cfa r v) = 0x0C # uleb128 (unat r) @ uleb128 (unat v)"
| "cfi_bytes (Def_cfa_sf r v) = 0x12 # uleb128 (unat r) @ sleb128 (sint v)"
| "cfi_bytes (Def_cfa_register r) = 0x0D # uleb128 (unat r)"
| "cfi_bytes (Def_cfa_offset v) = 0x0E # uleb128 (unat v)"
| "cfi_bytes (Def_cfa_offset_sf v) = 0x13 # sleb128 (sint v)"
| "cfi_bytes (Def_cfa_expression block) = 0x0F # block_bytes block"
| "cfi_bytes (Args_size v) = 0x2E # uleb128 (unat v)"
| "cfi_bytes (Unknown b) = [b]"

definition program_bytes :: "cfi_instr list \<Rightarrow> byte list" where
  "program_bytes is = concat (map cfi_bytes is)"

text \<open>The results: a fault, a failure, or a value.\<close>

type_synonym 'a outcome = "'a option fallible"

definition and_next :: "'a outcome \<Rightarrow> ('a \<Rightarrow> 'b outcome) \<Rightarrow> 'b outcome" where
  "and_next r f = (case r of Inl e \<Rightarrow> Inl e | Inr None \<Rightarrow> Inr None | Inr (Some x) \<Rightarrow> f x)"

lemma and_next_simps [simp]:
  "and_next (Inl e) f = Inl e" "and_next (Inr None) f = Inr None" "and_next (Inr (Some x)) f = f x"
  by (simp_all add: and_next_def)

definition fits_signed :: "int \<Rightarrow> int outcome" where
  "fits_signed x = (if - (2 ^ 63) \<le> x \<and> x < 2 ^ 63 then Inr (Some x) else Inl Signed_overflow)"

definition numbered :: "'a list \<Rightarrow> nat \<Rightarrow> 'b \<Rightarrow> 'b outcome" where
  "numbered rules r x = (if r < length rules then Inr (Some x) else Inr None)"

definition give :: "nat \<Rightarrow> rule \<Rightarrow> config \<Rightarrow> config" where
  "give r u c = c\<lparr>row := (row c)\<lparr>row_rules := (row_rules (row c))[r := (u, True)]\<rparr>\<rparr>"

definition signed32 :: "int \<Rightarrow> int" where
  "signed32 x = (x + 2 ^ 31) mod 2 ^ 32 - 2 ^ 31"

text \<open>The rule of a register; a factor of the data stands for that many bytes of the saved value's offset.\<close>

definition ruled :: "uptr \<Rightarrow> rule \<Rightarrow> config \<Rightarrow> config outcome" where
  "ruled r u c = numbered (row_rules (row c)) (unat r) (give (unat r) u c)"

definition put_back :: "rule option list \<Rightarrow> nat \<Rightarrow> config \<Rightarrow> config outcome" where
  "put_back initial r c =
     and_next (numbered (row_rules (row c)) r c) (\<lambda>c.
       case initial ! r of
         None \<Rightarrow> Inl Uninitialised
       | Some u \<Rightarrow> Inr (Some (c\<lparr>row := (row c)\<lparr>row_rules := (row_rules (row c))[r := (u, False)]\<rparr>\<rparr>)))"

definition moved_by :: "nat \<Rightarrow> nat \<Rightarrow> config \<Rightarrow> config outcome" where
  "moved_by factor delta c = Inr (Some (c\<lparr>loc := loc c + of_nat (delta * factor mod 2 ^ 32)\<rparr>))"

text \<open>One instruction, after which the position is behind it.  \<open>initial\<close> has the rules at the start of the program of the registers
  that no instruction has given one before.\<close>

fun cfi_meaning :: "rule option list \<Rightarrow> nat \<Rightarrow> int \<Rightarrow> (nat \<Rightarrow> bool) \<Rightarrow> cfi_instr \<Rightarrow> config \<Rightarrow> config outcome" where
  "cfi_meaning initial caf daf alloc Nop c = Inr (Some c)"
| "cfi_meaning initial caf daf alloc (Set_loc a) c = Inr (Some (c\<lparr>loc := a\<rparr>))"
| "cfi_meaning initial caf daf alloc (Advance n) c = moved_by caf n c"
| "cfi_meaning initial caf daf alloc (Advance1 d) c = moved_by caf (unat d) c"
| "cfi_meaning initial caf daf alloc (Advance2 d) c = moved_by caf (unat d) c"
| "cfi_meaning initial caf daf alloc (Advance4 d) c = moved_by caf (unat d) c"
| "cfi_meaning initial caf daf alloc (Offset n v) c =
     and_next (numbered (row_rules (row c)) n c) (\<lambda>c.
     and_next (fits_signed (sint v * daf)) (\<lambda>x. Inr (Some (give n (At_offset x) c))))"
| "cfi_meaning initial caf daf alloc (Offset_extended r v) c =
     and_next (fits_signed (sint v * daf)) (\<lambda>x. ruled r (At_offset x) c)"
| "cfi_meaning initial caf daf alloc (Offset_extended_sf r v) c =
     and_next (numbered (row_rules (row c)) (unat r) c) (\<lambda>c.
     and_next (fits_signed (sint v * daf)) (\<lambda>x. ruled r (At_offset x) c))"
| "cfi_meaning initial caf daf alloc (Negative_offset_extended r v) c =
     and_next (numbered (row_rules (row c)) (unat r) c) (\<lambda>c.
     and_next (fits_signed (sint v * daf)) (\<lambda>x. and_next (fits_signed (- x)) (\<lambda>x. ruled r (At_offset x) c)))"
| "cfi_meaning initial caf daf alloc (Val_offset r v) c =
     and_next (numbered (row_rules (row c)) (unat r) c) (\<lambda>c.
     and_next (fits_signed (sint v * daf)) (\<lambda>x. ruled r (Offset_itself x) c))"
| "cfi_meaning initial caf daf alloc (Val_offset_sf r v) c =
     and_next (numbered (row_rules (row c)) (unat r) c) (\<lambda>c.
     and_next (fits_signed (sint v * daf)) (\<lambda>x. ruled r (Offset_itself x) c))"
| "cfi_meaning initial caf daf alloc (Restore n) c = put_back initial n c"
| "cfi_meaning initial caf daf alloc (Restore_extended r) c = put_back initial (unat r) c"
| "cfi_meaning initial caf daf alloc (Undefined r) c = ruled r Undefined_value c"
| "cfi_meaning initial caf daf alloc (Same_value r) c = ruled r Unspecified c"
| "cfi_meaning initial caf daf alloc (Register r q) c =
     and_next (numbered (row_rules (row c)) (unat q) c) (ruled r (In_register (unat q)))"
| "cfi_meaning initial caf daf alloc (Expression r block) c =
     ruled r (At_expression (here c + 1 + of_nat (length (uleb128 (unat r))))) c"
| "cfi_meaning initial caf daf alloc (Val_expression r block) c =
     ruled r (Expression_itself (here c + 1 + of_nat (length (uleb128 (unat r))))) c"
| "cfi_meaning initial caf daf alloc Remember_state c =
     (if alloc (length (kept c)) then Inr (Some (c\<lparr>kept := row c # kept c\<rparr>)) else Inr None)"
| "cfi_meaning initial caf daf alloc Restore_state c =
     (case kept c of [] \<Rightarrow> Inr None | r # rs \<Rightarrow> Inr (Some (c\<lparr>row := r, kept := rs\<rparr>)))"
| "cfi_meaning initial caf daf alloc (Def_cfa r v) c =
     numbered (row_rules (row c)) (unat r) (c\<lparr>row := (row c)\<lparr>row_register := unat r, row_offset := signed32 (uint v)\<rparr>\<rparr>)"
| "cfi_meaning initial caf daf alloc (Def_cfa_sf r v) c =
     and_next (fits_signed (sint v * daf)) (\<lambda>x.
     numbered (row_rules (row c)) (unat r) (c\<lparr>row := (row c)\<lparr>row_register := unat r, row_offset := signed32 x\<rparr>\<rparr>))"
| "cfi_meaning initial caf daf alloc (Def_cfa_register r) c =
     numbered (row_rules (row c)) (unat r) (c\<lparr>row := (row c)\<lparr>row_register := unat r\<rparr>\<rparr>)"
| "cfi_meaning initial caf daf alloc (Def_cfa_offset v) c = Inr (Some (c\<lparr>row := (row c)\<lparr>row_offset := signed32 (uint v)\<rparr>\<rparr>))"
| "cfi_meaning initial caf daf alloc (Def_cfa_offset_sf v) c =
     and_next (fits_signed (sint v * daf)) (\<lambda>x. Inr (Some (c\<lparr>row := (row c)\<lparr>row_offset := signed32 x\<rparr>\<rparr>)))"
| "cfi_meaning initial caf daf alloc (Def_cfa_expression block) c =
     Inr (Some (c\<lparr>row := (row c)\<lparr>row_register := 0, row_expression := here c + 1\<rparr>\<rparr>))"
| "cfi_meaning initial caf daf alloc (Args_size v) c = Inr (Some (c\<lparr>row := (row c)\<lparr>row_args := unat v mod 2 ^ 32\<rparr>\<rparr>))"
| "cfi_meaning initial caf daf alloc (Unknown b) c = Inr None"

text \<open>A program, up to an offset of the location.\<close>

definition behind :: "cfi_instr \<Rightarrow> config \<Rightarrow> config" where
  "behind i c = c\<lparr>here := here c + of_nat (length (cfi_bytes i))\<rparr>"

fun run_rows :: "rule option list \<Rightarrow> nat \<Rightarrow> int \<Rightarrow> (nat \<Rightarrow> bool) \<Rightarrow> uptr \<Rightarrow> cfi_instr list \<Rightarrow> config \<Rightarrow> config outcome" where
  "run_rows initial caf daf alloc limit [] c = Inr (Some c)"
| "run_rows initial caf daf alloc limit (i # is) c =
     (if loc c < limit then
        and_next (cfi_meaning initial caf daf alloc i c) (\<lambda>c. run_rows initial caf daf alloc limit is (behind i c))
      else Inr (Some c))"

section \<open>The state of the parser as a row\<close>

definition rule_named :: "saved_where \<Rightarrow> 64 word \<Rightarrow> rule" where
  "rule_named l v =
     (case l of
        kRegisterUnused \<Rightarrow> Unspecified
      | kRegisterUndefined \<Rightarrow> Undefined_value
      | kRegisterInCFA \<Rightarrow> At_offset (sint v)
      | kRegisterInCFADecrypt \<Rightarrow> Decrypted (sint v)
      | kRegisterOffsetFromCFA \<Rightarrow> Offset_itself (sint v)
      | kRegisterInRegister \<Rightarrow> In_register (unat v)
      | kRegisterAtExpression \<Rightarrow> At_expression v
      | kRegisterIsExpression \<Rightarrow> Expression_itself v)"

definition rule_of :: "register_location \<Rightarrow> rule \<times> bool" where
  "rule_of l = (rule_named (location l) (value_of l), initialStateSaved l)"

definition row_of :: "prolog_info \<Rightarrow> unwind_row" where
  "row_of p = \<lparr>row_register = unat (cfaRegister p), row_offset = sint (cfaRegisterOffset p), row_expression = cfaExpression p,
     row_args = unat (spExtraArgSize p), row_rules = map rule_of (savedRegisters p)\<rparr>"

definition config_of :: "cfi_state \<Rightarrow> config" where
  "config_of s = \<lparr>here = cfi_pos s, loc = codeOffset s, row = row_of (results s), kept = map row_of (rememberStack s)\<rparr>"

definition outcome_of :: "cfi_result \<Rightarrow> config outcome" where
  "outcome_of r = map_sum id (map_option config_of) r"

lemma outcome_simps [simp]:
  "outcome_of (Inl e) = Inl e" "outcome_of (Inr None) = Inr None" "outcome_of (Inr (Some s)) = Inr (Some (config_of s))"
  "outcome_of (proceed s) = Inr (Some (config_of s))"
  by (simp_all add: outcome_of_def proceed_def)

lemma outcome_if: "outcome_of (if b then x else y) = (if b then outcome_of x else outcome_of y)"
  by simp

lemma config_fields [simp]:
  "here (config_of s) = cfi_pos s" "loc (config_of s) = codeOffset s" "row (config_of s) = row_of (results s)"
  "kept (config_of s) = map row_of (rememberStack s)"
  "row_rules (row_of p) = map rule_of (savedRegisters p)"
  by (simp_all add: config_of_def row_of_def)

lemma config_moved [simp]:
  "config_of (s\<lparr>cfi_pos := p\<rparr>) = (config_of s)\<lparr>here := p\<rparr>" "config_of (s\<lparr>codeOffset := a\<rparr>) = (config_of s)\<lparr>loc := a\<rparr>"
  "config_of (s\<lparr>results := res\<rparr>) = (config_of s)\<lparr>row := row_of res\<rparr>"
  "config_of (s\<lparr>rememberStack := rs\<rparr>) = (config_of s)\<lparr>kept := map row_of rs\<rparr>"
  "config_of (s\<lparr>initialState := i\<rparr>) = config_of s"
  by (simp_all add: config_of_def)

lemma row_updates [simp]:
  "row_of (p\<lparr>cfaRegister := w\<rparr>) = (row_of p)\<lparr>row_register := unat w\<rparr>"
  "row_of (p\<lparr>cfaRegisterOffset := w\<rparr>) = (row_of p)\<lparr>row_offset := sint w\<rparr>"
  "row_of (p\<lparr>cfaExpression := a\<rparr>) = (row_of p)\<lparr>row_expression := a\<rparr>"
  "row_of (p\<lparr>spExtraArgSize := w\<rparr>) = (row_of p)\<lparr>row_args := unat w\<rparr>"
  "row_of (p\<lparr>savedRegisters := ls\<rparr>) = (row_of p)\<lparr>row_rules := map rule_of ls\<rparr>"
  by (simp_all add: row_of_def)

lemma config_set:
  assumes "r < length (savedRegisters (results s))"
  shows "config_of (setRegister r l v s) = give r (rule_named l v) (config_of s)"
    and "l = kRegisterUndefined \<or> l = kRegisterUnused \<Longrightarrow>
      config_of (setRegisterLocation r l s) = give r (rule_named l 0) (config_of s)"
proof -
  have checked: "checkSaveRegister r s = s\<lparr>initialState := initialState (checkSaveRegister r s),
      results := (results s)\<lparr>savedRegisters := (savedRegisters (results s))[r := (get_register r s)\<lparr>initialStateSaved := True\<rparr>]\<rparr>\<rparr>"
  proof (cases "initialStateSaved (get_register r s)")
    case True
    then have "(get_register r s)\<lparr>initialStateSaved := True\<rparr> = savedRegisters (results s) ! r"
      by (cases "savedRegisters (results s) ! r") (simp add: get_register_def)
    then show ?thesis using True by (simp add: checkSaveRegister_def)
  qed (simp add: checkSaveRegister_def Let_def put_register_def)
  have put: "config_of (put_register r a (checkSaveRegister r s)) =
      (config_of s)\<lparr>row := (row_of (results s))\<lparr>row_rules := (map rule_of (savedRegisters (results s)))[r := rule_of a]\<rparr>\<rparr>" for a
    by (subst checked) (simp add: put_register_def map_update)
  have flag: "initialStateSaved (get_register r (checkSaveRegister r s))"
    using assms by (subst checked) (simp add: get_register_def)
  show "config_of (setRegister r l v s) = give r (rule_named l v) (config_of s)"
    using flag by (simp add: setRegister_def Let_def put give_def rule_of_def)
  show "config_of (setRegisterLocation r l s) = give r (rule_named l 0) (config_of s)" if "l = kRegisterUndefined \<or> l = kRegisterUnused"
    using flag that by (auto simp: setRegisterLocation_def Let_def put give_def rule_of_def rule_named_def)
qed

section \<open>Operands\<close>

definition code_at :: "address_space \<Rightarrow> uptr \<Rightarrow> uptr \<Rightarrow> byte list \<Rightarrow> bool" where
  "code_at m pend p bs \<longleftrightarrow> bytes_at m p bs \<and> length bs \<le> unat (pend - p)"

lemma code_append: "code_at m pend p (bs @ cs) \<Longrightarrow> code_at m pend p bs \<and> code_at m pend (p + of_nat (length bs)) cs"
  using window_skip [of "length bs" "length cs" pend p] by (simp add: code_at_def)

lemma code_Cons: "code_at m pend p (b # bs) \<Longrightarrow> m p = b \<and> code_at m pend (p + 1) bs"
  using window_skip [of 1 "length bs" pend p] by (simp add: code_at_def)

lemma code_parts:
  "code_at m pend p (b # bs) \<longleftrightarrow> m p = b \<and> code_at m pend (p + 1) bs \<and> Suc (length bs) \<le> unat (pend - p)"
  "code_at m pend p (bs @ cs) \<longleftrightarrow> code_at m pend p bs \<and> code_at m pend (p + of_nat (length bs)) cs \<and>
     length bs + length cs \<le> unat (pend - p)"
  "code_at m pend p []"
  using code_Cons [of m pend p b bs] code_append [of m pend p bs cs] by (auto simp: code_at_def)

lemma read_unsigned_code [simp]:
  "code_at m pend (cfi_pos s) (uleb128 (unat v)) \<Longrightarrow>
    read_unsigned m pend s f = f v (s\<lparr>cfi_pos := cfi_pos s + of_nat (length (uleb128 (unat v)))\<rparr>)"
  using getULEB128_uleb128 [of m "cfi_pos s" "unat v" pend] unat_less [of v] by (simp add: code_at_def read_unsigned_def)

lemma read_signed_code [simp]:
  "code_at m pend (cfi_pos s) (sleb128 (sint v)) \<Longrightarrow>
    read_signed m pend s f = f v (s\<lparr>cfi_pos := cfi_pos s + of_nat (length (sleb128 (sint v)))\<rparr>)" for v :: uptr
  using getSLEB128_sleb128 [of m "cfi_pos s" "sint v" pend] sint_range_size [of v]
  by (simp add: code_at_def read_signed_def size_word_def)

lemma skip_block_code [simp]:
  assumes "code_at m pend (cfi_pos s) (block_bytes block)"
  shows "skip_block m pend s = proceed (s\<lparr>cfi_pos := cfi_pos s + of_nat (length (block_bytes block))\<rparr>)"
proof -
  let ?n = "length block"
  have n: "?n + length (uleb128 ?n) < 2 ^ 64"
    using assms unat_less [of "pend - cfi_pos s"] by (simp add: code_at_def block_bytes_def)
  have "uleb128 ?n \<noteq> []" by (simp add: uleb128.simps)
  then have "?n < 2 ^ 64 - 1" using n by (cases "uleb128 ?n") simp_all
  then have u: "unat (of_nat ?n :: uptr) = ?n" "?n < 2 ^ 64 - 1" by (simp_all add: unat_of_nat)
  then have "(of_nat ?n :: uptr) < - 1" by (simp add: word_less_nat_alt unsigned_minus_1_eq_mask mask_eq_exp_minus_1)
  moreover have "code_at m pend (cfi_pos s) (uleb128 ?n)"
    using code_append assms unfolding block_bytes_def by blast
  ultimately show ?thesis
    using read_unsigned_code [where v = "of_nat ?n", unfolded u(1)] by (simp add: skip_block_def block_bytes_def add.assoc)
qed

lemma factored_fits: "factored cie v = (case fits_signed (sint v * sint (dataAlignFactor cie)) of Inl e \<Rightarrow> Inl e
    | Inr x \<Rightarrow> Inr (word_of_int (the x)))"
  by (simp add: factored_def signed64_def fits_signed_def)

lemma factored_cases:
  "factored cie v = Inl Signed_overflow \<and> fits_signed (sint v * sint (dataAlignFactor cie)) = Inl Signed_overflow \<or>
   (\<exists>x. factored cie v = Inr (word_of_int x) \<and> fits_signed (sint v * sint (dataAlignFactor cie)) = Inr (Some x) \<and>
     sint (word_of_int x :: uptr) = x)"
  by (auto simp: factored_def signed64_def fits_signed_def signed_of_int signed_take_bit_int_eq_self)

lemma signed32_word: "sint (ucast (word_of_int x :: uptr) :: 32 word) = signed32 x"
proof -
  have "sint (ucast (word_of_int x :: uptr) :: 32 word) = signed_take_bit 31 x"
    by (rule bit_eqI) (auto simp: sint_ucast signed_of_int bit_simps min_def)
  then show ?thesis
    by (simp add: signed32_def signed_take_bit_eq_take_bit_shift take_bit_eq_mod)
qed

lemma fits_in_word: "fits_signed x = Inr (Some y) \<Longrightarrow> sint (word_of_int y :: uptr) = y"
  by (auto simp: fits_signed_def signed_of_int signed_take_bit_int_eq_self split: if_splits)

section \<open>One instruction\<close>

text \<open>What the state knows of the rules at the start of its program.\<close>

definition starts :: "nat \<Rightarrow> rule option list \<Rightarrow> cfi_state \<Rightarrow> bool" where
  "starts kmax initial s \<longleftrightarrow> length initial = Suc kmax \<and> sized_tables kmax s \<and>
     (\<forall>r\<le>kmax. case initial ! r of
        None \<Rightarrow> never_saved r s
      | Some u \<Rightarrow> \<exists>base. rule_of base = (u, False) \<and> saved_lazily r base s)"

lemma starts_step:
  assumes "starts kmax initial s" "cfa_step m pend cie kmax alloc s = Inr (Some s')"
  shows "starts kmax initial s'"
proof -
  have "case initial ! r of None \<Rightarrow> never_saved r s' | Some u \<Rightarrow> \<exists>base. rule_of base = (u, False) \<and> saved_lazily r base s'"
    if "r \<le> kmax" for r
    using assms(1) that lazily.step_keeps [OF assms(2)] unsaved.step_keeps [OF assms(2)]
    by (fastforce simp: starts_def split: option.splits)
  moreover have "sized_tables kmax s'"
    using assms(1) lazily.step_keeps [OF assms(2)] unsaved.step_keeps [OF assms(2)]
    by (fastforce simp: starts_def split: option.splits)
  ultimately show ?thesis using assms(1) by (simp add: starts_def)
qed

lemma starts_moved [simp]: "starts kmax initial (s\<lparr>cfi_pos := p\<rparr>) = starts kmax initial s"
  by (simp add: starts_def sized_tables_def never_saved_def saved_lazily_def cong: option.case_cong)

lemma cfi_pos_set [simp]: "cfi_pos (setRegister r l v s) = cfi_pos s"
  by (simp add: setRegister_def checkSaveRegister_def put_register_def Let_def)

lemma starts_length: "starts kmax initial s \<Longrightarrow> length (savedRegisters (results s)) = Suc kmax"
  by (simp add: starts_def sized_tables_def)

lemma outcome_restore:
  assumes "starts kmax initial s"
  shows "outcome_of (in_table kmax v (\<lambda>r. bind_ok (restoreRegisterToInitialState r s) proceed)) =
    put_back initial (unat v) (config_of s)"
proof (cases "unat v \<le> kmax")
  case True
  let ?r = "unat v"
  show ?thesis
  proof (cases "initial ! ?r")
    case None
    then have "never_saved ?r s" using assms True by (fastforce simp: starts_def)
    then show ?thesis
      using None True restore_unsaved [of ?r s] starts_length [OF assms] by (simp add: in_table_def put_back_def numbered_def)
  next
    case (Some u)
    then obtain base where base: "rule_of base = (u, False)" "saved_lazily ?r base s"
      using assms True by (fastforce simp: starts_def)
    have "config_of s = (config_of s)\<lparr>row := (row_of (results s))\<lparr>row_rules :=
        (map rule_of (savedRegisters (results s)))[?r := (u, False)]\<rparr>\<rparr>" if "savedRegisters (results s) ! ?r = base"
    proof -
      have "(map rule_of (savedRegisters (results s)))[?r := rule_of base] = map rule_of (savedRegisters (results s))"
        using that by (metis list_update_id map_update)
      then show ?thesis using base(1) by (simp add: config_of_def row_of_def)
    qed
    then show ?thesis
      using base Some True starts_length [OF assms]
      by (auto simp: in_table_def put_back_def numbered_def restoreRegisterToInitialState_def get_register_def saved_lazily_def
          holds_base_def put_register_def map_update split: if_splits)
  qed
next
  case False
  then show ?thesis using starts_length [OF assms] by (simp add: in_table_def put_back_def numbered_def)
qed

text \<open>The groups of instructions, as the code dispatches them.\<close>

definition step_rows :: "address_space \<Rightarrow> uptr \<Rightarrow> cie_info \<Rightarrow> nat \<Rightarrow> (nat \<Rightarrow> bool) \<Rightarrow> rule option list \<Rightarrow> cfi_state \<Rightarrow> cfi_instr \<Rightarrow> bool" where
  "step_rows m pend cie kmax alloc initial s i \<longleftrightarrow>
     outcome_of (cfa_step m pend cie kmax alloc s) =
       and_next (cfi_meaning initial (unat (codeAlignFactor cie)) (sint (dataAlignFactor cie)) alloc i (config_of s))
         (\<lambda>c. Inr (Some (behind i c)))"

lemmas dispatch_cfi = step_rows_def cfa_step_def cfa_opcodes get8_def Let_def behind_def

lemma moved_config [simp]:
  "advance_location cie d a = a + of_nat (unat d * unat (codeAlignFactor cie) mod 2 ^ 32)"
  by (simp add: advance_location_def word_unat_eq_iff unsigned_ucast_eq unat_word_ariths take_bit_eq_mod [where 'a = nat] unat_of_nat)

lemma widths:
  "unat (ucast b :: 32 word) = unat b" "unat (ucast d :: 32 word) = unat d" "(ucast (ucast d :: uptr) :: 16 word) = d"
  "(ucast (ucast w :: uptr) :: 32 word) = w" for b :: byte and d :: "16 word" and w :: "32 word"
proof -
  have "unat b < 2 ^ 8" "unat d < 2 ^ 16" using unat_less [of b] unat_less [of d] by simp_all
  then show "unat (ucast b :: 32 word) = unat b" "unat (ucast d :: 32 word) = unat d"
    by (simp_all add: unsigned_ucast_eq take_bit_eq_mod [where 'a = nat])
  show "(ucast (ucast d :: uptr) :: 16 word) = d" "(ucast (ucast w :: uptr) :: 32 word) = w"
    by (rule bit_word_eqI; auto simp: bit_simps dest: bit_imp_le_length)+
qed

lemma location_rows:
  assumes "code_at m pend (cfi_pos s) (cfi_bytes i)" "well_formed_cfi (pointerEncoding cie) i"
  shows "i = Nop \<Longrightarrow> step_rows m pend cie kmax alloc initial s i"
    and "i = Set_loc a \<Longrightarrow> step_rows m pend cie kmax alloc initial s i"
    and "i = Advance1 b \<Longrightarrow> step_rows m pend cie kmax alloc initial s i"
    and "i = Advance2 d \<Longrightarrow> step_rows m pend cie kmax alloc initial s i"
    and "i = Advance4 w \<Longrightarrow> step_rows m pend cie kmax alloc initial s i"
proof -
  have code: "m (cfi_pos s) = hd (cfi_bytes i)" "bytes_at m (cfi_pos s + 1) (tl (cfi_bytes i))"
    if "cfi_bytes i \<noteq> []" using assms(1) that by (cases "cfi_bytes i"; simp add: code_at_def)+
  show "i = Nop \<Longrightarrow> step_rows m pend cie kmax alloc initial s i"
    and "i = Advance1 b \<Longrightarrow> step_rows m pend cie kmax alloc initial s i"
    and "i = Advance2 d \<Longrightarrow> step_rows m pend cie kmax alloc initial s i"
    and "i = Advance4 w \<Longrightarrow> step_rows m pend cie kmax alloc initial s i"
    using code by (auto simp: dispatch_cfi cfa_location_def moved_by_def get16_le get32_le widths add.commute [of _ "cfi_pos s"])
  show "step_rows m pend cie kmax alloc initial s i" if i: "i = Set_loc a"
  proof -
    have "getEncodedP m (cfi_pos s + 1) pend 0 0 = Inr (a, cfi_pos s + 1 + 8, cfi_pos s + 1)"
      using code i by (simp add: getEncodedP_def encoded_format_def encoded_base_def pointer_encodings getP_def get64_le Let_def)
    then show ?thesis using code i assms(2) by (simp add: dispatch_cfi cfa_location_def)
  qed
qed

text \<open>Products of operands, and numbers of registers.\<close>

lemma outcome_factored:
  "outcome_of (bind_ok (factored cie v) f) =
     and_next (fits_signed (sint v * sint (dataAlignFactor cie))) (\<lambda>x. outcome_of (f (word_of_int x)))"
  by (simp add: factored_def signed64_def fits_signed_def)

lemma outcome_signed:
  "outcome_of (bind_ok (signed64 y) f) = and_next (fits_signed y) (\<lambda>x. outcome_of (f (word_of_int x)))"
  by (simp add: signed64_def fits_signed_def)

lemma outcome_table:
  "length (savedRegisters (results s)) = Suc kmax \<Longrightarrow>
    outcome_of (in_table kmax v f) = and_next (numbered (row_rules (row_of (results s))) (unat v) ()) (\<lambda>_. outcome_of (f (unat v)))"
  by (simp add: in_table_def numbered_def)

lemma and_next_cong [cong]:
  "r = r' \<Longrightarrow> (\<And>x. r' = Inr (Some x) \<Longrightarrow> f x = g x) \<Longrightarrow> and_next r f = and_next r' g"
  by (auto simp: and_next_def split: sum.split option.split)

lemma and_next_assoc: "and_next (and_next r f) g = and_next r (\<lambda>x. and_next (f x) g)"
  by (simp add: and_next_def split: sum.split option.split)

lemma numbered_next: "and_next (numbered rules r x) f = (if r < length rules then f x else Inr None)"
  by (simp add: numbered_def)

lemma give_here [simp]: "(give r u c)\<lparr>here := p\<rparr> = give r u (c\<lparr>here := p\<rparr>)" "here (give r u c) = here c"
  "row (c\<lparr>here := p\<rparr>) = row c"
  by (simp_all add: give_def)

lemma put_back_here:
  "and_next (put_back initial r c) (\<lambda>c. Inr (Some (c\<lparr>here := here c + n\<rparr>))) = put_back initial r (c\<lparr>here := here c + n\<rparr>)"
  by (simp add: put_back_def numbered_def split: option.split)

lemma narrow_word: "unat (ucast v :: 32 word) = unat v mod 2 ^ 32" for v :: uptr
  by (simp add: unsigned_ucast_eq take_bit_eq_mod [where 'a = nat])

lemma signed32_operand: "sint (ucast v :: 32 word) = signed32 (uint v)" for v :: uptr
  using signed32_word [of "uint v"] by simp

lemma signed32_uint: "signed32 (uint (word_of_int x :: uptr)) = signed32 x"
  using signed32_word [of x] signed32_operand [of "word_of_int x"] by simp

lemma update_order:
  "c\<lparr>here := p, row := r\<rparr> = c\<lparr>row := r, here := p\<rparr>"
  "w\<lparr>row_offset := d, row_register := q\<rparr> = w\<lparr>row_register := q, row_offset := d\<rparr>"
  by simp_all

lemmas meaning_simps = outcome_factored outcome_signed and_next_assoc numbered_next ruled_def fits_in_word
  config_set rule_named_def outcome_table outcome_if less_Suc_eq_le

lemma rule_rows:
  assumes "code_at m pend (cfi_pos s) (cfi_bytes i)" "starts kmax initial s"
  shows "i = Offset_extended r v \<Longrightarrow> step_rows m pend cie kmax alloc initial s i"
    and "i = Undefined r \<Longrightarrow> step_rows m pend cie kmax alloc initial s i"
    and "i = Same_value r \<Longrightarrow> step_rows m pend cie kmax alloc initial s i"
    and "i = Register r q \<Longrightarrow> step_rows m pend cie kmax alloc initial s i"
    and "i = Restore_extended r \<Longrightarrow> step_rows m pend cie kmax alloc initial s i"
proof -
  note size = starts_length [OF assms(2)]
  show "i = Offset_extended r v \<Longrightarrow> step_rows m pend cie kmax alloc initial s i"
    and "i = Undefined r \<Longrightarrow> step_rows m pend cie kmax alloc initial s i"
    and "i = Same_value r \<Longrightarrow> step_rows m pend cie kmax alloc initial s i"
    and "i = Register r q \<Longrightarrow> step_rows m pend cie kmax alloc initial s i"
    using assms(1) size by (auto simp: code_parts dispatch_cfi cfa_rule_def meaning_simps add.assoc cong: if_cong)
  show "step_rows m pend cie kmax alloc initial s i" if i: "i = Restore_extended r"
  proof -
    let ?s = "s\<lparr>cfi_pos := cfi_pos s + 1 + of_nat (length (uleb128 (unat r)))\<rparr>"
    have "outcome_of (cfa_step m pend cie kmax alloc s) =
        outcome_of (in_table kmax r (\<lambda>r. bind_ok (restoreRegisterToInitialState r ?s) proceed))"
      using assms(1) i by (auto simp: code_parts dispatch_cfi cfa_rule_def)
    also have "\<dots> = put_back initial (unat r) (config_of ?s)"
      by (rule outcome_restore [where s = ?s]) (use assms(2) in simp)
    finally show ?thesis using i by (simp add: step_rows_def put_back_here behind_def add.assoc)
  qed
qed

lemma state_rows:
  assumes "code_at m pend (cfi_pos s) (cfi_bytes i)"
  shows "i = Remember_state \<Longrightarrow> step_rows m pend cie kmax alloc initial s i"
    and "i = Restore_state \<Longrightarrow> step_rows m pend cie kmax alloc initial s i"
    and "i = Args_size v \<Longrightarrow> step_rows m pend cie kmax alloc initial s i"
  using assms by (auto simp: code_parts dispatch_cfi cfa_state_def add.assoc narrow_word split: list.split)

lemma value_rows:
  assumes "code_at m pend (cfi_pos s) (cfi_bytes i)" "starts kmax initial s"
  shows "i = Offset_extended_sf r v \<Longrightarrow> step_rows m pend cie kmax alloc initial s i"
    and "i = Negative_offset_extended r v \<Longrightarrow> step_rows m pend cie kmax alloc initial s i"
    and "i = Val_offset r v \<Longrightarrow> step_rows m pend cie kmax alloc initial s i"
    and "i = Val_offset_sf r v \<Longrightarrow> step_rows m pend cie kmax alloc initial s i"
    and "i = Expression r block \<Longrightarrow> step_rows m pend cie kmax alloc initial s i"
    and "i = Val_expression r block \<Longrightarrow> step_rows m pend cie kmax alloc initial s i"
  using assms(1) starts_length [OF assms(2)]
  by (auto simp: code_parts dispatch_cfi cfa_value_def meaning_simps add.assoc cong: if_cong)

lemma address_rows:
  assumes "code_at m pend (cfi_pos s) (cfi_bytes i)" "starts kmax initial s" "kmax < 2 ^ 32"
  shows "i = Def_cfa r v \<Longrightarrow> step_rows m pend cie kmax alloc initial s i"
    and "i = Def_cfa_sf r v \<Longrightarrow> step_rows m pend cie kmax alloc initial s i"
    and "i = Def_cfa_register r \<Longrightarrow> step_rows m pend cie kmax alloc initial s i"
    and "i = Def_cfa_offset v \<Longrightarrow> step_rows m pend cie kmax alloc initial s i"
    and "i = Def_cfa_offset_sf v \<Longrightarrow> step_rows m pend cie kmax alloc initial s i"
    and "i = Def_cfa_expression block \<Longrightarrow> step_rows m pend cie kmax alloc initial s i"
  using assms(1,3) starts_length [OF assms(2)]
  by (auto simp: code_parts dispatch_cfi cfa_address_def put_cfa_def put_cfa_offset_def meaning_simps add.assoc narrow_word signed32_operand signed32_uint update_order cong: if_cong)

lemma packed_opcodes:
  "list_all (\<lambda>k. list_all (\<lambda>n. (k + of_nat n :: byte) AND 0xC0 = k \<and> (k + of_nat n) AND 0x3F = of_nat n \<and>
     0x17 \<le> k + of_nat n \<and> k + of_nat n \<noteq> 0x2E \<and> k + of_nat n \<noteq> 0x2F) [0..<64]) [0x40, 0x80, 0xC0]"
  by code_simp

lemma low_opcodes: "list_all (\<lambda>n. (of_nat n :: byte) AND 0xC0 = 0) [0..<64]"
  by code_simp

lemma packed_rows:
  assumes "code_at m pend (cfi_pos s) (cfi_bytes i)" "starts kmax initial s" "well_formed_cfi encoding i"
  shows "i = Advance n \<Longrightarrow> step_rows m pend cie kmax alloc initial s i"
    and "i = Offset n v \<Longrightarrow> step_rows m pend cie kmax alloc initial s i"
    and "i = Restore n \<Longrightarrow> step_rows m pend cie kmax alloc initial s i"
    and "i = Unknown b \<Longrightarrow> step_rows m pend cie kmax alloc initial s i"
proof -
  note size = starts_length [OF assms(2)]
  have packed: "cfa_step m pend cie kmax alloc s = cfa_packed m pend cie kmax b (s\<lparr>cfi_pos := cfi_pos s + 1\<rparr>)"
    if "m (cfi_pos s) = b" "0x17 \<le> b" "b \<noteq> 0x2E" "b \<noteq> 0x2F" for b
    using that(2-4) by (auto simp: that(1) cfa_step_def cfa_opcodes get8_def Let_def word_le_nat_alt word_unat_eq_iff)
  have kinds: "(k + of_nat n :: byte) AND 0xC0 = k" "(k + of_nat n :: byte) AND 0x3F = of_nat n" "0x17 \<le> (k + of_nat n :: byte)"
      "(k + of_nat n :: byte) \<noteq> 0x2E" "(k + of_nat n :: byte) \<noteq> 0x2F" if "k \<in> set [0x40, 0x80, 0xC0]" "n < 64" for k n
  proof -
    have "n \<in> set [0..<64]" using that(2) by (simp only: set_upt atLeast0LessThan lessThan_iff)
    note b = bspec [OF bspec [OF packed_opcodes [unfolded list_all_iff] that(1)] this]
    show "(k + of_nat n :: byte) AND 0xC0 = k" "(k + of_nat n :: byte) AND 0x3F = of_nat n" "0x17 \<le> (k + of_nat n :: byte)"
        "(k + of_nat n :: byte) \<noteq> 0x2E" "(k + of_nat n :: byte) \<noteq> 0x2F"
      using b by blast+
  qed
  have operand: "unat (ucast (of_nat n :: byte) :: uptr) = n" "unat (ucast (of_nat n :: byte) :: 32 word) = n" if "n < 64" for n
    using that by (simp_all add: unsigned_ucast_eq unat_of_nat take_bit_eq_mod [where 'a = nat])
  show "step_rows m pend cie kmax alloc initial s i" if i: "i = Advance n"
  proof -
    have n: "n < 64" "m (cfi_pos s) = 0x40 + of_nat n" using assms(1,3) i by (simp_all add: code_parts)
    show ?thesis
      using packed [OF n(2)] kinds [OF _ n(1), where k = "0x40"] operand [OF n(1)] i
      by (simp add: step_rows_def cfa_packed_def cfa_opcodes moved_by_def behind_def)
  qed
  show "step_rows m pend cie kmax alloc initial s i" if i: "i = Offset n v"
  proof -
    have n: "n < 64" "m (cfi_pos s) = 0x80 + of_nat n" "code_at m pend (cfi_pos s + 1) (uleb128 (unat v))"
      using assms(1,3) i by (simp_all add: code_parts)
    show ?thesis
      using packed [OF n(2)] kinds [OF _ n(1), where k = "0x80"] operand [OF n(1)] n(3) size i
      by (auto simp: step_rows_def cfa_packed_def cfa_opcodes behind_def meaning_simps add.assoc cong: if_cong)
  qed
  show "step_rows m pend cie kmax alloc initial s i" if i: "i = Restore n"
  proof -
    let ?s = "s\<lparr>cfi_pos := cfi_pos s + 1\<rparr>"
    have n: "n < 64" "m (cfi_pos s) = 0xC0 + of_nat n" using assms(1,3) i by (simp_all add: code_parts)
    have "outcome_of (cfa_step m pend cie kmax alloc s) =
        outcome_of (in_table kmax (ucast (of_nat n :: byte)) (\<lambda>r. bind_ok (restoreRegisterToInitialState r ?s) proceed))"
      using packed [OF n(2)] kinds [OF _ n(1), where k = "0xC0"] by (simp add: cfa_packed_def cfa_opcodes)
    also have "\<dots> = put_back initial n (config_of ?s)"
      using outcome_restore [where s = ?s and v = "ucast (of_nat n :: byte)"] assms(2) operand [OF n(1)] by simp
    finally show ?thesis using i by (simp add: step_rows_def put_back_here behind_def)
  qed
  show "step_rows m pend cie kmax alloc initial s i" if i: "i = Unknown b"
  proof -
    have b: "m (cfi_pos s) = b" "0x17 \<le> b" "b < 0x40" "b \<noteq> 0x2E" "b \<noteq> 0x2F" using assms(1,3) i by (simp_all add: code_parts)
    have "b AND 0xC0 = 0"
      using low_opcodes [unfolded list_all_iff, rule_format, of "unat b"] b(3) by (simp add: word_less_nat_alt)
    then show ?thesis using packed [OF b(1,2,4,5)] i by (simp add: step_rows_def cfa_packed_def cfa_opcodes)
  qed
qed

lemma meaning_here: "cfi_meaning initial caf daf alloc i c = Inr (Some c') \<Longrightarrow> here c' = here c"
  by (cases i)
    (auto simp: moved_by_def and_next_def ruled_def numbered_def put_back_def split: sum.splits option.splits if_splits list.splits)

lemma instruction_rows:
  assumes "code_at m pend (cfi_pos s) (cfi_bytes i)" "starts kmax initial s" "kmax < 2 ^ 32"
    and "well_formed_cfi (pointerEncoding cie) i"
  shows "step_rows m pend cie kmax alloc initial s i"
  using location_rows [OF assms(1,4)] rule_rows [OF assms(1,2)] state_rows [OF assms(1)] value_rows [OF assms(1,2)]
    address_rows [OF assms(1-3)] packed_rows [OF assms(1,2,4)]
  by (cases i) blast+

section \<open>Programs\<close>

lemma program_rows:
  assumes "bytes_at m (cfi_pos s) (program_bytes is)" "unat (cfi_pos s) + length (program_bytes is) = unat pend"
    and "starts kmax initial s" "kmax < 2 ^ 32" "list_all (well_formed_cfi (pointerEncoding cie)) is"
  shows "map_option outcome_of (cfa_loop m pend cie kmax alloc limit s) =
    Some (run_rows initial (unat (codeAlignFactor cie)) (sint (dataAlignFactor cie)) alloc limit is (config_of s))"
  using assms
proof (induction "is" arbitrary: s)
  case Nil
  then have "cfi_pos s = pend" by (simp add: program_bytes_def word_unat_eq_iff)
  then show ?case by (simp add: loop_stopped)
next
  case (Cons i "is")
  let ?n = "length (cfi_bytes i)" and ?meaning = "cfi_meaning initial (unat (codeAlignFactor cie)) (sint (dataAlignFactor cie)) alloc i (config_of s)"
  have code: "bytes_at m (cfi_pos s) (cfi_bytes i)" "bytes_at m (cfi_pos s + of_nat ?n) (program_bytes is)"
    "length (program_bytes (i # is)) = ?n + length (program_bytes is)"
    using Cons.prems(1) by (simp_all add: program_bytes_def)
  have "0 < ?n" by (cases i) simp_all
  then have "unat (cfi_pos s) < unat pend" using Cons.prems(2) code(3) by linarith
  then have lt: "cfi_pos s < pend" by (simp add: word_less_nat_alt)
  then have "unat (pend - cfi_pos s) = unat pend - unat (cfi_pos s)" by (simp add: unat_sub)
  then have at: "code_at m pend (cfi_pos s) (cfi_bytes i)" using Cons.prems(2) code by (simp add: code_at_def)
  have wf: "well_formed_cfi (pointerEncoding cie) i" "list_all (well_formed_cfi (pointerEncoding cie)) is"
    using Cons.prems(5) by simp_all
  have step: "outcome_of (cfa_step m pend cie kmax alloc s) = and_next ?meaning (\<lambda>c. Inr (Some (behind i c)))"
    using instruction_rows [OF at Cons.prems(3,4) wf(1)] by (simp add: step_rows_def)
  show ?case
  proof (cases "codeOffset s < limit")
    case False
    then show ?thesis by (simp add: loop_stopped)
  next
    case True
    note loop = loop_onward [OF lt True]
    show ?thesis
    proof (cases "cfa_step m pend cie kmax alloc s")
      case (Inl e)
      then have "?meaning = Inl e" using step by (auto simp: and_next_def split: sum.splits option.splits)
      then show ?thesis using loop Inl True by simp
    next
      case (Inr r)
      show ?thesis
      proof (cases r)
        case None
        then have "?meaning = Inr None" using step Inr by (auto simp: and_next_def split: sum.splits option.splits)
        then show ?thesis using loop Inr None True by simp
      next
        case (Some s')
        then obtain c where c: "?meaning = Inr (Some c)" "config_of s' = behind i c"
          using step Inr by (auto simp: and_next_def split: sum.splits option.splits)
        have "here c = cfi_pos s" using meaning_here [OF c(1)] by simp
        then have pos: "cfi_pos s' = cfi_pos s + of_nat ?n" using arg_cong [OF c(2), of here] by (simp add: behind_def)
        have "unat (cfi_pos s) + ?n < 2 ^ 64"
          using Cons.prems(2) code(3) unat_less [of pend] by simp
        then have "unat (cfi_pos s') = unat (cfi_pos s) + ?n" unfolding pos by (simp add: unat_word_ariths unat_of_nat)
        then have "unat (cfi_pos s') + length (program_bytes is) = unat pend" using Cons.prems(2) code(3) by simp
        moreover have "bytes_at m (cfi_pos s') (program_bytes is)" using code(2) pos by simp
        ultimately have "map_option outcome_of (cfa_loop m pend cie kmax alloc limit s') = Some (run_rows initial
            (unat (codeAlignFactor cie)) (sint (dataAlignFactor cie)) alloc limit is (config_of s'))"
          using Cons.IH starts_step [OF Cons.prems(3) Inr [unfolded Some]] Cons.prems(4) wf(2) by blast
        then show ?thesis using loop Inr Some True c by simp
      qed
    qed
  qed
qed

text \<open>The row of a program counter: the program of the common entry is run to its end, then that of the function up to the
  offset \<open>limit\<close>, from the rules that the first left.\<close>

definition empty_row :: "nat \<Rightarrow> unwind_row" where
  "empty_row kmax = \<lparr>row_register = 0, row_offset = 0, row_expression = 0, row_args = 0,
     row_rules = replicate (Suc kmax) (Unspecified, False)\<rparr>"

definition not_given :: "unwind_row \<Rightarrow> rule option list" where
  "not_given w = map (\<lambda>(u, given). if given then None else Some u) (row_rules w)"

definition run_from :: "nat \<Rightarrow> int \<Rightarrow> (nat \<Rightarrow> bool) \<Rightarrow> uptr \<Rightarrow> uptr \<Rightarrow> cfi_instr list \<Rightarrow> unwind_row \<Rightarrow> config outcome" where
  "run_from caf daf alloc limit p is w =
     run_rows (not_given w) caf daf alloc limit is \<lparr>here = p, loc = 0, row = w, kept = []\<rparr>"

definition find_row ::
    "nat \<Rightarrow> nat \<Rightarrow> int \<Rightarrow> (nat \<Rightarrow> bool) \<Rightarrow> uptr \<times> cfi_instr list \<Rightarrow> uptr \<times> cfi_instr list \<Rightarrow> uptr \<Rightarrow> unwind_row outcome" where
  "find_row kmax caf daf alloc common function limit =
     and_next (run_from caf daf alloc (- 1) (fst common) (snd common) (empty_row kmax)) (\<lambda>c.
     and_next (run_from caf daf alloc limit (fst function) (snd function) (row c)) (\<lambda>c.
     Inr (Some (row c))))"

lemma starts_start:
  assumes "length (savedRegisters res) = Suc kmax"
  shows "starts kmax (not_given (row_of res)) (program_start p res [])"
  using assms
  by (auto simp: starts_def not_given_def program_start_def sized_tables_def never_saved_def marked_def saved_lazily_def
      holds_base_def rule_of_def split: option.split)

lemma program_from:
  assumes "bytes_at m p (program_bytes is)" "unat p + length (program_bytes is) = unat pend"
    and "length (savedRegisters res) = Suc kmax" "kmax < 2 ^ 32" "list_all (well_formed_cfi (pointerEncoding cie)) is"
  shows "map_option outcome_of (cfa_program m cie kmax alloc (p, pend, limit) (res, [])) =
    Some (run_from (unat (codeAlignFactor cie)) (sint (dataAlignFactor cie)) alloc limit p is (row_of res))"
proof -
  let ?s = "program_start p res []"
  have s: "config_of ?s = \<lparr>here = p, loc = 0, row = row_of res, kept = []\<rparr>" by (simp add: config_of_def program_start_def)
  have "cfi_pos ?s = p" by (simp add: program_start_def)
  then show ?thesis
    using program_rows [of m ?s "is" pend kmax _ cie alloc limit, OF _ _ starts_start [OF assms(3)] assms(4,5)] assms(1,2)
    by (simp add: cfa_program_def run_from_def s) (simp add: program_start_def)
qed

lemma kept_none:
  "run_rows initial caf daf alloc limit is c = Inr (Some c') \<Longrightarrow> kept c = [] \<Longrightarrow> Remember_state \<notin> set is \<Longrightarrow> kept c' = []"
proof (induction "is" arbitrary: c)
  case (Cons i "is")
  show ?case
  proof (cases "loc c < limit")
    case True
    then obtain c1 where c1: "cfi_meaning initial caf daf alloc i c = Inr (Some c1)"
        "run_rows initial caf daf alloc limit is (behind i c1) = Inr (Some c')"
      using Cons.prems(1) by (auto simp: and_next_def split: sum.splits option.splits)
    have "kept c1 = []" using c1(1) Cons.prems(2,3)
      by (cases i)
        (auto simp: moved_by_def and_next_def ruled_def numbered_def put_back_def give_def split: sum.splits option.splits if_splits list.splits)
    then show ?thesis using Cons.IH [OF c1(2)] Cons.prems(3) by (simp add: behind_def)
  qed (use Cons.prems in auto)
qed simp

text \<open>C26: the parser of call frame instructions computes the row of a program counter.  For the encodings of two lists of
  instructions, anywhere in memory, the result of the parser is that of the meaning: the rules of the frame address and of
  each register, as they are just before the counter; failure for a number above the highest
  register, for an unknown opcode, for a state that is restored but not remembered or not allocated; and a fault for a product out of
  range and for a rule that is restored but was given by the common entry, which the code reads from uninitialised memory.  The
  numbers are those of the encoding; addresses that the code compares with an offset stay so (\<open>Set_loc\<close>, for absolute pointers).  The
  common entry keeps no state at its end.\<close>
theorem parseFDEInstructions_refines:
  assumes "bytes_at m (cieInstructions cie) (program_bytes common)" "bytes_at m (fdeInstructions fde) (program_bytes function)"
    and "unat (cieInstructions cie) + length (program_bytes common) = unat (cieStart cie + cieLength cie)"
    and "unat (fdeInstructions fde) + length (program_bytes function) = unat (fdeStart fde + fdeLength fde)"
    and "list_all (well_formed_cfi (pointerEncoding cie)) (common @ function)" "Remember_state \<notin> set common" "kmax < 2 ^ 32"
  shows "map_option (map_sum id (map_option row_of)) (parseFDEInstructions m fde cie kmax alloc pc (zero_prolog kmax)) =
    Some (find_row kmax (unat (codeAlignFactor cie)) (sint (dataAlignFactor cie)) alloc (cieInstructions cie, common)
      (fdeInstructions fde, function) (pc - pcStart fde))"
proof -
  let ?caf = "unat (codeAlignFactor cie)" and ?daf = "sint (dataAlignFactor cie)"
  have zero: "row_of (zero_prolog kmax) = empty_row kmax"
    by (simp add: row_of_def zero_prolog_def empty_row_def rule_of_def zero_location_def rule_named_def)
  have size0: "length (savedRegisters (zero_prolog kmax)) = Suc kmax" by (simp add: zero_prolog_def)
  obtain r1 where r1: "cfa_program m cie kmax alloc (cieInstructions cie, cieStart cie + cieLength cie, - 1) (zero_prolog kmax, []) = Some r1"
      "outcome_of r1 = run_from ?caf ?daf alloc (- 1) (cieInstructions cie) common (empty_row kmax)"
    using program_from [OF assms(1,3) size0 assms(7), of cie alloc "- 1"] assms(5) by (auto simp: zero)
  consider (fault) e where "r1 = Inl e" | (failure) "r1 = Inr None" | (ran) s1 where "r1 = Inr (Some s1)"
    by (metis option.exhaust sum.exhaust)
  then show ?thesis
  proof cases
    case (ran s1)
    then have c1: "run_from ?caf ?daf alloc (- 1) (cieInstructions cie) common (empty_row kmax) = Inr (Some (config_of s1))"
      using r1(2) by simp
    have kept: "rememberStack s1 = []"
      using kept_none [OF c1 [unfolded run_from_def]] assms(6) by simp
    have "cfa_reaches m (cieStart cie + cieLength cie) cie kmax alloc (program_start (cieInstructions cie) (zero_prolog kmax) []) s1"
      by (rule cfa_loop_reaches [OF _ refl]) (use r1(1) ran in \<open>simp add: cfa_program_def program_start_def\<close>)
    moreover have "cfi_typed kmax (program_start (cieInstructions cie) (zero_prolog kmax) [])"
      by (simp add: cfi_typed_def prolog_typed_def program_start_def zero_prolog_def location_typed_def zero_location_def list_all_iff)
    ultimately have size: "length (savedRegisters (results s1)) = Suc kmax"
      using typed.reaches_keeps by (auto simp: cfi_typed_def prolog_typed_def)
    obtain r2 where r2: "cfa_program m cie kmax alloc (fdeInstructions fde, fdeStart fde + fdeLength fde, pc - pcStart fde) (results s1, []) = Some r2"
        "outcome_of r2 = run_from ?caf ?daf alloc (pc - pcStart fde) (fdeInstructions fde) function (row_of (results s1))"
      using program_from [OF assms(2,4) size assms(7), of cie alloc "pc - pcStart fde"] assms(5) by auto
    then show ?thesis
      using r1(1) ran c1 kept
      by (cases r2; cases "projr r2") (auto simp: parseFDEInstructions_def find_row_def outcome_of_def and_next_def split: option.splits sum.splits)
  qed (use r1(1) r1(2) [symmetric] in \<open>auto simp: parseFDEInstructions_def find_row_def\<close>)
qed

text \<open>A common entry, and a function that pushes a register, keeps the state, moves the frame address to the register, goes back,
  and restores; the bytes as an assembler writes them.\<close>

definition common_program :: "cfi_instr list" where
  "common_program = [Def_cfa 7 8, Offset 16 1, Nop]"

definition function_program :: "cfi_instr list" where
  "function_program = [Advance 1, Def_cfa_offset 16, Offset 6 2, Advance1 3, Remember_state, Def_cfa_register 6,
     Val_expression 3 [0x77, 8], Advance 4, Restore_state, Restore 6, Advance2 1, Restore 16]"

definition rows_memory :: address_space where
  "rows_memory = image 0x1000 [0x0C, 7, 8, 0x90, 1, 0, 0x41, 0x0E, 16, 0x86, 2, 0x02, 3, 0x0A, 0x0D, 6, 0x16, 3, 2, 0x77, 8, 0x44,
     0x0B, 0xC6, 0x03, 1, 0, 0xD0] (\<lambda>a. 0)"

definition rows_cie :: cie_info where
  "rows_cie = zero_cie\<lparr>cieStart := 0xFF0, cieLength := 22, cieInstructions := 0x1000, codeAlignFactor := 1, dataAlignFactor := - 8\<rparr>"

definition rows_fde :: fde_info where
  "rows_fde = zero_fde\<lparr>fdeStart := 0x1006, fdeLength := 22, fdeInstructions := 0x1006, pcStart := 0x2000\<rparr>"

definition parsed_row :: "uptr \<Rightarrow> unwind_row option fallible option" where
  "parsed_row pc = map_option (map_sum id (map_option row_of))
     (parseFDEInstructions rows_memory rows_fde rows_cie 32 (\<lambda>_. True) pc (zero_prolog 32))"

definition frame_row :: "nat \<Rightarrow> (nat \<times> rule \<times> bool) list \<Rightarrow> unwind_row" where
  "frame_row r rules = \<lparr>row_register = r, row_offset = 16, row_expression = 0, row_args = 0,
     row_rules = fold (\<lambda>(q, u) rs. rs[q := u]) rules ((replicate 33 (Unspecified, False))[16 := (At_offset (- 8), True)])\<rparr>"

lemma bytes_at_image:
  "length (pre @ bs) < 2 ^ 64 \<Longrightarrow> bytes_at (image base (pre @ bs) m) (base + of_nat (length pre)) bs"
proof (induction bs arbitrary: pre)
  case (Cons b bs)
  have "unat (of_nat (length pre) :: uptr) = length pre" using Cons.prems by (simp add: unat_of_nat)
  then show ?case using Cons.IH [of "pre @ [b]"] Cons.prems by (simp add: image_def add.assoc add.commute [of 1])
qed simp

lemma sample_programs:
  "program_bytes common_program = [0x0C, 7, 8, 0x90, 1, 0]"
  "program_bytes function_program = [0x41, 0x0E, 16, 0x86, 2, 0x02, 3, 0x0A, 0x0D, 6, 0x16, 3, 2, 0x77, 8, 0x44, 0x0B, 0xC6, 0x03, 1, 0, 0xD0]"
  by (simp_all add: common_program_def function_program_def program_bytes_def block_bytes_def uleb128.simps le_bytes_unfold)

lemma sample_bytes:
  "bytes_at rows_memory 0x1000 (program_bytes common_program)" "length (program_bytes common_program) = 6"
  "bytes_at rows_memory 0x1006 (program_bytes function_program)" "length (program_bytes function_program) = 22"
  using bytes_at_image [of "[]" "program_bytes common_program @ program_bytes function_program" "0x1000" "\<lambda>a. 0"]
    bytes_at_image [of "program_bytes common_program" "program_bytes function_program" "0x1000" "\<lambda>a. 0"]
  unfolding sample_programs rows_memory_def by simp_all

lemma sample_found:
  "find_row 32 1 (- 8) (\<lambda>_. True) (0x1000, common_program) (0x1006, function_program) 4 =
     Inr (Some (frame_row 7 [(6, At_offset (- 16), True)]))"
  "find_row 32 1 (- 8) (\<lambda>_. True) (0x1000, common_program) (0x1006, function_program) 5 =
     Inr (Some (frame_row 6 [(6, At_offset (- 16), True), (3, Expression_itself 0x1012, True)]))"
  "find_row 32 1 (- 8) (\<lambda>_. True) (0x1000, common_program) (0x1006, function_program) 9 =
     Inr (Some (frame_row 7 [(6, Unspecified, False)]))"
  "find_row 32 1 (- 8) (\<lambda>_. True) (0x1000, common_program) (0x1006, function_program) 10 = Inl Uninitialised"
  by (simp_all add: find_row_def run_from_def common_program_def function_program_def empty_row_def not_given_def moved_by_def
      ruled_def numbered_def fits_signed_def give_def put_back_def behind_def block_bytes_def uleb128.simps le_bytes_unfold
      signed32_def frame_row_def map_update nth_list_update word_greater_zero_iff)

theorem parseFDEInstructions_refines_witness:
  "parsed_row 0x2004 = Some (Inr (Some (frame_row 7 [(6, At_offset (- 16), True)]))) \<and>
   parsed_row 0x2005 = Some (Inr (Some (frame_row 6 [(6, At_offset (- 16), True), (3, Expression_itself 0x1012, True)]))) \<and>
   parsed_row 0x2009 = Some (Inr (Some (frame_row 7 [(6, Unspecified, False)]))) \<and>
   parsed_row 0x200A = Some (Inl Uninitialised)"
proof -
  have wf: "list_all (well_formed_cfi (pointerEncoding rows_cie)) (common_program @ function_program)" "Remember_state \<notin> set common_program"
    by (simp_all add: common_program_def function_program_def)
  have "parsed_row pc = Some (find_row 32 1 (- 8) (\<lambda>_. True) (0x1000, common_program) (0x1006, function_program) (pc - 0x2000))" for pc
    using parseFDEInstructions_refines [where m = rows_memory and cie = rows_cie and fde = rows_fde and kmax = 32 and alloc = "\<lambda>_. True" and pc = pc,
        OF _ _ _ _ wf] sample_bytes
    by (simp add: parsed_row_def rows_cie_def rows_fde_def zero_cie_def zero_fde_def)
  then show ?thesis using sample_found by simp
qed

end
