(* ===== verification/DwarfHeader.thy ===== *)
theory DwarfHeader
  imports DwarfCFI
begin

text \<open>
  \<^verbatim>\<open>libunwind/src/EHHeaderParser.hpp\<close>: the \<^verbatim>\<open>.eh_frame_hdr\<close> section, a sorted table of the starts of
  functions and their frame description entries, and the binary search in it.
\<close>

unbundle bit_operations_syntax

section \<open>The header\<close>

record eh_header =
  eh_frame_ptr :: uptr
  fde_count :: uptr
  table :: uptr
  table_enc :: byte

text \<open>\<open>None\<close> is the result \<open>false\<close>.\<close>

definition decodeEHHdr :: "address_space \<Rightarrow> uptr \<Rightarrow> uptr \<Rightarrow> eh_header option fallible" where
  "decodeEHHdr m ehHdrStart ehHdrEnd =
     (if ehHdrEnd - ehHdrStart < 4 then Inr None
      else if get8 m ehHdrStart \<noteq> 1 then Inr None
      else
        let eh_frame_ptr_enc = get8 m (ehHdrStart + 1);
            fde_count_enc = get8 m (ehHdrStart + 2);
            enc = get8 m (ehHdrStart + 3) in
        bind_ok (getEncodedP m (ehHdrStart + 4) ehHdrEnd eh_frame_ptr_enc ehHdrStart) (\<lambda>(frame, p, _).
        bind_ok
          (if fde_count_enc = DW_EH_PE_omit then Inr (0, p, 0)
           else getEncodedP m p ehHdrEnd fde_count_enc ehHdrStart)
          (\<lambda>(count, p, _). Inr (Some \<lparr>eh_frame_ptr = frame, fde_count = count, table = p, table_enc = enc\<rparr>))))"

definition getTableEntrySize :: "byte \<Rightarrow> uptr fallible" where
  "getTableEntrySize tableEnc =
     (let format = tableEnc AND 0x0F in
      if format = DW_EH_PE_sdata2 \<or> format = DW_EH_PE_udata2 then Inr 4
      else if format = DW_EH_PE_sdata4 \<or> format = DW_EH_PE_udata4 then Inr 8
      else if format = DW_EH_PE_sdata8 \<or> format = DW_EH_PE_udata8 then Inr 16
      else if format = DW_EH_PE_sleb128 \<or> format = DW_EH_PE_uleb128 then
        Inl (Abort ''Can't binary search on variable length encoded data.'')
      else if format = DW_EH_PE_omit then Inr 0
      else Inl (Abort ''Unknown DWARF encoding for search table.''))"

section \<open>The search\<close>

lemma halves:
  fixes len :: uptr
  assumes "1 < len"
  shows "unat (len div 2) < unat len" "0 < unat (len div 2)"
    "unat (len - len div 2) = unat len - unat (len div 2)" "unat (len - len div 2) < unat len"
proof -
  show h: "unat (len div 2) < unat len" "0 < unat (len div 2)"
    using assms by (auto simp: word_less_nat_alt unat_div div_greater_zero_iff)
  show d: "unat (len - len div 2) = unat len - unat (len div 2)"
    by (rule unat_sub) (simp add: word_le_nat_alt unat_div)
  show "unat (len - len div 2) < unat len" unfolding d using h by simp
qed

text \<open>The loop: the index at which the search stops.\<close>

function search_loop ::
    "address_space \<Rightarrow> uptr \<Rightarrow> uptr \<Rightarrow> eh_header \<Rightarrow> uptr \<Rightarrow> uptr \<Rightarrow> uptr \<Rightarrow> uptr \<Rightarrow> uptr fallible" where
  "search_loop m ehHdrStart ehHdrEnd hdr tableEntrySize pc low len =
     (if len > 1 then
        let half = len div 2; mid = low + half in
        bind_ok (getEncodedP m (table hdr + mid * tableEntrySize) ehHdrEnd (table_enc hdr) ehHdrStart) (\<lambda>(start, _, _).
        if start = pc then Inr mid
        else if start < pc then search_loop m ehHdrStart ehHdrEnd hdr tableEntrySize pc mid (len - half)
        else search_loop m ehHdrStart ehHdrEnd hdr tableEntrySize pc low half)
      else Inr low)"
  by pat_completeness auto
termination
  by (relation "measure (\<lambda>(m, b, e, hdr, sz, pc, low, len). unat len)") (simp_all add: halves(1,4))

declare search_loop.simps [simp del]

text \<open>The entry the search stopped at: the second address of the pair is that of the frame description entry.\<close>

definition decodeTableEntry ::
    "address_space \<Rightarrow> uptr \<Rightarrow> uptr \<Rightarrow> uptr \<Rightarrow> byte \<Rightarrow> fde_info \<Rightarrow> cie_info \<Rightarrow>
       (bool \<times> fde_info \<times> cie_info) fallible option" where
  "decodeTableEntry m tableEntry ehHdrStart ehHdrEnd tableEnc fde cie =
     and_then (Some (getEncodedP m tableEntry ehHdrEnd tableEnc ehHdrStart)) (\<lambda>(_, p, _).
     and_then (Some (getEncodedP m p ehHdrEnd tableEnc ehHdrStart)) (\<lambda>(start, _, _).
     and_then (decodeFDE m start fde cie False) (\<lambda>(message, fde, cie).
     Some (Inr (message = None, fde, cie)))))"

definition header_findFDE ::
    "address_space \<Rightarrow> uptr \<Rightarrow> uptr \<Rightarrow> 32 word \<Rightarrow> fde_info \<Rightarrow> cie_info \<Rightarrow> (bool \<times> fde_info \<times> cie_info) fallible option" where
  "header_findFDE m pc ehHdrStart sectionLength fde cie =
     (let ehHdrEnd = ehHdrStart + ucast sectionLength in
      and_then (Some (decodeEHHdr m ehHdrStart ehHdrEnd)) (\<lambda>decoded.
        case decoded of
          None \<Rightarrow> Some (Inr (False, fde, cie))
        | Some hdr \<Rightarrow>
            if fde_count hdr = 0 then Some (Inr (False, fde, cie))
            else
              and_then (Some (getTableEntrySize (table_enc hdr))) (\<lambda>tableEntrySize.
              and_then (Some (search_loop m ehHdrStart ehHdrEnd hdr tableEntrySize pc 0 (fde_count hdr))) (\<lambda>low.
              and_then (decodeTableEntry m (table hdr + low * tableEntrySize) ehHdrStart ehHdrEnd (table_enc hdr) fde cie)
                (\<lambda>(ok, fde, cie). Some (Inr (ok \<and> pcStart fde \<le> pc \<and> pc < pcEnd fde, fde, cie)))))))"

section \<open>The search finds the entry\<close>

text \<open>A table of \<open>n\<close> entries whose starts are readable and in order.\<close>

definition readable_starts :: "address_space \<Rightarrow> uptr \<Rightarrow> uptr \<Rightarrow> eh_header \<Rightarrow> uptr \<Rightarrow> (nat \<Rightarrow> uptr) \<Rightarrow> nat \<Rightarrow> bool" where
  "readable_starts m ehHdrStart ehHdrEnd hdr sz start n \<longleftrightarrow>
     (\<forall>i<n. \<exists>p r. getEncodedP m (table hdr + of_nat i * sz) ehHdrEnd (table_enc hdr) ehHdrStart = Inr (start i, p, r)) \<and>
     (\<forall>i j. i < j \<and> j < n \<longrightarrow> start i < start j)"

lemma half_of_nat: "k < 2 ^ 64 \<Longrightarrow> (of_nat k :: uptr) div 2 = of_nat (k div 2)"
  by (simp add: word_unat_eq_iff unat_div unat_of_nat)

lemma search_loop_finds:
  assumes t: "readable_starts m ehHdrStart ehHdrEnd hdr sz start n" and n: "n < 2 ^ 64"
    and "l + k \<le> n" "0 < k" "l = 0 \<or> start l \<le> pc" "\<forall>j. l + k \<le> j \<and> j < n \<longrightarrow> pc < start j"
  shows "\<exists>i<n. search_loop m ehHdrStart ehHdrEnd hdr sz pc (of_nat l) (of_nat k) = Inr (of_nat i) \<and>
    (i = 0 \<or> start i \<le> pc) \<and> (\<forall>j. i < j \<and> j < n \<longrightarrow> pc < start j)"
  using assms(3-)
proof (induction k arbitrary: l rule: less_induct)
  case (less k)
  show ?case
  proof (cases "k = 1")
    case True
    then show ?thesis using less.prems by (intro exI [of _ l]) (auto simp: search_loop.simps)
  next
    case False
    then have k: "1 < k" "0 < k div 2" "k div 2 < k" using less.prems(2) by auto
    define h where "h = k div 2"
    have h: "0 < h" "h < k" "k < 2 ^ 64" using k less.prems(1) n by (auto simp: h_def)
    have big: "(1::uptr) < of_nat k" using k(1) h(3) by (simp add: word_less_nat_alt unat_of_nat)
    have mid: "l + h < n" using less.prems(1) h(2) by simp
    obtain p r where g: "getEncodedP m (table hdr + of_nat (l + h) * sz) ehHdrEnd (table_enc hdr) ehHdrStart =
        Inr (start (l + h), p, r)"
      using t mid unfolding readable_starts_def by blast
    have order: "start i < start j" if "i < j" "j < n" for i j using t that unfolding readable_starts_def by blast
    have step: "search_loop m ehHdrStart ehHdrEnd hdr sz pc (of_nat l) (of_nat k) =
      (if start (l + h) = pc then Inr (of_nat (l + h))
       else if start (l + h) < pc then search_loop m ehHdrStart ehHdrEnd hdr sz pc (of_nat (l + h)) (of_nat (k - h))
       else search_loop m ehHdrStart ehHdrEnd hdr sz pc (of_nat l) (of_nat h))"
      using big g h half_of_nat [OF h(3)]
      by (subst search_loop.simps) (simp add: h_def [symmetric] of_nat_diff Let_def)
    consider "start (l + h) = pc" | "start (l + h) < pc" | "pc < start (l + h)" by fastforce
    then show ?thesis
    proof cases
      case 1
      then show ?thesis using step mid order [of "l + h"] by (intro exI [of _ "l + h"]) auto
    next
      case 2
      then show ?thesis
        using step less.IH [of "k - h" "l + h"] h less.prems by auto
    next
      case 3
      have "pc < start j" if "l + h \<le> j" "j < n" for j
        using 3 order [of "l + h" j] that by (cases "j = l + h") (auto intro: less_trans)
      moreover have "search_loop m ehHdrStart ehHdrEnd hdr sz pc (of_nat l) (of_nat k) =
          search_loop m ehHdrStart ehHdrEnd hdr sz pc (of_nat l) (of_nat h)"
        unfolding step using 3 by (metis less_irrefl less_asym)
      ultimately show ?thesis
        using less.IH [OF h(2), of l] h(1,2) less.prems(1,3) by simp
    qed
  qed
qed

text \<open>A header whose table lists, in order, functions that do not overlap, each with an entry that decodes.\<close>

definition table_of ::
    "address_space \<Rightarrow> uptr \<Rightarrow> uptr \<Rightarrow> eh_header \<Rightarrow> uptr \<Rightarrow> fde_info \<Rightarrow> cie_info \<Rightarrow> (fde_info \<times> cie_info) list \<Rightarrow> bool" where
  "table_of m ehHdrStart ehHdrEnd hdr sz fde0 cie0 entries \<longleftrightarrow>
     readable_starts m ehHdrStart ehHdrEnd hdr sz (\<lambda>i. pcStart (fst (entries ! i))) (length entries) \<and>
     (\<forall>i j. i < j \<and> j < length entries \<longrightarrow> pcEnd (fst (entries ! i)) \<le> pcStart (fst (entries ! j))) \<and>
     (\<forall>i<length entries. decodeTableEntry m (table hdr + of_nat i * sz) ehHdrStart ehHdrEnd (table_enc hdr)
        fde0 cie0 = Some (Inr (True, entries ! i)))"

text \<open>C14: the binary search is a lookup.  When the header decodes and its table lists, in order of their starts, functions
  that do not overlap, then the search always returns; it finds an entry exactly when one of the functions covers
  the program counter, and it is the entry of that function.\<close>
theorem header_search_is_lookup:
  assumes "decodeEHHdr m ehHdrStart (ehHdrStart + ucast sectionLength) = Inr (Some hdr)"
    and "getTableEntrySize (table_enc hdr) = Inr sz"
    and "unat (fde_count hdr) = length entries" "entries \<noteq> []"
    and "table_of m ehHdrStart (ehHdrStart + ucast sectionLength) hdr sz fde0 cie0 entries"
  shows "\<exists>found fde cie. header_findFDE m pc ehHdrStart sectionLength fde0 cie0 = Some (Inr (found, fde, cie)) \<and>
    (found \<longleftrightarrow> (\<exists>(f, c) \<in> set entries. pcStart f \<le> pc \<and> pc < pcEnd f)) \<and>
    (found \<longrightarrow> (fde, cie) \<in> set entries \<and> pcStart fde \<le> pc \<and> pc < pcEnd fde)"
proof -
  let ?n = "length entries" and ?e = "ehHdrStart + ucast sectionLength"
  let ?start = "\<lambda>i. pcStart (fst (entries ! i))"
  have n: "?n < 2 ^ 64" "0 < ?n" using unat_less [of "fde_count hdr"] assms(3,4) by simp_all
  have nz: "fde_count hdr \<noteq> 0" using assms(3,4) by auto
  have count: "fde_count hdr = of_nat ?n" using assms(3) [symmetric] by simp
  obtain i where i: "i < ?n" "search_loop m ehHdrStart ?e hdr sz pc 0 (fde_count hdr) = Inr (of_nat i)"
    "i = 0 \<or> ?start i \<le> pc" "\<And>j. i < j \<Longrightarrow> j < ?n \<Longrightarrow> pc < ?start j"
  proof -
    have "\<exists>i<?n. search_loop m ehHdrStart ?e hdr sz pc (of_nat 0) (of_nat ?n) = Inr (of_nat i) \<and>
        (i = 0 \<or> ?start i \<le> pc) \<and> (\<forall>j. i < j \<and> j < ?n \<longrightarrow> pc < ?start j)"
      by (rule search_loop_finds [OF _ n(1) _ n(2)]) (use assms(5) in \<open>auto simp: table_of_def\<close>)
    then show ?thesis using that unfolding count by auto
  qed
  have "decodeTableEntry m (table hdr + of_nat i * sz) ehHdrStart ?e (table_enc hdr) fde0 cie0 = Some (Inr (True, entries ! i))"
    using assms(5) i(1) unfolding table_of_def by blast
  then have r: "header_findFDE m pc ehHdrStart sectionLength fde0 cie0 =
      Some (Inr (?start i \<le> pc \<and> pc < pcEnd (fst (entries ! i)), entries ! i))"
    using assms(1,2) i(2) nz by (cases "entries ! i") (auto simp: header_findFDE_def Let_def)
  have only: "j = i" if "j < ?n" "?start j \<le> pc" "pc < pcEnd (fst (entries ! j))" for j
  proof (rule ccontr)
    assume "j \<noteq> i"
    moreover have "\<not> i < j" using i(4) that by fastforce
    ultimately have "j < i" by simp
    then have "pcEnd (fst (entries ! j)) \<le> ?start i" using assms(5) i(1) unfolding table_of_def by blast
    moreover have "?start i \<le> pc" using i(3) \<open>j < i\<close> by simp
    ultimately show False using that(3) by simp
  qed
  have one: "(\<exists>(f, c) \<in> set entries. pcStart f \<le> pc \<and> pc < pcEnd f) \<longleftrightarrow>
      ?start i \<le> pc \<and> pc < pcEnd (fst (entries ! i))"
  proof
    assume "\<exists>(f, c) \<in> set entries. pcStart f \<le> pc \<and> pc < pcEnd f"
    then obtain f c where c: "(f, c) \<in> set entries" "pcStart f \<le> pc" "pc < pcEnd f" by blast
    then obtain j where j: "j < ?n" "entries ! j = (f, c)" by (auto simp: in_set_conv_nth)
    then have "j = i" using c(2,3) by (intro only) simp_all
    then show "?start i \<le> pc \<and> pc < pcEnd (fst (entries ! i))" using j c by simp
  next
    assume "?start i \<le> pc \<and> pc < pcEnd (fst (entries ! i))"
    then show "\<exists>(f, c) \<in> set entries. pcStart f \<le> pc \<and> pc < pcEnd f"
      using i(1) by (intro bexI [of _ "entries ! i"]) (simp_all add: case_prod_beta)
  qed
  obtain f c where e: "entries ! i = (f, c)" by (cases "entries ! i")
  have m: "(f, c) \<in> set entries" using i(1) e by (metis nth_mem)
  show ?thesis
    using r one m unfolding e fst_conv
    by (intro exI [of _ "pcStart f \<le> pc \<and> pc < pcEnd f"] exI [of _ f] exI [of _ c]) blast
qed

theorem header_search_is_lookup_witness:
  "\<exists>fde cie. header_findFDE sample_memory 0x2010 0x1100 20 zero_fde zero_cie = Some (Inr (True, fde, cie)) \<and> pcStart fde = 0x2000"
proof -
  let ?hdr = "\<lparr>eh_frame_ptr = 0x1000, fde_count = 1, table = 0x110C, table_enc = 0x3B\<rparr>"
  have h: "decodeEHHdr sample_memory 0x1100 (0x1100 + ucast (20 :: 32 word)) = Inr (Some ?hdr)" by code_simp
  have s: "getTableEntrySize (table_enc ?hdr) = Inr 8" by code_simp
  have g: "getEncodedP sample_memory (table ?hdr + 0 * 8) (0x1100 + ucast (20 :: 32 word)) 0x3B 0x1100 = Inr (0x2000, 0x1110, 0x110C)"
    by code_simp
  have d: "decodeTableEntry sample_memory (table ?hdr + 0 * 8) 0x1100 (0x1100 + ucast (20 :: 32 word)) 0x3B zero_fde zero_cie =
      Some (Inr (True, sample_fde, sample_cie))"
    by code_simp
  have t: "table_of sample_memory 0x1100 (0x1100 + ucast (20 :: 32 word)) ?hdr 8 zero_fde zero_cie [(sample_fde, sample_cie)]"
    using g d by (simp add: table_of_def readable_starts_def sample_fde_def)
  show ?thesis
    using header_search_is_lookup [OF h s _ _ t, of "0x2010"] by (auto simp: sample_fde_def)
qed

end
