(* ===== verification/FrameCache.thy ===== *)
theory FrameCache
  imports DwarfHeader
begin

text \<open>
  \<^verbatim>\<open>libunwind/src/FrameHeaderCache.hpp\<close>: the cache of the sections found for the program headers of the loaded objects.
  Eight entries are on one of two linked lists, of those used (the most recent first) and of those unused.  A pointer to
  an entry is its index, the null pointer \<open>None\<close>.  The lists refine one list of at most eight values,
  moved to the front when found and dropped at the end when the cache is full.
\<close>

section \<open>The cache\<close>

record unwind_sections =
  dso_base :: uptr
  text_segment_length :: uptr
  dwarf_section :: uptr
  dwarf_section_length :: uptr
  dwarf_index_section :: uptr
  dwarf_index_section_length :: uptr

record cache_entry =
  Info :: unwind_sections
  Next :: "nat option"

text \<open>\<open>LastAdds\<close> and \<open>LastSubs\<close> are the two static variables of \<open>cacheNeedsReset\<close>.\<close>

record header_cache =
  Entries :: "nat \<Rightarrow> cache_entry"
  MostRecentlyUsed :: "nat option"
  Unused :: "nat option"
  LastAdds :: "64 word"
  LastSubs :: "64 word"

definition kCacheEntryCount :: nat where "kCacheEntryCount = 8"

definition LowPC :: "cache_entry \<Rightarrow> uptr" where
  "LowPC e = dso_base (Info e)"

definition HighPC :: "cache_entry \<Rightarrow> uptr" where
  "HighPC e = dso_base (Info e) + text_segment_length (Info e)"

definition set_next :: "nat \<Rightarrow> nat option \<Rightarrow> header_cache \<Rightarrow> header_cache" where
  "set_next i n c = c\<lparr>Entries := (Entries c)(i := (Entries c i)\<lparr>Next := n\<rparr>)\<rparr>"

definition resetCache :: "header_cache \<Rightarrow> header_cache" where
  "resetCache c =
     (let c = c\<lparr>MostRecentlyUsed := None, Unused := Some 0\<rparr>;
          c = fold (\<lambda>i. set_next i (Some (i + 1))) [0..<kCacheEntryCount - 1] c in
      set_next (kCacheEntryCount - 1) None c)"

text \<open>The counters of objects loaded and unloaded, as the C library reports them.\<close>

definition cacheNeedsReset :: "64 word \<Rightarrow> 64 word \<Rightarrow> header_cache \<Rightarrow> bool \<times> header_cache" where
  "cacheNeedsReset adds subs c =
     (if adds \<noteq> LastAdds c \<or> subs \<noteq> LastSubs c then (True, resetCache (c\<lparr>LastAdds := adds, LastSubs := subs\<rparr>))
      else (False, c))"

text \<open>The entry \<open>Current\<close> moves to the front, when \<open>Previous\<close> is before it.\<close>

definition move_up :: "nat option \<Rightarrow> nat \<Rightarrow> header_cache \<Rightarrow> header_cache" where
  "move_up Previous Current c =
     (case Previous of
        None \<Rightarrow> c
      | Some previous \<Rightarrow>
          let c = set_next previous (Next (Entries c Current)) c;
              c = set_next Current (MostRecentlyUsed c) c in
          c\<lparr>MostRecentlyUsed := Some Current\<rparr>)"

partial_function (option) find_loop ::
    "uptr \<Rightarrow> header_cache \<Rightarrow> nat option \<Rightarrow> nat option \<Rightarrow> (unwind_sections option \<times> header_cache) option" where
  "find_loop targetAddr c Previous Current =
     (case Current of
        None \<Rightarrow> Some (None, c)
      | Some i \<Rightarrow>
          if LowPC (Entries c i) \<le> targetAddr \<and> targetAddr < HighPC (Entries c i) then
            Some (Some (Info (Entries c i)), move_up Previous i c)
          else find_loop targetAddr c Current (Next (Entries c i)))"

definition cache_find ::
    "64 word \<Rightarrow> 64 word \<Rightarrow> uptr \<Rightarrow> header_cache \<Rightarrow> (unwind_sections option \<times> header_cache) option" where
  "cache_find adds subs targetAddr c =
     (let (reset, c) = cacheNeedsReset adds subs c in
      if reset \<or> MostRecentlyUsed c = None then Some (None, c)
      else find_loop targetAddr c None (MostRecentlyUsed c))"

text \<open>The last entry of the list, and the one before it.\<close>

partial_function (option) last_entry :: "header_cache \<Rightarrow> nat option \<Rightarrow> nat \<Rightarrow> (nat option \<times> nat) option" where
  "last_entry c Previous Current =
     (case Next (Entries c Current) of
        None \<Rightarrow> Some (Previous, Current)
      | Some n \<Rightarrow> last_entry c (Some Current) n)"

declare find_loop.simps [code] last_entry.simps [code]

definition put_front :: "unwind_sections \<Rightarrow> nat \<Rightarrow> header_cache \<Rightarrow> header_cache" where
  "put_front UIS i c =
     c\<lparr>Entries := (Entries c)(i := \<lparr>Info = UIS, Next = MostRecentlyUsed c\<rparr>), MostRecentlyUsed := Some i\<rparr>"

definition cache_add :: "unwind_sections \<Rightarrow> header_cache \<Rightarrow> header_cache fallible option" where
  "cache_add UIS c =
     (case Unused c of
        Some i \<Rightarrow> Some (Inr (put_front UIS i (c\<lparr>Unused := Next (Entries c i)\<rparr>)))
      | None \<Rightarrow>
          (case MostRecentlyUsed c of
             None \<Rightarrow> Some (Inl Null_access)
           | Some first \<Rightarrow>
               (case last_entry c None first of
                  None \<Rightarrow> None
                | Some (previous, i) \<Rightarrow>
                    (case previous of
                       None \<Rightarrow> Some (Inl Null_access)
                     | Some p \<Rightarrow> Some (Inr (put_front UIS i (set_next p None c)))))))"

section \<open>Lists of entries\<close>

text \<open>The pointers from \<open>p\<close> to \<open>q\<close> pass through the entries of a list.\<close>

fun path :: "(nat \<Rightarrow> cache_entry) \<Rightarrow> nat option \<Rightarrow> nat list \<Rightarrow> nat option \<Rightarrow> bool" where
  "path es p [] q \<longleftrightarrow> p = q"
| "path es p (i # is) q \<longleftrightarrow> p = Some i \<and> path es (Next (es i)) is q"

lemma path_append: "path es p (is @ js) q \<longleftrightarrow> (\<exists>r. path es p is r \<and> path es r js q)"
  by (induction "is" arbitrary: p) auto

lemma path_cong: "(\<And>i. i \<in> set is \<Longrightarrow> Next (es' i) = Next (es i)) \<Longrightarrow> path es' p is q = path es p is q"
  by (induction "is" arbitrary: p) auto

lemma path_set_next: "k \<notin> set is \<Longrightarrow> path (Entries (set_next k n c)) p is q = path (Entries c) p is q"
  by (rule path_cong) (auto simp: set_next_def)

lemma path_redirect:
  "path es p (is @ [k]) q \<Longrightarrow> k \<notin> set is \<Longrightarrow> path (es(k := (es k)\<lparr>Next := r\<rparr>)) p (is @ [k]) r"
proof -
  assume "path es p (is @ [k]) q" "k \<notin> set is"
  then have "path (es(k := (es k)\<lparr>Next := r\<rparr>)) p is (Some k)"
    using path_cong [of "is" "es(k := (es k)\<lparr>Next := r\<rparr>)" es] by (fastforce simp: path_append)
  then show ?thesis by (auto simp: path_append)
qed

text \<open>The cache holds the values \<open>xs\<close>, the most recent first.\<close>

definition holds_cache :: "header_cache \<Rightarrow> unwind_sections list \<Rightarrow> bool" where
  "holds_cache c xs \<longleftrightarrow>
     (\<exists>is us. path (Entries c) (MostRecentlyUsed c) is None \<and> path (Entries c) (Unused c) us None \<and>
        distinct (is @ us) \<and> set (is @ us) = {0..<kCacheEntryCount} \<and> xs = map (\<lambda>i. Info (Entries c i)) is)"

definition in_text :: "uptr \<Rightarrow> unwind_sections \<Rightarrow> bool" where
  "in_text a x \<longleftrightarrow> dso_base x \<le> a \<and> a < dso_base x + text_segment_length x"

text \<open>What the operations do to the list.\<close>

definition touched :: "uptr \<Rightarrow> unwind_sections list \<Rightarrow> unwind_sections list" where
  "touched a xs = (case List.extract (in_text a) xs of None \<Rightarrow> xs | Some (ys, x, zs) \<Rightarrow> x # ys @ zs)"

definition added :: "unwind_sections \<Rightarrow> unwind_sections list \<Rightarrow> unwind_sections list" where
  "added x xs = x # (if length xs < kCacheEntryCount then xs else butlast xs)"

lemma set_touched: "set (touched a xs) = set xs"
  by (auto simp: touched_def extract_Some_iff split: option.split)

lemma set_added: "set (added x xs) \<subseteq> insert x (set xs)"
  by (auto simp: added_def dest: in_set_butlastD)

lemma resets_empty: "holds_cache (resetCache c) []"
proof -
  let ?es = "Entries (resetCache c)"
  have "path ?es (Unused (resetCache c)) [0..<kCacheEntryCount] None"
    by (simp add: resetCache_def kCacheEntryCount_def set_next_def upt_rec Let_def)
  moreover have "MostRecentlyUsed (resetCache c) = None"
    by (simp add: resetCache_def kCacheEntryCount_def set_next_def upt_rec Let_def)
  ultimately show ?thesis unfolding holds_cache_def by (intro exI [of _ "[]"] exI [of _ "[0..<kCacheEntryCount]"]) simp
qed

section \<open>The operations on the lists\<close>

lemma extract_map:
  "List.extract P (map f xs) = map_option (\<lambda>(ys, x, zs). (map f ys, f x, map f zs)) (List.extract (\<lambda>x. P (f x)) xs)"
  by (induction xs) (auto simp: extract_Nil_code extract_Cons_code split: option.split)

lemma find_loop_run:
  "path (Entries c) Current is None \<Longrightarrow> find_loop a c Previous Current =
    Some (case List.extract (\<lambda>i. in_text a (Info (Entries c i))) is of
            None \<Rightarrow> (None, c)
          | Some (ys, i, zs) \<Rightarrow> (Some (Info (Entries c i)), move_up (if ys = [] then Previous else Some (last ys)) i c))"
proof (induction "is" arbitrary: Previous Current)
  case Nil
  then show ?case by (subst find_loop.simps) (simp add: extract_Nil_code)
next
  case (Cons i "is")
  then have p: "Current = Some i" "path (Entries c) (Next (Entries c i)) is None" by auto
  show ?case
  proof (cases "in_text a (Info (Entries c i))")
    case True
    then show ?thesis using p(1)
      by (subst find_loop.simps) (simp add: extract_Cons_code in_text_def LowPC_def HighPC_def)
  next
    case False
    then have "find_loop a c Previous Current = find_loop a c (Some i) (Next (Entries c i))"
      using p(1) by (subst find_loop.simps) (auto simp: in_text_def LowPC_def HighPC_def)
    then show ?thesis using Cons.IH [OF p(2)] False by (auto simp: extract_Cons_code split: option.split)
  qed
qed

lemma moved_up:
  assumes "path (Entries c) (MostRecentlyUsed c) (ys @ i # zs) None" "distinct (ys @ i # zs)" "ys \<noteq> []"
  defines "c' \<equiv> move_up (Some (last ys)) i c"
  shows "path (Entries c') (MostRecentlyUsed c') (i # ys @ zs) None" "Unused c' = Unused c"
    "Info (Entries c' k) = Info (Entries c k)" "k \<notin> set ys \<Longrightarrow> k \<noteq> i \<Longrightarrow> Entries c' k = Entries c k"
proof -
  obtain bs p where ys: "ys = bs @ [p]" using assms(3) by (metis rev_exhaust)
  let ?c1 = "set_next p (Next (Entries c i)) c"
  have c': "c' = (set_next i (MostRecentlyUsed ?c1) ?c1)\<lparr>MostRecentlyUsed := Some i\<rparr>"
    by (simp add: c'_def move_up_def ys Let_def)
  have d: "p \<notin> set bs" "i \<notin> set ys" "i \<noteq> p" "p \<notin> set zs" "i \<notin> set zs" using assms(2) by (auto simp: ys)
  have parts: "path (Entries c) (MostRecentlyUsed c) (bs @ [p]) (Some i)" "path (Entries c) (Next (Entries c i)) zs None"
    using assms(1) by (auto simp: path_append ys)
  have "path (Entries ?c1) (MostRecentlyUsed c) (bs @ [p]) (Next (Entries c i))"
    using path_redirect [OF parts(1) d(1)] by (simp add: set_next_def)
  moreover have "path (Entries ?c1) (Next (Entries c i)) zs None" using parts(2) d(4) by (simp add: path_set_next)
  ultimately have "path (Entries ?c1) (MostRecentlyUsed c) (ys @ zs) None" by (auto simp: path_append ys)
  then have "path (Entries (set_next i (MostRecentlyUsed ?c1) ?c1)) (MostRecentlyUsed c) (ys @ zs) None"
    using d by (simp add: path_set_next)
  then show "path (Entries c') (MostRecentlyUsed c') (i # ys @ zs) None"
    by (simp add: c' set_next_def)
  show "Unused c' = Unused c" "Info (Entries c' k) = Info (Entries c k)" by (simp_all add: c' set_next_def)
  show "k \<notin> set ys \<Longrightarrow> k \<noteq> i \<Longrightarrow> Entries c' k = Entries c k" by (auto simp: c' set_next_def ys)
qed

lemma find_refines:
  assumes "holds_cache c xs"
  obtains c' where "find_loop a c None (MostRecentlyUsed c) = Some (find (in_text a) xs, c')" "holds_cache c' (touched a xs)"
    "LastAdds c' = LastAdds c" "LastSubs c' = LastSubs c"
proof -
  let ?P = "\<lambda>i. in_text a (Info (Entries c i))"
  obtain "is" us where h: "path (Entries c) (MostRecentlyUsed c) is None" "path (Entries c) (Unused c) us None"
    "distinct (is @ us)" "set (is @ us) = {0..<kCacheEntryCount}" "xs = map (\<lambda>i. Info (Entries c i)) is"
    using assms by (auto simp: holds_cache_def)
  note run = find_loop_run [OF h(1), of a None]
  show thesis
  proof (cases "List.extract ?P is")
    case None
    then have "find (in_text a) xs = None" "List.extract (in_text a) xs = None"
      by (auto simp: extract_None_iff find_None_iff h(5))
    then have "find (in_text a) xs = None" "touched a xs = xs" by (simp_all add: touched_def)
    then show thesis using that [of c] run None assms by simp
  next
    case (Some e)
    obtain ys i zs where e: "e = (ys, i, zs)" by (cases e)
    have is_eq: "is = ys @ i # zs" "?P i" "\<forall>y \<in> set ys. \<not> ?P y"
      using Some by (auto simp: e extract_Some_iff)
    have found: "find (in_text a) xs = Some (Info (Entries c i))"
      using is_eq by (simp add: h(5) find_Some_iff) (auto intro!: exI [of _ "length ys"] simp: nth_append)
    have touched: "touched a xs = Info (Entries c i) # map (\<lambda>i. Info (Entries c i)) (ys @ zs)"
      by (simp add: touched_def h(5) extract_map Some e)
    show thesis
    proof (cases "ys = []")
      case True
      then have "touched a xs = xs" using touched is_eq(1) h(5) by simp
      then show thesis using that [of c] run Some e found True assms by (simp add: move_up_def)
    next
      case False
      let ?c = "move_up (Some (last ys)) i c"
      note up = moved_up [OF h(1) [unfolded is_eq(1)] _ False]
      have d: "distinct (ys @ i # zs)" using h(3) is_eq(1) by auto
      have "path (Entries ?c) (Unused ?c) us None"
      proof -
        have "Entries ?c k = Entries c k" if "k \<in> set us" for k
        proof (rule up(4) [OF d])
          show "k \<notin> set ys" "k \<noteq> i" using h(3) is_eq(1) that by auto
        qed
        then have "path (Entries ?c) (Unused c) us None = path (Entries c) (Unused c) us None" by (intro path_cong) simp
        then show ?thesis using h(2) by (simp only: up(2) [OF d])
      qed
      then have "holds_cache ?c (touched a xs)"
        unfolding holds_cache_def touched
        using up(1) [OF d] up(3) [OF d] h(3,4) is_eq(1) by (intro exI [of _ "i # ys @ zs"] exI [of _ us]) auto
      moreover have "LastAdds ?c = LastAdds c" "LastSubs ?c = LastSubs c" by (simp_all add: move_up_def set_next_def Let_def)
      ultimately show thesis using that [of ?c] run Some e found False by simp
    qed
  qed
qed

lemma last_entry_run:
  "path (Entries c) (Some i) is None \<Longrightarrow>
    last_entry c Previous i = Some (if length is = 1 then Previous else Some (last (butlast is)), last is)"
proof (induction "is" arbitrary: Previous i)
  case (Cons j "is")
  show ?case
  proof (cases "is")
    case Nil
    then show ?thesis using Cons(2) by (subst last_entry.simps) simp
  next
    case Cons2: (Cons k ks)
    then have "last_entry c Previous i = last_entry c (Some i) k"
      using Cons(2) by (subst last_entry.simps) simp
    moreover have "path (Entries c) (Some k) is None" using Cons(2) Cons2 by simp
    ultimately show ?thesis using Cons(1) [of k "Some i"] Cons2 Cons(2) by simp
  qed
qed simp

lemma put_front_path:
  assumes "path (Entries c) (MostRecentlyUsed c) is None" "path (Entries c) (Unused c) us None" "distinct (i # is @ us)"
    "set (i # is @ us) = {0..<kCacheEntryCount}"
  shows "holds_cache (put_front x i c) (x # map (\<lambda>i. Info (Entries c i)) is)"
proof -
  let ?es = "Entries (put_front x i c)"
  have other: "?es k = Entries c k" if "k \<noteq> i" for k using that by (simp add: put_front_def)
  have "path ?es (MostRecentlyUsed c) is None"
    using assms(1,3) by (subst path_cong [of _ _ "Entries c"]) (auto simp: put_front_def)
  then have "path ?es (MostRecentlyUsed (put_front x i c)) (i # is) None" by (simp add: put_front_def)
  moreover have "path ?es (Unused (put_front x i c)) us None"
    using assms(2,3) by (subst path_cong [of _ _ "Entries c"]) (auto simp: put_front_def)
  moreover have "x # map (\<lambda>i. Info (Entries c i)) is = map (\<lambda>i. Info (?es i)) (i # is)"
    using assms(3) other by (auto simp: put_front_def)
  ultimately show ?thesis unfolding holds_cache_def using assms(3,4) by (intro exI [of _ "i # is"] exI [of _ us]) simp
qed

lemma add_refines:
  assumes "holds_cache c xs"
  obtains c' where "cache_add x c = Some (Inr c')" "holds_cache c' (added x xs)" "LastAdds c' = LastAdds c" "LastSubs c' = LastSubs c"
proof -
  obtain "is" us where h: "path (Entries c) (MostRecentlyUsed c) is None" "path (Entries c) (Unused c) us None"
    "distinct (is @ us)" "set (is @ us) = {0..<kCacheEntryCount}" "xs = map (\<lambda>i. Info (Entries c i)) is"
    using assms by (auto simp: holds_cache_def)
  have count: "length is + length us = kCacheEntryCount"
    using distinct_card [OF h(3)] h(4) by simp
  show thesis
  proof (cases us)
    case (Cons u vs)
    let ?c = "c\<lparr>Unused := Next (Entries c u)\<rparr>"
    have "holds_cache (put_front x u ?c) (x # map (\<lambda>i. Info (Entries ?c i)) is)"
      by (rule put_front_path [of _ _ vs]) (use h(1-4) Cons in auto)
    moreover have "length xs < kCacheEntryCount" using count Cons h(5) by simp
    ultimately show thesis using that [of "put_front x u ?c"] h(2,5) Cons by (simp add: cache_add_def added_def put_front_def)
  next
    case Nil
    obtain bs p k where is_eq: "is = bs @ [p, k]"
    proof -
      have "2 \<le> length is" using count Nil by (simp add: kCacheEntryCount_def)
      then show thesis using that
        by (cases "is" rule: rev_cases; cases "butlast is" rule: rev_cases) auto
    qed
    obtain first where first: "MostRecentlyUsed c = Some first" 
      using h(1) is_eq by (cases bs) (auto simp: path_append)
    have last: "last_entry c None first = Some (Some p, k)"
      using last_entry_run [of c first "is" None] h(1) first is_eq by (simp add: butlast_append)
    let ?c = "set_next p None c"
    have kept: "MostRecentlyUsed ?c = MostRecentlyUsed c" "Unused ?c = Unused c" "Info (Entries ?c i) = Info (Entries c i)" for i
      by (simp_all add: set_next_def)
    have "path (Entries c) (MostRecentlyUsed c) (bs @ [p]) (Some k)" using h(1) by (auto simp: is_eq path_append)
    then have "path (Entries ?c) (MostRecentlyUsed c) (bs @ [p]) None"
      using path_redirect [of _ _ bs p "Some k" None] h(3) by (simp add: set_next_def is_eq)
    then have "holds_cache (put_front x k ?c) (x # map (\<lambda>i. Info (Entries ?c i)) (bs @ [p]))"
      using h(2-4) Nil by (intro put_front_path [of _ _ "[]"]) (auto simp: kept is_eq)
    moreover have "\<not> length xs < kCacheEntryCount" "butlast xs = map (\<lambda>i. Info (Entries c i)) (bs @ [p])"
      using count Nil h(5) by (simp_all add: is_eq butlast_append)
    ultimately show thesis using that [of "put_front x k ?c"] h(2) Nil first last
      by (simp add: cache_add_def added_def kept) (simp add: put_front_def set_next_def)
  qed
qed

end
