(* ===== verification/FrameLookup.thy ===== *)
theory FrameLookup
  imports FrameCache
begin

text \<open>
  The search for the sections of a program counter among the loaded objects, \<open>findUnwindSectionsByPhdr\<close> and
  \<open>LocalAddressSpace::findUnwindSections\<close> of \<^verbatim>\<open>libunwind/src/AddressSpace.hpp\<close> on an ELF target, with and without the
  cache (\<open>_LIBUNWIND_USE_FRAME_HEADER_CACHE\<close>).  The records are those of \<^verbatim>\<open>elf.h\<close> and \<^verbatim>\<open>link.h\<close>, as far as the
  code reads them; \<open>dl_iterate_phdr\<close> calls back for each object of a list, until the result is not zero.  With the
  cache the search finds what it finds without.
\<close>

section \<open>The search\<close>

record phdr =
  p_type :: "32 word"
  p_vaddr :: uptr
  p_memsz :: uptr

record phdr_info =
  dlpi_addr :: uptr
  dlpi_phdr :: "phdr list"
  dlpi_adds :: "64 word"
  dlpi_subs :: "64 word"

definition PT_LOAD :: "32 word" where "PT_LOAD = 1"
definition PT_GNU_EH_FRAME :: "32 word" where "PT_GNU_EH_FRAME = 0x6474E550"

text \<open>\<open>Some\<close> of the updated sections is the result \<open>true\<close>.\<close>

definition checkAddrInSegment :: "phdr \<Rightarrow> uptr \<Rightarrow> uptr \<Rightarrow> unwind_sections \<Rightarrow> unwind_sections option" where
  "checkAddrInSegment ph image_base targetAddr sects =
     (if p_type ph = PT_LOAD then
        let begin_addr = image_base + p_vaddr ph; end_addr = begin_addr + p_memsz ph in
        if targetAddr \<ge> begin_addr \<and> targetAddr < end_addr then
          Some (sects\<lparr>dso_base := begin_addr, text_segment_length := p_memsz ph\<rparr>)
        else None
      else None)"

definition checkForUnwindInfoSegment ::
    "address_space \<Rightarrow> phdr \<Rightarrow> uptr \<Rightarrow> unwind_sections \<Rightarrow> (bool \<times> unwind_sections) fallible" where
  "checkForUnwindInfoSegment m ph image_base sects =
     (if p_type ph = PT_GNU_EH_FRAME then
        let start = image_base + p_vaddr ph;
            sects = sects\<lparr>dwarf_index_section := start, dwarf_index_section_length := p_memsz ph\<rparr> in
        bind_ok (decodeEHHdr m start (start + p_memsz ph)) (\<lambda>hdr.
        case hdr of
          None \<Rightarrow> Inr (False, sects)
        | Some hdrInfo \<Rightarrow> Inr (True, sects\<lparr>dwarf_section := eh_frame_ptr hdrInfo, dwarf_section_length := - 1\<rparr>))
      else Inr (False, sects))"

text \<open>The two loops over the headers, the second of them backwards.\<close>

fun find_text :: "phdr list \<Rightarrow> uptr \<Rightarrow> uptr \<Rightarrow> unwind_sections \<Rightarrow> unwind_sections option" where
  "find_text [] image_base targetAddr sects = None"
| "find_text (ph # phs) image_base targetAddr sects =
     (case checkAddrInSegment ph image_base targetAddr sects of
        Some sects \<Rightarrow> Some sects
      | None \<Rightarrow> find_text phs image_base targetAddr sects)"

fun find_unwind :: "address_space \<Rightarrow> phdr list \<Rightarrow> uptr \<Rightarrow> unwind_sections \<Rightarrow> (bool \<times> unwind_sections) fallible" where
  "find_unwind m [] image_base sects = Inr (False, sects)"
| "find_unwind m (ph # phs) image_base sects =
     bind_ok (checkForUnwindInfoSegment m ph image_base sects) (\<lambda>(found, sects).
     if found then Inr (True, sects) else find_unwind m phs image_base sects)"

definition findUnwindSectionsByPhdr ::
    "bool \<Rightarrow> address_space \<Rightarrow> uptr \<Rightarrow> phdr_info \<Rightarrow> unwind_sections \<times> header_cache \<Rightarrow>
       (bool \<times> unwind_sections \<times> header_cache) fallible option" where
  "findUnwindSectionsByPhdr use_cache m targetAddr pinfo data =
     (let (sects, cache) = data; image_base = dlpi_addr pinfo in
      if dlpi_phdr pinfo = [] \<or> targetAddr < dlpi_addr pinfo then Some (Inr (False, sects, cache))
      else
        and_then
          (if use_cache then map_option Inr (cache_find (dlpi_adds pinfo) (dlpi_subs pinfo) targetAddr cache)
           else Some (Inr (None, cache)))
          (\<lambda>(hit, cache).
        if hit \<noteq> None then Some (Inr (True, the hit, cache))
        else
          (case find_text (dlpi_phdr pinfo) image_base targetAddr sects of
             None \<Rightarrow> Some (Inr (False, sects, cache))
           | Some sects \<Rightarrow>
               and_then (Some (find_unwind m (rev (dlpi_phdr pinfo)) image_base sects)) (\<lambda>(found_unwind, sects).
               if \<not> found_unwind then Some (Inr (False, sects, cache))
               else if use_cache then and_then (cache_add sects cache) (\<lambda>cache. Some (Inr (True, sects, cache)))
               else Some (Inr (True, sects, cache))))))"

fun dl_iterate_phdr ::
    "(phdr_info \<Rightarrow> 's \<Rightarrow> (bool \<times> 's) fallible option) \<Rightarrow> phdr_info list \<Rightarrow> 's \<Rightarrow> (bool \<times> 's) fallible option" where
  "dl_iterate_phdr callback [] data = Some (Inr (False, data))"
| "dl_iterate_phdr callback (pinfo # pinfos) data =
     and_then (callback pinfo data) (\<lambda>(stop, data).
     if stop then Some (Inr (True, data)) else dl_iterate_phdr callback pinfos data)"

definition findUnwindSections ::
    "bool \<Rightarrow> address_space \<Rightarrow> phdr_info list \<Rightarrow> uptr \<Rightarrow> unwind_sections \<times> header_cache \<Rightarrow>
       (bool \<times> unwind_sections \<times> header_cache) fallible option" where
  "findUnwindSections use_cache m objects targetAddr data =
     dl_iterate_phdr (findUnwindSectionsByPhdr use_cache m targetAddr) objects data"

section \<open>What is found, without the cache\<close>

text \<open>The sections of an object for an address, from its headers alone.\<close>

definition contains :: "uptr \<Rightarrow> uptr \<Rightarrow> phdr \<Rightarrow> bool" where
  "contains a image_base ph \<longleftrightarrow>
     p_type ph = PT_LOAD \<and> image_base + p_vaddr ph \<le> a \<and> a < image_base + p_vaddr ph + p_memsz ph"

lemma find_text_eq:
  "find_text phs image_base a sects =
    map_option (\<lambda>ph. sects\<lparr>dso_base := image_base + p_vaddr ph, text_segment_length := p_memsz ph\<rparr>)
      (find (contains a image_base) phs)"
  by (induction phs) (auto simp: checkAddrInSegment_def contains_def Let_def)

fun tables :: "address_space \<Rightarrow> phdr list \<Rightarrow> uptr \<Rightarrow> (uptr \<times> uptr \<times> uptr) option fallible" where
  "tables m [] image_base = Inr None"
| "tables m (ph # phs) image_base =
     (if p_type ph = PT_GNU_EH_FRAME then
        let start = image_base + p_vaddr ph in
        bind_ok (decodeEHHdr m start (start + p_memsz ph)) (\<lambda>hdr.
        case hdr of
          None \<Rightarrow> tables m phs image_base
        | Some h \<Rightarrow> Inr (Some (eh_frame_ptr h, start, p_memsz ph)))
      else tables m phs image_base)"

lemma find_unwind_eq:
  "case tables m phs image_base of
     Inl e \<Rightarrow> find_unwind m phs image_base sects = Inl e
   | Inr None \<Rightarrow> \<exists>s. find_unwind m phs image_base sects = Inr (False, s)
   | Inr (Some (d, i, n)) \<Rightarrow> find_unwind m phs image_base sects =
       Inr (True, sects\<lparr>dwarf_index_section := i, dwarf_index_section_length := n, dwarf_section := d, dwarf_section_length := - 1\<rparr>)"
proof (induction phs arbitrary: sects)
  case (Cons ph phs)
  let ?start = "image_base + p_vaddr ph"
  let ?s = "sects\<lparr>dwarf_index_section := ?start, dwarf_index_section_length := p_memsz ph\<rparr>"
  show ?case
  proof (cases "p_type ph = PT_GNU_EH_FRAME")
    case True
    show ?thesis
    proof (cases "decodeEHHdr m ?start (?start + p_memsz ph)")
      case (Inr h)
      then show ?thesis using True Cons [of ?s]
        by (cases h) (auto simp: checkForUnwindInfoSegment_def Let_def split: sum.splits option.splits)
    qed (use True in \<open>simp add: checkForUnwindInfoSegment_def Let_def\<close>)
  next
    case False
    then have "find_unwind m (ph # phs) image_base sects = find_unwind m phs image_base sects"
      "tables m (ph # phs) image_base = tables m phs image_base"
      by (simp_all add: checkForUnwindInfoSegment_def)
    then show ?thesis using Cons [of sects] by (simp only:)
  qed
qed simp

definition object_sections :: "address_space \<Rightarrow> phdr_info \<Rightarrow> uptr \<Rightarrow> unwind_sections option fallible" where
  "object_sections m pinfo a =
     (if dlpi_phdr pinfo = [] \<or> a < dlpi_addr pinfo then Inr None
      else
        (case find (contains a (dlpi_addr pinfo)) (dlpi_phdr pinfo) of
           None \<Rightarrow> Inr None
         | Some ph \<Rightarrow>
             bind_ok (tables m (rev (dlpi_phdr pinfo)) (dlpi_addr pinfo)) (\<lambda>t. Inr (map_option (\<lambda>(d, i, n).
               \<lparr>dso_base = dlpi_addr pinfo + p_vaddr ph, text_segment_length = p_memsz ph, dwarf_section = d,
                dwarf_section_length = - 1, dwarf_index_section = i, dwarf_index_section_length = n\<rparr>) t))))"

fun located :: "address_space \<Rightarrow> phdr_info list \<Rightarrow> uptr \<Rightarrow> unwind_sections option fallible" where
  "located m [] a = Inr None"
| "located m (pinfo # pinfos) a =
     bind_ok (object_sections m pinfo a) (\<lambda>r. if r \<noteq> None then Inr r else located m pinfos a)"

text \<open>All fields are set when the search succeeds, so what they were does not matter.\<close>

lemma scan_object:
  assumes "\<not> (dlpi_phdr pinfo = [] \<or> a < dlpi_addr pinfo)"
  shows "case object_sections m pinfo a of
      Inl e \<Rightarrow> \<exists>s. find_text (dlpi_phdr pinfo) (dlpi_addr pinfo) a sects = Some s \<and>
        find_unwind m (rev (dlpi_phdr pinfo)) (dlpi_addr pinfo) s = Inl e
    | Inr None \<Rightarrow> find_text (dlpi_phdr pinfo) (dlpi_addr pinfo) a sects = None \<or>
        (\<exists>s s'. find_text (dlpi_phdr pinfo) (dlpi_addr pinfo) a sects = Some s \<and>
          find_unwind m (rev (dlpi_phdr pinfo)) (dlpi_addr pinfo) s = Inr (False, s'))
    | Inr (Some x) \<Rightarrow> \<exists>s. find_text (dlpi_phdr pinfo) (dlpi_addr pinfo) a sects = Some s \<and>
        find_unwind m (rev (dlpi_phdr pinfo)) (dlpi_addr pinfo) s = Inr (True, x)"
proof (cases "find (contains a (dlpi_addr pinfo)) (dlpi_phdr pinfo)")
  case None
  then show ?thesis using assms by (auto simp: object_sections_def find_text_eq)
next
  case (Some ph)
  let ?s = "sects\<lparr>dso_base := dlpi_addr pinfo + p_vaddr ph, text_segment_length := p_memsz ph\<rparr>"
  have found: "find_text (dlpi_phdr pinfo) (dlpi_addr pinfo) a sects = Some ?s" by (simp add: find_text_eq Some)
  show ?thesis
  proof (cases "tables m (rev (dlpi_phdr pinfo)) (dlpi_addr pinfo)")
    case (Inl e)
    then show ?thesis using find_unwind_eq [of m "rev (dlpi_phdr pinfo)" "dlpi_addr pinfo" ?s] assms Some found
      by (simp add: object_sections_def)
  next
    case (Inr t)
    then show ?thesis using find_unwind_eq [of m "rev (dlpi_phdr pinfo)" "dlpi_addr pinfo" ?s] assms Some found
      by (cases t) (auto simp: object_sections_def)
  qed
qed

definition outcome :: "(bool \<times> unwind_sections \<times> header_cache) fallible option \<Rightarrow> unwind_sections option fallible option" where
  "outcome = map_option (map_sum id (\<lambda>(found, s, c). if found then Some s else None))"

lemma located_plain: "outcome (findUnwindSections False m pinfos a (sects, c)) = Some (located m pinfos a)"
proof (induction pinfos arbitrary: sects)
  case Nil
  show ?case by (simp add: findUnwindSections_def outcome_def)
next
  case (Cons pinfo pinfos)
  show ?case
  proof (cases "dlpi_phdr pinfo = [] \<or> a < dlpi_addr pinfo")
    case True
    then show ?thesis using Cons [of sects]
      by (simp add: findUnwindSections_def findUnwindSectionsByPhdr_def object_sections_def)
  next
    case False
    note scan = scan_object [where m = m and sects = sects, OF False]
    show ?thesis
    proof (cases "object_sections m pinfo a")
      case (Inl e)
      then show ?thesis using scan False by (auto simp: findUnwindSections_def findUnwindSectionsByPhdr_def outcome_def)
    next
      case (Inr r)
      show ?thesis
      proof (cases r)
        case None
        then show ?thesis using scan False Inr Cons
          by (auto simp: findUnwindSections_def findUnwindSectionsByPhdr_def)
      next
        case (Some x)
        then show ?thesis using scan False Inr
          by (auto simp: findUnwindSections_def findUnwindSectionsByPhdr_def outcome_def)
      qed
    qed
  qed
qed

section \<open>One segment, one answer\<close>

text \<open>The loaded segments do not overlap, and none lies below the base of its object.\<close>

definition segments :: "phdr_info \<Rightarrow> (uptr \<times> uptr) list" where
  "segments pinfo =
     map (\<lambda>ph. (dlpi_addr pinfo + p_vaddr ph, dlpi_addr pinfo + p_vaddr ph + p_memsz ph))
       (filter (\<lambda>ph. p_type ph = PT_LOAD) (dlpi_phdr pinfo))"

definition apart :: "uptr \<times> uptr \<Rightarrow> uptr \<times> uptr \<Rightarrow> bool" where
  "apart r r' \<longleftrightarrow> snd r \<le> fst r' \<or> snd r' \<le> fst r"

fun all_apart :: "(uptr \<times> uptr) list \<Rightarrow> bool" where
  "all_apart [] \<longleftrightarrow> True"
| "all_apart (r # rs) \<longleftrightarrow> list_all (apart r) rs \<and> all_apart rs"

definition well_loaded :: "phdr_info list \<Rightarrow> bool" where
  "well_loaded pinfos \<longleftrightarrow> all_apart (concat (map segments pinfos)) \<and>
     list_all (\<lambda>pinfo. list_all (\<lambda>r. dlpi_addr pinfo \<le> fst r) (segments pinfo)) pinfos"

definition within :: "uptr \<Rightarrow> uptr \<times> uptr \<Rightarrow> bool" where
  "within a r \<longleftrightarrow> fst r \<le> a \<and> a < snd r"

lemma apart_within: "apart r r' \<Longrightarrow> within a r \<Longrightarrow> \<not> within a r'"
  unfolding apart_def within_def by fastforce

lemma all_apart_append:
  "all_apart (rs @ rs') \<longleftrightarrow> all_apart rs \<and> all_apart rs' \<and> list_all (\<lambda>r. list_all (apart r) rs') rs"
  by (induction rs) auto

lemma contains_segment:
  "contains a (dlpi_addr pinfo) ph \<Longrightarrow> ph \<in> set (dlpi_phdr pinfo) \<Longrightarrow>
    \<exists>r \<in> set (segments pinfo). within a r \<and> r = (dlpi_addr pinfo + p_vaddr ph, dlpi_addr pinfo + p_vaddr ph + p_memsz ph)"
  by (auto simp: contains_def segments_def within_def)

lemma same_segment:
  assumes "find (contains a base) phs = Some ph" "contains a' base ph"
    and "all_apart (map (\<lambda>ph. (base + p_vaddr ph, base + p_vaddr ph + p_memsz ph)) (filter (\<lambda>ph. p_type ph = PT_LOAD) phs))"
  shows "find (contains a' base) phs = Some ph"
  using assms
proof (induction phs)
  case (Cons p phs)
  show ?case
  proof (cases "contains a base p")
    case True
    then show ?thesis using Cons(2,3) by simp
  next
    case False
    then have rest: "find (contains a base) phs = Some ph" using Cons(2) by simp
    then have ph: "ph \<in> set phs" "p_type ph = PT_LOAD"
      using find_Some_iff [of "contains a base" phs ph] by (auto simp: contains_def)
    have "\<not> contains a' base p"
    proof
      assume p: "contains a' base p"
      then have "apart (base + p_vaddr p, base + p_vaddr p + p_memsz p) (base + p_vaddr ph, base + p_vaddr ph + p_memsz ph)"
        using Cons(4) ph by (auto simp: contains_def list_all_iff)
      then show False using apart_within [of _ _ a'] p Cons(3) by (auto simp: contains_def within_def)
    qed
    moreover have "find (contains a' base) phs = Some ph"
      by (rule Cons(1) [OF rest Cons(3)]) (use Cons(4) in \<open>auto split: if_splits\<close>)
    ultimately show ?thesis by simp
  qed
qed simp

lemma in_text_within: "in_text a x \<longleftrightarrow> within a (dso_base x, dso_base x + text_segment_length x)"
  by (simp add: in_text_def within_def)

lemma object_sections_segment:
  assumes "object_sections m pinfo a = Inr (Some x)"
  shows "in_text a x" "(dso_base x, dso_base x + text_segment_length x) \<in> set (segments pinfo)"
proof -
  obtain ph where ph: "find (contains a (dlpi_addr pinfo)) (dlpi_phdr pinfo) = Some ph"
      "dso_base x = dlpi_addr pinfo + p_vaddr ph" "text_segment_length x = p_memsz ph"
    using assms by (auto simp: object_sections_def bind_ok_Inr split: if_splits option.splits)
  then have "contains a (dlpi_addr pinfo) ph" "ph \<in> set (dlpi_phdr pinfo)"
    using find_Some_iff [of "contains a (dlpi_addr pinfo)"] by (auto dest!: nth_mem)
  then show "in_text a x" "(dso_base x, dso_base x + text_segment_length x) \<in> set (segments pinfo)"
    by (auto simp: in_text_def contains_def segments_def ph)
qed

lemma located_segment:
  "located m pinfos a = Inr (Some x) \<Longrightarrow>
    in_text a x \<and> (dso_base x, dso_base x + text_segment_length x) \<in> set (concat (map segments pinfos))"
proof (induction pinfos)
  case (Cons pinfo pinfos)
  then obtain r where r: "object_sections m pinfo a = Inr r" by (auto simp: bind_ok_Inr)
  show ?case
  proof (cases r)
    case None
    then show ?thesis using Cons r by simp
  next
    case (Some y)
    then show ?thesis using Cons(2) r object_sections_segment [of m pinfo a] by simp
  qed
qed simp

lemma located_stable:
  assumes "well_loaded pinfos" "located m pinfos a = Inr (Some x)" "in_text a' x"
  shows "located m pinfos a' = Inr (Some x)"
  using assms
proof (induction pinfos)
  case (Cons pinfo pinfos)
  have loaded: "all_apart (segments pinfo)" "all_apart (concat (map segments pinfos))"
    "list_all (\<lambda>r. list_all (apart r) (concat (map segments pinfos))) (segments pinfo)"
    "list_all (\<lambda>r. dlpi_addr pinfo \<le> fst r) (segments pinfo)" "well_loaded pinfos"
    using Cons(2) by (auto simp: well_loaded_def all_apart_append)
  obtain r where r: "object_sections m pinfo a = Inr r" using Cons(3) by (auto simp: bind_ok_Inr)
  show ?case
  proof (cases r)
    case None
    then have rest: "located m pinfos a = Inr (Some x)" using Cons(3) r by simp
    have "\<not> contains a' (dlpi_addr pinfo) ph" if "ph \<in> set (dlpi_phdr pinfo)" for ph
    proof
      note ph = that
      assume "contains a' (dlpi_addr pinfo) ph"
      from contains_segment [OF this ph] obtain s where s: "s \<in> set (segments pinfo)" "within a' s" by blast
      have "apart s (dso_base x, dso_base x + text_segment_length x)"
        using loaded(3) s(1) located_segment [OF rest] unfolding list_all_iff by blast
      then show False using apart_within s(2) Cons(4) by (simp add: in_text_within)
    qed
    then have "find (contains a' (dlpi_addr pinfo)) (dlpi_phdr pinfo) = None" by (simp add: find_None_iff)
    then have "object_sections m pinfo a' = Inr None" by (simp add: object_sections_def)
    then show ?thesis using Cons(1) [OF loaded(5) rest Cons(4)] by simp
  next
    case (Some y)
    then have x: "object_sections m pinfo a = Inr (Some x)" using Cons(3) r by simp
    then obtain ph where ph: "find (contains a (dlpi_addr pinfo)) (dlpi_phdr pinfo) = Some ph"
        "dso_base x = dlpi_addr pinfo + p_vaddr ph" "text_segment_length x = p_memsz ph" "dlpi_phdr pinfo \<noteq> []"
      by (auto simp: object_sections_def bind_ok_Inr split: if_splits option.splits)
    then have "p_type ph = PT_LOAD" using find_Some_iff [of "contains a (dlpi_addr pinfo)"] by (auto simp: contains_def)
    then have "find (contains a' (dlpi_addr pinfo)) (dlpi_phdr pinfo) = Some ph"
      using same_segment [OF ph(1), of a'] loaded(1) Cons(4) by (simp add: contains_def in_text_def ph(2,3) segments_def)
    moreover have "dlpi_addr pinfo \<le> dso_base x"
      using object_sections_segment(2) [OF x] loaded(4) by (auto simp: list_all_iff)
    then have "\<not> a' < dlpi_addr pinfo" using Cons(4) by (auto simp: in_text_def)
    moreover have "\<not> a < dlpi_addr pinfo" using x by (auto simp: object_sections_def)
    ultimately have "object_sections m pinfo a' = Inr (Some x)" using x ph(1,4) by (simp add: object_sections_def)
    then show ?thesis by simp
  qed
qed simp

section \<open>The cache changes no answer\<close>

text \<open>The objects of a process, as a function of the two counters: they change with every load and unload.\<close>

type_synonym world = "64 word \<times> 64 word \<Rightarrow> address_space \<times> phdr_info list"

definition never :: "64 word \<times> 64 word" where "never = (- 1, - 1)"

definition counted :: "64 word \<times> 64 word \<Rightarrow> phdr_info list \<Rightarrow> bool" where
  "counted n pinfos \<longleftrightarrow> n \<noteq> never \<and> well_loaded pinfos \<and> list_all (\<lambda>pinfo. (dlpi_adds pinfo, dlpi_subs pinfo) = n) pinfos"

definition sound_cache :: "world \<Rightarrow> header_cache \<Rightarrow> bool" where
  "sound_cache w c \<longleftrightarrow> (LastAdds c, LastSubs c) = never \<or>
     (\<exists>xs. holds_cache c xs \<and> (\<forall>x \<in> set xs. \<forall>a. in_text a x \<longrightarrow>
        located (fst (w (LastAdds c, LastSubs c))) (snd (w (LastAdds c, LastSubs c))) a = Inr (Some x)))"

lemma sound_find:
  assumes "sound_cache w c" "n \<noteq> never"
  obtains hit c' where "cache_find (fst n) (snd n) a c = Some (hit, c')" "sound_cache w c'" "(LastAdds c', LastSubs c') = n"
    "\<And>x. hit = Some x \<Longrightarrow> located (fst (w n)) (snd (w n)) a = Inr (Some x)" "\<exists>xs. holds_cache c' xs"
proof (cases "(LastAdds c, LastSubs c) = n")
  case False
  let ?c = "resetCache (c\<lparr>LastAdds := fst n, LastSubs := snd n\<rparr>)"
  have "LastAdds ?c = fst n" "LastSubs ?c = snd n" "MostRecentlyUsed ?c = None"
    by (simp_all add: resetCache_def kCacheEntryCount_def set_next_def upt_rec Let_def)
  moreover have "cache_find (fst n) (snd n) a c = Some (None, ?c)"
    using False by (cases n) (auto simp: cache_find_def cacheNeedsReset_def)
  moreover have "sound_cache w ?c" unfolding sound_cache_def using resets_empty by fastforce
  ultimately show thesis using that [of None ?c] resets_empty by fastforce
next
  case True
  then obtain xs where xs: "holds_cache c xs"
      "\<forall>x \<in> set xs. \<forall>a. in_text a x \<longrightarrow> located (fst (w n)) (snd (w n)) a = Inr (Some x)"
    using assms by (auto simp: sound_cache_def)
  obtain c' where c': "find_loop a c None (MostRecentlyUsed c) = Some (find (in_text a) xs, c')" "holds_cache c' (touched a xs)"
    "LastAdds c' = LastAdds c" "LastSubs c' = LastSubs c"
    using find_refines [OF xs(1)] by blast
  have "cache_find (fst n) (snd n) a c = Some (find (in_text a) xs, c')"
  proof (cases "MostRecentlyUsed c")
    case None
    then have "find_loop a c None (MostRecentlyUsed c) = Some (None, c)" by (subst find_loop.simps) simp
    then show ?thesis using c'(1) True None by (auto simp: cache_find_def cacheNeedsReset_def)
  next
    case (Some i)
    then show ?thesis using c'(1) True by (auto simp: cache_find_def cacheNeedsReset_def)
  qed
  moreover have "sound_cache w c'"
    unfolding sound_cache_def using c'(2-4) xs(2) True by (intro disjI2 exI [of _ "touched a xs"]) (auto simp: set_touched)
  moreover have "located (fst (w n)) (snd (w n)) a = Inr (Some x)" if "find (in_text a) xs = Some x" for x
    using that xs(2) find_Some_iff [of "in_text a" xs x] by auto
  ultimately show thesis using that [of "find (in_text a) xs" c'] c'(2-4) True by auto
qed

lemma sound_add:
  assumes "sound_cache w c" "(LastAdds c, LastSubs c) = n" "n \<noteq> never" "located (fst (w n)) (snd (w n)) a = Inr (Some x)"
    and "well_loaded (snd (w n))"
  obtains c' where "cache_add x c = Some (Inr c')" "sound_cache w c'"
proof -
  obtain xs where xs: "holds_cache c xs"
      "\<forall>x \<in> set xs. \<forall>a. in_text a x \<longrightarrow> located (fst (w n)) (snd (w n)) a = Inr (Some x)"
    using assms(1-3) by (auto simp: sound_cache_def)
  obtain c' where c': "cache_add x c = Some (Inr c')" "holds_cache c' (added x xs)" "LastAdds c' = LastAdds c" "LastSubs c' = LastSubs c"
    using add_refines [OF xs(1)] by blast
  have "located (fst (w n)) (snd (w n)) a' = Inr (Some y)" if "y \<in> set (added x xs)" "in_text a' y" for a' y
  proof -
    have "y = x \<or> y \<in> set xs" using that(1) set_added [of x xs] by blast
    then consider "y = x" | "y \<in> set xs" by blast
    then show ?thesis
    proof cases
      case 1
      then show ?thesis using located_stable [OF assms(5,4)] that(2) by simp
    qed (use xs(2) that(2) in blast)
  qed
  then have "sound_cache w c'"
    unfolding sound_cache_def using c'(2-4) assms(2) by (intro disjI2 exI [of _ "added x xs"]) auto
  then show thesis using that c'(1) by blast
qed

lemma cached_search:
  assumes "sound_cache w c" "n \<noteq> never" "well_loaded (snd (w n))"
    and "list_all (\<lambda>pinfo. (dlpi_adds pinfo, dlpi_subs pinfo) = n) pinfos"
    and "located (fst (w n)) (snd (w n)) a = located (fst (w n)) pinfos a"
  shows "\<exists>r. findUnwindSections True (fst (w n)) pinfos a (sects, c) = Some r \<and>
    outcome (Some r) = Some (located (fst (w n)) pinfos a) \<and> (\<forall>found s c'. r = Inr (found, s, c') \<longrightarrow> sound_cache w c')"
  using assms
proof (induction pinfos arbitrary: sects c)
  case Nil
  then show ?case by (simp add: findUnwindSections_def outcome_def)
next
  case (Cons pinfo pinfos)
  let ?m = "fst (w n)"
  have n: "dlpi_adds pinfo = fst n" "dlpi_subs pinfo = snd n" using Cons(5) by auto
  have more: "list_all (\<lambda>pinfo. (dlpi_adds pinfo, dlpi_subs pinfo) = n) pinfos" using Cons(5) by simp
  show ?case
  proof (cases "dlpi_phdr pinfo = [] \<or> a < dlpi_addr pinfo")
    case True
    then have rest: "located ?m (pinfo # pinfos) a = located ?m pinfos a" by (simp add: object_sections_def)
    have "findUnwindSections True ?m (pinfo # pinfos) a (sects, c) = findUnwindSections True ?m pinfos a (sects, c)"
      using True by (simp add: findUnwindSections_def findUnwindSectionsByPhdr_def)
    then show ?thesis using Cons(1) [OF Cons(2-4) more, of sects] Cons(6) unfolding rest by simp
  next
    case False
    obtain hit c1 where f: "cache_find (fst n) (snd n) a c = Some (hit, c1)" "sound_cache w c1" "(LastAdds c1, LastSubs c1) = n"
        "\<And>x. hit = Some x \<Longrightarrow> located ?m (snd (w n)) a = Inr (Some x)"
      by (rule sound_find [OF Cons(2,3), where a = a]) blast
    show ?thesis
    proof (cases hit)
      case (Some x)
      then have "findUnwindSections True ?m (pinfo # pinfos) a (sects, c) = Some (Inr (True, x, c1))"
        using False f(1) by (simp add: findUnwindSections_def findUnwindSectionsByPhdr_def n)
      then show ?thesis using f(2) f(4) [OF Some] Cons(6) by (simp add: outcome_def)
    next
      case None
      note scan = scan_object [where m = ?m and sects = sects, OF False]
      show ?thesis
      proof (cases "object_sections ?m pinfo a")
        case (Inl e)
        then show ?thesis using scan False f(1) None
          by (auto simp: findUnwindSections_def findUnwindSectionsByPhdr_def outcome_def n)
      next
        case (Inr r)
        show ?thesis
        proof (cases r)
          case None2: None
          obtain s where "findUnwindSections True ?m (pinfo # pinfos) a (sects, c) = findUnwindSections True ?m pinfos a (s, c1)"
            using scan False f(1) None Inr None2
            by (auto simp: findUnwindSections_def findUnwindSectionsByPhdr_def n)
          moreover have "located ?m (pinfo # pinfos) a = located ?m pinfos a" using Inr None2 by simp
          ultimately show ?thesis using Cons(1) [OF f(2) Cons(3,4) more, of s] Cons(6) by (simp only:)
        next
          case (Some x)
          then have x: "located ?m (snd (w n)) a = Inr (Some x)" using Cons(6) Inr by simp
          obtain c2 where c2: "cache_add x c1 = Some (Inr c2)" "sound_cache w c2"
            using sound_add [OF f(2,3) Cons(3) x Cons(4)] by blast
          have "findUnwindSections True ?m (pinfo # pinfos) a (sects, c) = Some (Inr (True, x, c2))"
            using scan False f(1) None Inr Some c2(1)
            by (auto simp: findUnwindSections_def findUnwindSectionsByPhdr_def n)
          then show ?thesis using c2(2) Inr Some by (simp add: outcome_def)
        qed
      qed
    qed
  qed
qed

text \<open>A sequence of searches, each at the counters of its time; an abort ends it.\<close>

definition blank_sections :: unwind_sections where
  "blank_sections = \<lparr>dso_base = 0, text_segment_length = 0, dwarf_section = 0, dwarf_section_length = 0,
     dwarf_index_section = 0, dwarf_index_section_length = 0\<rparr>"

definition initial_cache :: header_cache where
  "initial_cache = \<lparr>Entries = (\<lambda>_. \<lparr>Info = blank_sections, Next = None\<rparr>), MostRecentlyUsed = None, Unused = None,
     LastAdds = - 1, LastSubs = - 1\<rparr>"

fun searches ::
    "bool \<Rightarrow> world \<Rightarrow> ((64 word \<times> 64 word) \<times> uptr) list \<Rightarrow> header_cache \<Rightarrow> unwind_sections option fallible option list" where
  "searches use_cache w [] c = []"
| "searches use_cache w ((n, a) # rs) c =
     (let r = findUnwindSections use_cache (fst (w n)) (snd (w n)) a (blank_sections, c) in
      outcome r #
        (case r of
           Some (Inr (found, s, c)) \<Rightarrow> searches use_cache w rs c
         | _ \<Rightarrow> []))"

lemma searches_agree:
  "sound_cache w c \<Longrightarrow> list_all (\<lambda>(n, a). counted n (snd (w n))) rs \<Longrightarrow> searches True w rs c = searches False w rs c'"
proof (induction rs arbitrary: c c')
  case (Cons r rs)
  obtain n a where r: "r = (n, a)" by (cases r)
  have n: "n \<noteq> never" "well_loaded (snd (w n))" "list_all (\<lambda>pinfo. (dlpi_adds pinfo, dlpi_subs pinfo) = n) (snd (w n))"
    using Cons(3) by (auto simp: r counted_def)
  obtain x where x: "findUnwindSections True (fst (w n)) (snd (w n)) a (blank_sections, c) = Some x"
      "outcome (Some x) = Some (located (fst (w n)) (snd (w n)) a)" "\<forall>found s c'. x = Inr (found, s, c') \<longrightarrow> sound_cache w c'"
    using cached_search [OF Cons(2) n refl] by blast
  obtain y where y: "findUnwindSections False (fst (w n)) (snd (w n)) a (blank_sections, c') = Some y"
      "outcome (Some y) = Some (located (fst (w n)) (snd (w n)) a)"
    using located_plain [of "fst (w n)" "snd (w n)" a blank_sections c'] by (auto simp: outcome_def)
  show ?case
  proof (cases x)
    case (Inl e)
    then have "located (fst (w n)) (snd (w n)) a = Inl e" using x(2) by (simp add: outcome_def)
    then have "y = Inl e" using y(2) by (cases y) (simp_all add: outcome_def)
    then show ?thesis using x y Inl by (simp add: r)
  next
    case (Inr z)
    then obtain found s c1 where z: "x = Inr (found, s, c1)" by (cases z) auto
    have "outcome (Some x) = outcome (Some y)" using x(2) y(2) by simp
    then obtain z' where "y = Inr z'" using z by (cases y) (simp_all add: outcome_def)
    then obtain found' s' c1' where "y = Inr (found', s', c1')" by (cases z') simp
    moreover have "searches True w rs c1 = searches False w rs c1'"
      by (rule Cons(1)) (use x(3) z Cons(3) in auto)
    moreover have "outcome (Some x) = outcome (Some y)" using x(2) y(2) by simp
    ultimately show ?thesis using x(1) y(1) z by (simp add: r)
  qed
qed simp

text \<open>C4: the cache of program headers is transparent.  Any sequence of searches, with objects loaded and unloaded in
  between, finds with the cache exactly what it finds without: hits, evictions, moves to the front and resets
  change no answer, and no null pointer of the linked lists is followed.  What the code relies on: the counters of the C
  library change with the list of objects (the list is a function of them) and are not both the largest
  number, and loaded segments do not overlap.\<close>
theorem cache_transparent:
  assumes "list_all (\<lambda>(n, a). counted n (snd (w n))) requests"
  shows "searches True w requests initial_cache = searches False w requests initial_cache"
  by (rule searches_agree [OF _ assms]) (simp add: sound_cache_def initial_cache_def never_def)

text \<open>An object with the sample section, to which another without unwinding tables is added.\<close>

definition sample_object :: "64 word \<Rightarrow> phdr_info" where
  "sample_object adds = \<lparr>dlpi_addr = 0x1000,
     dlpi_phdr = [\<lparr>p_type = PT_LOAD, p_vaddr = 0x1000, p_memsz = 0x1000\<rparr>, \<lparr>p_type = PT_GNU_EH_FRAME, p_vaddr = 0x100, p_memsz = 20\<rparr>],
     dlpi_adds = adds, dlpi_subs = 0\<rparr>"

definition bare_object :: "64 word \<Rightarrow> phdr_info" where
  "bare_object adds = \<lparr>dlpi_addr = 0x8000, dlpi_phdr = [\<lparr>p_type = PT_LOAD, p_vaddr = 0, p_memsz = 0x1000\<rparr>],
     dlpi_adds = adds, dlpi_subs = 0\<rparr>"

definition sample_world :: world where
  "sample_world n = (sample_memory, if n = (2, 0) then [bare_object 2, sample_object 2] else [sample_object 1])"

definition sample_requests :: "((64 word \<times> 64 word) \<times> uptr) list" where
  "sample_requests = [((1, 0), 0x2010), ((1, 0), 0x2FFF), ((1, 0), 0x8010), ((2, 0), 0x2010), ((2, 0), 0x8010), ((2, 0), 0x2000)]"

definition sample_sections :: unwind_sections where
  "sample_sections = \<lparr>dso_base = 0x2000, text_segment_length = 0x1000, dwarf_section = 0x1000, dwarf_section_length = - 1,
     dwarf_index_section = 0x1100, dwarf_index_section_length = 20\<rparr>"

lemma sample_counted: "list_all (\<lambda>(n, a). counted n (snd (sample_world n))) sample_requests"
  by code_simp

lemma sample_searches:
  "searches False sample_world sample_requests initial_cache =
    [Some (Inr (Some sample_sections)), Some (Inr (Some sample_sections)), Some (Inr None), Some (Inr (Some sample_sections)),
     Some (Inr None), Some (Inr (Some sample_sections))]"
  by code_simp

theorem cache_transparent_witness:
  "searches True sample_world sample_requests initial_cache =
    [Some (Inr (Some sample_sections)), Some (Inr (Some sample_sections)), Some (Inr None), Some (Inr (Some sample_sections)),
     Some (Inr None), Some (Inr (Some sample_sections))]"
  using cache_transparent [OF sample_counted] sample_searches by simp

end
