(* ===== verification/FdeCache.thy ===== *)
theory FdeCache
  imports DwarfMemory
begin

text \<open>
  \<open>DwarfFDECache\<close> of \<^verbatim>\<open>libunwind/src/UnwindCursor.hpp\<close>, the process-wide cache of frame description entries.  The buffer is a
  list of entries of its capacity, those in use first; \<open>malloc\<close> is a parameter that gives a block of as many entries as
  asked for, of any contents, or null.  Each operation runs under the lock \<open>_lock\<close>, so one call is one step.
  The buffer refines a list that grows at its end.
\<close>

section \<open>The buffer\<close>

record fde_entry =
  mh :: uptr
  ip_start :: uptr
  ip_end :: uptr
  fde_address :: uptr

record fde_cache =
  buffer :: "fde_entry list"
  bufferUsed :: nat

definition kSearchAll :: uptr where "kSearchAll = - 1"

fun find_entry :: "uptr \<Rightarrow> uptr \<Rightarrow> fde_entry list \<Rightarrow> uptr" where
  "find_entry dso pc [] = 0"
| "find_entry dso pc (p # ps) =
     (if dso = mh p \<or> dso = kSearchAll then
        if ip_start p \<le> pc \<and> pc < ip_end p then fde_address p else find_entry dso pc ps
      else find_entry dso pc ps)"

definition cached_FDE :: "uptr \<Rightarrow> uptr \<Rightarrow> fde_cache \<Rightarrow> uptr" where
  "cached_FDE dso pc c = find_entry dso pc (take (bufferUsed c) (buffer c))"

text \<open>A full buffer is replaced by one four times its size; the result of \<open>malloc\<close> is written to without a check.\<close>

definition grow_buffer :: "(nat \<Rightarrow> fde_entry list option) \<Rightarrow> fde_cache \<Rightarrow> fde_cache fallible" where
  "grow_buffer malloc c =
     (if bufferUsed c \<ge> length (buffer c) then
        let oldSize = length (buffer c); newSize = oldSize * 4 in
        (case malloc newSize of
           None \<Rightarrow> Inl Null_access
         | Some newBuffer \<Rightarrow> Inr (c\<lparr>buffer := buffer c @ drop oldSize newBuffer, bufferUsed := oldSize\<rparr>))
      else Inr c)"

definition add_FDE :: "(nat \<Rightarrow> fde_entry list option) \<Rightarrow> fde_entry \<Rightarrow> fde_cache \<Rightarrow> fde_cache fallible" where
  "add_FDE malloc e c =
     bind_ok (grow_buffer malloc c) (\<lambda>c.
     Inr (c\<lparr>buffer := (buffer c)[bufferUsed c := e], bufferUsed := bufferUsed c + 1\<rparr>))"

text \<open>The entries of other images are moved down in place.\<close>

function remove_loop :: "uptr \<Rightarrow> nat \<Rightarrow> fde_entry list \<Rightarrow> nat \<Rightarrow> nat \<Rightarrow> fde_entry list \<times> nat" where
  "remove_loop dso used buf d s =
     (if s < used then
        if mh (buf ! s) \<noteq> dso then
          remove_loop dso used (if d \<noteq> s then buf[d := buf ! s] else buf) (d + 1) (s + 1)
        else remove_loop dso used buf d (s + 1)
      else (buf, d))"
  by pat_completeness auto
termination by (relation "measure (\<lambda>(dso, used, buf, d, s). used - s)") auto

declare remove_loop.simps [simp del]

definition removeAllIn :: "uptr \<Rightarrow> fde_cache \<Rightarrow> fde_cache" where
  "removeAllIn dso c =
     (let (buf, d) = remove_loop dso (bufferUsed c) (buffer c) 0 0 in c\<lparr>buffer := buf, bufferUsed := d\<rparr>)"

section \<open>The list of entries\<close>

definition entries_of :: "fde_cache \<Rightarrow> fde_entry list" where
  "entries_of c = take (bufferUsed c) (buffer c)"

definition fde_cache_ok :: "fde_cache \<Rightarrow> bool" where
  "fde_cache_ok c \<longleftrightarrow> bufferUsed c \<le> length (buffer c) \<and> 0 < length (buffer c)"

definition serves :: "uptr \<Rightarrow> uptr \<Rightarrow> fde_entry \<Rightarrow> bool" where
  "serves dso pc e \<longleftrightarrow> (dso = mh e \<or> dso = kSearchAll) \<and> ip_start e \<le> pc \<and> pc < ip_end e"

lemma find_entry_eq: "find_entry dso pc es = (case find (serves dso pc) es of None \<Rightarrow> 0 | Some e \<Rightarrow> fde_address e)"
  by (induction es) (auto simp: serves_def)

lemma remove_loop_filter:
  assumes "d \<le> s" "s \<le> used" "used \<le> length buf"
  shows "case remove_loop dso used buf d s of (buf', d') \<Rightarrow>
    take d' buf' = take d buf @ filter (\<lambda>e. mh e \<noteq> dso) (drop s (take used buf)) \<and> d' \<le> used \<and> length buf' = length buf"
  using assms
proof (induction dso used buf d s rule: remove_loop.induct)
  case (1 dso used buf d s)
  show ?case
  proof (cases "s < used")
    case True
    then have head: "drop s (take used buf) = buf ! s # drop (Suc s) (take used buf)"
      using 1(5) by (metis Cons_nth_drop_Suc length_take min.absorb2 nth_take)
    show ?thesis
    proof (cases "mh (buf ! s) = dso")
      case False
      let ?buf = "if d \<noteq> s then buf[d := buf ! s] else buf"
      have "take (Suc d) ?buf = take d buf @ [buf ! s]" using True 1(3,5) by (auto simp: take_Suc_conv_app_nth)
      moreover have "drop (Suc s) (take used ?buf) = drop (Suc s) (take used buf)"
        using 1(3) by (simp add: take_update_swap)
      ultimately show ?thesis using 1(1) [OF True False] 1(3-5) True False head
        by (subst remove_loop.simps) (simp add: case_prod_beta)
    next
      case same: True
      then show ?thesis using 1(2) [OF True] 1(3-5) True head by (subst remove_loop.simps) (simp add: case_prod_beta)
    qed
  next
    case False
    then show ?thesis using 1(3-5) by (subst remove_loop.simps) simp
  qed
qed

lemma written_entry:
  "bufferUsed c < length (buffer c) \<Longrightarrow>
    entries_of (c\<lparr>buffer := (buffer c)[bufferUsed c := e], bufferUsed := bufferUsed c + 1\<rparr>) = entries_of c @ [e] \<and>
    fde_cache_ok (c\<lparr>buffer := (buffer c)[bufferUsed c := e], bufferUsed := bufferUsed c + 1\<rparr>)"
  by (auto simp: entries_of_def fde_cache_ok_def take_Suc_conv_app_nth)

lemma add_FDE_refines:
  assumes "fde_cache_ok c" "\<And>n es. malloc n = Some es \<Longrightarrow> length es = n"
  shows "case add_FDE malloc e c of
       Inl f \<Rightarrow> f = Null_access \<and> bufferUsed c = length (buffer c) \<and> malloc (length (buffer c) * 4) = None
     | Inr c' \<Rightarrow> entries_of c' = entries_of c @ [e] \<and> fde_cache_ok c'"
proof (cases "bufferUsed c < length (buffer c)")
  case True
  then show ?thesis using written_entry [OF True] by (simp add: add_FDE_def grow_buffer_def)
next
  case False
  then have full: "bufferUsed c = length (buffer c)" using assms(1) by (simp add: fde_cache_ok_def)
  show ?thesis
  proof (cases "malloc (length (buffer c) * 4)")
    case None
    then show ?thesis using full by (simp add: add_FDE_def grow_buffer_def)
  next
    case (Some es)
    let ?c = "c\<lparr>buffer := buffer c @ drop (length (buffer c)) es, bufferUsed := length (buffer c)\<rparr>"
    have "length es = length (buffer c) * 4" "0 < length (buffer c)" using assms Some by (auto simp: fde_cache_ok_def)
    then have room: "bufferUsed ?c < length (buffer ?c)" by simp
    have "entries_of ?c = entries_of c" by (simp add: entries_of_def full)
    moreover have "add_FDE malloc e c = Inr (?c\<lparr>buffer := (buffer ?c)[bufferUsed ?c := e], bufferUsed := bufferUsed ?c + 1\<rparr>)"
      using Some full by (simp add: add_FDE_def grow_buffer_def Let_def)
    ultimately show ?thesis using written_entry [OF room] by simp
  qed
qed

lemma removeAllIn_refines:
  assumes "fde_cache_ok c"
  shows "entries_of (removeAllIn dso c) = filter (\<lambda>e. mh e \<noteq> dso) (entries_of c) \<and> fde_cache_ok (removeAllIn dso c)"
  using remove_loop_filter [of 0 0 "bufferUsed c" "buffer c" dso] assms
  by (cases "remove_loop dso (bufferUsed c) (buffer c) 0 0") (auto simp: removeAllIn_def entries_of_def fde_cache_ok_def)

text \<open>C22: the buffer refines a list.  A lookup finds the first entry that covers the program counter, of the image asked
  for or of any; an addition appends, growing a full buffer, and fails only when the buffer is full and there is no
  memory, when null is written to; unloading an image removes its entries and keeps the order of the others.\<close>
theorem fde_cache_refines:
  assumes "fde_cache_ok c" "\<And>n es. malloc n = Some es \<Longrightarrow> length es = n"
  shows "cached_FDE dso pc c = (case find (serves dso pc) (entries_of c) of None \<Rightarrow> 0 | Some e \<Rightarrow> fde_address e) \<and>
    (case add_FDE malloc e c of
       Inl f \<Rightarrow> f = Null_access \<and> bufferUsed c = length (buffer c) \<and> malloc (length (buffer c) * 4) = None
     | Inr c' \<Rightarrow> entries_of c' = entries_of c @ [e] \<and> fde_cache_ok c') \<and>
    entries_of (removeAllIn dso c) = filter (\<lambda>e. mh e \<noteq> dso) (entries_of c) \<and> fde_cache_ok (removeAllIn dso c)"
  using add_FDE_refines [OF assms, where e = e] removeAllIn_refines [OF assms(1), of dso]
  by (simp add: cached_FDE_def find_entry_eq entries_of_def)

text \<open>A full buffer of one entry, with and without memory for more.\\<close>

definition sample_entry :: "uptr \<Rightarrow> fde_entry" where
  "sample_entry dso = \<lparr>mh = dso, ip_start = 0x2000, ip_end = 0x2040, fde_address = 0x1018\<rparr>"

definition sample_cache :: fde_cache where
  "sample_cache = \<lparr>buffer = [sample_entry 1], bufferUsed = 1\<rparr>"

theorem fde_cache_refines_witness:
  "cached_FDE 1 0x2010 sample_cache = 0x1018 \<and> entries_of (removeAllIn 1 sample_cache) = [] \<and>
   map_sum id entries_of (add_FDE (\<lambda>n. Some (replicate n (sample_entry 9))) (sample_entry 2) sample_cache) =
     Inr [sample_entry 1, sample_entry 2] \<and>
   add_FDE (\<lambda>n. None) (sample_entry 2) sample_cache = Inl Null_access"
proof -
  have ok: "fde_cache_ok sample_cache" by code_simp
  have "map_sum id entries_of (add_FDE (\<lambda>n. Some (replicate n (sample_entry 9))) (sample_entry 2) sample_cache) =
     Inr [sample_entry 1, sample_entry 2]"
    "\<exists>f. add_FDE (\<lambda>n. None) (sample_entry 2) sample_cache = Inl f"
    "find (serves 1 0x2010) (entries_of sample_cache) = Some (sample_entry 1)" "filter (\<lambda>e. mh e \<noteq> 1) (entries_of sample_cache) = []"
    by (code_simp, simp add: add_FDE_def grow_buffer_def sample_cache_def, code_simp, code_simp)
  then show ?thesis
    using fde_cache_refines [OF ok, where malloc = "\<lambda>n. None" and dso = 1 and pc = "0x2010" and e = "sample_entry 2"] by (auto simp: sample_entry_def)
qed

end
