(* ===== verification/DwarfRegs.thy ===== *)
theory DwarfRegs
  imports DwarfExpr
begin

text \<open>
  The register files of \<^verbatim>\<open>libunwind/src/Registers.hpp\<close> that the unwinder is compiled for with 64-bit pointers and that
  need no special treatment of the return address: x86-64, RISC-V with double-precision floats, LoongArch.  The
  members that the DWARF code calls are a record of operations, their contract is the locale
  \<open>register_file\<close>.  A \<open>double\<close> is its 64 bits, a \<open>v128\<close> its 128.
\<close>

unbundle bit_operations_syntax

section \<open>Operations\<close>

record 'r register_ops =
  reg_valid :: "int \<Rightarrow> bool"
  reg_get :: "'r \<Rightarrow> int \<Rightarrow> 64 word fallible"
  reg_set :: "int \<Rightarrow> 64 word \<Rightarrow> 'r \<Rightarrow> 'r fallible"
  float_valid :: "int \<Rightarrow> bool"
  float_get :: "'r \<Rightarrow> int \<Rightarrow> 64 word fallible"
  float_set :: "int \<Rightarrow> 64 word \<Rightarrow> 'r \<Rightarrow> 'r fallible"
  vector_valid :: "int \<Rightarrow> bool"
  vector_get :: "'r \<Rightarrow> int \<Rightarrow> 128 word fallible"
  vector_set :: "int \<Rightarrow> 128 word \<Rightarrow> 'r \<Rightarrow> 'r fallible"
  sp_get :: "'r \<Rightarrow> 64 word"
  sp_set :: "64 word \<Rightarrow> 'r \<Rightarrow> 'r"
  ip_get :: "'r \<Rightarrow> 64 word"
  ip_set :: "64 word \<Rightarrow> 'r \<Rightarrow> 'r"
  lastDwarfRegNum :: nat

text \<open>The contract.  A number names a cell of the file, \<open>slot\<close>, or none (a register wired to zero, or one that only the
  processor can read): a write changes what is read under the numbers of the same cell, and nothing else.\<close>

locale register_file =
  fixes ops :: "'r register_ops"
    and slot :: "int \<Rightarrow> nat option"
  assumes get_sp: "reg_get ops r UNW_REG_SP = Inr (sp_get ops r)"
    and get_ip: "reg_get ops r UNW_REG_IP = Inr (ip_get ops r)"
    and pointers: "slot UNW_REG_SP \<noteq> None" "slot UNW_REG_IP \<noteq> None" "slot UNW_REG_SP \<noteq> slot UNW_REG_IP"
    and slots: "0 \<le> i \<Longrightarrow> 0 \<le> j \<Longrightarrow> slot i \<noteq> None \<Longrightarrow> slot i = slot j \<Longrightarrow> i = j"
    and set_get: "reg_set ops i v r = Inr r' \<Longrightarrow>
      reg_get ops r' j = (if slot i \<noteq> None \<and> slot i = slot j then Inr v else reg_get ops r j)"
    and set_sp: "reg_get ops (sp_set ops v r) j = (if slot UNW_REG_SP = slot j then Inr v else reg_get ops r j)"
    and set_ip: "reg_get ops (ip_set ops v r) j = (if slot UNW_REG_IP = slot j then Inr v else reg_get ops r j)"
    and set_valid: "reg_valid ops i \<Longrightarrow> \<not> float_valid ops i \<Longrightarrow> \<not> vector_valid ops i \<Longrightarrow> 0 \<le> i \<Longrightarrow> i \<le> int (lastDwarfRegNum ops) \<Longrightarrow>
      \<exists>r'. reg_set ops i v r = Inr r'"
    and set_float: "float_valid ops i \<Longrightarrow> \<exists>r'. float_set ops i v r = Inr r' \<and> reg_get ops r' = reg_get ops r"
    and set_vector: "vector_valid ops i \<Longrightarrow> \<exists>r'. vector_set ops i w r = Inr r' \<and> reg_get ops r' = reg_get ops r"
begin

lemma sp_after_set: "sp_get ops (sp_set ops v r) = v" "sp_get ops (ip_set ops v r) = sp_get ops r"
  using set_sp [of v r UNW_REG_SP] set_ip [of v r UNW_REG_SP] pointers by (simp_all add: get_sp)

lemma ip_after_set: "ip_get ops (ip_set ops v r) = v" "ip_get ops (sp_set ops v r) = ip_get ops r"
  using set_ip [of v r UNW_REG_IP] set_sp [of v r UNW_REG_IP] pointers by (simp_all add: get_ip)

lemma set_same: "reg_set ops i v r = Inr r' \<Longrightarrow> slot i \<noteq> None \<Longrightarrow> reg_get ops r' i = Inr v"
  by (simp add: set_get)

lemma set_other: "reg_set ops i v r = Inr r' \<Longrightarrow> slot i \<noteq> slot j \<Longrightarrow> reg_get ops r' j = reg_get ops r j"
  by (simp add: set_get)

end

text \<open>The contract with the banks of floating-point and vector registers: each is an array of its own.\<close>

locale register_banks = register_file +
  assumes float_set_get: "float_set ops i v r = Inr r' \<Longrightarrow> float_valid ops i \<Longrightarrow> float_valid ops j \<Longrightarrow>
      float_get ops r' j = (if i = j then Inr v else float_get ops r j)"
    and vector_set_get: "vector_set ops i w r = Inr r' \<Longrightarrow> vector_valid ops i \<Longrightarrow> vector_valid ops j \<Longrightarrow>
      vector_get ops r' j = (if i = j then Inr w else vector_get ops r j)"
    and float_kept: "reg_set ops i v r = Inr r' \<Longrightarrow> float_get ops r' = float_get ops r"
      "vector_set ops i w r = Inr r' \<Longrightarrow> float_get ops r' = float_get ops r"
      "float_get ops (sp_set ops v r) = float_get ops r" "float_get ops (ip_set ops v r) = float_get ops r"
    and vector_kept: "reg_set ops i v r = Inr r' \<Longrightarrow> vector_get ops r' = vector_get ops r"
      "float_set ops i v r = Inr r' \<Longrightarrow> vector_get ops r' = vector_get ops r"
      "vector_get ops (sp_set ops v r) = vector_get ops r" "vector_get ops (ip_set ops v r) = vector_get ops r"

section \<open>x86-64\<close>

text \<open>The vector registers \<open>_xmm\<close> exist on Windows only, the argument \<open>windows\<close>.  The arrays of this
  theory are indexed inside their bounds only, so they are functions.\<close>

record registers_x86_64 =
  rax :: "64 word"
  rbx :: "64 word"
  rcx :: "64 word"
  rdx :: "64 word"
  rdi :: "64 word"
  rsi :: "64 word"
  rbp :: "64 word"
  rsp :: "64 word"
  r8 :: "64 word"
  r9 :: "64 word"
  r10 :: "64 word"
  r11 :: "64 word"
  r12 :: "64 word"
  r13 :: "64 word"
  r14 :: "64 word"
  r15 :: "64 word"
  rip :: "64 word"
  rflags :: "64 word"
  cs :: "64 word"
  fs :: "64 word"
  gs :: "64 word"
  xmm :: "nat \<Rightarrow> 128 word"

definition x86_64_validRegister :: "int \<Rightarrow> bool" where
  "x86_64_validRegister regNum \<longleftrightarrow>
     (if regNum = UNW_REG_IP then True else if regNum = UNW_REG_SP then True
      else if regNum < 0 then False else if regNum > 16 then False else True)"

definition x86_64_getRegister :: "registers_x86_64 \<Rightarrow> int \<Rightarrow> 64 word fallible" where
  "x86_64_getRegister r regNum =
     (if regNum = UNW_REG_IP \<or> regNum = 16 then Inr (rip r)
      else if regNum = UNW_REG_SP then Inr (rsp r)
      else if regNum = 0 then Inr (rax r)
      else if regNum = 1 then Inr (rdx r)
      else if regNum = 2 then Inr (rcx r)
      else if regNum = 3 then Inr (rbx r)
      else if regNum = 4 then Inr (rsi r)
      else if regNum = 5 then Inr (rdi r)
      else if regNum = 6 then Inr (rbp r)
      else if regNum = 7 then Inr (rsp r)
      else if regNum = 8 then Inr (r8 r)
      else if regNum = 9 then Inr (r9 r)
      else if regNum = 10 then Inr (r10 r)
      else if regNum = 11 then Inr (r11 r)
      else if regNum = 12 then Inr (r12 r)
      else if regNum = 13 then Inr (r13 r)
      else if regNum = 14 then Inr (r14 r)
      else if regNum = 15 then Inr (r15 r)
      else Inl (Abort ''unsupported x86_64 register''))"

definition x86_64_setRegister :: "int \<Rightarrow> 64 word \<Rightarrow> registers_x86_64 \<Rightarrow> registers_x86_64 fallible" where
  "x86_64_setRegister regNum v r =
     (if regNum = UNW_REG_IP \<or> regNum = 16 then Inr (r\<lparr>rip := v\<rparr>)
      else if regNum = UNW_REG_SP then Inr (r\<lparr>rsp := v\<rparr>)
      else if regNum = 0 then Inr (r\<lparr>rax := v\<rparr>)
      else if regNum = 1 then Inr (r\<lparr>rdx := v\<rparr>)
      else if regNum = 2 then Inr (r\<lparr>rcx := v\<rparr>)
      else if regNum = 3 then Inr (r\<lparr>rbx := v\<rparr>)
      else if regNum = 4 then Inr (r\<lparr>rsi := v\<rparr>)
      else if regNum = 5 then Inr (r\<lparr>rdi := v\<rparr>)
      else if regNum = 6 then Inr (r\<lparr>rbp := v\<rparr>)
      else if regNum = 7 then Inr (r\<lparr>rsp := v\<rparr>)
      else if regNum = 8 then Inr (r\<lparr>r8 := v\<rparr>)
      else if regNum = 9 then Inr (r\<lparr>r9 := v\<rparr>)
      else if regNum = 10 then Inr (r\<lparr>r10 := v\<rparr>)
      else if regNum = 11 then Inr (r\<lparr>r11 := v\<rparr>)
      else if regNum = 12 then Inr (r\<lparr>r12 := v\<rparr>)
      else if regNum = 13 then Inr (r\<lparr>r13 := v\<rparr>)
      else if regNum = 14 then Inr (r\<lparr>r14 := v\<rparr>)
      else if regNum = 15 then Inr (r\<lparr>r15 := v\<rparr>)
      else Inl (Abort ''unsupported x86_64 register''))"

definition x86_64_validVectorRegister :: "bool \<Rightarrow> int \<Rightarrow> bool" where
  "x86_64_validVectorRegister windows regNum \<longleftrightarrow>
     (if windows then if regNum < 17 then False else if regNum > 32 then False else True else False)"

definition x86_64_getVectorRegister :: "bool \<Rightarrow> registers_x86_64 \<Rightarrow> int \<Rightarrow> 128 word fallible" where
  "x86_64_getVectorRegister windows r regNum =
     (if windows then
        if x86_64_validVectorRegister windows regNum then Inr (xmm r (nat (regNum - 17))) else Inl Assertion
      else Inl (Abort ''no x86_64 vector registers''))"

definition x86_64_setVectorRegister ::
    "bool \<Rightarrow> int \<Rightarrow> 128 word \<Rightarrow> registers_x86_64 \<Rightarrow> registers_x86_64 fallible" where
  "x86_64_setVectorRegister windows regNum v r =
     (if windows then
        if x86_64_validVectorRegister windows regNum then Inr (r\<lparr>xmm := (xmm r)(nat (regNum - 17) := v)\<rparr>) else Inl Assertion
      else Inl (Abort ''no x86_64 vector registers''))"

definition x86_64_ops :: "bool \<Rightarrow> registers_x86_64 register_ops" where
  "x86_64_ops windows =
     \<lparr>reg_valid = x86_64_validRegister, reg_get = x86_64_getRegister, reg_set = x86_64_setRegister,
      float_valid = (\<lambda>_. False), float_get = (\<lambda>_ _. Inl (Abort ''no x86_64 float registers'')),
      float_set = (\<lambda>_ _ _. Inl (Abort ''no x86_64 float registers'')),
      vector_valid = x86_64_validVectorRegister windows, vector_get = x86_64_getVectorRegister windows,
      vector_set = x86_64_setVectorRegister windows,
      sp_get = rsp, sp_set = (\<lambda>v r. r\<lparr>rsp := v\<rparr>), ip_get = rip, ip_set = (\<lambda>v r. r\<lparr>rip := v\<rparr>),
      lastDwarfRegNum = 32\<rparr>"

definition x86_64_slot :: "int \<Rightarrow> nat option" where
  "x86_64_slot i =
     (if i = UNW_REG_IP then Some 16 else if i = UNW_REG_SP then Some 7
      else if 0 \<le> i \<and> i \<le> 16 then Some (nat i) else None)"

lemmas pointer_registers = UNW_REG_IP_def UNW_REG_SP_def

text \<open>The cells, in the order of their numbers.\<close>

definition x86_64_cells :: "registers_x86_64 \<Rightarrow> 64 word list" where
  "x86_64_cells r = [rax r, rdx r, rcx r, rbx r, rsi r, rdi r, rbp r, rsp r, r8 r,
     r9 r, r10 r, r11 r, r12 r, r13 r, r14 r, r15 r, rip r]"

lemma x86_64_numbers: "x86_64_slot i \<noteq> None \<longleftrightarrow> i \<in> set [- 2..16]"
  by (auto simp: x86_64_slot_def pointer_registers)

lemma x86_64_get_cell:
  "x86_64_getRegister r i =
    (case x86_64_slot i of None \<Rightarrow> Inl (Abort ''unsupported x86_64 register'') | Some n \<Rightarrow> Inr (x86_64_cells r ! n))"
proof (cases "x86_64_slot i = None")
  case True
  then have "i \<notin> set [- 2..16]" using x86_64_numbers by blast
  then show ?thesis using True by (simp add: upto_rec1 x86_64_getRegister_def pointer_registers)
next
  case False
  have "\<forall>j \<in> set [- 2..16]. x86_64_getRegister r j = map_sum id ((!) (x86_64_cells r)) (Inr (the (x86_64_slot j)))"
    by (simp add: upto_rec1 x86_64_slot_def x86_64_getRegister_def pointer_registers x86_64_cells_def)
  then show ?thesis using False x86_64_numbers [of i] by auto
qed

lemma x86_64_set_cell:
  "x86_64_slot i = None \<Longrightarrow> x86_64_setRegister i v r = Inl (Abort ''unsupported x86_64 register'')"
  "x86_64_slot i = Some n \<Longrightarrow> \<exists>r'. x86_64_setRegister i v r = Inr r' \<and> x86_64_cells r' = (x86_64_cells r)[n := v]"
proof -
  show "x86_64_setRegister i v r = Inl (Abort ''unsupported x86_64 register'')" if "x86_64_slot i = None"
  proof -
    have "i \<notin> set [- 2..16]" using that x86_64_numbers by blast
    then show ?thesis by (simp add: upto_rec1 x86_64_setRegister_def pointer_registers)
  qed
  have written: "\<forall>j \<in> set [- 2..16]. \<exists>r'. x86_64_setRegister j v r = Inr r' \<and> x86_64_cells r' = (x86_64_cells r)[the (x86_64_slot j) := v]"
    by (simp add: upto_rec1 x86_64_slot_def x86_64_setRegister_def pointer_registers x86_64_cells_def)
  show "\<exists>r'. x86_64_setRegister i v r = Inr r' \<and> x86_64_cells r' = (x86_64_cells r)[n := v]" if "x86_64_slot i = Some n"
  proof -
    have "i \<in> set [- 2..16]" using that x86_64_numbers [of i] by blast
    from bspec [OF written this] show ?thesis using that by simp
  qed
qed

lemma x86_64_slot_less: "x86_64_slot i = Some n \<Longrightarrow> n < length (x86_64_cells r)"
  by (auto simp: x86_64_slot_def x86_64_cells_def split: if_splits)

lemma x86_64_written:
  "x86_64_slot i = Some n \<Longrightarrow> x86_64_cells r' = (x86_64_cells r)[n := v] \<Longrightarrow>
    x86_64_getRegister r' j = (if x86_64_slot i = x86_64_slot j then Inr v else x86_64_getRegister r j)"
  using x86_64_slot_less [of i n r]
  by (cases "x86_64_slot j") (auto simp: x86_64_get_cell nth_list_update)

interpretation x86_64: register_file "x86_64_ops windows" x86_64_slot for windows
proof
  fix r r' :: registers_x86_64 and i j :: int and v :: "64 word" and w
  show "reg_get (x86_64_ops windows) r UNW_REG_SP = Inr (sp_get (x86_64_ops windows) r)"
    "reg_get (x86_64_ops windows) r UNW_REG_IP = Inr (ip_get (x86_64_ops windows) r)"
    by (simp_all add: x86_64_ops_def x86_64_getRegister_def pointer_registers)
  show "x86_64_slot UNW_REG_SP \<noteq> None" "x86_64_slot UNW_REG_IP \<noteq> None" "x86_64_slot UNW_REG_SP \<noteq> x86_64_slot UNW_REG_IP"
    by (simp_all add: x86_64_slot_def pointer_registers)
  show "i = j" if "0 \<le> i" "0 \<le> j" "x86_64_slot i \<noteq> None" "x86_64_slot i = x86_64_slot j"
    using that by (auto simp: x86_64_slot_def pointer_registers split: if_splits)
  show "reg_get (x86_64_ops windows) r' j =
      (if x86_64_slot i \<noteq> None \<and> x86_64_slot i = x86_64_slot j then Inr v else reg_get (x86_64_ops windows) r j)"
    if set: "reg_set (x86_64_ops windows) i v r = Inr r'"
  proof (cases "x86_64_slot i")
    case None
    then show ?thesis using set x86_64_set_cell(1) by (simp add: x86_64_ops_def)
  next
    case (Some n)
    then show ?thesis using set x86_64_set_cell(2) [OF Some, of v r] x86_64_written [OF Some] by (auto simp: x86_64_ops_def)
  qed
  have "x86_64_cells (r\<lparr>rsp := v\<rparr>) = (x86_64_cells r)[7 := v]" "x86_64_cells (r\<lparr>rip := v\<rparr>) = (x86_64_cells r)[16 := v]"
    by (simp_all add: x86_64_cells_def)
  then show "reg_get (x86_64_ops windows) (sp_set (x86_64_ops windows) v r) j =
      (if x86_64_slot UNW_REG_SP = x86_64_slot j then Inr v else reg_get (x86_64_ops windows) r j)"
    "reg_get (x86_64_ops windows) (ip_set (x86_64_ops windows) v r) j =
      (if x86_64_slot UNW_REG_IP = x86_64_slot j then Inr v else reg_get (x86_64_ops windows) r j)"
    using x86_64_written [of UNW_REG_SP 7 "r\<lparr>rsp := v\<rparr>"] x86_64_written [of UNW_REG_IP 16 "r\<lparr>rip := v\<rparr>"]
    by (simp_all add: x86_64_ops_def x86_64_slot_def pointer_registers)
  show "\<exists>r'. reg_set (x86_64_ops windows) i v r = Inr r'" if "reg_valid (x86_64_ops windows) i"
  proof -
    have "x86_64_slot i \<noteq> None"
      using that by (simp add: x86_64_ops_def x86_64_validRegister_def x86_64_slot_def split: if_splits)
    then show ?thesis using x86_64_set_cell(2) [of i _ v r] by (auto simp: x86_64_ops_def)
  qed
  show "\<exists>r'. vector_set (x86_64_ops windows) i w r = Inr r' \<and> reg_get (x86_64_ops windows) r' = reg_get (x86_64_ops windows) r"
    if "vector_valid (x86_64_ops windows) i"
  proof -
    have "x86_64_cells (r\<lparr>xmm := x\<rparr>) = x86_64_cells r" for x by (simp add: x86_64_cells_def)
    then have "x86_64_getRegister (r\<lparr>xmm := x\<rparr>) = x86_64_getRegister r" for x by (simp add: fun_eq_iff x86_64_get_cell split: option.split)
    then show ?thesis using that
      by (auto simp: x86_64_ops_def x86_64_setVectorRegister_def x86_64_validVectorRegister_def split: if_splits)
  qed
qed (simp_all add: x86_64_ops_def)

lemma x86_64_xmm:
  "x86_64_setRegister i v r = Inr r' \<Longrightarrow> xmm r' = xmm r"
  "xmm r' = xmm r \<Longrightarrow> x86_64_getVectorRegister windows r' = x86_64_getVectorRegister windows r"
  by (auto simp: x86_64_setRegister_def x86_64_getVectorRegister_def fun_eq_iff split: if_splits)

interpretation x86_64: register_banks "x86_64_ops windows" x86_64_slot for windows
proof
  fix r r' :: registers_x86_64 and i j :: int and v :: "64 word" and w
  show "vector_get (x86_64_ops windows) r' j = (if i = j then Inr w else vector_get (x86_64_ops windows) r j)"
    if "vector_set (x86_64_ops windows) i w r = Inr r'" "vector_valid (x86_64_ops windows) i" "vector_valid (x86_64_ops windows) j"
    using that by (auto simp: x86_64_ops_def x86_64_setVectorRegister_def x86_64_getVectorRegister_def
        x86_64_validVectorRegister_def eq_nat_nat_iff split: if_splits)
qed (auto simp: x86_64_ops_def intro!: x86_64_xmm(2) dest: x86_64_xmm(1))

section \<open>RISC-V\<close>

text \<open>\<open>_registers[0]\<close> holds the program counter, and \<open>x0\<close> reads as zero.  The length of a vector register is read from
  the processor, the parameter \<open>vlenb\<close>.\<close>

record registers_riscv =
  riscv_registers :: "nat \<Rightarrow> 64 word"
  riscv_floats :: "nat \<Rightarrow> 64 word"

definition UNW_RISCV_VLENB :: int where "UNW_RISCV_VLENB = 0x1C22"

definition riscv_validRegister :: "int \<Rightarrow> bool" where
  "riscv_validRegister regNum \<longleftrightarrow>
     (if regNum = UNW_REG_IP then True else if regNum = UNW_REG_SP then True
      else if regNum < 0 then False else if regNum = UNW_RISCV_VLENB then True
      else if regNum > 63 then False else True)"

definition riscv_getRegister :: "64 word \<Rightarrow> registers_riscv \<Rightarrow> int \<Rightarrow> 64 word fallible" where
  "riscv_getRegister vlenb r regNum =
     (if regNum = UNW_REG_IP then Inr (riscv_registers r 0)
      else if regNum = UNW_REG_SP then Inr (riscv_registers r 2)
      else if regNum = 0 then Inr 0
      else if 0 < regNum \<and> regNum < 32 then Inr (riscv_registers r (nat regNum))
      else if regNum = UNW_RISCV_VLENB then Inr vlenb
      else Inl (Abort ''unsupported riscv register''))"

definition riscv_setRegister :: "int \<Rightarrow> 64 word \<Rightarrow> registers_riscv \<Rightarrow> registers_riscv fallible" where
  "riscv_setRegister regNum v r =
     (if regNum = UNW_REG_IP then Inr (r\<lparr>riscv_registers := (riscv_registers r)(0 := v)\<rparr>)
      else if regNum = UNW_REG_SP then Inr (r\<lparr>riscv_registers := (riscv_registers r)(2 := v)\<rparr>)
      else if regNum = 0 then Inr r
      else if 0 < regNum \<and> regNum < 32 then Inr (r\<lparr>riscv_registers := (riscv_registers r)(nat regNum := v)\<rparr>)
      else Inl (Abort ''unsupported riscv register''))"

definition riscv_validFloatRegister :: "int \<Rightarrow> bool" where
  "riscv_validFloatRegister regNum \<longleftrightarrow> (if regNum < 32 then False else if regNum > 63 then False else True)"

definition riscv_getFloatRegister :: "registers_riscv \<Rightarrow> int \<Rightarrow> 64 word fallible" where
  "riscv_getFloatRegister r regNum =
     (if riscv_validFloatRegister regNum then Inr (riscv_floats r (nat (regNum - 32))) else Inl Assertion)"

definition riscv_setFloatRegister :: "int \<Rightarrow> 64 word \<Rightarrow> registers_riscv \<Rightarrow> registers_riscv fallible" where
  "riscv_setFloatRegister regNum v r =
     (if riscv_validFloatRegister regNum then Inr (r\<lparr>riscv_floats := (riscv_floats r)(nat (regNum - 32) := v)\<rparr>)
      else Inl Assertion)"

definition riscv_ops :: "64 word \<Rightarrow> registers_riscv register_ops" where
  "riscv_ops vlenb =
     \<lparr>reg_valid = riscv_validRegister, reg_get = riscv_getRegister vlenb, reg_set = riscv_setRegister,
      float_valid = riscv_validFloatRegister, float_get = riscv_getFloatRegister, float_set = riscv_setFloatRegister,
      vector_valid = (\<lambda>_. False), vector_get = (\<lambda>_ _. Inl (Abort ''no riscv vector register support yet'')),
      vector_set = (\<lambda>_ _ _. Inl (Abort ''no riscv vector register support yet'')),
      sp_get = (\<lambda>r. riscv_registers r 2), sp_set = (\<lambda>v r. r\<lparr>riscv_registers := (riscv_registers r)(2 := v)\<rparr>),
      ip_get = (\<lambda>r. riscv_registers r 0), ip_set = (\<lambda>v r. r\<lparr>riscv_registers := (riscv_registers r)(0 := v)\<rparr>),
      lastDwarfRegNum = 64\<rparr>"

definition riscv_slot :: "int \<Rightarrow> nat option" where
  "riscv_slot i =
     (if i = UNW_REG_IP then Some 0 else if i = UNW_REG_SP then Some 2
      else if 0 < i \<and> i < 32 then Some (nat i) else None)"

lemmas riscv_defs = riscv_ops_def riscv_slot_def riscv_validRegister_def riscv_getRegister_def riscv_setRegister_def
  riscv_validFloatRegister_def riscv_setFloatRegister_def UNW_RISCV_VLENB_def pointer_registers

interpretation riscv: register_file "riscv_ops vlenb" riscv_slot for vlenb
proof
  fix r r' :: registers_riscv and i j :: int and v :: "64 word"
  show "reg_get (riscv_ops vlenb) r' j =
      (if riscv_slot i \<noteq> None \<and> riscv_slot i = riscv_slot j then Inr v else reg_get (riscv_ops vlenb) r j)"
    if "reg_set (riscv_ops vlenb) i v r = Inr r'"
    using that by (auto simp: riscv_defs nat_eq_iff eq_nat_nat_iff split: if_splits)
qed (auto simp: riscv_defs nat_eq_iff fun_eq_iff split: if_splits)

interpretation riscv: register_banks "riscv_ops vlenb" riscv_slot for vlenb
proof
  fix r r' :: registers_riscv and i j :: int and v :: "64 word"
  show "float_get (riscv_ops vlenb) r' j = (if i = j then Inr v else float_get (riscv_ops vlenb) r j)"
    if "float_set (riscv_ops vlenb) i v r = Inr r'" "float_valid (riscv_ops vlenb) i" "float_valid (riscv_ops vlenb) j"
    using that by (auto simp: riscv_defs riscv_getFloatRegister_def eq_nat_nat_iff split: if_splits)
qed (auto simp: riscv_defs riscv_getFloatRegister_def fun_eq_iff split: if_splits)

section \<open>LoongArch\<close>

record registers_loongarch =
  loongarch_r :: "nat \<Rightarrow> 64 word"
  loongarch_pc :: "64 word"
  loongarch_floats :: "nat \<Rightarrow> 64 word"

definition loongarch_validRegister :: "int \<Rightarrow> bool" where
  "loongarch_validRegister regNum \<longleftrightarrow>
     (if regNum = UNW_REG_IP \<or> regNum = UNW_REG_SP then True else if regNum < 0 \<or> regNum > 63 then False else True)"

definition loongarch_getRegister :: "registers_loongarch \<Rightarrow> int \<Rightarrow> 64 word fallible" where
  "loongarch_getRegister r regNum =
     (if 0 \<le> regNum \<and> regNum \<le> 31 then Inr (loongarch_r r (nat regNum))
      else if regNum = UNW_REG_IP then Inr (loongarch_pc r)
      else if regNum = UNW_REG_SP then Inr (loongarch_r r 3)
      else Inl (Abort ''unsupported loongarch register''))"

definition loongarch_setRegister :: "int \<Rightarrow> 64 word \<Rightarrow> registers_loongarch \<Rightarrow> registers_loongarch fallible" where
  "loongarch_setRegister regNum v r =
     (if 0 \<le> regNum \<and> regNum \<le> 31 then Inr (r\<lparr>loongarch_r := (loongarch_r r)(nat regNum := v)\<rparr>)
      else if regNum = UNW_REG_IP then Inr (r\<lparr>loongarch_pc := v\<rparr>)
      else if regNum = UNW_REG_SP then Inr (r\<lparr>loongarch_r := (loongarch_r r)(3 := v)\<rparr>)
      else Inl (Abort ''unsupported loongarch register''))"

definition loongarch_validFloatRegister :: "int \<Rightarrow> bool" where
  "loongarch_validFloatRegister regNum \<longleftrightarrow> (if regNum < 32 \<or> regNum > 63 then False else True)"

definition loongarch_getFloatRegister :: "registers_loongarch \<Rightarrow> int \<Rightarrow> 64 word fallible" where
  "loongarch_getFloatRegister r regNum =
     (if loongarch_validFloatRegister regNum then Inr (loongarch_floats r (nat (regNum - 32))) else Inl Assertion)"

definition loongarch_setFloatRegister :: "int \<Rightarrow> 64 word \<Rightarrow> registers_loongarch \<Rightarrow> registers_loongarch fallible" where
  "loongarch_setFloatRegister regNum v r =
     (if loongarch_validFloatRegister regNum
      then Inr (r\<lparr>loongarch_floats := (loongarch_floats r)(nat (regNum - 32) := v)\<rparr>) else Inl Assertion)"

definition loongarch_ops :: "registers_loongarch register_ops" where
  "loongarch_ops =
     \<lparr>reg_valid = loongarch_validRegister, reg_get = loongarch_getRegister, reg_set = loongarch_setRegister,
      float_valid = loongarch_validFloatRegister, float_get = loongarch_getFloatRegister,
      float_set = loongarch_setFloatRegister,
      vector_valid = (\<lambda>_. False), vector_get = (\<lambda>_ _. Inl (Abort ''loongarch vector support not implemented'')),
      vector_set = (\<lambda>_ _ _. Inl (Abort ''loongarch vector support not implemented'')),
      sp_get = (\<lambda>r. loongarch_r r 3), sp_set = (\<lambda>v r. r\<lparr>loongarch_r := (loongarch_r r)(3 := v)\<rparr>),
      ip_get = loongarch_pc, ip_set = (\<lambda>v r. r\<lparr>loongarch_pc := v\<rparr>),
      lastDwarfRegNum = 64\<rparr>"

definition loongarch_slot :: "int \<Rightarrow> nat option" where
  "loongarch_slot i =
     (if 0 \<le> i \<and> i \<le> 31 then Some (nat i) else if i = UNW_REG_IP then Some 32
      else if i = UNW_REG_SP then Some 3 else None)"

lemmas loongarch_defs = loongarch_ops_def loongarch_slot_def loongarch_validRegister_def loongarch_getRegister_def
  loongarch_setRegister_def loongarch_validFloatRegister_def loongarch_setFloatRegister_def pointer_registers

interpretation loongarch: register_file loongarch_ops loongarch_slot
proof
  fix r r' :: registers_loongarch and i j :: int and v :: "64 word"
  show "reg_get loongarch_ops r' j =
      (if loongarch_slot i \<noteq> None \<and> loongarch_slot i = loongarch_slot j then Inr v else reg_get loongarch_ops r j)"
    if "reg_set loongarch_ops i v r = Inr r'"
    using that by (auto simp: loongarch_defs nat_eq_iff eq_nat_nat_iff split: if_splits)
qed (auto simp: loongarch_defs nat_eq_iff fun_eq_iff split: if_splits)

interpretation loongarch: register_banks loongarch_ops loongarch_slot
proof
  fix r r' :: registers_loongarch and i j :: int and v :: "64 word"
  show "float_get loongarch_ops r' j = (if i = j then Inr v else float_get loongarch_ops r j)"
    if "float_set loongarch_ops i v r = Inr r'" "float_valid loongarch_ops i" "float_valid loongarch_ops j"
    using that by (auto simp: loongarch_defs loongarch_getFloatRegister_def eq_nat_nat_iff split: if_splits)
qed (auto simp: loongarch_defs loongarch_getFloatRegister_def fun_eq_iff split: if_splits)

end
