(* ===== verification/DwarfStep.thy ===== *)
theory DwarfStep
  imports DwarfRegs DwarfRules
begin

text \<open>
  \<open>DwarfInstructions::stepWithDwarf\<close> of \<^verbatim>\<open>libunwind/src/DwarfInstructions.hpp\<close>: from the registers of a frame to those of its
  caller.  It composes the readers of the entries (\<open>DwarfCFI\<close>), the run of their instructions
  (\<open>DwarfProgram\<close>), the expressions (\<open>DwarfExpr\<close>) and a register file (\<open>DwarfRegs\<close>).  The branches for signed return
  addresses, memory tags, register windows and the table of contents of PPC64 are not modelled: no register
  file of \<open>DwarfRegs\<close> takes them.
\<close>

unbundle bit_operations_syntax

section \<open>Where registers were saved\<close>

definition getDouble :: "address_space \<Rightarrow> uptr \<Rightarrow> 64 word" where
  "getDouble m addr = load m addr 8"

definition getVector :: "address_space \<Rightarrow> uptr \<Rightarrow> 128 word" where
  "getVector m addr = word_cat (load m (addr + 8) 8) (load m addr 8)"

definition getCFA :: "address_space \<Rightarrow> prolog_info \<Rightarrow> 'r register_ops \<Rightarrow> 'r \<Rightarrow> uptr fallible option" where
  "getCFA m prolog ops registers =
     (if cfaRegister prolog \<noteq> 0 then
        Some (bind_ok (reg_get ops registers (sint (cfaRegister prolog))) (\<lambda>v.
          Inr (v + scast (cfaRegisterOffset prolog))))
      else if cfaExpression prolog \<noteq> 0 then
        evaluateExpression m (reg_get ops registers) (cfaExpression prolog) 0
      else Some (Inl Assertion))"

text \<open>The cookie that SPARC mixes into the saved return address is zero elsewhere.\<close>

definition getSavedRegister ::
    "address_space \<Rightarrow> 'r register_ops \<Rightarrow> 'r \<Rightarrow> uptr \<Rightarrow> register_location \<Rightarrow> 64 word fallible option" where
  "getSavedRegister m ops registers cfa savedReg =
     (case location savedReg of
        kRegisterInCFA \<Rightarrow> Some (Inr (as_getRegister m (cfa + value_of savedReg)))
      | kRegisterInCFADecrypt \<Rightarrow> Some (Inr (getP m (cfa + value_of savedReg) XOR 0))
      | kRegisterAtExpression \<Rightarrow>
          and_then (evaluateExpression m (reg_get ops registers) (value_of savedReg) cfa) (\<lambda>addr.
          Some (Inr (as_getRegister m addr)))
      | kRegisterIsExpression \<Rightarrow> evaluateExpression m (reg_get ops registers) (value_of savedReg) cfa
      | kRegisterInRegister \<Rightarrow> Some (reg_get ops registers (sint (ucast (value_of savedReg) :: 32 word)))
      | kRegisterUndefined \<Rightarrow> Some (Inr 0)
      | kRegisterUnused \<Rightarrow> Some (Inl (Abort ''unsupported restore location for register''))
      | kRegisterOffsetFromCFA \<Rightarrow> Some (Inl (Abort ''unsupported restore location for register'')))"

definition getSavedFloatRegister ::
    "address_space \<Rightarrow> 'r register_ops \<Rightarrow> 'r \<Rightarrow> uptr \<Rightarrow> register_location \<Rightarrow> 64 word fallible option" where
  "getSavedFloatRegister m ops registers cfa savedReg =
     (case location savedReg of
        kRegisterInCFA \<Rightarrow> Some (Inr (getDouble m (cfa + value_of savedReg)))
      | kRegisterAtExpression \<Rightarrow>
          and_then (evaluateExpression m (reg_get ops registers) (value_of savedReg) cfa) (\<lambda>addr.
          Some (Inr (getDouble m addr)))
      | kRegisterUndefined \<Rightarrow> Some (Inr 0)
      | kRegisterInRegister \<Rightarrow> Some (float_get ops registers (sint (ucast (value_of savedReg) :: 32 word)))
      | _ \<Rightarrow> Some (Inl (Abort ''unsupported restore location for float register'')))"

definition getSavedVectorRegister ::
    "address_space \<Rightarrow> 'r register_ops \<Rightarrow> 'r \<Rightarrow> uptr \<Rightarrow> register_location \<Rightarrow> 128 word fallible option" where
  "getSavedVectorRegister m ops registers cfa savedReg =
     (case location savedReg of
        kRegisterInCFA \<Rightarrow> Some (Inr (getVector m (cfa + value_of savedReg)))
      | kRegisterAtExpression \<Rightarrow>
          and_then (evaluateExpression m (reg_get ops registers) (value_of savedReg) cfa) (\<lambda>addr.
          Some (Inr (getVector m addr)))
      | _ \<Rightarrow> Some (Inl (Abort ''unsupported restore location for vector register'')))"

section \<open>The step\<close>

text \<open>One turn of the loop over the registers; \<open>None\<close> inside is the early return of \<open>UNW_EBADREG\<close>.\<close>

definition restore_register ::
    "address_space \<Rightarrow> 'r register_ops \<Rightarrow> 'r \<Rightarrow> uptr \<Rightarrow> cie_info \<Rightarrow> prolog_info \<Rightarrow> nat \<Rightarrow> 'r \<times> uptr \<Rightarrow> ('r \<times> uptr) option fallible option" where
  "restore_register m ops registers cfa cie prolog i given =
     (let (new, returnAddress) = given; rule = savedRegisters prolog ! i; ra = unat (returnAddressRegister cie) in
      if location rule \<noteq> kRegisterUnused then
        if float_valid ops (int i) then
          and_then (getSavedFloatRegister m ops registers cfa rule) (\<lambda>v.
          and_then (Some (float_set ops (int i) v new)) (\<lambda>new. Some (Inr (Some (new, returnAddress)))))
        else if vector_valid ops (int i) then
          and_then (getSavedVectorRegister m ops registers cfa rule) (\<lambda>v.
          and_then (Some (vector_set ops (int i) v new)) (\<lambda>new. Some (Inr (Some (new, returnAddress)))))
        else if i = ra then
          and_then (getSavedRegister m ops registers cfa rule) (\<lambda>v. Some (Inr (Some (new, v))))
        else if reg_valid ops (int i) then
          and_then (getSavedRegister m ops registers cfa rule) (\<lambda>v.
          and_then (Some (reg_set ops (int i) v new)) (\<lambda>new. Some (Inr (Some (new, returnAddress)))))
        else Some (Inr None)
      else if i = ra then
        and_then (Some (reg_get ops registers (int ra))) (\<lambda>v. Some (Inr (Some (new, v))))
      else Some (Inr (Some (new, returnAddress))))"

fun restore_registers ::
    "address_space \<Rightarrow> 'r register_ops \<Rightarrow> 'r \<Rightarrow> uptr \<Rightarrow> cie_info \<Rightarrow> prolog_info \<Rightarrow> nat list \<Rightarrow> 'r \<times> uptr \<Rightarrow> ('r \<times> uptr) option fallible option" where
  "restore_registers m ops registers cfa cie prolog [] given = Some (Inr (Some given))"
| "restore_registers m ops registers cfa cie prolog (i # is) given =
     and_then (restore_register m ops registers cfa cie prolog i given) (\<lambda>r.
     case r of
       None \<Rightarrow> Some (Inr None)
     | Some given \<Rightarrow> restore_registers m ops registers cfa cie prolog is given)"

definition UNW_EBADREG :: int where "UNW_EBADREG = - 6542"
definition UNW_EBADFRAME :: int where "UNW_EBADFRAME = - 6546"
definition UNW_STEP_SUCCESS :: int where "UNW_STEP_SUCCESS = 1"

text \<open>\<open>junk\<close> is what the two local structures hold before they are filled.\<close>

definition stepWithDwarf ::
    "address_space \<Rightarrow> 'r register_ops \<Rightarrow> nat \<Rightarrow> (nat \<Rightarrow> bool) \<Rightarrow> fde_info \<times> cie_info \<Rightarrow> uptr \<Rightarrow> uptr \<Rightarrow> 'r \<Rightarrow> bool \<Rightarrow>
       (int \<times> 'r \<times> bool) fallible option" where
  "stepWithDwarf m ops kmax alloc junk pc start registers signal =
     and_then (decodeFDE m start (fst junk) (snd junk) False) (\<lambda>(err, fde, cie).
     if err \<noteq> None then Some (Inr (UNW_EBADFRAME, registers, signal))
     else
       and_then (parseFDEInstructions m fde cie kmax alloc pc (zero_prolog kmax)) (\<lambda>parsed.
       case parsed of
         None \<Rightarrow> Some (Inr (UNW_EBADFRAME, registers, signal))
       | Some prolog \<Rightarrow>
           and_then (getCFA m prolog ops registers) (\<lambda>cfa.
           if lastDwarfRegNum ops < unat (returnAddressRegister cie) then Some (Inl Assertion)
           else
             and_then (restore_registers m ops registers cfa cie prolog [0..<Suc (lastDwarfRegNum ops)] (sp_set ops cfa registers, 0))
               (\<lambda>restored.
               case restored of
                 None \<Rightarrow> Some (Inr (UNW_EBADREG, registers, signal))
               | Some (new, returnAddress) \<Rightarrow>
                   Some (Inr (UNW_STEP_SUCCESS, ip_set ops returnAddress new, isSignalFrame cie))))))"

section \<open>The loop over the registers\<close>

definition ruled :: "prolog_info \<Rightarrow> nat \<Rightarrow> bool" where
  "ruled prolog i \<longleftrightarrow> location (savedRegisters prolog ! i) \<noteq> kRegisterUnused"

definition general :: "'r register_ops \<Rightarrow> nat \<Rightarrow> bool" where
  "general ops i \<longleftrightarrow> \<not> float_valid ops (int i) \<and> \<not> vector_valid ops (int i)"

definition return_register :: "cie_info \<Rightarrow> nat" where
  "return_register cie = unat (returnAddressRegister cie)"

lemma restore_register_cases:
  assumes "restore_register m ops r cfa cie prolog i (n, a) = Some (Inr (Some (n', a')))"
  obtains
    (unruled) "\<not> ruled prolog i" "i \<noteq> return_register cie" "n' = n" "a' = a"
  | (leaf) "\<not> ruled prolog i" "i = return_register cie" "n' = n" "reg_get ops r (int i) = Inr a'"
  | (float) v where "ruled prolog i" "float_valid ops (int i)" "a' = a" "float_set ops (int i) v n = Inr n'"
      "getSavedFloatRegister m ops r cfa (savedRegisters prolog ! i) = Some (Inr v)"
  | (vector) v where "ruled prolog i" "\<not> float_valid ops (int i)" "vector_valid ops (int i)" "a' = a" "vector_set ops (int i) v n = Inr n'"
      "getSavedVectorRegister m ops r cfa (savedRegisters prolog ! i) = Some (Inr v)"
  | (address) "ruled prolog i" "general ops i" "i = return_register cie" "n' = n"
      "getSavedRegister m ops r cfa (savedRegisters prolog ! i) = Some (Inr a')"
  | (general) v where "ruled prolog i" "general ops i" "i \<noteq> return_register cie" "reg_valid ops (int i)" "a' = a"
      "reg_set ops (int i) v n = Inr n'" "getSavedRegister m ops r cfa (savedRegisters prolog ! i) = Some (Inr v)"
proof -
  note case_def = restore_register_def ruled_def general_def return_register_def
  show thesis
  proof (cases "ruled prolog i")
    case False
    then show thesis using assms unruled leaf
      by (cases "i = return_register cie") (auto simp: case_def and_then_Inr)
  next
    case True
    consider "float_valid ops (int i)" | "\<not> float_valid ops (int i)" "vector_valid ops (int i)"
      | "general ops i" "i = return_register cie" | "general ops i" "i \<noteq> return_register cie"
      by (auto simp: general_def)
    then show thesis
    proof cases
      case 1
      then show thesis using assms True float by (auto simp: case_def and_then_Inr)
    next
      case 2
      then show thesis using assms True vector by (auto simp: case_def and_then_Inr)
    next
      case 3
      then show thesis using assms True address by (auto simp: case_def and_then_Inr)
    next
      case 4
      then show thesis using assms True that(6)
        by (cases "reg_valid ops (int i)") (auto simp: case_def and_then_Inr)
    qed
  qed
qed

lemma restore_registers_append:
  "restore_registers m ops r cfa cie prolog (is @ js) given =
    and_then (restore_registers m ops r cfa cie prolog is given) (\<lambda>x.
    case x of None \<Rightarrow> Some (Inr None) | Some given \<Rightarrow> restore_registers m ops r cfa cie prolog js given)"
proof (induction "is" arbitrary: given)
  case (Cons i "is")
  show ?case
  proof (cases "restore_register m ops r cfa cie prolog i given")
    case (Some x)
    then show ?thesis
    proof (cases x)
      case (Inr y)
      then show ?thesis using Some Cons by (cases y) simp_all
    qed simp
  qed simp
qed simp

lemma restore_registers_at:
  assumes "restore_registers m ops r cfa cie prolog is (n, a) = Some (Inr (Some (n', a')))" "i \<in> set is" "distinct is"
  obtains xs ys n1 a1 n2 a2 where "is = xs @ i # ys" "i \<notin> set xs" "i \<notin> set ys"
    "restore_registers m ops r cfa cie prolog xs (n, a) = Some (Inr (Some (n1, a1)))"
    "restore_register m ops r cfa cie prolog i (n1, a1) = Some (Inr (Some (n2, a2)))"
    "restore_registers m ops r cfa cie prolog ys (n2, a2) = Some (Inr (Some (n', a')))"
proof -
  obtain xs ys where split: "is = xs @ i # ys" using assms(2) by (metis split_list)
  obtain n1 a1 where first: "restore_registers m ops r cfa cie prolog xs (n, a) = Some (Inr (Some (n1, a1)))"
      "restore_registers m ops r cfa cie prolog (i # ys) (n1, a1) = Some (Inr (Some (n', a')))"
    using assms(1) unfolding split restore_registers_append by (auto simp: and_then_Inr simp del: restore_registers.simps split: option.splits)
  then obtain n2 a2 where "restore_register m ops r cfa cie prolog i (n1, a1) = Some (Inr (Some (n2, a2)))"
      "restore_registers m ops r cfa cie prolog ys (n2, a2) = Some (Inr (Some (n', a')))"
    by (auto simp: and_then_Inr split: option.splits)
  then show thesis using that split first(1) assms(3) by auto
qed

lemma kept_address:
  assumes "restore_registers m ops r cfa cie prolog is (n, a) = Some (Inr (Some (n', a')))" "return_register cie \<notin> set is"
  shows "a' = a"
  using assms
proof (induction "is" arbitrary: n a)
  case (Cons i "is")
  obtain n1 a1 where s: "restore_register m ops r cfa cie prolog i (n, a) = Some (Inr (Some (n1, a1)))"
      "restore_registers m ops r cfa cie prolog is (n1, a1) = Some (Inr (Some (n', a')))"
    using Cons(2) by (auto simp: and_then_Inr split: option.splits)
  have "a1 = a" using s(1) Cons(3) by (auto elim!: restore_register_cases)
  then show ?case using Cons(1) [OF s(2)] Cons(3) by simp
qed simp

text \<open>The return address, as the rule of its register says.\<close>

definition return_address ::
    "address_space \<Rightarrow> 'r register_ops \<Rightarrow> 'r \<Rightarrow> uptr \<Rightarrow> cie_info \<Rightarrow> prolog_info \<Rightarrow> uptr fallible option" where
  "return_address m ops r cfa cie prolog =
     (let i = return_register cie in
      if ruled prolog i then getSavedRegister m ops r cfa (savedRegisters prolog ! i) else Some (reg_get ops r (int i)))"

lemma restored_address:
  assumes "restore_registers m ops r cfa cie prolog is (n, a) = Some (Inr (Some (n', a')))" "distinct is"
    and "return_register cie \<in> set is" "general ops (return_register cie)"
  shows "return_address m ops r cfa cie prolog = Some (Inr a')"
proof -
  obtain xs ys n1 a1 n2 a2 where s: "return_register cie \<notin> set ys"
    "restore_register m ops r cfa cie prolog (return_register cie) (n1, a1) = Some (Inr (Some (n2, a2)))"
    "restore_registers m ops r cfa cie prolog ys (n2, a2) = Some (Inr (Some (n', a')))"
    using assms(1-3) by (auto elim: restore_registers_at)
  from s(2) show ?thesis using kept_address [OF s(3,1)] assms(4)
    by (cases rule: restore_register_cases) (auto simp: return_address_def general_def)
qed

text \<open>A register the loop restores by a write to the file.\<close>

definition rewritten :: "'r register_ops \<Rightarrow> cie_info \<Rightarrow> prolog_info \<Rightarrow> nat \<Rightarrow> bool" where
  "rewritten ops cie prolog i \<longleftrightarrow> ruled prolog i \<and> general ops i \<and> i \<noteq> return_register cie"

context register_banks
begin

lemma kept_register:
  assumes "restore_registers m ops r cfa cie prolog is (n, a) = Some (Inr (Some (n', a')))"
    and "\<And>i. i \<in> set is \<Longrightarrow> rewritten ops cie prolog i \<Longrightarrow> slot (int i) \<noteq> slot j \<or> slot j = None"
  shows "reg_get ops n' j = reg_get ops n j"
  using assms
proof (induction "is" arbitrary: n a)
  case (Cons i "is")
  obtain n1 a1 where s: "restore_register m ops r cfa cie prolog i (n, a) = Some (Inr (Some (n1, a1)))"
      "restore_registers m ops r cfa cie prolog is (n1, a1) = Some (Inr (Some (n', a')))"
    using Cons(2) by (auto simp: and_then_Inr split: option.splits)
  have "reg_get ops n1 j = reg_get ops n j"
    using s(1)
  proof (cases rule: restore_register_cases)
    case (float v)
    then show ?thesis using set_float [of "int i" v n] by auto
  next
    case (vector v)
    then show ?thesis using set_vector [of "int i" v n] by auto
  next
    case (general v)
    then have "slot (int i) \<noteq> slot j \<or> slot j = None" using Cons(3) [of i] by (simp add: rewritten_def)
    then show ?thesis using set_get [OF general(6)] by auto
  qed simp_all
  moreover have "reg_get ops n' j = reg_get ops n1 j" by (rule Cons(1) [OF s(2)]) (rule Cons(3), simp_all)
  ultimately show ?case by simp
qed simp

lemma restored_register:
  assumes "restore_registers m ops r cfa cie prolog is (n, a) = Some (Inr (Some (n', a')))" "distinct is"
    and "i \<in> set is" "rewritten ops cie prolog i" "slot (int i) \<noteq> None"
  shows "getSavedRegister m ops r cfa (savedRegisters prolog ! i) = Some (reg_get ops n' (int i))"
proof -
  obtain xs ys n1 a1 n2 a2 where s: "i \<notin> set ys"
    "restore_register m ops r cfa cie prolog i (n1, a1) = Some (Inr (Some (n2, a2)))"
    "restore_registers m ops r cfa cie prolog ys (n2, a2) = Some (Inr (Some (n', a')))"
    using assms(1-3) by (auto elim: restore_registers_at)
  have "reg_get ops n' (int i) = reg_get ops n2 (int i)"
  proof (rule kept_register [OF s(3)])
    fix k assume "k \<in> set ys"
    then have "k \<noteq> i" using s(1) by auto
    then show "slot (int k) \<noteq> slot (int i) \<or> slot (int i) = None" using slots [of "int i" "int k"] by (cases "slot (int i)") auto
  qed
  moreover have "getSavedRegister m ops r cfa (savedRegisters prolog ! i) = Some (reg_get ops n2 (int i))"
    using s(2)
  proof (cases rule: restore_register_cases)
    case (general v)
    then show ?thesis using set_same [OF general(6) assms(5)] by simp
  qed (use assms(4) in \<open>auto simp: rewritten_def general_def\<close>)
  ultimately show ?thesis by simp
qed

lemma kept_float:
  assumes "restore_registers m ops r cfa cie prolog is (n, a) = Some (Inr (Some (n', a')))" "float_valid ops (int j)"
    and "j \<notin> set is \<or> \<not> ruled prolog j"
  shows "float_get ops n' (int j) = float_get ops n (int j)"
  using assms
proof (induction "is" arbitrary: n a)
  case (Cons i "is")
  obtain n1 a1 where s: "restore_register m ops r cfa cie prolog i (n, a) = Some (Inr (Some (n1, a1)))"
      "restore_registers m ops r cfa cie prolog is (n1, a1) = Some (Inr (Some (n', a')))"
    using Cons(2) by (auto simp: and_then_Inr split: option.splits)
  have "float_get ops n1 (int j) = float_get ops n (int j)"
    using s(1) by (cases rule: restore_register_cases) (use Cons(3,4) float_kept float_set_get in auto)
  then show ?case using Cons(1) [OF s(2) Cons(3)] Cons(4) by auto
qed simp

lemma kept_vector:
  assumes "restore_registers m ops r cfa cie prolog is (n, a) = Some (Inr (Some (n', a')))" "vector_valid ops (int j)"
    and "j \<notin> set is \<or> \<not> ruled prolog j"
  shows "vector_get ops n' (int j) = vector_get ops n (int j)"
  using assms
proof (induction "is" arbitrary: n a)
  case (Cons i "is")
  obtain n1 a1 where s: "restore_register m ops r cfa cie prolog i (n, a) = Some (Inr (Some (n1, a1)))"
      "restore_registers m ops r cfa cie prolog is (n1, a1) = Some (Inr (Some (n', a')))"
    using Cons(2) by (auto simp: and_then_Inr split: option.splits)
  have "vector_get ops n1 (int j) = vector_get ops n (int j)"
    using s(1) by (cases rule: restore_register_cases) (use Cons(3,4) vector_kept vector_set_get in auto)
  then show ?case using Cons(1) [OF s(2) Cons(3)] Cons(4) by auto
qed simp

lemma restored_float:
  assumes "restore_registers m ops r cfa cie prolog is (n, a) = Some (Inr (Some (n', a')))" "distinct is"
    and "i \<in> set is" "ruled prolog i" "float_valid ops (int i)"
  shows "getSavedFloatRegister m ops r cfa (savedRegisters prolog ! i) = Some (float_get ops n' (int i))"
proof -
  obtain xs ys n1 a1 n2 a2 where s: "i \<notin> set ys"
    "restore_register m ops r cfa cie prolog i (n1, a1) = Some (Inr (Some (n2, a2)))"
    "restore_registers m ops r cfa cie prolog ys (n2, a2) = Some (Inr (Some (n', a')))"
    using assms(1-3) by (auto elim: restore_registers_at)
  from s(2) show ?thesis
  proof (cases rule: restore_register_cases)
    case (float v)
    then show ?thesis using kept_float [OF s(3) assms(5)] s(1) float_set_get [OF float(4) assms(5,5)] by simp
  qed (use assms(4,5) in \<open>auto simp: general_def\<close>)
qed

lemma restored_vector:
  assumes "restore_registers m ops r cfa cie prolog is (n, a) = Some (Inr (Some (n', a')))" "distinct is"
    and "i \<in> set is" "ruled prolog i" "vector_valid ops (int i)" "\<not> float_valid ops (int i)"
  shows "getSavedVectorRegister m ops r cfa (savedRegisters prolog ! i) = Some (vector_get ops n' (int i))"
proof -
  obtain xs ys n1 a1 n2 a2 where s: "i \<notin> set ys"
    "restore_register m ops r cfa cie prolog i (n1, a1) = Some (Inr (Some (n2, a2)))"
    "restore_registers m ops r cfa cie prolog ys (n2, a2) = Some (Inr (Some (n', a')))"
    using assms(1-3) by (auto elim: restore_registers_at)
  from s(2) show ?thesis
  proof (cases rule: restore_register_cases)
    case (vector v)
    then show ?thesis using kept_vector [OF s(3) assms(5)] s(1) vector_set_get [OF vector(5) assms(5,5)] by simp
  qed (use assms(4-6) in \<open>auto simp: general_def\<close>)
qed

end

section \<open>The caller\<close>

text \<open>The registers of the caller, each from the rules and the registers of the frame alone: a register with a rule has
  what the rule says, one without keeps its value, but the stack pointer is then the frame address.\<close>

definition caller_register ::
    "address_space \<Rightarrow> 'r register_ops \<Rightarrow> (int \<Rightarrow> nat option) \<Rightarrow> 'r \<Rightarrow> uptr \<Rightarrow> cie_info \<Rightarrow> prolog_info \<Rightarrow> nat \<Rightarrow> 64 word fallible option" where
  "caller_register m ops slot r cfa cie prolog i =
     (if rewritten ops cie prolog i then getSavedRegister m ops r cfa (savedRegisters prolog ! i)
      else if slot (int i) = slot UNW_REG_SP then Some (Inr cfa)
      else Some (reg_get ops r (int i)))"

definition caller_float ::
    "address_space \<Rightarrow> 'r register_ops \<Rightarrow> 'r \<Rightarrow> uptr \<Rightarrow> prolog_info \<Rightarrow> nat \<Rightarrow> 64 word fallible option" where
  "caller_float m ops r cfa prolog i =
     (if ruled prolog i then getSavedFloatRegister m ops r cfa (savedRegisters prolog ! i) else Some (float_get ops r (int i)))"

definition caller_vector ::
    "address_space \<Rightarrow> 'r register_ops \<Rightarrow> 'r \<Rightarrow> uptr \<Rightarrow> prolog_info \<Rightarrow> nat \<Rightarrow> 128 word fallible option" where
  "caller_vector m ops r cfa prolog i =
     (if ruled prolog i then getSavedVectorRegister m ops r cfa (savedRegisters prolog ! i) else Some (vector_get ops r (int i)))"

text \<open>The numbers whose cell is one of the file, other than that of the instruction pointer.\<close>

definition restorable :: "'r register_ops \<Rightarrow> (int \<Rightarrow> nat option) \<Rightarrow> nat \<Rightarrow> bool" where
  "restorable ops slot i \<longleftrightarrow> i \<le> lastDwarfRegNum ops \<and> general ops i \<and> slot (int i) \<noteq> None \<and> slot (int i) \<noteq> slot UNW_REG_IP"

definition is_caller ::
    "address_space \<Rightarrow> 'r register_ops \<Rightarrow> (int \<Rightarrow> nat option) \<Rightarrow> 'r \<Rightarrow> uptr \<Rightarrow> cie_info \<Rightarrow> prolog_info \<Rightarrow> 'r \<Rightarrow> bool" where
  "is_caller m ops slot r cfa cie prolog r' \<longleftrightarrow>
     (general ops (return_register cie) \<longrightarrow> return_address m ops r cfa cie prolog = Some (Inr (ip_get ops r'))) \<and>
     (\<forall>i. restorable ops slot i \<longrightarrow> caller_register m ops slot r cfa cie prolog i = Some (reg_get ops r' (int i))) \<and>
     (\<forall>i \<le> lastDwarfRegNum ops. float_valid ops (int i) \<longrightarrow>
        caller_float m ops r cfa prolog i = Some (float_get ops r' (int i))) \<and>
     (\<forall>i \<le> lastDwarfRegNum ops. vector_valid ops (int i) \<and> \<not> float_valid ops (int i) \<longrightarrow>
        caller_vector m ops r cfa prolog i = Some (vector_get ops r' (int i)))"

text \<open>What a call of the step found on its way.\<close>

definition frame_found ::
    "address_space \<Rightarrow> 'r register_ops \<Rightarrow> nat \<Rightarrow> (nat \<Rightarrow> bool) \<Rightarrow> fde_info \<times> cie_info \<Rightarrow> uptr \<Rightarrow> uptr \<Rightarrow> 'r \<Rightarrow>
       cie_info \<Rightarrow> prolog_info \<Rightarrow> uptr \<Rightarrow> bool" where
  "frame_found m ops kmax alloc junk pc start r cie prolog cfa \<longleftrightarrow>
     (\<exists>fde. decodeFDE m start (fst junk) (snd junk) False = Some (Inr (None, fde, cie)) \<and>
       parseFDEInstructions m fde cie kmax alloc pc (zero_prolog kmax) = Some (Inr (Some prolog))) \<and>
     getCFA m prolog ops r = Some (Inr cfa) \<and> return_register cie \<le> lastDwarfRegNum ops"

lemma step_success:
  assumes "stepWithDwarf m ops kmax alloc junk pc start r signal = Some (Inr (UNW_STEP_SUCCESS, r', signal'))"
  obtains cie prolog cfa new ra where "frame_found m ops kmax alloc junk pc start r cie prolog cfa"
    "restore_registers m ops r cfa cie prolog [0..<Suc (lastDwarfRegNum ops)] (sp_set ops cfa r, 0) = Some (Inr (Some (new, ra)))"
    "r' = ip_set ops ra new" "signal' = isSignalFrame cie"
proof -
  obtain err fde cie where d: "decodeFDE m start (fst junk) (snd junk) False = Some (Inr (err, fde, cie))"
    using assms by (auto simp: stepWithDwarf_def and_then_Inr)
  have e: "err = None" using assms d by (auto simp: stepWithDwarf_def UNW_EBADFRAME_def UNW_STEP_SUCCESS_def split: if_splits)
  obtain parsed where p: "parseFDEInstructions m fde cie kmax alloc pc (zero_prolog kmax) = Some (Inr parsed)"
    using assms d e by (auto simp: stepWithDwarf_def and_then_Inr)
  obtain prolog where prolog: "parsed = Some prolog"
    using assms d e p by (cases parsed) (auto simp: stepWithDwarf_def UNW_EBADFRAME_def UNW_STEP_SUCCESS_def)
  obtain cfa where cfa: "getCFA m prolog ops r = Some (Inr cfa)"
    using assms d e p prolog by (auto simp: stepWithDwarf_def and_then_Inr)
  have ra: "\<not> lastDwarfRegNum ops < unat (returnAddressRegister cie)"
    using assms d e p prolog cfa by (auto simp: stepWithDwarf_def split: if_splits)
  obtain restored where "restore_registers m ops r cfa cie prolog [0..<Suc (lastDwarfRegNum ops)] (sp_set ops cfa r, 0) = Some (Inr restored)"
    using assms d e p prolog cfa ra by (auto simp: stepWithDwarf_def and_then_Inr)
  then show thesis using assms d e p prolog cfa ra that [of cie prolog cfa]
    by (cases restored) (auto simp: stepWithDwarf_def UNW_EBADREG_def UNW_STEP_SUCCESS_def frame_found_def return_register_def)
qed

context register_banks
begin

lemma step_is_caller:
  assumes "stepWithDwarf m ops kmax alloc junk pc start r signal = Some (Inr (UNW_STEP_SUCCESS, r', signal'))"
  shows "\<exists>cie prolog cfa. frame_found m ops kmax alloc junk pc start r cie prolog cfa \<and> signal' = isSignalFrame cie \<and>
    is_caller m ops slot r cfa cie prolog r'"
proof -
  let ?all = "[0..<Suc (lastDwarfRegNum ops)]"
  obtain cie prolog cfa new ra where s: "frame_found m ops kmax alloc junk pc start r cie prolog cfa"
    "restore_registers m ops r cfa cie prolog ?all (sp_set ops cfa r, 0) = Some (Inr (Some (new, ra)))"
    "r' = ip_set ops ra new" "signal' = isSignalFrame cie"
    using assms by (rule step_success)
  have all: "distinct ?all" "i \<in> set ?all \<longleftrightarrow> i \<le> lastDwarfRegNum ops" for i by auto
  have address: "return_address m ops r cfa cie prolog = Some (Inr (ip_get ops r'))" if "general ops (return_register cie)"
  proof -
    have "return_register cie \<in> set ?all" using s(1) unfolding all(2) by (simp add: frame_found_def)
    then show ?thesis using restored_address [OF s(2) all(1) _ that] by (simp only: s(3) ip_after_set)
  qed
  have caller: "caller_register m ops slot r cfa cie prolog i = Some (reg_get ops r' (int i))" if i: "restorable ops slot i" for i
  proof -
    have "slot UNW_REG_IP \<noteq> slot (int i)" using i unfolding restorable_def by metis
    then have "reg_get ops r' (int i) = reg_get ops new (int i)" by (simp add: s(3) set_ip)
    moreover have "getSavedRegister m ops r cfa (savedRegisters prolog ! i) = Some (reg_get ops new (int i))"
      if "rewritten ops cie prolog i"
      by (rule restored_register [OF s(2) all(1)]) (use i that in \<open>auto simp: restorable_def less_Suc_eq_le\<close>)
    moreover have "reg_get ops new (int i) = reg_get ops (sp_set ops cfa r) (int i)" if "\<not> rewritten ops cie prolog i"
    proof (rule kept_register [OF s(2)])
      fix k assume "rewritten ops cie prolog k"
      then have "k \<noteq> i" using that by auto
      then show "slot (int k) \<noteq> slot (int i) \<or> slot (int i) = None" using slots [of "int i" "int k"] by (cases "slot (int i)") auto
    qed
    ultimately show ?thesis by (auto simp: caller_register_def set_sp)
  qed
  have float: "caller_float m ops r cfa prolog i = Some (float_get ops r' (int i))"
    if "i \<le> lastDwarfRegNum ops" "float_valid ops (int i)" for i
    using restored_float [OF s(2) all(1) all(2) [THEN iffD2, OF that(1)] _ that(2)] kept_float [OF s(2) that(2)]
    by (simp add: caller_float_def s(3) float_kept)
  have vector: "caller_vector m ops r cfa prolog i = Some (vector_get ops r' (int i))"
    if "i \<le> lastDwarfRegNum ops" "vector_valid ops (int i)" "\<not> float_valid ops (int i)" for i
    using restored_vector [OF s(2) all(1) all(2) [THEN iffD2, OF that(1)] _ that(2,3)] kept_vector [OF s(2) that(2)]
    by (simp add: caller_vector_def s(3) vector_kept)
  show ?thesis using s(1,4) address caller float vector unfolding is_caller_def by blast
qed

end

end
