(* ===== verification/DwarfCaller.thy ===== *)
theory DwarfCaller
  imports DwarfStep
begin

text \<open>
  The properties of \<open>stepWithDwarf\<close> on the register files of \<open>DwarfRegs\<close>: which registers the caller has after a step, and
  what a step that fails leaves.
\<close>

unbundle bit_operations_syntax

section \<open>A step that succeeds\<close>

text \<open>C5: on x86-64, a step that succeeds leaves the registers of the caller: the instruction pointer is the return
  address, a register that a rule covers has what the rule says, computed from the registers of the frame (not from
  those already restored), the stack pointer is the frame address unless it has a rule, and every other
  register, the vector registers of Windows included, keeps its value.\<close>
theorem step_restores_caller:
  assumes "stepWithDwarf m (x86_64_ops windows) kmax alloc junk pc start r signal = Some (Inr (UNW_STEP_SUCCESS, r', signal'))"
  shows "\<exists>cie prolog cfa. frame_found m (x86_64_ops windows) kmax alloc junk pc start r cie prolog cfa \<and>
    signal' = isSignalFrame cie \<and> is_caller m (x86_64_ops windows) x86_64_slot r cfa cie prolog r'"
  by (rule x86_64.step_is_caller [OF assms])

lemma riscv_step:
  assumes "stepWithDwarf m (riscv_ops vlenb) kmax alloc junk pc start r signal = Some (Inr (UNW_STEP_SUCCESS, r', signal'))"
  shows "\<exists>cie prolog cfa. frame_found m (riscv_ops vlenb) kmax alloc junk pc start r cie prolog cfa \<and>
    signal' = isSignalFrame cie \<and> is_caller m (riscv_ops vlenb) riscv_slot r cfa cie prolog r'"
  by (rule riscv.step_is_caller [OF assms])

lemma loongarch_step:
  assumes "stepWithDwarf m loongarch_ops kmax alloc junk pc start r signal = Some (Inr (UNW_STEP_SUCCESS, r', signal'))"
  shows "\<exists>cie prolog cfa. frame_found m loongarch_ops kmax alloc junk pc start r cie prolog cfa \<and>
    signal' = isSignalFrame cie \<and> is_caller m loongarch_ops loongarch_slot r cfa cie prolog r'"
  by (rule loongarch.step_is_caller [OF assms])

text \<open>The sample function, behind its prologue: \<open>rbp\<close> points to the saved \<open>rbp\<close>, above it is the return address.\<close>

definition frame_memory :: address_space where
  "frame_memory a =
     (if 0x7F00 \<le> a \<and> a < 0x7F10 then [0x40, 0x7F, 0, 0, 0, 0, 0, 0, 0x45, 0x23, 0, 0, 0, 0, 0, 0] ! unat (a - 0x7F00)
      else sample_memory a)"

definition frame_registers :: registers_x86_64 where
  "frame_registers =
     \<lparr>rax = 1, rbx = 2, rcx = 3, rdx = 4, rdi = 5, rsi = 6, rbp = 0x7F00, rsp = 0x7E80, r8 = 8, r9 = 9, r10 = 10, r11 = 11,
      r12 = 12, r13 = 13, r14 = 14, r15 = 15, rip = 0x2010, rflags = 0, cs = 0, fs = 0, gs = 0, xmm = (\<lambda>_. 0)\<rparr>"

definition frame_step :: "(int \<times> registers_x86_64 \<times> bool) fallible option" where
  "frame_step =
     stepWithDwarf frame_memory (x86_64_ops False) 32 (\<lambda>_. True) (zero_fde, zero_cie) 0x2010 (fdeStart sample_fde) frame_registers True"

lemma frame_decoded:
  "decodeFDE frame_memory (fdeStart sample_fde) zero_fde zero_cie False = Some (Inr (None, sample_fde, sample_cie))"
  by code_simp

lemma frame_parsed:
  "parseFDEInstructions frame_memory sample_fde sample_cie 32 (\<lambda>_. True) 0x2010 (zero_prolog 32) = Some (Inr (Some sample_rules))"
  by code_simp

lemma frame_cfa: "getCFA frame_memory sample_rules (x86_64_ops False) frame_registers = Some (Inr 0x7F10)"
  by code_simp

lemma frame_stepped: "map_option (map_sum id fst) frame_step = Some (Inr UNW_STEP_SUCCESS)"
  by code_simp

lemma frame_values:
  "return_address frame_memory (x86_64_ops False) frame_registers 0x7F10 sample_cie sample_rules = Some (Inr 0x2345)"
  "caller_register frame_memory (x86_64_ops False) x86_64_slot frame_registers 0x7F10 sample_cie sample_rules 6 = Some (Inr 0x7F40)"
  "caller_register frame_memory (x86_64_ops False) x86_64_slot frame_registers 0x7F10 sample_cie sample_rules 7 = Some (Inr 0x7F10)"
  "caller_register frame_memory (x86_64_ops False) x86_64_slot frame_registers 0x7F10 sample_cie sample_rules 3 = Some (Inr 2)"
  "general (x86_64_ops False) (return_register sample_cie)"
  "restorable (x86_64_ops False) x86_64_slot 6" "restorable (x86_64_ops False) x86_64_slot 7"
  "restorable (x86_64_ops False) x86_64_slot 3"
  by code_simp+

theorem step_restores_caller_witness:
  "\<exists>r'. frame_step = Some (Inr (UNW_STEP_SUCCESS, r', False)) \<and> rip r' = 0x2345 \<and> rsp r' = 0x7F10 \<and> rbp r' = 0x7F40 \<and> rbx r' = 2"
proof -
  obtain r' signal' where s: "frame_step = Some (Inr (UNW_STEP_SUCCESS, r', signal'))"
  proof -
    obtain x where x: "frame_step = Some x" "map_sum id fst x = Inr UNW_STEP_SUCCESS" using frame_stepped by auto
    obtain y where "x = Inr y" "fst y = UNW_STEP_SUCCESS" using x(2) by (cases x) auto
    then show ?thesis using that x(1) by (cases y) auto
  qed
  obtain cie prolog cfa where f: "frame_found frame_memory (x86_64_ops False) 32 (\<lambda>_. True) (zero_fde, zero_cie) 0x2010
        (fdeStart sample_fde) frame_registers cie prolog cfa" "signal' = isSignalFrame cie"
      "is_caller frame_memory (x86_64_ops False) x86_64_slot frame_registers cfa cie prolog r'"
    using step_restores_caller [OF s [unfolded frame_step_def]] by blast
  have eqs: "cie = sample_cie" "prolog = sample_rules" "cfa = 0x7F10"
    using f(1) frame_decoded frame_parsed frame_cfa by (auto simp: frame_found_def)
  have found: "is_caller frame_memory (x86_64_ops False) x86_64_slot frame_registers 0x7F10 sample_cie sample_rules r'"
    using f(3) by (simp only: eqs)
  have "Inr 0x2345 = Inr (ip_get (x86_64_ops False) r')" "Inr 0x7F40 = reg_get (x86_64_ops False) r' 6"
    "Inr 0x7F10 = reg_get (x86_64_ops False) r' 7" "Inr 2 = reg_get (x86_64_ops False) r' 3"
    using found frame_values unfolding is_caller_def by fastforce+
  then have "rip r' = 0x2345 \<and> rsp r' = 0x7F10 \<and> rbp r' = 0x7F40 \<and> rbx r' = 2"
    by (simp add: x86_64_ops_def x86_64_getRegister_def pointer_registers)
  moreover have "signal' = False" using f(2) by (simp add: eqs sample_cie_def)
  ultimately show ?thesis using s by blast
qed

section \<open>Every outcome\<close>

definition supported :: "'r register_ops \<Rightarrow> cie_info \<Rightarrow> nat \<Rightarrow> bool" where
  "supported ops cie i \<longleftrightarrow>
     float_valid ops (int i) \<or> vector_valid ops (int i) \<or> i = return_register cie \<or> reg_valid ops (int i)"

lemma restore_register_none:
  assumes "restore_register m ops r cfa cie prolog i given = Some (Inr None)"
  shows "ruled prolog i \<and> \<not> supported ops cie i"
proof -
  obtain n a where given: "given = (n, a)" by (cases given)
  note case_def = restore_register_def ruled_def supported_def return_register_def and_then_Inr Let_def
  show ?thesis
  proof (cases "ruled prolog i")
    case True
    then show ?thesis using assms unfolding given
      by (cases "float_valid ops (int i)"; cases "vector_valid ops (int i)"; cases "i = return_register cie"; cases "reg_valid ops (int i)")
        (auto simp: case_def)
  next
    case False
    then show ?thesis using assms unfolding given by (cases "i = return_register cie") (auto simp: case_def)
  qed
qed

lemma restore_registers_none:
  "restore_registers m ops r cfa cie prolog is given = Some (Inr None) \<Longrightarrow>
    \<exists>i \<in> set is. ruled prolog i \<and> \<not> supported ops cie i"
proof (induction "is" arbitrary: given)
  case (Cons i "is")
  then obtain x where x: "restore_register m ops r cfa cie prolog i given = Some (Inr x)"
      "(case x of None \<Rightarrow> Some (Inr None) | Some given \<Rightarrow> restore_registers m ops r cfa cie prolog is given) = Some (Inr None)"
    by (auto simp: and_then_Inr simp del: split_paired_All)
  show ?case
  proof (cases x)
    case None
    then show ?thesis using restore_register_none [of m ops r cfa cie prolog i given] x(1) by auto
  next
    case (Some y)
    then show ?thesis using Cons(1) [of y] x(2) by auto
  qed
qed simp

lemma restore_register_supported:
  assumes "restore_register m ops r cfa cie prolog i (n, a) = Some (Inr (Some (n', a')))" "ruled prolog i"
  shows "supported ops cie i \<and> location (savedRegisters prolog ! i) \<noteq> kRegisterOffsetFromCFA"
  using assms(1)
  by (cases rule: restore_register_cases)
    (use assms(2) in \<open>auto simp: supported_def getSavedRegister_def getSavedFloatRegister_def getSavedVectorRegister_def\<close>)

lemma restore_registers_supported:
  assumes "restore_registers m ops r cfa cie prolog is (n, a) = Some (Inr (Some (n', a')))" "i \<in> set is" "ruled prolog i" "distinct is"
  shows "supported ops cie i \<and> location (savedRegisters prolog ! i) \<noteq> kRegisterOffsetFromCFA"
  using restore_registers_at [OF assms(1,2,4)] restore_register_supported [OF _ assms(3)] by metis

text \<open>C25: what a step that returns has done, on any register file.  A success means that every rule was one the step
  can follow: its register is of the file, and it is not a \<open>DW_CFA_val_offset\<close>, which the parser
  accepts and no reader of saved registers does.  Every other result leaves the registers and the flag of signal frames
  as they were: \<open>UNW_EBADFRAME\<close> when an entry or its instructions are malformed, \<open>UNW_EBADREG\<close> when a rule
  is for a register that the file does not have.\<close>
theorem step_outcomes:
  assumes "stepWithDwarf m ops kmax alloc junk pc start r signal = Some (Inr (result, r', signal'))"
  shows "result = UNW_STEP_SUCCESS \<and> (\<exists>cie prolog cfa. frame_found m ops kmax alloc junk pc start r cie prolog cfa \<and>
        (\<forall>i \<le> lastDwarfRegNum ops. ruled prolog i \<longrightarrow>
          supported ops cie i \<and> location (savedRegisters prolog ! i) \<noteq> kRegisterOffsetFromCFA)) \<or>
    r' = r \<and> signal' = signal \<and>
     (result = UNW_EBADFRAME \<and> (\<exists>message fde cie. decodeFDE m start (fst junk) (snd junk) False = Some (Inr (message, fde, cie)) \<and>
        (message \<noteq> None \<or> parseFDEInstructions m fde cie kmax alloc pc (zero_prolog kmax) = Some (Inr None))) \<or>
      result = UNW_EBADREG \<and> (\<exists>cie prolog cfa i. frame_found m ops kmax alloc junk pc start r cie prolog cfa \<and>
        i \<le> lastDwarfRegNum ops \<and> ruled prolog i \<and> \<not> supported ops cie i))"
proof -
  let ?all = "[0..<Suc (lastDwarfRegNum ops)]"
  obtain err fde cie where d: "decodeFDE m start (fst junk) (snd junk) False = Some (Inr (err, fde, cie))"
    using assms by (auto simp: stepWithDwarf_def and_then_Inr)
  show ?thesis
  proof (cases "err = None")
    case False
    then show ?thesis using assms d by (auto simp: stepWithDwarf_def)
  next
    case True
    obtain parsed where p: "parseFDEInstructions m fde cie kmax alloc pc (zero_prolog kmax) = Some (Inr parsed)"
      using assms d True by (auto simp: stepWithDwarf_def and_then_Inr)
    show ?thesis
    proof (cases parsed)
      case None
      then show ?thesis using assms d p True by (auto simp: stepWithDwarf_def)
    next
      case (Some prolog)
      obtain cfa where cfa: "getCFA m prolog ops r = Some (Inr cfa)"
        using assms d p True Some by (auto simp: stepWithDwarf_def and_then_Inr)
      have ra: "\<not> lastDwarfRegNum ops < unat (returnAddressRegister cie)"
        using assms d p True Some cfa by (auto simp: stepWithDwarf_def split: if_splits)
      obtain restored where l: "restore_registers m ops r cfa cie prolog ?all (sp_set ops cfa r, 0) = Some (Inr restored)"
        using assms d p True Some cfa ra by (auto simp: stepWithDwarf_def and_then_Inr)
      have found: "frame_found m ops kmax alloc junk pc start r cie prolog cfa"
        using d p True Some cfa ra by (simp add: frame_found_def return_register_def)
      show ?thesis
      proof (cases restored)
        case None
        then have "result = UNW_EBADREG \<and> r' = r \<and> signal' = signal"
          using assms d p True Some cfa ra l by (simp add: stepWithDwarf_def)
        moreover obtain i where "i \<in> set ?all" "ruled prolog i" "\<not> supported ops cie i"
          using restore_registers_none [of m ops r cfa cie prolog ?all] l None by blast
        moreover then have "i \<le> lastDwarfRegNum ops" by auto
        ultimately show ?thesis using found by blast
      next
        case (Some new)
        then have "result = UNW_STEP_SUCCESS"
          using assms d p True \<open>parsed = Some prolog\<close> cfa ra l by (cases new) (simp add: stepWithDwarf_def)
        moreover have "supported ops cie i \<and> location (savedRegisters prolog ! i) \<noteq> kRegisterOffsetFromCFA"
          if "i \<le> lastDwarfRegNum ops" "ruled prolog i" for i
        proof -
          have "i \<in> set ?all" "distinct ?all" using that(1) by auto
          then show ?thesis using restore_registers_supported [of m ops r cfa cie prolog ?all] l Some that(2)
            by (cases new) blast
        qed
        ultimately show ?thesis using found by blast
      qed
    qed
  qed
qed

text \<open>The address of a common entry is not that of a frame description entry.\<close>

lemma no_frame_stepped:
  "map_option (map_sum id fst)
     (stepWithDwarf frame_memory (x86_64_ops False) 32 (\<lambda>_. True) (zero_fde, zero_cie) 0x2010 0x1000 frame_registers True) =
   Some (Inr UNW_EBADFRAME)"
  by code_simp

theorem step_outcomes_witness:
  "stepWithDwarf frame_memory (x86_64_ops False) 32 (\<lambda>_. True) (zero_fde, zero_cie) 0x2010 0x1000 frame_registers True =
   Some (Inr (UNW_EBADFRAME, frame_registers, True))"
proof -
  let ?step = "stepWithDwarf frame_memory (x86_64_ops False) 32 (\<lambda>_. True) (zero_fde, zero_cie) 0x2010 0x1000 frame_registers True"
  obtain x where x: "?step = Some x" "map_sum id fst x = Inr UNW_EBADFRAME" using no_frame_stepped by auto
  then obtain r' signal' where s: "?step = Some (Inr (UNW_EBADFRAME, r', signal'))" by (cases x) auto
  have "r' = frame_registers \<and> signal' = True"
    using step_outcomes [OF s] by (auto simp: UNW_EBADFRAME_def UNW_STEP_SUCCESS_def)
  then show ?thesis using s by simp
qed

end
