(* ===== verification/DwarfCursor.thy ===== *)
theory DwarfCursor
  imports FrameLookup FdeCache DwarfCaller
begin

text \<open>
  \<open>UnwindCursor\<close> of \<^verbatim>\<open>libunwind/src/UnwindCursor.hpp\<close> on an ELF target with tables of the DWARF format: the frame a cursor is at,
  how its description is looked up (\<open>setInfoBasedOnIPRegister\<close>) and the step to its caller.  It composes the search for the
  sections (\<open>FrameLookup\<close>), the cache of entries (\<open>FdeCache\<close>), the search table and the scan (\<open>DwarfHeader\<close>,
  \<open>DwarfCFI\<close>) and the step over one frame (\<open>DwarfStep\<close>).  The other formats (compact encoding, EHABI, SEH, traceback tables)
  and the signal trampolines recognised by their instructions are other builds and not modelled.
\<close>

section \<open>State\<close>

text \<open>\<open>unw_proc_info_t\<close>.\<close>

record unw_proc_info =
  pi_start_ip :: uptr
  pi_end_ip :: uptr
  pi_lsda :: uptr
  pi_handler :: uptr
  pi_gp :: uptr
  pi_flags :: uptr
  pi_format :: "32 word"
  pi_unwind_info_size :: "32 word"
  pi_unwind_info :: uptr
  pi_extra :: uptr

record 'r cursor =
  cur_registers :: 'r
  cur_info :: unw_proc_info
  unwindInfoMissing :: bool
  signalFrame :: bool

text \<open>The two caches of the process.\<close>

record caches =
  headers :: header_cache
  fdes :: fde_cache

text \<open>What a call finds outside of the unwinder: the memory, the loaded objects, the blocks \<open>malloc\<close> gives, and the options of
  the build.  The local structures of a function hold anything before they are filled, and what an attempt that fails left:
  each attempt has its own arbitrary contents, by a number.\<close>

record surroundings =
  as_memory :: address_space
  loaded_objects :: "phdr_info list"
  header_cache_used :: bool
  register_limit :: nat
  dwarf_format :: "32 word"
  remember_alloc :: "nat \<Rightarrow> nat \<Rightarrow> bool"
  cache_malloc :: "nat \<Rightarrow> fde_entry list option"
  local_structs :: "nat \<Rightarrow> fde_info \<times> cie_info"
  local_sections :: unwind_sections

definition UNWIND_X86_64_MODE_DWARF :: "32 word" where "UNWIND_X86_64_MODE_DWARF = 0x04000000"

definition UNW_STEP_END :: int where "UNW_STEP_END = 0"

definition zero_info :: unw_proc_info where
  "zero_info = \<lparr>pi_start_ip = 0, pi_end_ip = 0, pi_lsda = 0, pi_handler = 0, pi_gp = 0, pi_flags = 0, pi_format = 0,
     pi_unwind_info_size = 0, pi_unwind_info = 0, pi_extra = 0\<rparr>"

text \<open>The registers are those of the context; on Windows the code copies the general ones only and leaves the vector
  registers unset, where this definition copies them all.\<close>

definition new_cursor :: "'r \<Rightarrow> 'r cursor" where
  "new_cursor r = \<lparr>cur_registers = r, cur_info = zero_info, unwindInfoMissing = False, signalFrame = False\<rparr>"

section \<open>The description of a frame\<close>

definition getInfoFromFdeCie ::
    "surroundings \<Rightarrow> nat \<Rightarrow> fde_info \<Rightarrow> cie_info \<Rightarrow> uptr \<Rightarrow> uptr \<Rightarrow> 'r cursor \<Rightarrow> (bool \<times> 'r cursor) fallible option" where
  "getInfoFromFdeCie e n fde cie pc dso c =
     and_then (parseFDEInstructions (as_memory e) fde cie (register_limit e) (remember_alloc e n) pc (zero_prolog (register_limit e)))
       (\<lambda>parsed.
       case parsed of
         None \<Rightarrow> Some (Inr (False, c))
       | Some prolog \<Rightarrow>
           Some (Inr (True, c\<lparr>cur_info :=
             \<lparr>pi_start_ip = pcStart fde, pi_end_ip = pcEnd fde, pi_lsda = fde_info.lsda fde, pi_handler = cie_info.personality cie,
              pi_gp = ucast (spExtraArgSize prolog), pi_flags = 0, pi_format = dwarf_format e,
              pi_unwind_info_size = ucast (fdeLength fde), pi_unwind_info = fdeStart fde, pi_extra = dso\<rparr>\<rparr>)))"

text \<open>The four searches for an entry; each but the first is made when those before it failed.\<close>

definition search_hint :: "surroundings \<Rightarrow> uptr \<Rightarrow> unwind_sections \<Rightarrow> 32 word \<Rightarrow> (fde_info \<times> cie_info) option fallible option" where
  "search_hint e pc sects fdeSectionOffsetHint =
     (if fdeSectionOffsetHint \<noteq> 0 then
        findFDE (as_memory e) pc (dwarf_section sects) (dwarf_section_length sects)
          (dwarf_section sects + ucast fdeSectionOffsetHint) (snd (local_structs e 0))
      else Some (Inr None))"

definition search_index ::
    "surroundings \<Rightarrow> uptr \<Rightarrow> unwind_sections \<Rightarrow> (fde_info \<times> cie_info) option \<Rightarrow> (fde_info \<times> cie_info) option fallible option" where
  "search_index e pc sects found =
     (if found = None \<and> dwarf_index_section sects \<noteq> 0 then
        and_then (header_findFDE (as_memory e) pc (dwarf_index_section sects) (ucast (dwarf_index_section_length sects))
          (fst (local_structs e 1)) (snd (local_structs e 1)))
          (\<lambda>(ok, fde, cie). Some (Inr (if ok then Some (fde, cie) else None)))
      else Some (Inr found))"

text \<open>With whether the entry was found by way of the cache.\<close>

definition search_cache ::
    "surroundings \<Rightarrow> uptr \<Rightarrow> unwind_sections \<Rightarrow> fde_cache \<Rightarrow> (fde_info \<times> cie_info) option \<Rightarrow>
       ((fde_info \<times> cie_info) option \<times> bool) fallible option" where
  "search_cache e pc sects k found =
     (if found = None then
        let cachedFDE = cached_FDE (dso_base sects) pc k in
        if cachedFDE \<noteq> 0 then
          and_then (findFDE (as_memory e) pc (dwarf_section sects) (dwarf_section_length sects) cachedFDE (snd (local_structs e 2)))
            (\<lambda>found. Some (Inr (found, found \<noteq> None)))
        else Some (Inr (None, False))
      else Some (Inr (found, False)))"

definition search_all ::
    "surroundings \<Rightarrow> uptr \<Rightarrow> unwind_sections \<Rightarrow> (fde_info \<times> cie_info) option \<Rightarrow> (fde_info \<times> cie_info) option fallible option" where
  "search_all e pc sects found =
     (if found = None then
        findFDE (as_memory e) pc (dwarf_section sects) (dwarf_section_length sects) 0 (snd (local_structs e 3))
      else Some (Inr found))"

definition getInfoFromDwarfSection ::
    "surroundings \<Rightarrow> uptr \<Rightarrow> unwind_sections \<Rightarrow> 32 word \<Rightarrow> 'r cursor \<times> fde_cache \<Rightarrow> (bool \<times> 'r cursor \<times> fde_cache) fallible option" where
  "getInfoFromDwarfSection e pc sects fdeSectionOffsetHint given =
     (let (c, k) = given in
      and_then (search_hint e pc sects fdeSectionOffsetHint) (\<lambda>found.
      and_then (search_index e pc sects found) (\<lambda>found.
      and_then (search_cache e pc sects k found) (\<lambda>(found, foundInCache).
      and_then (search_all e pc sects found) (\<lambda>found.
      case found of
        None \<Rightarrow> Some (Inr (False, c, k))
      | Some (fde, cie) \<Rightarrow>
          and_then (getInfoFromFdeCie e 3 fde cie pc (dso_base sects) c) (\<lambda>(ok, c).
          if ok then
            if \<not> foundInCache \<and> fdeSectionOffsetHint = 0 \<and> dwarf_index_section sects = 0 then
              and_then (Some (add_FDE (cache_malloc e)
                \<lparr>mh = dso_base sects, ip_start = pcStart fde, ip_end = pcEnd fde, fde_address = fdeStart fde\<rparr> k))
                (\<lambda>k. Some (Inr (True, c, k)))
            else Some (Inr (True, c, k))
          else Some (Inr (False, c, k))))))))"

text \<open>An entry registered at run time, whatever group it is of.\<close>

definition info_from_dynamic :: "surroundings \<Rightarrow> uptr \<Rightarrow> fde_cache \<Rightarrow> 'r cursor \<Rightarrow> (bool \<times> 'r cursor) fallible option" where
  "info_from_dynamic e pc k c =
     (let cachedFDE = cached_FDE kSearchAll pc k in
      if cachedFDE \<noteq> 0 then
        and_then (decodeFDE (as_memory e) cachedFDE (fst (local_structs e 4)) (snd (local_structs e 4)) False) (\<lambda>(message, fde, cie).
        if message = None then getInfoFromFdeCie e 4 fde cie pc 0 c else Some (Inr (False, c)))
      else Some (Inr (False, c)))"

text \<open>\<open>findOtherFDE\<close> of the address space finds none; the branch behind it is kept.\<close>

definition findOtherFDE :: "uptr \<Rightarrow> uptr option" where
  "findOtherFDE targetAddr = None"

definition info_from_other :: "surroundings \<Rightarrow> uptr \<Rightarrow> 'r cursor \<Rightarrow> (bool \<times> 'r cursor) fallible option" where
  "info_from_other e pc c =
     (case findOtherFDE pc of
        None \<Rightarrow> Some (Inr (False, c))
      | Some start \<Rightarrow>
          and_then (decodeFDE (as_memory e) start (fst (local_structs e 5)) (snd (local_structs e 5)) False) (\<lambda>(message, fde, cie).
          if message = None \<and> pcStart fde \<le> pc \<and> pc < pcEnd fde then getInfoFromFdeCie e 5 fde cie pc 0 c
          else Some (Inr (False, c))))"

text \<open>The address that is looked up: a return address is backed up by one, that of a signal frame is not.\<close>

definition lookup_pc :: "bool \<Rightarrow> bool \<Rightarrow> uptr \<Rightarrow> uptr" where
  "lookup_pc isReturnAddress signal pc =
     (let pc = (if isReturnAddress then pc - 1 else pc) in if signal then pc + 1 else pc)"

definition setInfoBasedOnIPRegister ::
    "'r register_ops \<Rightarrow> surroundings \<Rightarrow> bool \<Rightarrow> 'r cursor \<times> caches \<Rightarrow> ('r cursor \<times> caches) fallible option" where
  "setInfoBasedOnIPRegister ops e isReturnAddress given =
     (let (c, k) = given in
      and_then (Some (reg_get ops (cur_registers c) UNW_REG_IP)) (\<lambda>pc.
      if pc = 0 then Some (Inr (c\<lparr>unwindInfoMissing := True\<rparr>, k))
      else
        let pc = lookup_pc isReturnAddress (signalFrame c) pc in
        and_then (findUnwindSections (header_cache_used e) (as_memory e) (loaded_objects e) pc (local_sections e, headers k))
          (\<lambda>(found, sects, hs).
        and_then
          (if found \<and> dwarf_section sects \<noteq> 0 then getInfoFromDwarfSection e pc sects 0 (c, fdes k)
           else Some (Inr (False, c, fdes k)))
          (\<lambda>(ok, c, fs).
        let k = \<lparr>headers = hs, fdes = fs\<rparr> in
        if ok then Some (Inr (c, k))
        else
          and_then (info_from_dynamic e pc fs c) (\<lambda>(ok, c).
          if ok then Some (Inr (c, k))
          else
            and_then (info_from_other e pc c) (\<lambda>(ok, c).
            if ok then Some (Inr (c, k)) else Some (Inr (c\<lparr>unwindInfoMissing := True\<rparr>, k))))))))"

section \<open>The step\<close>

definition stepWithDwarfFDE :: "'r register_ops \<Rightarrow> surroundings \<Rightarrow> 'r cursor \<Rightarrow> (int \<times> 'r cursor) fallible option" where
  "stepWithDwarfFDE ops e c =
     and_then (Some (reg_get ops (cur_registers c) UNW_REG_IP)) (\<lambda>pc.
     and_then (stepWithDwarf (as_memory e) ops (register_limit e) (remember_alloc e 6) (local_structs e 6) pc
       (pi_unwind_info (cur_info c)) (cur_registers c) (signalFrame c)) (\<lambda>(result, r, signal).
     Some (Inr (result, c\<lparr>cur_registers := r, signalFrame := signal\<rparr>))))"

definition cursor_step ::
    "'r register_ops \<Rightarrow> surroundings \<Rightarrow> 'r cursor \<times> caches \<Rightarrow> (int \<times> 'r cursor \<times> caches) fallible option" where
  "cursor_step ops e given =
     (let (c, k) = given in
      if unwindInfoMissing c then Some (Inr (UNW_STEP_END, c, k))
      else
        and_then (stepWithDwarfFDE ops e c) (\<lambda>(result, c).
        if result = UNW_STEP_SUCCESS then
          and_then (setInfoBasedOnIPRegister ops e True (c, k)) (\<lambda>(c, k).
          if unwindInfoMissing c then Some (Inr (UNW_STEP_END, c, k)) else Some (Inr (result, c, k)))
        else Some (Inr (result, c, k))))"

definition getInfo :: "'r cursor \<Rightarrow> unw_proc_info" where
  "getInfo c = (if unwindInfoMissing c then zero_info else cur_info c)"

end
