(* ===== verification/CursorInfo.thy ===== *)
theory CursorInfo
  imports DwarfCursor
begin

text \<open>
  What a cursor knows of its frame.  The description that \<open>setInfoBasedOnIPRegister\<close> leaves comes from an entry that
  decodes at the address the description names and that covers the address looked up, whichever way it was
  found; the caches keep this true.
\<close>

section \<open>Decoding does not depend on what the structures held\<close>

text \<open>The fields of a common entry that one of length zero leaves as they were.\<close>

definition same_header :: "cie_info \<Rightarrow> cie_info \<Rightarrow> bool" where
  "same_header i j \<longleftrightarrow>
     i\<lparr>cieLength := 0, cieInstructions := 0, returnAddressRegister := 0\<rparr> =
     j\<lparr>cieLength := 0, cieInstructions := 0, returnAddressRegister := 0\<rparr>"

lemma same_header_fields:
  "same_header i j \<Longrightarrow> cieStart i = cieStart j \<and> pointerEncoding i = pointerEncoding j \<and> lsdaEncoding i = lsdaEncoding j \<and>
    cie_info.personality i = cie_info.personality j \<and> isSignalFrame i = isSignalFrame j \<and>
    fdesHaveAugmentationData i = fdesHaveAugmentationData j"
  by (cases i; cases j) (simp add: same_header_def)

lemma letter_same:
  assumes "augmentation_letter m cie e c p i = Inr (q, i')" "same_header i j"
  shows "\<exists>j'. augmentation_letter m cie e c p j = Inr (q, j') \<and> same_header i' j'"
  using assms by (cases i; cases j)
    (auto simp: augmentation_letter_def same_header_def Let_def bind_ok_Inr split: if_splits)

lemma loop_same:
  assumes "augmentation_loop m cie e s p i = Some r" "r = Inr (q, i')" "same_header i j"
  shows "\<exists>j'. augmentation_loop m cie e s p j = Some (Inr (q, j')) \<and> same_header i' j'"
  using assms
proof (induction arbitrary: q i' j rule: augmentation_loop.raw_induct [rotated 1, consumes 1])
  case (1 loop m cie e s p i r)
  show ?case
  proof (cases "get8 m s = 0")
    case True
    then show ?thesis using 1(2-4) by (subst augmentation_loop.simps) auto
  next
    case False
    then obtain x where x: "augmentation_letter m cie e (get8 m s) p i = Inr x" "loop m cie e (s + 1) (fst x) (snd x) = Some r"
      using 1(2,3) by (auto split: sum.splits)
    obtain j1 where j1: "augmentation_letter m cie e (get8 m s) p j = Inr (fst x, j1)" "same_header (snd x) j1"
      using letter_same [of m cie e "get8 m s" p i "fst x" "snd x" j] x(1) 1(4) by auto
    have "\<exists>j'. augmentation_loop m cie e (s + 1) (fst x) j1 = Some (Inr (q, j')) \<and> same_header i' j'"
      by (rule 1(1) [OF x(2) 1(3) j1(2)])
    then show ?thesis using False j1(1) by (subst augmentation_loop.simps) auto
  qed
qed

lemma factors_same:
  assumes "cie_factors m e v p i = Inr (q, i')" "same_header i j"
  shows "\<exists>j'. cie_factors m e v p j = Inr (q, j') \<and> same_header i' j'"
proof -
  obtain a b where 1: "getULEB128 m p e = Inr (a, b)"
    using assms by (cases "getULEB128 m p e") (auto simp: cie_factors_def)
  obtain c d where 2: "getSLEB128 m b e = Inr (c, d)"
    using assms 1 by (cases "getSLEB128 m b e") (auto simp: cie_factors_def)
  obtain r s where 3: "(if v = 1 then Inr (ucast (get8 m d), d + 1) else getULEB128 m d e) = Inr (r, s)" "r < 255"
    using assms 1 2 by (auto simp: cie_factors_def bind_ok_Inr split: if_splits)
  show ?thesis using assms(2) assms(1) 3
    by (cases i; cases j) (auto simp: cie_factors_def same_header_def 1 2)
qed

lemma initial_same: "same_header (initial_cie c i) (initial_cie c j)"
  by (cases i; cases j) (simp add: same_header_def initial_cie_def)

lemma parseCIE_same:
  assumes "parseCIE m c i = Some (Inr (None, i'))"
  shows "\<exists>j'. parseCIE m c j = Some (Inr (None, j')) \<and> same_header i' j'"
proof -
  obtain len p where e: "entry_length m c = (len, p)" by (cases "entry_length m c")
  let ?i = "initial_cie c i" and ?j = "initial_cie c j"
  let ?v = "get8 m (p + 4)"
  show ?thesis
  proof (cases "len = 0")
    case True
    then show ?thesis using assms initial_same [of c i j] by (auto simp: parseCIE_def e Let_def)
  next
    case False
    then have head: "get32 m p = 0" "?v = 1 \<or> ?v = 3" using assms by (auto simp: parseCIE_def e Let_def split: if_splits)
    obtain strEnd where n: "string_end m (p + 5) = Some strEnd"
      using assms False head by (auto simp: parseCIE_def e Let_def split: option.splits)
    let ?rest = "\<lambda>q i1. if get8 m (p + 5) = 0x7A
        then and_then (Some (getULEB128 m q (p + len))) (\<lambda>(_, q). augmentation_loop m c (p + len) (p + 5) q i1)
        else Some (Inr (q, i1))"
    obtain q i1 q' i2 where q: "cie_factors m (p + len) ?v (strEnd + 1) ?i = Inr (q, i1)" "?rest q i1 = Some (Inr (q', i2))"
      "i' = i2\<lparr>cieLength := p + len - cieStart i2, cieInstructions := q'\<rparr>"
      using assms False head by (auto simp: parseCIE_def e Let_def n and_then_Inr)
    obtain j1 where j1: "cie_factors m (p + len) ?v (strEnd + 1) ?j = Inr (q, j1)" "same_header i1 j1"
      using factors_same [OF q(1) initial_same] by blast
    have "\<exists>j2. ?rest q j1 = Some (Inr (q', j2)) \<and> same_header i2 j2"
    proof (cases "get8 m (p + 5) = 0x7A")
      case True
      then obtain x y where "getULEB128 m q (p + len) = Inr (x, y)"
          "augmentation_loop m c (p + len) (p + 5) y i1 = Some (Inr (q', i2))"
        using q(2) by (auto simp: and_then_Inr)
      then show ?thesis using True loop_same [OF _ refl j1(2)] by auto
    qed (use q(2) j1(2) in auto)
    then obtain j2 where j2: "?rest q j1 = Some (Inr (q', j2))" "same_header i2 j2" by blast
    let ?k = "j2\<lparr>cieLength := p + len - cieStart j2, cieInstructions := q'\<rparr>"
    have "parseCIE m c j = Some (Inr (None, ?k))"
      using False head n j1(1) j2(1) by (auto simp: parseCIE_def e Let_def)
    moreover have "same_header i' ?k" using j2(2) unfolding q(3) by (cases i2; cases j2) (simp add: same_header_def)
    ultimately show ?thesis by blast
  qed
qed

lemma fde_range_same: "same_header i j \<Longrightarrow> fde_range m p e i = fde_range m p e j"
  by (auto dest: same_header_fields simp: fde_range_def)

lemma fde_augmentation_same: "same_header i j \<Longrightarrow> fde_augmentation m p e i = fde_augmentation m p e j"
  using same_header_fields [of i j] by (simp add: fde_augmentation_def cong: if_cong)

lemma decodeFDE_same:
  assumes "decodeFDE m start f i False = Some (Inr (None, fde, cie))"
  shows "\<exists>cie'. decodeFDE m start g j False = Some (Inr (None, fde, cie')) \<and> same_header cie cie'"
proof -
  obtain len p where e: "entry_length m start = (len, p)" by (cases "entry_length m start")
  let ?c = "p - ucast (get32 m p)"
  obtain first pcRange p' a q where s: "len \<noteq> 0" "get32 m p \<noteq> 0" "parseCIE m ?c i = Some (Inr (None, cie))"
      "fde_range m (p + 4) (p + len) cie = Inr (first, pcRange, p')" "fde_augmentation m p' (p + len) cie = Inr (a, q)"
      "fde = fill_fde start (p + len) q first pcRange a"
    using assms by (auto simp: decodeFDE_def e Let_def and_then_Inr split: if_splits)
  obtain cie' where c: "parseCIE m ?c j = Some (Inr (None, cie'))" "same_header cie cie'"
    using parseCIE_same [OF s(3)] by blast
  have "decodeFDE m start g j False = Some (Inr (None, fde, cie'))"
    using s c(1) fde_range_same [OF c(2)] fde_augmentation_same [OF c(2)] by (simp add: decodeFDE_def e Let_def)
  then show ?thesis using c(2) by blast
qed

lemma decodeFDE_start:
  assumes "decodeFDE m start f i False = Some (Inr (None, fde, cie))"
  shows "fdeStart fde = start"
  using assms by (auto simp: decodeFDE_def and_then_Inr Let_def fill_fde_def split: if_splits prod.splits)

section \<open>Entries for an address\<close>

text \<open>A function's entry decodes at an address, whatever the structures held before.\<close>

definition entry_at :: "address_space \<Rightarrow> uptr \<Rightarrow> fde_info \<Rightarrow> bool" where
  "entry_at m a fde \<longleftrightarrow> (\<exists>g i cie. decodeFDE m a g i False = Some (Inr (None, fde, cie)))"

lemma entry_unique: "entry_at m a fde \<Longrightarrow> entry_at m a fde' \<Longrightarrow> fde' = fde"
  unfolding entry_at_def by (metis decodeFDE_same Inr_inject option.inject prod.inject)

definition spans :: "uptr \<Rightarrow> fde_info \<Rightarrow> bool" where
  "spans pc fde \<longleftrightarrow> pcStart fde \<le> pc \<and> pc < pcEnd fde"

definition found_for :: "address_space \<Rightarrow> uptr \<Rightarrow> fde_info \<times> cie_info \<Rightarrow> bool" where
  "found_for m pc found \<longleftrightarrow>
     spans pc (fst found) \<and> (\<exists>g i. decodeFDE m (fdeStart (fst found)) g i False = Some (Inr (None, found)))"

lemma scan_found_for: "findFDE m pc first len hint cie = Some (Inr (Some found)) \<Longrightarrow> found_for m pc found"
  using scan_section_found [OF _ refl, of m pc first _ _ cie "fst found" "snd found"]
  by (fastforce simp: findFDE_def found_for_def spans_def)

lemma header_found_for:
  assumes "header_findFDE m pc first len fde0 cie0 = Some (Inr (True, fde, cie))"
  shows "found_for m pc (fde, cie)"
proof -
  obtain start where d: "decodeFDE m start fde0 cie0 False = Some (Inr (None, fde, cie))" "pcStart fde \<le> pc" "pc < pcEnd fde"
    using assms by (auto simp: header_findFDE_def decodeTableEntry_def and_then_Inr Let_def split: option.splits if_splits)
  then show ?thesis using decodeFDE_start [OF d(1)] by (auto simp: found_for_def spans_def)
qed

lemma search_hint_found: "search_hint e pc sects n = Some (Inr (Some found)) \<Longrightarrow> found_for (as_memory e) pc found"
  by (auto simp: search_hint_def scan_found_for split: if_splits)

lemma search_index_found:
  assumes "search_index e pc sects old = Some (Inr (Some found))" "\<And>x. old = Some x \<Longrightarrow> found_for (as_memory e) pc x"
  shows "found_for (as_memory e) pc found"
  using assms by (auto simp: search_index_def and_then_Inr dest!: header_found_for split: if_splits)

lemma search_cache_found:
  assumes "search_cache e pc sects k old = Some (Inr (Some found, hit))" "\<And>x. old = Some x \<Longrightarrow> found_for (as_memory e) pc x"
  shows "found_for (as_memory e) pc found"
  using assms by (auto simp: search_cache_def and_then_Inr Let_def dest!: scan_found_for split: if_splits)

lemma search_all_found:
  assumes "search_all e pc sects old = Some (Inr (Some found))" "\<And>x. old = Some x \<Longrightarrow> found_for (as_memory e) pc x"
  shows "found_for (as_memory e) pc found"
  using assms by (auto simp: search_all_def dest!: scan_found_for split: if_splits)

section \<open>The invariant of the caches\<close>

text \<open>What a cached entry says of its range is what its address decodes to.\<close>

definition truthful :: "address_space \<Rightarrow> fde_cache \<Rightarrow> bool" where
  "truthful m k \<longleftrightarrow> fde_cache_ok k \<and>
     (\<forall>x \<in> set (entries_of k). \<exists>fde. entry_at m (fde_address x) fde \<and> ip_start x = pcStart fde \<and> ip_end x = pcEnd fde)"

definition described :: "address_space \<Rightarrow> uptr \<Rightarrow> unw_proc_info \<Rightarrow> bool" where
  "described m pc info \<longleftrightarrow>
     (\<exists>fde g i cie. decodeFDE m (pi_unwind_info info) g i False = Some (Inr (None, fde, cie)) \<and> spans pc fde \<and>
        pi_start_ip info = pcStart fde \<and> pi_end_ip info = pcEnd fde \<and> pi_lsda info = fde_info.lsda fde \<and>
        pi_handler info = cie_info.personality cie)"

lemma added_truthful:
  assumes "truthful m k" "add_FDE malloc x k = Inr k'" "\<And>n es. malloc n = Some es \<Longrightarrow> length es = n"
    and "entry_at m (fde_address x) fde" "ip_start x = pcStart fde" "ip_end x = pcEnd fde"
  shows "truthful m k'"
proof -
  have "entries_of k' = entries_of k @ [x] \<and> fde_cache_ok k'"
    using add_FDE_refines [of k malloc x] assms(1-3) by (simp add: truthful_def)
  then show ?thesis using assms(1,4-6) by (auto simp: truthful_def)
qed

lemma removed_truthful: "truthful m k \<Longrightarrow> truthful m (removeAllIn dso k)"
  using removeAllIn_refines [of k dso] by (auto simp: truthful_def)

lemma cached_truthful:
  assumes "truthful m k" "cached_FDE dso pc k = a" "a \<noteq> 0"
  obtains fde where "entry_at m a fde" "spans pc fde"
proof -
  obtain x where x: "find (serves dso pc) (entries_of k) = Some x" "fde_address x = a"
    using assms by (auto simp: cached_FDE_def find_entry_eq entries_of_def split: option.splits)
  then have "x \<in> set (entries_of k)" "serves dso pc x" by (auto simp: find_Some_iff)
  then show thesis using assms(1) x(2) that by (fastforce simp: truthful_def serves_def spans_def)
qed

section \<open>The description\<close>

lemma filled_info:
  assumes "getInfoFromFdeCie e n fde cie pc dso c = Some (Inr (ok, c'))"
    and "decodeFDE (as_memory e) a g i False = Some (Inr (None, fde, cie))" "spans pc fde"
  shows "cur_registers c' = cur_registers c \<and> signalFrame c' = signalFrame c \<and> unwindInfoMissing c' = unwindInfoMissing c \<and>
    (ok \<longrightarrow> described (as_memory e) pc (cur_info c'))"
proof -
  have "described (as_memory e) pc (cur_info c')" if "pi_unwind_info (cur_info c') = fdeStart fde" "pi_start_ip (cur_info c') = pcStart fde"
      "pi_end_ip (cur_info c') = pcEnd fde" "pi_lsda (cur_info c') = fde_info.lsda fde" "pi_handler (cur_info c') = cie_info.personality cie"
    using that assms(2,3) decodeFDE_start [OF assms(2)] unfolding described_def by metis
  then show ?thesis using assms(1) by (auto simp: getInfoFromFdeCie_def and_then_Inr split: option.splits)
qed

lemma section_info:
  assumes "getInfoFromDwarfSection e pc sects hint (c, k) = Some (Inr (ok, c', k'))" "truthful (as_memory e) k"
    and "\<And>n es. cache_malloc e n = Some es \<Longrightarrow> length es = n"
  shows "cur_registers c' = cur_registers c \<and> signalFrame c' = signalFrame c \<and> unwindInfoMissing c' = unwindInfoMissing c \<and>
    (ok \<longrightarrow> described (as_memory e) pc (cur_info c')) \<and> truthful (as_memory e) k'"
proof -
  let ?m = "as_memory e"
  obtain f1 f2 f3 hit f where s: "search_hint e pc sects hint = Some (Inr f1)" "search_index e pc sects f1 = Some (Inr f2)"
      "search_cache e pc sects k f2 = Some (Inr (f3, hit))" "search_all e pc sects f3 = Some (Inr f)"
    using assms(1) by (auto simp: getInfoFromDwarfSection_def and_then_Inr)
  show ?thesis
  proof (cases f)
    case None
    then show ?thesis using assms(1,2) s by (auto simp: getInfoFromDwarfSection_def)
  next
    case (Some found)
    obtain fde cie where found: "found = (fde, cie)" by (cases found)
    have "\<And>x. f1 = Some x \<Longrightarrow> found_for ?m pc x" using search_hint_found s(1) by blast
    then have "\<And>x. f2 = Some x \<Longrightarrow> found_for ?m pc x" using search_index_found s(2) by blast
    then have "\<And>x. f3 = Some x \<Longrightarrow> found_for ?m pc x" using search_cache_found s(3) by blast
    then have "found_for ?m pc found" using search_all_found s(4) Some by blast
    then obtain g i where d: "spans pc fde" "decodeFDE ?m (fdeStart fde) g i False = Some (Inr (None, fde, cie))"
      by (auto simp: found_for_def found)
    obtain ok1 c1 where g1: "getInfoFromFdeCie e 3 fde cie pc (dso_base sects) c = Some (Inr (ok1, c1))"
      using assms(1) s Some found by (auto simp: getInfoFromDwarfSection_def and_then_Inr)
    have "ok = ok1 \<and> c' = c1 \<and> (k' = k \<or> add_FDE (cache_malloc e)
        \<lparr>mh = dso_base sects, ip_start = pcStart fde, ip_end = pcEnd fde, fde_address = fdeStart fde\<rparr> k = Inr k')"
      using assms(1) s Some found g1 by (auto simp: getInfoFromDwarfSection_def and_then_Inr split: if_splits)
    moreover have "entry_at ?m (fdeStart fde) fde" using d(2) by (auto simp: entry_at_def)
    ultimately show ?thesis
      using filled_info [OF g1 d(2,1)] assms(2) added_truthful [OF assms(2) _ assms(3)] by auto
  qed
qed

lemma dynamic_info:
  assumes "info_from_dynamic e pc k c = Some (Inr (ok, c'))" "truthful (as_memory e) k"
  shows "cur_registers c' = cur_registers c \<and> signalFrame c' = signalFrame c \<and> unwindInfoMissing c' = unwindInfoMissing c \<and>
    (ok \<longrightarrow> described (as_memory e) pc (cur_info c'))"
proof (cases "cached_FDE kSearchAll pc k = 0")
  case True
  then show ?thesis using assms(1) by (simp add: info_from_dynamic_def)
next
  case False
  let ?a = "cached_FDE kSearchAll pc k" and ?g = "fst (local_structs e 4)" and ?i = "snd (local_structs e 4)"
  obtain message fde cie where d: "decodeFDE (as_memory e) ?a ?g ?i False = Some (Inr (message, fde, cie))"
    using assms(1) False by (auto simp: info_from_dynamic_def and_then_Inr)
  show ?thesis
  proof (cases "message = None")
    case True
    obtain fde' where "entry_at (as_memory e) ?a fde'" "spans pc fde'" using cached_truthful [OF assms(2) refl False] by blast
    moreover have "entry_at (as_memory e) ?a fde" using d True by (auto simp: entry_at_def)
    ultimately have "spans pc fde" using entry_unique by blast
    then show ?thesis
      using filled_info [of e 4 fde cie pc 0 c ok c'] assms(1) False d True by (auto simp: info_from_dynamic_def Let_def)
  next
    case other: False
    then show ?thesis using assms(1) False d by (auto simp: info_from_dynamic_def)
  qed
qed

lemma other_info: "info_from_other e pc c = Some (Inr (False, c))"
  by (simp add: info_from_other_def findOtherFDE_def)

lemma set_info_describes:
  assumes "setInfoBasedOnIPRegister ops e ret (c, k) = Some (Inr (c', k'))" "truthful (as_memory e) (fdes k)"
    and "\<And>n es. cache_malloc e n = Some es \<Longrightarrow> length es = n"
  shows "cur_registers c' = cur_registers c \<and> signalFrame c' = signalFrame c \<and> truthful (as_memory e) (fdes k') \<and>
    (unwindInfoMissing c \<longrightarrow> unwindInfoMissing c') \<and>
    (unwindInfoMissing c' \<or>
      (\<exists>pc. reg_get ops (cur_registers c) UNW_REG_IP = Inr pc \<and> pc \<noteq> 0 \<and>
        described (as_memory e) (lookup_pc ret (signalFrame c) pc) (cur_info c')))"
proof -
  obtain ip where ip: "reg_get ops (cur_registers c) UNW_REG_IP = Inr ip"
    using assms(1) by (auto simp: setInfoBasedOnIPRegister_def Let_def and_then_Inr)
  show ?thesis
  proof (cases "ip = 0")
    case True
    then show ?thesis using assms(1,2) ip by (auto simp: setInfoBasedOnIPRegister_def Let_def)
  next
    case False
    let ?pc = "lookup_pc ret (signalFrame c) ip"
    obtain found sects hs where f: "findUnwindSections (header_cache_used e) (as_memory e) (loaded_objects e) ?pc
        (local_sections e, headers k) = Some (Inr (found, sects, hs))"
      using assms(1) False ip by (auto simp: setInfoBasedOnIPRegister_def Let_def and_then_Inr)
    obtain ok c1 fs where s: "(if found \<and> dwarf_section sects \<noteq> 0 then getInfoFromDwarfSection e ?pc sects 0 (c, fdes k)
        else Some (Inr (False, c, fdes k))) = Some (Inr (ok, c1, fs))"
      using assms(1) False ip f by (auto simp: setInfoBasedOnIPRegister_def Let_def and_then_Inr)
    have i1: "cur_registers c1 = cur_registers c \<and> signalFrame c1 = signalFrame c \<and> unwindInfoMissing c1 = unwindInfoMissing c \<and>
        (ok \<longrightarrow> described (as_memory e) ?pc (cur_info c1)) \<and> truthful (as_memory e) fs"
    proof (cases "found \<and> dwarf_section sects \<noteq> 0")
      case True
      then show ?thesis using section_info [of e ?pc sects 0 c "fdes k" ok c1 fs] s assms(2,3) by simp
    qed (use s assms(2) in auto)
    show ?thesis
    proof (cases ok)
      case True
      then show ?thesis using assms(1) False ip f s i1 by (auto simp: setInfoBasedOnIPRegister_def Let_def)
    next
      case no: False
      obtain ok2 c2 where d: "info_from_dynamic e ?pc fs c1 = Some (Inr (ok2, c2))"
        using assms(1) False ip f s no by (auto simp: setInfoBasedOnIPRegister_def Let_def and_then_Inr)
      have i2: "cur_registers c2 = cur_registers c1 \<and> signalFrame c2 = signalFrame c1 \<and> unwindInfoMissing c2 = unwindInfoMissing c1 \<and>
          (ok2 \<longrightarrow> described (as_memory e) ?pc (cur_info c2))"
        using dynamic_info [OF d] i1 by simp
      show ?thesis
        using assms(1) False ip f s no d i1 i2 by (cases ok2) (auto simp: setInfoBasedOnIPRegister_def Let_def other_info)
    qed
  qed
qed

end
