(* ===== verification/DwarfApi.thy ===== *)
theory DwarfApi
  imports CursorInfo
begin

text \<open>
  The functions of \<^verbatim>\<open>libunwind/src/libunwind.cpp\<close> over the cursor of \<open>DwarfCursor\<close>: creating a cursor, reading and
  writing its registers, the step, the description of its frame, and the registration of entries made at run time.  A value
  returned through a pointer is \<open>None\<close> when the call does not write it.  The results of the trace macros, the
  resume (assembly) and the name of a function (\<open>dladdr\<close>) are not modelled.
\<close>

section \<open>The cursor\<close>

definition UNW_ESUCCESS :: int where "UNW_ESUCCESS = 0"
definition UNW_EUNSPEC :: int where "UNW_EUNSPEC = - 6540"
definition UNW_ENOMEM :: int where "UNW_ENOMEM = - 6541"
definition UNW_EREADONLYREG :: int where "UNW_EREADONLYREG = - 6543"
definition UNW_ESTOPUNWIND :: int where "UNW_ESTOPUNWIND = - 6544"
definition UNW_EINVALIDIP :: int where "UNW_EINVALIDIP = - 6545"
definition UNW_EINVAL :: int where "UNW_EINVAL = - 6547"
definition UNW_EBADVERSION :: int where "UNW_EBADVERSION = - 6548"
definition UNW_ENOINFO :: int where "UNW_ENOINFO = - 6549"

definition unw_init_local ::
    "'r register_ops \<Rightarrow> surroundings \<Rightarrow> 'r \<Rightarrow> caches \<Rightarrow> (int \<times> 'r cursor \<times> caches) fallible option" where
  "unw_init_local ops e context k =
     and_then (setInfoBasedOnIPRegister ops e False (new_cursor context, k)) (\<lambda>(c, k). Some (Inr (UNW_ESUCCESS, c, k)))"

definition unw_get_reg :: "'r register_ops \<Rightarrow> 'r cursor \<Rightarrow> int \<Rightarrow> (int \<times> 64 word option) fallible" where
  "unw_get_reg ops c regNum =
     (if reg_valid ops regNum then
        bind_ok (reg_get ops (cur_registers c) regNum) (\<lambda>v. Inr (UNW_ESUCCESS, Some v))
      else Inr (UNW_EBADREG, None))"

text \<open>A new instruction pointer, after the adjustment of the stack the call expects; then the description is looked up again.\<close>

definition set_ip_register ::
    "'r register_ops \<Rightarrow> surroundings \<Rightarrow> 64 word \<Rightarrow> 'r cursor \<times> caches \<Rightarrow> ('r cursor \<times> caches) fallible option" where
  "set_ip_register ops e v given =
     (let (c, k) = given; info = getInfo c in
      and_then (Some (reg_get ops (cur_registers c) UNW_REG_SP)) (\<lambda>sp.
      and_then
        (Some (if pi_gp info \<noteq> 0 then reg_set ops UNW_REG_SP (sp + pi_gp info) (cur_registers c) else Inr (cur_registers c)))
        (\<lambda>r.
      and_then (Some (reg_set ops UNW_REG_IP v r)) (\<lambda>r.
      setInfoBasedOnIPRegister ops e False (c\<lparr>cur_registers := r\<rparr>, k)))))"

definition unw_set_reg ::
    "'r register_ops \<Rightarrow> surroundings \<Rightarrow> int \<Rightarrow> 64 word \<Rightarrow> 'r cursor \<times> caches \<Rightarrow> (int \<times> 'r cursor \<times> caches) fallible option" where
  "unw_set_reg ops e regNum v given =
     (let (c, k) = given in
      if reg_valid ops regNum then
        if regNum = UNW_REG_IP then
          and_then (set_ip_register ops e v (c, k)) (\<lambda>(c, k). Some (Inr (UNW_ESUCCESS, c, k)))
        else
          and_then (Some (reg_set ops regNum v (cur_registers c))) (\<lambda>r.
          Some (Inr (UNW_ESUCCESS, c\<lparr>cur_registers := r\<rparr>, k)))
      else Some (Inr (UNW_EBADREG, c, k)))"

definition unw_get_fpreg :: "'r register_ops \<Rightarrow> 'r cursor \<Rightarrow> int \<Rightarrow> (int \<times> 64 word option) fallible" where
  "unw_get_fpreg ops c regNum =
     (if float_valid ops regNum then
        bind_ok (float_get ops (cur_registers c) regNum) (\<lambda>v. Inr (UNW_ESUCCESS, Some v))
      else Inr (UNW_EBADREG, None))"

definition unw_set_fpreg :: "'r register_ops \<Rightarrow> int \<Rightarrow> 64 word \<Rightarrow> 'r cursor \<Rightarrow> (int \<times> 'r cursor) fallible" where
  "unw_set_fpreg ops regNum v c =
     (if float_valid ops regNum then
        bind_ok (float_set ops regNum v (cur_registers c)) (\<lambda>r. Inr (UNW_ESUCCESS, c\<lparr>cur_registers := r\<rparr>))
      else Inr (UNW_EBADREG, c))"

definition unw_step ::
    "'r register_ops \<Rightarrow> surroundings \<Rightarrow> 'r cursor \<times> caches \<Rightarrow> (int \<times> 'r cursor \<times> caches) fallible option" where
  "unw_step ops e given = cursor_step ops e given"

definition unw_get_proc_info :: "'r cursor \<Rightarrow> int \<times> unw_proc_info" where
  "unw_get_proc_info c =
     (let info = getInfo c in (if pi_end_ip info = 0 then UNW_ENOINFO else UNW_ESUCCESS, info))"

definition unw_is_fpreg :: "'r register_ops \<Rightarrow> int \<Rightarrow> bool" where
  "unw_is_fpreg ops regNum = float_valid ops regNum"

definition unw_is_signal_frame :: "'r cursor \<Rightarrow> bool" where
  "unw_is_signal_frame c = signalFrame c"

definition unw_strerror :: "int \<Rightarrow> string" where
  "unw_strerror error_code =
     (if error_code = UNW_ESUCCESS then ''no error''
      else if error_code = UNW_EUNSPEC then ''unspecified (general) error''
      else if error_code = UNW_ENOMEM then ''out of memory''
      else if error_code = UNW_EBADREG then ''bad register number''
      else if error_code = UNW_EREADONLYREG then ''attempt to write read-only register''
      else if error_code = UNW_ESTOPUNWIND then ''stop unwinding''
      else if error_code = UNW_EINVALIDIP then ''invalid IP''
      else if error_code = UNW_EBADFRAME then ''bad frame''
      else if error_code = UNW_EINVAL then ''unsupported operation or bad value''
      else if error_code = UNW_EBADVERSION then ''unwind info has unsupported version''
      else if error_code = UNW_ENOINFO then ''no unwind info found''
      else ''invalid error code'')"

section \<open>Entries made at run time\<close>

definition iterate_cache_entries :: "(uptr \<Rightarrow> uptr \<Rightarrow> uptr \<Rightarrow> uptr \<Rightarrow> 's \<Rightarrow> 's) \<Rightarrow> fde_cache \<Rightarrow> 's \<Rightarrow> 's" where
  "iterate_cache_entries f k s =
     fold (\<lambda>p s. f (ip_start p) (ip_end p) (fde_address p) (mh p) s) (take (bufferUsed k) (buffer k)) s"

definition unw_add_dynamic_fde :: "surroundings \<Rightarrow> uptr \<Rightarrow> fde_cache \<Rightarrow> fde_cache fallible option" where
  "unw_add_dynamic_fde e fde k =
     and_then (decodeFDE (as_memory e) fde (fst (local_structs e 7)) (snd (local_structs e 7)) False) (\<lambda>(message, f, cie).
     if message = None then
       Some (add_FDE (cache_malloc e) \<lparr>mh = fdeStart f, ip_start = pcStart f, ip_end = pcEnd f, fde_address = fdeStart f\<rparr> k)
     else Some (Inr k))"

definition unw_remove_dynamic_fde :: "uptr \<Rightarrow> fde_cache \<Rightarrow> fde_cache" where
  "unw_remove_dynamic_fde fde k = removeAllIn fde k"

text \<open>The loop over a whole section: an entry that is not a frame description is read as a common entry.\<close>

partial_function (option) add_section_loop ::
    "surroundings \<Rightarrow> uptr \<Rightarrow> uptr \<Rightarrow> fde_info \<times> cie_info \<Rightarrow> fde_cache \<Rightarrow> fde_cache fallible option" where
  "add_section_loop e mh_group p structs k =
     (if get32 (as_memory e) p \<noteq> 0 then
        (case decodeFDE (as_memory e) p (fst structs) (snd structs) True of
           None \<Rightarrow> None
         | Some r \<Rightarrow>
             (case r of
                Inl f \<Rightarrow> Some (Inl f)
              | Inr d \<Rightarrow>
                  if fst d = None then
                    (let fde = fst (snd d) in
                     case add_FDE (cache_malloc e)
                         \<lparr>mh = mh_group, ip_start = pcStart fde, ip_end = pcEnd fde, fde_address = fdeStart fde\<rparr> k of
                       Inl f \<Rightarrow> Some (Inl f)
                     | Inr k \<Rightarrow> add_section_loop e mh_group (p + fdeLength fde) (snd d) k)
                  else
                    (case parseCIE (as_memory e) p (snd (snd d)) of
                       None \<Rightarrow> None
                     | Some r \<Rightarrow>
                         (case r of
                            Inl f \<Rightarrow> Some (Inl f)
                          | Inr q \<Rightarrow>
                              if fst q = None then
                                add_section_loop e mh_group (p + cieLength (snd q)) (fst (snd d), snd q) k
                              else Some (Inr k)))))
      else Some (Inr k))"

declare add_section_loop.simps [code]

definition unw_add_dynamic_eh_frame_section :: "surroundings \<Rightarrow> uptr \<Rightarrow> fde_cache \<Rightarrow> fde_cache fallible option" where
  "unw_add_dynamic_eh_frame_section e eh_frame_start k =
     add_section_loop e eh_frame_start eh_frame_start (local_structs e 7) k"

definition unw_remove_dynamic_eh_frame_section :: "uptr \<Rightarrow> fde_cache \<Rightarrow> fde_cache" where
  "unw_remove_dynamic_eh_frame_section eh_frame_start k = removeAllIn eh_frame_start k"

end
