(* ===== verification/DwarfUnwind.thy ===== *)
theory DwarfUnwind
  imports DwarfApi
begin

text \<open>
  The properties of the cursor as its clients use it, through \<open>DwarfApi\<close>: the step leads to the caller and to the
  description of the caller's function, every sequence of calls keeps descriptions and caches true to the memory, registers
  read what was written, and an entry registered at run time is found.
\<close>

section \<open>The step\<close>

definition well_allocated :: "surroundings \<Rightarrow> bool" where
  "well_allocated e \<longleftrightarrow> (\<forall>n es. cache_malloc e n = Some es \<longrightarrow> length es = n)"

lemma step_keeps_on_failure:
  assumes "stepWithDwarf m ops kmax alloc junk pc start r signal = Some (Inr (result, r', signal'))" "result \<noteq> UNW_STEP_SUCCESS"
  shows "r' = r \<and> signal' = signal \<and> (result = UNW_EBADFRAME \<or> result = UNW_EBADREG)"
proof -
  obtain err fde cie where d: "decodeFDE m start (fst junk) (snd junk) False = Some (Inr (err, fde, cie))"
    using assms(1) by (auto simp: stepWithDwarf_def and_then_Inr)
  show ?thesis
  proof (cases "err = None")
    case True
    obtain parsed where p: "parseFDEInstructions m fde cie kmax alloc pc (zero_prolog kmax) = Some (Inr parsed)"
      using assms(1) d True by (auto simp: stepWithDwarf_def and_then_Inr)
    show ?thesis
    proof (cases parsed)
      case (Some prolog)
      obtain cfa restored where "getCFA m prolog ops r = Some (Inr cfa)" "\<not> lastDwarfRegNum ops < unat (returnAddressRegister cie)"
          "restore_registers m ops r cfa cie prolog [0..<Suc (lastDwarfRegNum ops)] (sp_set ops cfa r, 0) = Some (Inr restored)"
        using assms(1) d True p Some by (auto simp: stepWithDwarf_def and_then_Inr simp del: upt.simps split: if_splits)
      then show ?thesis using assms d True p Some by (cases restored) (auto simp: stepWithDwarf_def)
    qed (use assms(1) d p True in \<open>auto simp: stepWithDwarf_def\<close>)
  qed (use assms(1) d in \<open>auto simp: stepWithDwarf_def\<close>)
qed

lemma cursor_step_cases:
  assumes "cursor_step ops e (c, k) = Some (Inr (result, c', k'))"
  obtains (top) "unwindInfoMissing c" "result = UNW_STEP_END" "c' = c" "k' = k"
  | (stepped) pc r signal where "\<not> unwindInfoMissing c" "reg_get ops (cur_registers c) UNW_REG_IP = Inr pc"
      "stepWithDwarf (as_memory e) ops (register_limit e) (remember_alloc e 6) (local_structs e 6) pc
        (pi_unwind_info (cur_info c)) (cur_registers c) (signalFrame c) = Some (Inr (UNW_STEP_SUCCESS, r, signal))"
      "setInfoBasedOnIPRegister ops e True (c\<lparr>cur_registers := r, signalFrame := signal\<rparr>, k) = Some (Inr (c', k'))"
      "result = (if unwindInfoMissing c' then UNW_STEP_END else UNW_STEP_SUCCESS)"
  | (failed) "\<not> unwindInfoMissing c" "result = UNW_EBADFRAME \<or> result = UNW_EBADREG" "c' = c" "k' = k"
proof (cases "unwindInfoMissing c")
  case True
  then have "result = UNW_STEP_END \<and> c' = c \<and> k' = k" using assms by (auto simp: cursor_step_def)
  then show thesis using top True by blast
next
  case False
  obtain pc where pc: "reg_get ops (cur_registers c) UNW_REG_IP = Inr pc"
    using assms False by (cases "reg_get ops (cur_registers c) UNW_REG_IP") (auto simp: cursor_step_def stepWithDwarfFDE_def)
  let ?step = "stepWithDwarf (as_memory e) ops (register_limit e) (remember_alloc e 6) (local_structs e 6) pc
        (pi_unwind_info (cur_info c)) (cur_registers c) (signalFrame c)"
  obtain result1 r signal where s: "?step = Some (Inr (result1, r, signal))"
  proof (cases ?step)
    case None
    then show ?thesis using assms False pc by (simp add: cursor_step_def stepWithDwarfFDE_def)
  next
    case (Some x)
    then show ?thesis using assms False pc that
      by (cases x) (auto simp: cursor_step_def stepWithDwarfFDE_def)
  qed
  let ?c = "c\<lparr>cur_registers := r, signalFrame := signal\<rparr>"
  have "stepWithDwarfFDE ops e c = Some (Inr (result1, ?c))" using pc s by (simp add: stepWithDwarfFDE_def)
  then have run: "(if result1 = UNW_STEP_SUCCESS then
      and_then (setInfoBasedOnIPRegister ops e True (?c, k))
        (\<lambda>(c, k). if unwindInfoMissing c then Some (Inr (UNW_STEP_END, c, k)) else Some (Inr (result1, c, k)))
      else Some (Inr (result1, ?c, k))) = Some (Inr (result, c', k'))"
    using assms False by (simp add: cursor_step_def)
  show thesis
  proof (cases "result1 = UNW_STEP_SUCCESS")
    case True
    then have "setInfoBasedOnIPRegister ops e True (?c, k) = Some (Inr (c', k'))"
        "result = (if unwindInfoMissing c' then UNW_STEP_END else UNW_STEP_SUCCESS)"
      using run by (auto simp: and_then_Inr split: if_splits)
    then show thesis using stepped False pc s True by blast
  next
    case no: False
    then have "result = result1 \<and> c' = ?c \<and> k' = k" using run by auto
    then show thesis using step_keeps_on_failure [OF s no] failed False by simp
  qed
qed

text \<open>C2: a step of the cursor on x86-64.  When it succeeds, the registers are those of the caller, as the entry that described
  the frame determines them, and the new description is of an entry that decodes and covers the return address, backed
  up by one unless the caller was interrupted by a signal; the caches stay truthful.  The step ends the walk
  exactly when the frame or its caller has no description, and a malformed frame leaves the cursor where it was.\<close>
theorem unw_step_reaches_caller:
  assumes "unw_step (x86_64_ops windows) e (c, k) = Some (Inr (result, c', k'))"
    and "truthful (as_memory e) (fdes k)" "well_allocated e"
  shows "truthful (as_memory e) (fdes k') \<and>
    (result = UNW_STEP_SUCCESS \<and> \<not> unwindInfoMissing c' \<and> rip (cur_registers c') \<noteq> 0 \<and>
       described (as_memory e) (lookup_pc True (signalFrame c') (rip (cur_registers c'))) (cur_info c') \<and>
       (\<exists>cie prolog cfa. signalFrame c' = isSignalFrame cie \<and>
         frame_found (as_memory e) (x86_64_ops windows) (register_limit e) (remember_alloc e 6) (local_structs e 6)
           (rip (cur_registers c)) (pi_unwind_info (cur_info c)) (cur_registers c) cie prolog cfa \<and>
         is_caller (as_memory e) (x86_64_ops windows) x86_64_slot (cur_registers c) cfa cie prolog (cur_registers c')) \<or>
     result = UNW_STEP_END \<and> unwindInfoMissing c' \<or>
     (result = UNW_EBADFRAME \<or> result = UNW_EBADREG) \<and> c' = c \<and> k' = k)"
  using assms(1) unfolding unw_step_def
proof (cases rule: cursor_step_cases)
  case (stepped pc r signal)
  let ?c = "c\<lparr>cur_registers := r, signalFrame := signal\<rparr>"
  note info = set_info_describes [OF stepped(4) assms(2) assms(3) [unfolded well_allocated_def, rule_format]]
  note caller = x86_64.step_is_caller [OF stepped(3)]
  have "pc = rip (cur_registers c)" "reg_get (x86_64_ops windows) r UNW_REG_IP = Inr (rip r)"
    using stepped(2) by (simp_all add: x86_64_ops_def x86_64_getRegister_def)
  then show ?thesis using info caller stepped(5) by (auto split: if_splits)
qed (use assms(2) in auto)

text \<open>The sample function, called by itself: the return address is one of its own.\<close>

definition recursion_memory :: address_space where
  "recursion_memory a =
     (if 0x7F00 \<le> a \<and> a < 0x7F10 then [0x40, 0x7F, 0, 0, 0, 0, 0, 0, 0x15, 0x20, 0, 0, 0, 0, 0, 0] ! unat (a - 0x7F00)
      else sample_memory a)"

definition sample_surroundings :: "phdr_info list \<Rightarrow> surroundings" where
  "sample_surroundings objects =
     \<lparr>as_memory = recursion_memory, loaded_objects = objects, header_cache_used = True, register_limit = 32,
      dwarf_format = UNWIND_X86_64_MODE_DWARF, remember_alloc = (\<lambda>_ _. True), cache_malloc = (\<lambda>_. None),
      local_structs = (\<lambda>_. (zero_fde, zero_cie)), local_sections = blank_sections\<rparr>"

definition no_caches :: caches where
  "no_caches = \<lparr>headers = initial_cache, fdes = \<lparr>buffer = replicate 64 (sample_entry 0), bufferUsed = 0\<rparr>\<rparr>"

definition sample_cursor :: "registers_x86_64 cursor" where
  "sample_cursor = (new_cursor frame_registers)\<lparr>cur_info := zero_info\<lparr>pi_unwind_info := fdeStart sample_fde\<rparr>\<rparr>"

lemma no_caches_truthful: "truthful m (fdes no_caches)"
  by (simp add: truthful_def fde_cache_ok_def entries_of_def no_caches_def)

lemma sample_allocated: "well_allocated (sample_surroundings objects)"
  by (simp add: well_allocated_def sample_surroundings_def)

lemma sample_stepped:
  "map_option (map_sum id (\<lambda>(r, c, k). (r, rip (cur_registers c), rbp (cur_registers c), signalFrame c)))
     (unw_step (x86_64_ops False) (sample_surroundings [sample_object 1]) (sample_cursor, no_caches)) =
   Some (Inr (UNW_STEP_SUCCESS, 0x2015, 0x7F40, False))"
  by code_simp

theorem unw_step_reaches_caller_witness:
  "\<exists>c k. unw_step (x86_64_ops False) (sample_surroundings [sample_object 1]) (sample_cursor, no_caches) =
      Some (Inr (UNW_STEP_SUCCESS, c, k)) \<and>
    rip (cur_registers c) = 0x2015 \<and> rbp (cur_registers c) = 0x7F40 \<and> described recursion_memory 0x2014 (cur_info c)"
proof -
  let ?step = "unw_step (x86_64_ops False) (sample_surroundings [sample_object 1]) (sample_cursor, no_caches)"
  obtain x where x: "?step = Some x" "map_sum id (\<lambda>(r, c, k). (r, rip (cur_registers c), rbp (cur_registers c), signalFrame c)) x =
      Inr (UNW_STEP_SUCCESS, 0x2015, 0x7F40, False)"
    using sample_stepped by auto
  then obtain c k where s: "?step = Some (Inr (UNW_STEP_SUCCESS, c, k))" "rip (cur_registers c) = 0x2015" "rbp (cur_registers c) = 0x7F40"
      "\<not> signalFrame c"
    by (cases x) auto
  have "lookup_pc True (signalFrame c) (rip (cur_registers c)) = 0x2014" using s by (simp add: lookup_pc_def)
  then have "described recursion_memory 0x2014 (cur_info c)"
    using unw_step_reaches_caller [OF s(1) no_caches_truthful sample_allocated]
    by (auto simp: UNW_STEP_SUCCESS_def UNW_STEP_END_def UNW_EBADFRAME_def UNW_EBADREG_def sample_surroundings_def)
  then show ?thesis using s by blast
qed

section \<open>Every sequence of calls\<close>

text \<open>A section whose first entry is a common entry.\<close>

definition starts_with_cie :: "address_space \<Rightarrow> uptr \<Rightarrow> bool" where
  "starts_with_cie m a \<longleftrightarrow> (let (len, p) = entry_length m a in len = 0 \<or> get32 m p = 0)"

text \<open>The address that an instruction pointer stands for: behind a step it is a return address, one byte behind the call,
  unless the frame was interrupted by a signal; one that the program gave is taken as it is, and in a frame interrupted by
  a signal the code takes the byte behind it.\<close>

lemma map_sum_Inr: "map_sum f g x = Inr y \<longleftrightarrow> (\<exists>z. x = Inr z \<and> y = g z)"
  by (cases x) auto

definition ip_of :: "'r register_ops \<Rightarrow> 'r cursor \<Rightarrow> uptr" where
  "ip_of ops c = (case reg_get ops (cur_registers c) UNW_REG_IP of Inl _ \<Rightarrow> 0 | Inr ip \<Rightarrow> ip)"

definition stepped_to :: "'r register_ops \<Rightarrow> 'r cursor \<Rightarrow> uptr" where
  "stepped_to ops c = (if signalFrame c then ip_of ops c else ip_of ops c - 1)"

definition placed_at :: "'r register_ops \<Rightarrow> 'r cursor \<Rightarrow> uptr" where
  "placed_at ops c = (if signalFrame c then ip_of ops c + 1 else ip_of ops c)"

text \<open>The calls of a program on one cursor, in memory \<open>m\<close>; the first component is the address of the frame, which a call
  that creates or moves the cursor, or that writes its instruction pointer, sets from the registers it leaves.  A section that is
  registered starts with a common entry.\<close>

inductive api_call :: "'r register_ops \<Rightarrow> address_space \<Rightarrow> uptr \<times> 'r cursor \<times> caches \<Rightarrow> uptr \<times> 'r cursor \<times> caches \<Rightarrow> bool"
  for ops :: "'r register_ops" and m :: address_space where
  Init: "as_memory e = m \<Longrightarrow> well_allocated e \<Longrightarrow> unw_init_local ops e context k = Some (Inr (result, c', k')) \<Longrightarrow>
    api_call ops m (a, c, k) (placed_at ops c', c', k')"
| Step: "as_memory e = m \<Longrightarrow> well_allocated e \<Longrightarrow> unw_step ops e (c, k) = Some (Inr (result, c', k')) \<Longrightarrow>
    api_call ops m (a, c, k) (if result = UNW_STEP_SUCCESS then stepped_to ops c' else a, c', k')"
| Set_reg: "as_memory e = m \<Longrightarrow> well_allocated e \<Longrightarrow> unw_set_reg ops e regNum v (c, k) = Some (Inr (result, c', k')) \<Longrightarrow>
    api_call ops m (a, c, k) (if regNum = UNW_REG_IP \<and> result = UNW_ESUCCESS then placed_at ops c' else a, c', k')"
| Set_fpreg: "unw_set_fpreg ops regNum v c = Inr (result, c') \<Longrightarrow> api_call ops m (a, c, k) (a, c', k)"
| Add_fde: "as_memory e = m \<Longrightarrow> well_allocated e \<Longrightarrow> unw_add_dynamic_fde e fde (fdes k) = Some (Inr fds) \<Longrightarrow>
    api_call ops m (a, c, k) (a, c, k\<lparr>fdes := fds\<rparr>)"
| Remove_fde: "api_call ops m (a, c, k) (a, c, k\<lparr>fdes := unw_remove_dynamic_fde fde (fdes k)\<rparr>)"
| Add_section: "as_memory e = m \<Longrightarrow> well_allocated e \<Longrightarrow> starts_with_cie m start \<Longrightarrow>
    unw_add_dynamic_eh_frame_section e start (fdes k) = Some (Inr fds) \<Longrightarrow> api_call ops m (a, c, k) (a, c, k\<lparr>fdes := fds\<rparr>)"
| Remove_section: "api_call ops m (a, c, k) (a, c, k\<lparr>fdes := unw_remove_dynamic_eh_frame_section start (fdes k)\<rparr>)"

definition sound_cursor :: "address_space \<Rightarrow> uptr \<times> 'r cursor \<times> caches \<Rightarrow> bool" where
  "sound_cursor m s \<longleftrightarrow> (let (a, c, k) = s in truthful m (fdes k) \<and> (unwindInfoMissing c \<or> described m a (cur_info c)))"

lemma sound_truthful: "sound_cursor m (a, c, k) \<Longrightarrow> truthful m (fdes k)"
  by (simp add: sound_cursor_def)

lemma set_info_sound:
  assumes "setInfoBasedOnIPRegister ops e ret (c, k) = Some (Inr (c', k'))" "truthful (as_memory e) (fdes k)" "well_allocated e"
  shows "sound_cursor (as_memory e) (if ret then stepped_to ops c' else placed_at ops c', c', k')"
proof -
  note d = set_info_describes [OF assms(1,2) assms(3) [unfolded well_allocated_def, rule_format]]
  then show ?thesis
    by (cases ret) (auto simp: sound_cursor_def stepped_to_def placed_at_def ip_of_def lookup_pc_def split: if_splits)
qed

lemma section_loop_truthful:
  assumes "add_section_loop e mh_group p structs k = Some r" "r = Inr k'" "truthful (as_memory e) k" "well_allocated e"
    and "starts_with_cie (as_memory e) p \<or> (\<exists>i. parseCIE (as_memory e) (cieStart (snd structs)) i = Some (Inr (None, snd structs)))"
  shows "truthful (as_memory e) k'"
  using assms
proof (induction arbitrary: rule: add_section_loop.raw_induct [rotated 1, consumes 1])
  case (1 loop e mh_group p structs k r)
  let ?m = "as_memory e" and ?parsed = "\<lambda>cie. \<exists>i. parseCIE (as_memory e) (cieStart cie) i = Some (Inr (None, cie))"
  show ?case
  proof (cases "get32 ?m p = 0")
    case True
    then show ?thesis using 1(2-4) by simp
  next
    case False
    obtain message fde cie where d: "decodeFDE ?m p (fst structs) (snd structs) True = Some (Inr (message, fde, cie))"
      using 1(2,3) False by (auto split: option.splits sum.splits)
    note d_def = decodeFDE_def
    obtain len q where e: "entry_length ?m p = (len, q)" by (cases "entry_length ?m p")
    show ?thesis
    proof (cases "message = None")
      case True
      have "cie = snd structs" "cieStart cie = q - ucast (get32 ?m q)" "\<not> starts_with_cie ?m p"
        using d True by (auto simp: d_def e Let_def and_then_Inr starts_with_cie_def split: if_splits)
      moreover then have "?parsed cie" using 1(6) by simp
      ultimately obtain i where i: "parseCIE ?m (q - ucast (get32 ?m q)) i = Some (Inr (None, cie))" by auto
      have "decodeFDE ?m p (fst structs) i False = Some (Inr (None, fde, cie))"
        using d i True by (auto simp: d_def e Let_def and_then_Inr split: if_splits)
      then have entry: "entry_at ?m p fde" "fdeStart fde = p" by (auto simp: entry_at_def dest: decodeFDE_start)
      obtain k1 where k1: "add_FDE (cache_malloc e)
          \<lparr>mh = mh_group, ip_start = pcStart fde, ip_end = pcEnd fde, fde_address = fdeStart fde\<rparr> k = Inr k1"
          "loop e mh_group (p + fdeLength fde) (fde, cie) k1 = Some r"
        using 1(2,3) False d True by (auto simp: Let_def split: sum.splits)
      have "truthful ?m k1"
        using added_truthful [OF 1(4) k1(1)] 1(5) entry by (auto simp: well_allocated_def)
      then show ?thesis using 1(1) [OF k1(2) 1(3) _ 1(5)] \<open>?parsed cie\<close> by simp
    next
      case no: False
      obtain err cie' where c: "parseCIE ?m p cie = Some (Inr (err, cie'))"
        using 1(2,3) False d no by (auto split: option.splits sum.splits)
      show ?thesis
      proof (cases "err = None")
        case True
        then have "loop e mh_group (p + cieLength cie') (fde, cie') k = Some r" using 1(2) False d no c by simp
        moreover have "?parsed cie'" using c True parseCIE_start [OF c] by auto
        ultimately show ?thesis using 1(1) [OF _ 1(3,4,5)] by simp
      qed (use 1(2-4) False d no c in auto)
    qed
  qed
qed


lemma set_reg_sound:
  assumes "unw_set_reg ops e regNum v (c, k) = Some (Inr (result, c', k'))" "sound_cursor (as_memory e) (a, c, k)" "well_allocated e"
  shows "sound_cursor (as_memory e) (if regNum = UNW_REG_IP \<and> result = UNW_ESUCCESS then placed_at ops c' else a, c', k')"
proof (cases "reg_valid ops regNum \<and> regNum = UNW_REG_IP")
  case True
  have set: "set_ip_register ops e v (c, k) = Some (Inr (c', k'))" "result = UNW_ESUCCESS"
    using assms(1) True by (auto simp: unw_set_reg_def and_then_Inr Let_def)
  then obtain r where "setInfoBasedOnIPRegister ops e False (c\<lparr>cur_registers := r\<rparr>, k) = Some (Inr (c', k'))"
    by (auto simp: set_ip_register_def and_then_Inr Let_def)
  then show ?thesis using set_info_sound [of ops e False] sound_truthful [OF assms(2)] assms(3) True set(2) by simp
next
  case False
  then show ?thesis using assms(1,2)
    by (auto simp: unw_set_reg_def and_then_Inr sound_cursor_def Let_def UNW_EBADREG_def UNW_ESUCCESS_def split: if_splits)
qed

lemma step_sound:
  assumes "unw_step ops e (c, k) = Some (Inr (result, c', k'))" "sound_cursor (as_memory e) (a, c, k)" "well_allocated e"
  shows "sound_cursor (as_memory e) (if result = UNW_STEP_SUCCESS then stepped_to ops c' else a, c', k')"
  using assms(1) unfolding unw_step_def
proof (cases rule: cursor_step_cases)
  case (stepped pc r signal)
  then show ?thesis using set_info_sound [OF stepped(4)] assms(2,3) by (auto simp: sound_cursor_def)
qed (use assms(2) in \<open>auto simp: sound_cursor_def UNW_STEP_SUCCESS_def UNW_STEP_END_def UNW_EBADFRAME_def UNW_EBADREG_def\<close>)

lemma init_sound:
  assumes "unw_init_local ops e regs k = Some (Inr (result, c, k'))" "truthful (as_memory e) (fdes k)" "well_allocated e"
  shows "sound_cursor (as_memory e) (placed_at ops c, c, k')"
proof -
  have "setInfoBasedOnIPRegister ops e False (new_cursor regs, k) = Some (Inr (c, k'))"
    using assms(1) by (auto simp: unw_init_local_def and_then_Inr)
  then show ?thesis using set_info_sound [of ops e False] assms(2,3) by simp
qed

lemma api_call_sound: "api_call ops m s s' \<Longrightarrow> sound_cursor m s \<Longrightarrow> sound_cursor m s'"
proof (induction rule: api_call.induct)
  case (Init e regs k result c' k' a c)
  show ?case using init_sound [OF Init(3) _ Init(2)] sound_truthful [OF Init(4)] Init(1) by simp
next
  case (Step e c k result c' k' a)
  then show ?case using step_sound by blast
next
  case (Set_reg e regNum v c k result c' k' a)
  then show ?case using set_reg_sound by blast
next
  case (Set_fpreg regNum v c result c' a k)
  then show ?case by (auto simp: unw_set_fpreg_def bind_ok_Inr sound_cursor_def split: if_splits)
next
  case (Add_fde e fde k fds a c)
  then obtain message f cie where d: "decodeFDE m fde (fst (local_structs e 7)) (snd (local_structs e 7)) False = Some (Inr (message, f, cie))"
    by (auto simp: unw_add_dynamic_fde_def and_then_Inr)
  have "truthful m fds"
  proof (cases "message = None")
    case True
    then have "entry_at m (fdeStart f) f" using d decodeFDE_start by (auto simp: entry_at_def)
    then show ?thesis
      using Add_fde d True added_truthful [of m "fdes k" "cache_malloc e" _ fds f]
      by (auto simp: unw_add_dynamic_fde_def well_allocated_def sound_cursor_def)
  qed (use Add_fde d in \<open>auto simp: unw_add_dynamic_fde_def sound_cursor_def\<close>)
  then show ?case using Add_fde by (simp add: sound_cursor_def)
next
  case (Remove_fde a c k fde)
  then show ?case by (simp add: sound_cursor_def unw_remove_dynamic_fde_def removed_truthful)
next
  case (Add_section e start k fds a c)
  then have "truthful m fds"
    using section_loop_truthful [OF _ refl, of e start start "local_structs e 7" "fdes k" fds]
    by (auto simp: unw_add_dynamic_eh_frame_section_def sound_cursor_def)
  then show ?case using Add_section by (simp add: sound_cursor_def)
next
  case (Remove_section a c k start)
  then show ?case by (simp add: sound_cursor_def unw_remove_dynamic_eh_frame_section_def removed_truthful)
qed

lemma api_calls_sound: "(api_call ops m)\<^sup>*\<^sup>* s s' \<Longrightarrow> sound_cursor m s \<Longrightarrow> sound_cursor m s'"
  by (induction rule: rtranclp_induct) (auto intro: api_call_sound)

text \<open>C3: whatever a program calls, a cursor never lies about its frame.  From truthful caches, after a cursor is created and any
  sequence of steps, writes of registers, registrations and removals of entries (a registered section starts with a common
  entry), the description that \<open>__unw_get_proc_info\<close> returns with success is that of an entry which decodes at the address it
  names and covers the address \<open>a\<close> of the frame, with the personality and the data of that entry; and the caches are still
  truthful.  The address of the frame is the instruction pointer that the last successful step left, less one unless a signal
  interrupted the frame, or the one given to the cursor since, plus one if a signal interrupted the frame.\<close>
theorem cursors_described:
  assumes "unw_init_local ops e context k = Some (Inr (result, c0, k0))" "truthful (as_memory e) (fdes k)" "well_allocated e"
    and "(api_call ops (as_memory e))\<^sup>*\<^sup>* (placed_at ops c0, c0, k0) (a, c, k')" "unw_get_proc_info c = (UNW_ESUCCESS, info)"
  shows "described (as_memory e) a info \<and> truthful (as_memory e) (fdes k')"
proof -
  have "sound_cursor (as_memory e) (a, c, k')"
    using api_calls_sound [OF assms(4)] init_sound [OF assms(1-3)] by blast
  moreover have "\<not> unwindInfoMissing c" "info = cur_info c"
    using assms(5) by (auto simp: unw_get_proc_info_def getInfo_def zero_info_def UNW_ENOINFO_def UNW_ESUCCESS_def Let_def split: if_splits)
  ultimately show ?thesis by (simp add: sound_cursor_def)
qed

text \<open>A cursor in the sample function, and the same after a step: the address of the frame is \<open>0x2010\<close>, then one less than the
  return address \<open>0x2015\<close>.\<close>

lemma sample_walk:
  "map_option (map_sum id (\<lambda>(r, c, k). (r, placed_at (x86_64_ops False) c,
      map_option (map_sum id (\<lambda>(r, c, k). (r, stepped_to (x86_64_ops False) c, fst (unw_get_proc_info c))))
        (unw_step (x86_64_ops False) (sample_surroundings [sample_object 1]) (c, k)))))
     (unw_init_local (x86_64_ops False) (sample_surroundings [sample_object 1]) frame_registers no_caches) =
   Some (Inr (UNW_ESUCCESS, 0x2010, Some (Inr (UNW_STEP_SUCCESS, 0x2014, UNW_ESUCCESS))))"
  by code_simp

theorem cursors_described_witness:
  "\<exists>c0 k0 c k. unw_init_local (x86_64_ops False) (sample_surroundings [sample_object 1]) frame_registers no_caches =
      Some (Inr (UNW_ESUCCESS, c0, k0)) \<and>
    unw_step (x86_64_ops False) (sample_surroundings [sample_object 1]) (c0, k0) = Some (Inr (UNW_STEP_SUCCESS, c, k)) \<and>
    described recursion_memory 0x2014 (snd (unw_get_proc_info c))"
proof -
  let ?e = "sample_surroundings [sample_object 1]" and ?ops = "x86_64_ops False"
  obtain c0 k0 where i: "unw_init_local ?ops ?e frame_registers no_caches = Some (Inr (UNW_ESUCCESS, c0, k0))"
    and w: "map_option (map_sum id (\<lambda>(r, c, k). (r, stepped_to ?ops c, fst (unw_get_proc_info c)))) (unw_step ?ops ?e (c0, k0)) =
      Some (Inr (UNW_STEP_SUCCESS, 0x2014, UNW_ESUCCESS))"
    using sample_walk by (auto simp: map_sum_Inr eq_commute [of "Some (Inr _)"])
  obtain c k where s: "unw_step ?ops ?e (c0, k0) = Some (Inr (UNW_STEP_SUCCESS, c, k))" "stepped_to ?ops c = 0x2014"
      "unw_get_proc_info c = (UNW_ESUCCESS, snd (unw_get_proc_info c))"
    using w by (auto simp: map_sum_Inr prod_eq_iff eq_commute [of UNW_ESUCCESS])
  have "api_call ?ops (as_memory ?e) (placed_at ?ops c0, c0, k0) (0x2014, c, k)"
    using api_call.Step [OF refl sample_allocated s(1), of "placed_at ?ops c0"] s(2) by simp
  from cursors_described [OF i no_caches_truthful sample_allocated r_into_rtranclp [where r = "api_call ?ops (as_memory ?e)", OF this] s(3)]
  show ?thesis using i s by (auto simp: sample_surroundings_def)
qed

section \<open>Registers\<close>

text \<open>The description is looked up again at a new instruction pointer only; a cursor without one stays without.\<close>

lemma set_info_registers:
  assumes "setInfoBasedOnIPRegister ops e ret (c, k) = Some (Inr (c', k'))" "truthful (as_memory e) (fdes k)" "well_allocated e"
  shows "cur_registers c' = cur_registers c" "unwindInfoMissing c \<Longrightarrow> unwindInfoMissing c'"
  using set_info_describes [OF assms(1,2)] assms(3) by (auto simp: well_allocated_def)

text \<open>The value of a register after one is set: a new instruction pointer also moves the stack pointer, by the size of
  the arguments that the call site pushed.\<close>

definition value_after_set :: "(int \<Rightarrow> nat option) \<Rightarrow> 'r register_ops \<Rightarrow> 'r cursor \<Rightarrow> int \<Rightarrow> 64 word \<Rightarrow> int \<Rightarrow> 64 word fallible" where
  "value_after_set slot ops c i v j =
     (if slot j = slot i then Inr v
      else if i = UNW_REG_IP \<and> slot j = slot UNW_REG_SP \<and> pi_gp (getInfo c) \<noteq> 0 then
        Inr (sp_get ops (cur_registers c) + pi_gp (getInfo c))
      else reg_get ops (cur_registers c) j)"

context register_file
begin

lemma set_ip_reads:
  assumes "set_ip_register ops e v (c, k) = Some (Inr (c', k'))" "truthful (as_memory e) (fdes k)" "well_allocated e" "slot j \<noteq> None"
  shows "reg_get ops (cur_registers c') j = value_after_set slot ops c UNW_REG_IP v j"
proof -
  let ?sp = "sp_get ops (cur_registers c)" and ?gp = "pi_gp (getInfo c)"
  obtain r1 r2 where r: "(if ?gp \<noteq> 0 then reg_set ops UNW_REG_SP (?sp + ?gp) (cur_registers c) else Inr (cur_registers c)) = Inr r1"
      "reg_set ops UNW_REG_IP v r1 = Inr r2"
      "setInfoBasedOnIPRegister ops e False (c\<lparr>cur_registers := r2\<rparr>, k) = Some (Inr (c', k'))"
    using assms(1) by (auto simp: set_ip_register_def and_then_Inr Let_def get_sp)
  have "cur_registers c' = r2" using set_info_registers(1) [OF r(3) assms(2,3)] by simp
  moreover have "reg_get ops r2 j = (if slot UNW_REG_IP = slot j then Inr v else reg_get ops r1 j)"
    using set_get [OF r(2)] pointers by auto
  moreover have "reg_get ops r1 j =
      (if slot UNW_REG_SP = slot j \<and> ?gp \<noteq> 0 then Inr (?sp + ?gp) else reg_get ops (cur_registers c) j)"
  proof (cases "?gp = 0")
    case True
    then show ?thesis using r(1) by simp
  next
    case False
    then have "reg_set ops UNW_REG_SP (?sp + ?gp) (cur_registers c) = Inr r1" using r(1) by simp
    then show ?thesis using set_get pointers False by auto
  qed
  ultimately show ?thesis by (auto simp: value_after_set_def)
qed

end

text \<open>C24: the registers of a cursor on x86-64, through the interface.  A number that is not of the file is refused, and nothing
  changes.  Otherwise the call succeeds and every register reads, by any number of its cell, the value written, the value
  it had, or for the stack pointer after a new instruction pointer, the value adjusted by the arguments of the call site.\<close>
theorem registers_read_back:
  assumes "unw_set_reg (x86_64_ops windows) e i v (c, k) = Some (Inr (result, c', k'))" "truthful (as_memory e) (fdes k)"
    and "well_allocated e"
  shows "if x86_64_validRegister i
    then result = UNW_ESUCCESS \<and> (\<forall>j. x86_64_validRegister j \<longrightarrow>
      (\<exists>w. value_after_set x86_64_slot (x86_64_ops windows) c i v j = Inr w \<and>
         unw_get_reg (x86_64_ops windows) c' j = Inr (UNW_ESUCCESS, Some w)))
    else result = UNW_EBADREG \<and> c' = c \<and> k' = k"
proof (cases "x86_64_validRegister i")
  case False
  then show ?thesis using assms(1) by (auto simp: unw_set_reg_def x86_64_ops_def)
next
  case True
  let ?ops = "x86_64_ops windows"
  have reads: "reg_get ?ops (cur_registers c') j = value_after_set x86_64_slot ?ops c i v j \<and> result = UNW_ESUCCESS"
    if "x86_64_slot j \<noteq> None" for j
  proof (cases "i = UNW_REG_IP")
    case ip: True
    then have "set_ip_register ?ops e v (c, k) = Some (Inr (c', k'))" "result = UNW_ESUCCESS"
      using assms(1) True by (auto simp: unw_set_reg_def and_then_Inr x86_64_ops_def)
    then show ?thesis using x86_64.set_ip_reads assms(2,3) that ip by blast
  next
    case other: False
    then have "reg_set ?ops i v (cur_registers c) = Inr (cur_registers c')" "result = UNW_ESUCCESS"
      using assms(1) True by (auto simp: unw_set_reg_def and_then_Inr x86_64_ops_def)
    then show ?thesis using x86_64.set_get other that by (fastforce simp: value_after_set_def)
  qed
  have valid: "x86_64_slot j \<noteq> None \<and> reg_valid ?ops j" if "x86_64_validRegister j" for j
    using that by (auto simp: x86_64_validRegister_def x86_64_slot_def x86_64_ops_def split: if_splits)
  have "\<exists>w. value_after_set x86_64_slot ?ops c i v j = Inr w \<and> unw_get_reg ?ops c' j = Inr (UNW_ESUCCESS, Some w)"
    if "x86_64_validRegister j" for j
  proof -
    have j: "x86_64_slot j \<noteq> None" "reg_valid ?ops j" using valid [OF that] by simp_all
    then obtain w where "reg_get ?ops (cur_registers c') j = Inr w" by (auto simp: x86_64_ops_def x86_64_get_cell)
    then show ?thesis using reads [OF j(1)] j(2) by (simp add: unw_get_reg_def)
  qed
  moreover have "result = UNW_ESUCCESS" using reads valid [OF True] by blast
  ultimately show ?thesis using True by simp
qed

text \<open>The sample cursor, moved to the start of its function.\<close>

lemma sample_set:
  "map_option (map_sum id (\<lambda>(r, c, k). (r, rip (cur_registers c), rsp (cur_registers c))))
     (unw_set_reg (x86_64_ops False) (sample_surroundings [sample_object 1]) UNW_REG_IP 0x2000
       (sample_cursor\<lparr>cur_info := zero_info\<lparr>pi_gp := 16\<rparr>\<rparr>, no_caches)) =
   Some (Inr (UNW_ESUCCESS, 0x2000, 0x7E90))"
  by code_simp

theorem registers_read_back_witness:
  "\<exists>c k. unw_set_reg (x86_64_ops False) (sample_surroundings [sample_object 1]) UNW_REG_IP 0x2000
      (sample_cursor\<lparr>cur_info := zero_info\<lparr>pi_gp := 16\<rparr>\<rparr>, no_caches) = Some (Inr (UNW_ESUCCESS, c, k)) \<and>
    unw_get_reg (x86_64_ops False) c UNW_REG_SP = Inr (UNW_ESUCCESS, Some 0x7E90) \<and>
    unw_get_reg (x86_64_ops False) c 16 = Inr (UNW_ESUCCESS, Some 0x2000) \<and>
    unw_get_reg (x86_64_ops False) c 3 = Inr (UNW_ESUCCESS, Some 2)"
proof -
  let ?c = "sample_cursor\<lparr>cur_info := zero_info\<lparr>pi_gp := 16\<rparr>\<rparr>" and ?ops = "x86_64_ops False"
  let ?set = "unw_set_reg ?ops (sample_surroundings [sample_object 1]) UNW_REG_IP 0x2000 (?c, no_caches)"
  obtain x where "?set = Some x" "map_sum id (\<lambda>(r, c, k). (r, rip (cur_registers c), rsp (cur_registers c))) x = Inr (UNW_ESUCCESS, 0x2000, 0x7E90)"
    using sample_set by auto
  then obtain c k where s: "?set = Some (Inr (UNW_ESUCCESS, c, k))" by (cases x) auto
  have valid: "x86_64_validRegister UNW_REG_IP" "x86_64_validRegister UNW_REG_SP" "x86_64_validRegister 16" "x86_64_validRegister 3"
    by code_simp+
  have reads: "value_after_set x86_64_slot ?ops ?c UNW_REG_IP 0x2000 UNW_REG_SP = Inr 0x7E90"
    "value_after_set x86_64_slot ?ops ?c UNW_REG_IP 0x2000 16 = Inr 0x2000"
    "value_after_set x86_64_slot ?ops ?c UNW_REG_IP 0x2000 3 = Inr 2"
    by code_simp+
  have "\<exists>w. value_after_set x86_64_slot ?ops ?c UNW_REG_IP 0x2000 j = Inr w \<and> unw_get_reg ?ops c j = Inr (UNW_ESUCCESS, Some w)"
    if "x86_64_validRegister j" for j
    using registers_read_back [OF s no_caches_truthful sample_allocated] valid(1) that by simp
  from this [OF valid(2)] this [OF valid(3)] this [OF valid(4)] show ?thesis using s reads by auto
qed

section \<open>Entries registered at run time\<close>

lemma found_served:
  "find (serves dso pc) es = None \<Longrightarrow> serves dso pc x \<Longrightarrow> find (serves dso pc) (es @ [x]) = Some x"
  by (induction es) (auto split: if_splits)

lemma add_FDE_allocated:
  assumes "well_allocated e" "fde_cache_ok k"
  shows "case add_FDE (cache_malloc e) x k of
       Inl f \<Rightarrow> f = Null_access \<and> bufferUsed k = length (buffer k) \<and> cache_malloc e (length (buffer k) * 4) = None
     | Inr k' \<Rightarrow> entries_of k' = entries_of k @ [x] \<and> fde_cache_ok k'"
  using assms by (intro add_FDE_refines) (auto simp: well_allocated_def)

lemma rebuilt: "\<lparr>headers = headers k, fdes = x\<rparr> = k\<lparr>fdes := x\<rparr>"
  by simp

lemma no_sections:
  "findUnwindSections use_cache m [] a (sects, hs) = Some (Inr (False, sects, hs))"
  by (simp add: findUnwindSections_def)

text \<open>C23: an entry registered at run time is found where there are no static tables, until it is removed.  When the entry of a
  function decodes, its registration succeeds or writes to the null that \<open>malloc\<close> returned; then a cursor in the function, which no
  earlier entry covers, is described by running the instructions of that entry; and its removal leaves the entries
  registered before.\<close>
theorem registered_entry_found:
  assumes "decodeFDE (as_memory e) fde (fst (local_structs e 7)) (snd (local_structs e 7)) False = Some (Inr (None, f, cie))"
    and "fde_cache_ok (fdes k)" "well_allocated e" "fde \<noteq> 0" "loaded_objects e = []"
    and "reg_get ops (cur_registers c) UNW_REG_IP = Inr ip" "ip \<noteq> 0" "spans pc f" "pc = lookup_pc ret (signalFrame c) ip"
    and "find (serves kSearchAll pc) (entries_of (fdes k)) = None" "list_all (\<lambda>x. mh x \<noteq> fde) (entries_of (fdes k))"
  shows "case unw_add_dynamic_fde e fde (fdes k) of
      Some (Inr fds) \<Rightarrow>
        (\<exists>cie'. decodeFDE (as_memory e) fde (fst (local_structs e 4)) (snd (local_structs e 4)) False = Some (Inr (None, f, cie')) \<and>
          setInfoBasedOnIPRegister ops e ret (c, k\<lparr>fdes := fds\<rparr>) =
            and_then (getInfoFromFdeCie e 4 f cie' pc 0 c)
              (\<lambda>(ok, c). if ok then Some (Inr (c, k\<lparr>fdes := fds\<rparr>)) else Some (Inr (c\<lparr>unwindInfoMissing := True\<rparr>, k\<lparr>fdes := fds\<rparr>)))) \<and>
        entries_of (unw_remove_dynamic_fde fde fds) = entries_of (fdes k)
    | r \<Rightarrow> r = Some (Inl Null_access) \<and> bufferUsed (fdes k) = length (buffer (fdes k)) \<and>
        cache_malloc e (length (buffer (fdes k)) * 4) = None"
proof -
  let ?x = "\<lparr>mh = fde, ip_start = pcStart f, ip_end = pcEnd f, fde_address = fde\<rparr>"
  have start: "fdeStart f = fde" using decodeFDE_start [OF assms(1)] .
  have add: "unw_add_dynamic_fde e fde (fdes k) = Some (add_FDE (cache_malloc e) ?x (fdes k))"
    using assms(1) start by (simp add: unw_add_dynamic_fde_def)
  note refines = add_FDE_allocated [OF assms(3,2), of ?x]
  show ?thesis
  proof (cases "add_FDE (cache_malloc e) ?x (fdes k)")
    case (Inl a)
    then show ?thesis using add refines by simp
  next
    case (Inr fds)
    then have es: "entries_of fds = entries_of (fdes k) @ [?x]" "fde_cache_ok fds" using refines by simp_all
    have "serves kSearchAll pc ?x" using assms(8) by (simp add: serves_def spans_def)
    then have hit: "cached_FDE kSearchAll pc fds = fde"
      using found_served [OF assms(10)] es(1) by (simp add: cached_FDE_def find_entry_eq entries_of_def)
    obtain cie' where d: "decodeFDE (as_memory e) fde (fst (local_structs e 4)) (snd (local_structs e 4)) False = Some (Inr (None, f, cie'))"
      using decodeFDE_same [OF assms(1)] by blast
    have "info_from_dynamic e pc fds c = getInfoFromFdeCie e 4 f cie' pc 0 c"
      using hit assms(4) d by (simp add: info_from_dynamic_def)
    then have info: "setInfoBasedOnIPRegister ops e ret (c, k\<lparr>fdes := fds\<rparr>) =
        and_then (getInfoFromFdeCie e 4 f cie' pc 0 c)
          (\<lambda>(ok, c). if ok then Some (Inr (c, k\<lparr>fdes := fds\<rparr>)) else Some (Inr (c\<lparr>unwindInfoMissing := True\<rparr>, k\<lparr>fdes := fds\<rparr>)))"
      using assms(5-7,9)
      by (simp add: setInfoBasedOnIPRegister_def no_sections other_info rebuilt Let_def cong: if_cong)
    have "filter (\<lambda>x. mh x \<noteq> fde) (entries_of (fdes k)) = entries_of (fdes k)" using assms(11) by (simp add: list_all_iff)
    then have "entries_of (unw_remove_dynamic_fde fde fds) = entries_of (fdes k)"
      using removeAllIn_refines [OF es(2)] es(1) by (simp add: unw_remove_dynamic_fde_def)
    then show ?thesis using add Inr d info by auto
  qed
qed

lemma sample_registered:
  "decodeFDE recursion_memory 0x1018 zero_fde zero_cie False = Some (Inr (None, sample_fde, sample_cie))"
  "map_option (map_sum id (\<lambda>(ok, c). (ok, pi_start_ip (cur_info c))))
     (getInfoFromFdeCie (sample_surroundings []) 4 sample_fde sample_cie 0x2010 0 (new_cursor frame_registers)) =
   Some (Inr (True, 0x2000))"
  by code_simp+

theorem registered_entry_found_witness:
  "\<exists>fds c k. unw_add_dynamic_fde (sample_surroundings []) 0x1018 (fdes no_caches) = Some (Inr fds) \<and>
    setInfoBasedOnIPRegister (x86_64_ops False) (sample_surroundings []) False (new_cursor frame_registers, no_caches\<lparr>fdes := fds\<rparr>) =
      Some (Inr (c, k)) \<and> pi_start_ip (cur_info c) = 0x2000 \<and> entries_of (unw_remove_dynamic_fde 0x1018 fds) = []"
proof -
  let ?e = "sample_surroundings []" and ?c = "new_cursor frame_registers"
  have e: "as_memory ?e = recursion_memory" "local_structs ?e n = (zero_fde, zero_cie)" "loaded_objects ?e = []" for n
    by (simp_all add: sample_surroundings_def)
  have d: "decodeFDE (as_memory ?e) 0x1018 (fst (local_structs ?e 7)) (snd (local_structs ?e 7)) False = Some (Inr (None, sample_fde, sample_cie))"
    using sample_registered(1) by (simp add: e)
  have empty: "entries_of (fdes no_caches) = []" "bufferUsed (fdes no_caches) = 0" "length (buffer (fdes no_caches)) = 64"
      "fde_cache_ok (fdes no_caches)"
    by (simp_all add: no_caches_def entries_of_def fde_cache_ok_def)
  have at: "reg_get (x86_64_ops False) (cur_registers ?c) UNW_REG_IP = Inr 0x2010" "spans 0x2010 sample_fde"
      "0x2010 = lookup_pc False (signalFrame ?c) 0x2010"
    by code_simp+
  have found: "find (serves kSearchAll 0x2010) (entries_of (fdes no_caches)) = None" "list_all (\<lambda>x. mh x \<noteq> 0x1018) (entries_of (fdes no_caches))"
    by (simp_all add: empty)
  note r = registered_entry_found [OF d empty(4) sample_allocated _ e(3) at(1) _ at(2,3) found, simplified empty]
  obtain y where y: "unw_add_dynamic_fde ?e 0x1018 (fdes no_caches) = Some (Inr y)" and
    z: "\<exists>cie'. decodeFDE (as_memory ?e) 0x1018 (fst (local_structs ?e 4)) (snd (local_structs ?e 4)) False = Some (Inr (None, sample_fde, cie')) \<and>
        setInfoBasedOnIPRegister (x86_64_ops False) ?e False (?c, no_caches\<lparr>fdes := y\<rparr>) =
          and_then (getInfoFromFdeCie ?e 4 sample_fde cie' 0x2010 0 ?c)
            (\<lambda>(ok, c). if ok then Some (Inr (c, no_caches\<lparr>fdes := y\<rparr>)) else Some (Inr (c\<lparr>unwindInfoMissing := True\<rparr>, no_caches\<lparr>fdes := y\<rparr>)))"
      "entries_of (unw_remove_dynamic_fde 0x1018 y) = []"
    using r by (auto split: option.splits sum.splits)
  obtain x c where x: "getInfoFromFdeCie ?e 4 sample_fde sample_cie 0x2010 0 ?c = Some (Inr (True, c))" "pi_start_ip (cur_info c) = 0x2000"
  proof -
    obtain x where "getInfoFromFdeCie ?e 4 sample_fde sample_cie 0x2010 0 ?c = Some x"
        "map_sum id (\<lambda>(ok, c). (ok, pi_start_ip (cur_info c))) x = Inr (True, 0x2000)"
      using sample_registered(2) by auto
    then show ?thesis using that by (cases x) auto
  qed
  then have "setInfoBasedOnIPRegister (x86_64_ops False) ?e False (?c, no_caches\<lparr>fdes := y\<rparr>) = Some (Inr (c, no_caches\<lparr>fdes := y\<rparr>))"
    using z(1) sample_registered(1) by (auto simp: e)
  then show ?thesis using y z(2) x(2) by blast
qed

end
