(* ===== verification/Spec2Isabelle.thy ===== *)
theory Spec2Isabelle
  imports IntShift IntPop IntDiv64 IntDiv128 AtomicLocks Sjlj UnwindWasm GccPersonality X86Init EmutlsSafety DwarfExprEnds
    DwarfRows DwarfUnwind
begin

text \<open>
  A verification library for the C runtime parts of openkal-llvm-runtime: the integer, atomic and
  processor-detection builtins of compiler-rt (\<^verbatim>\<open>src/llvm/compiler-rt/lib/builtins\<close>) and the C parts of
  the unwinder libunwind (\<^verbatim>\<open>src/llvm/libunwind\<close>).  Compiled code calls the builtins for operations its
  target lacks; a throw or a forced unwinding enters the unwinder, which walks the frames and calls the
  personality routine of each, of which compiler-rt provides the one for C.

  Parts and theories, from the bottom up:

  \<^item> \<open>Prelude\<close>: the integer types of \<^verbatim>\<open>int_types.h\<close>, a wide word and its two halves (locale \<open>word_halves\<close>,
    interpreted at 64 and 128 bits) and the word lemmas the integer theories share.
  \<^item> \<open>IntShift\<close>, \<open>IntBits\<close>, \<open>IntPerm\<close>, \<open>IntPop\<close>: two-word shifts and comparisons, zero counts, parity, byte
    order, population counts.  Each routine equals its definition on unbounded or on single words.
  \<^item> \<open>IntArith\<close>: checked and wrapping arithmetic (\<^verbatim>\<open>addvsi3.c\<close> to \<^verbatim>\<open>muloti4.c\<close>).  A trap is \<open>None\<close>; it happens
    exactly when the exact result does not fit.
  \<^item> \<open>IntDiv\<close>, \<open>IntDiv64\<close>, \<open>IntDiv128\<close>: the generic division of \<^verbatim>\<open>int_div_impl.inc\<close>, \<^verbatim>\<open>udivmoddi4.c\<close> on 32-bit
    halves, \<^verbatim>\<open>udivmodti4.c\<close> with Knuth's digit correction.  The loops return, with quotient and remainder;
    division by zero, undefined in C, is \<open>None\<close>.  This theory adds the signed divisions over the three.
  \<^item> \<open>AtomicLocks\<close>: \<^verbatim>\<open>atomic.c\<close> as byte steps of interleaved threads under hashed spin locks.  The locked
    operations refine an atomic memory, exclude each other, and can always proceed.
  \<^item> \<open>UnwindTypes\<close>, \<open>UnwindLevel1\<close>: \<^verbatim>\<open>UnwindLevel1.c\<close> and the C interface of \<^verbatim>\<open>UnwindLevel1-gcc-ext.c\<close>.  The
    cursor functions of libunwind (\<^verbatim>\<open>__unw_step\<close> and the like), the personality routines and the stop function
    are the record \<open>env\<close>, a parameter; a jump into a frame is the outcome \<open>Resumed\<close>, abort is \<open>Aborted\<close>.
  \<^item> \<open>UnwindSpec\<close>: the contract of the Itanium ABI.  A stack is a list of frames with the part each plays;
    raising, resuming and forced unwinding are refined to functions of that list.
  \<^item> \<open>Sjlj\<close>: \<^verbatim>\<open>Unwind-sjlj.c\<close>, where the stack is the linked list of registered function contexts.
  \<^item> \<open>UnwindWasm\<close>: \<^verbatim>\<open>Unwind-wasm.c\<close>.
  \<^item> \<open>GccPersonality\<close>: \<^verbatim>\<open>gcc_personality_v0.c\<close>, with its reader of the language-specific data area.  It is
    shown to be a personality the unwinder may call (the hypothesis of \<open>UnwindSpec\<close>).
  \<^item> \<open>X86Types\<close>, \<open>X86Detect\<close>, \<open>X86Features\<close>, \<open>X86Init\<close>: \<^verbatim>\<open>cpu_model/x86.c\<close>.  cpuid and xgetbv are a parameter.
    Reported features are classified by the state the code tests for them; those it reports without a test are a list.
  \<^item> \<open>EmutlsHeap\<close>, \<open>Emutls\<close>, \<open>EmutlsThreads\<close>, \<open>EmutlsSafety\<close>: \<^verbatim>\<open>emutls.c\<close>, thread-local objects kept in an array
    for each thread.  The allocator is a parameter that returns null or a fresh block; threads interleave at
    each access of shared memory.  Objects are private, stable, and freed in the last destructor round.
  \<^item> \<open>DwarfMemory\<close>, \<open>DwarfExpr\<close>, \<open>DwarfExprSpec\<close>, \<open>DwarfExprEnds\<close>: the readers of \<^verbatim>\<open>AddressSpace.hpp\<close> and the expression
    machine of \<^verbatim>\<open>DwarfInstructions.hpp\<close>.  The readers invert the encodings; the machine refines a list of
    values, within its stack of 100 cells.
  \<^item> \<open>DwarfCFI\<close>, \<open>DwarfHeader\<close>, \<open>DwarfProgram\<close>, \<open>DwarfRules\<close>: \<^verbatim>\<open>DwarfParser.hpp\<close> and \<^verbatim>\<open>EHHeaderParser.hpp\<close>, from the
    bytes of a frame section to the rules for the registers at a program counter.  What every instruction
    keeps is stated once, in the locale \<open>cfi_invariant\<close>.
  \<^item> \<open>DwarfRows\<close>: call frame instructions with an assembler and a meaning on the rows of the unwind table; the parser on
    bytes computes the row of a program counter.
  \<^item> \<open>DwarfRegs\<close>, \<open>DwarfStep\<close>, \<open>DwarfCaller\<close>: the register files of \<^verbatim>\<open>Registers.hpp\<close> for three processors, under the
    locale \<open>register_file\<close>, and \<open>stepWithDwarf\<close>, which composes all of the above: the step from a frame to its
    caller leaves what the rules determine.
  \<^item> \<open>FrameCache\<close>, \<open>FrameLookup\<close>, \<open>FdeCache\<close>: \<^verbatim>\<open>FrameHeaderCache.hpp\<close>, the search for the tables of an address among the
    loaded objects, and the cache of entries of \<^verbatim>\<open>UnwindCursor.hpp\<close>.  The linked lists and the buffer refine lists;
    the first cache changes no answer.
  \<^item> \<open>DwarfCursor\<close>, \<open>CursorInfo\<close>, \<open>DwarfApi\<close>, \<open>DwarfUnwind\<close>: the cursor of \<^verbatim>\<open>UnwindCursor.hpp\<close> and the functions of
    \<^verbatim>\<open>libunwind.cpp\<close> over it, which the theories from \<open>UnwindLevel1\<close> take as a parameter.  A step leads to the caller; whatever
    is called, a description is that of an entry which covers the address of the frame (\<open>api_call\<close>, by rule induction, which
    tracks that address).

  Conventions.  A C integer is a word of its width, whatever its sign; the operation says how it is read.  A
  loop that is not structurally recursive is \<open>partial_function (option)\<close>, so that \<open>None\<close> is not returning,
  and that it returns is proved.  Loops with a known bound (the shift-subtract division) take the number of
  iterations the code computes as a structural argument.  Memory is a function from addresses to bytes.

  Bounds and assumptions.  Targets have 64-bit pointers and two's complement integers.  Memory orders of
  the atomics are sequentially consistent.  The finite stack that the termination theorems assume is a
  measure on cursors that each step decreases.

  Not modelled: libcxx, libcxxabi and the vendored libc, in C++ and large components of their own; of libunwind the
  register files of other processors and the other formats of unwinding tables (compact encoding, EHABI, SEH, AIX);
  floating-point builtins (\<^verbatim>\<open>fp_lib.h\<close> and its users); assembly; the branches of the preprocessor for other compilers and
  systems named in the theories; and wrappers that only call into the system, as \<^verbatim>\<open>clear_cache.c\<close> and
  \<^verbatim>\<open>enable_execute_stack.c\<close> do.
\<close>

section \<open>Signed division, over the three unsigned ones\<close>

lemma divsi3_signed: "b \<noteq> 0 \<Longrightarrow> divsi3 a b = Some (word_of_int (sint a sdiv sint b))"
  unfolding divsi3_def by (rule native.divXi3_signed)

text \<open>C40: Signed division truncates towards zero at 32, 64 and 128 bits, the remainder has the sign
  of the dividend, and the combined routines return both; all of them for every nonzero divisor.  Arithmetic
  wraps around, also where \<open>__modsi3\<close> multiplies signed operands.\<close>

theorem signed_division_correct:
  assumes "b \<noteq> 0" "d \<noteq> 0" "f \<noteq> 0"
  shows "divmodsi4 a b = Some (word_of_int (sint a sdiv sint b), word_of_int (sint a smod sint b))
   \<and> divsi3 a b = Some (word_of_int (sint a sdiv sint b)) \<and> modsi3 a b = Some (word_of_int (sint a smod sint b))
   \<and> divmoddi4 c d = Some (word_of_int (sint c sdiv sint d), word_of_int (sint c smod sint d))
   \<and> divdi3 c d = Some (word_of_int (sint c sdiv sint d)) \<and> moddi3 c d = Some (word_of_int (sint c smod sint d))
   \<and> divmodti4 e f = Some (word_of_int (sint e sdiv sint f), word_of_int (sint e smod sint f))
   \<and> divti3 e f = Some (word_of_int (sint e sdiv sint f)) \<and> modti3 e f = Some (word_of_int (sint e smod sint f))"
  unfolding divmodsi4_def divmoddi4_def divmodti4_def divdi3_def divti3_def moddi3_def modti3_def
  using si.divmodXi4_signed [OF assms(1), of a] divsi3_signed [OF assms(1), of a] modsi3_signed [OF assms(1), of a]
    di.divmodXi4_signed [OF assms(2), of c] di.divXi3_signed [OF assms(2), of c] di.modXi3_signed [OF assms(2), of c]
    ti.divmodXi4_signed [OF assms(3), of e] ti.divXi3_signed [OF assms(3), of e] ti.modXi3_signed [OF assms(3), of e]
  by blast

theorem signed_division_correct_witness:
  "divsi3 (-7) 2 = Some (-3) \<and> modsi3 (-7) 2 = Some (-1) \<and> divmoddi4 7 (-2) = Some (-3, 1)
   \<and> modti3 (-9) (-4) = Some (-1)"
  using signed_division_correct [of 2 "-2" "-4" "-7" 7 "-9"]
  by (simp add: signed_divide_int_def signed_modulo_int_def)

end
